(* ===== verification/Prelude.thy ===== *)
theory Prelude
  imports Main "HOL-Library.Word" "HOL-Library.Multiset" "HOL-Library.While_Combinator"
    "HOL-Library.Monad_Syntax"
begin

text \<open>
  Shared vocabulary of the development: C strings and characters, C integer arithmetic,
  pointers, process exits and the generic list lemmas the components use.

  \<^item> A C string (\<^verbatim>\<open>const char *\<close>) is the list of the characters from the pointer on, without the
    terminator; \<open>peek\<close> is \<^verbatim>\<open>*str\<close> and reads the terminating NUL at the end of the list, so that
    a NUL inside the list ends the string as it does in C. Pointer increments drop characters.
  \<^item> \<^verbatim>\<open>int\<close> values are HOL integers, with the 32-bit wrap-around written out (\<open>wrap32\<close>) where the
    code can leave the range; \<^verbatim>\<open>zbx_uint64_t\<close> values are naturals or \<open>64 word\<close>s.
  \<^item> \<^verbatim>\<open>SUCCEED\<close> with an output parameter is \<open>Some\<close>, \<^verbatim>\<open>FAIL\<close> is \<open>None\<close>; a predicate
    returning only \<^verbatim>\<open>SUCCEED\<close>/\<^verbatim>\<open>FAIL\<close> is a \<open>bool\<close>. A call of \<^verbatim>\<open>exit(EXIT_FAILURE)\<close> and an
    out-of-bounds access are \<open>Inl\<close> of a \<open>c_fault\<close>.
\<close>

section \<open>Fact collections\<close>

named_theorems cstring_simps \<open>evaluation of C string primitives\<close>
named_theorems inv_intros \<open>preservation of component invariants\<close>

section \<open>Pointers and exits\<close>

type_synonym ptr = nat

abbreviation (input) NULL :: ptr where
  "NULL \<equiv> 0"

text \<open>
  What ends or breaks a run of the C program: a call of \<^verbatim>\<open>exit(EXIT_FAILURE)\<close> after a log
  message, or an access outside the object a pointer points into.
\<close>

datatype c_fault = EXIT_FAILURE string | OOB_READ | OOB_WRITE

section \<open>Characters and strings\<close>

abbreviation NUL :: char where
  "NUL \<equiv> CHR 0x00"

fun peek :: "string \<Rightarrow> char" where
  "peek [] = NUL"
| "peek (c # _) = c"

definition peek_at :: "string \<Rightarrow> nat \<Rightarrow> char" where
  "peek_at s i = peek (drop i s)"

definition isdigit :: "char \<Rightarrow> bool" where
  "isdigit c \<longleftrightarrow> 48 \<le> (of_char c :: nat) \<and> (of_char c :: nat) \<le> 57"

definition isxdigit :: "char \<Rightarrow> bool" where
  "isxdigit c \<longleftrightarrow> isdigit c \<or> (65 \<le> (of_char c :: nat) \<and> (of_char c :: nat) \<le> 70)
     \<or> (97 \<le> (of_char c :: nat) \<and> (of_char c :: nat) \<le> 102)"

definition digit_val :: "char \<Rightarrow> nat" where
  "digit_val c = of_char c - 48"

text \<open>\<^verbatim>\<open>strchr\<close>: the suffix that starts at the first occurrence of the character, if any.\<close>

fun strchr :: "string \<Rightarrow> char \<Rightarrow> string option" where
  "strchr [] c = None"
| "strchr (x # xs) c = (if x = c then Some (x # xs) else if x = NUL then None else strchr xs c)"

lemma not_isdigit_NUL [simp]: "\<not> isdigit NUL"
  by (simp add: isdigit_def)

lemma isdigit_char_simps [simp]:
  "\<not> isdigit CHR ''-''" "\<not> isdigit CHR ''/''" "\<not> isdigit CHR '',''" "\<not> isdigit CHR '':''"
  "\<not> isdigit CHR '';''" "\<not> isdigit CHR ''.''"
  by (simp_all add: isdigit_def)

lemma digit_val_le_9: "isdigit c \<Longrightarrow> digit_val c \<le> 9"
  by (auto simp: isdigit_def digit_val_def)

lemma peek_drop_eq_nth: "i < length s \<Longrightarrow> peek (drop i s) = s ! i"
  by (metis Cons_nth_drop_Suc peek.simps(2))

lemma peek_neq_NUL_Cons: "peek s \<noteq> NUL \<Longrightarrow> \<exists>c cs. s = c # cs \<and> c \<noteq> NUL"
  by (cases s) auto

lemma strchr_length: "strchr s c = Some t \<Longrightarrow> length t \<le> length s"
  by (induction s) (auto split: if_splits)

lemma strchr_nonempty: "strchr s c = Some t \<Longrightarrow> \<exists>u. t = c # u"
  by (induction s) (auto split: if_splits)

lemma strchr_suffix: "strchr s c = Some t \<Longrightarrow> \<exists>p. s = p @ t \<and> c \<notin> set p"
proof (induction s)
  case (Cons x xs)
  show ?case
  proof (cases "x = c")
    case True
    with Cons.prems show ?thesis by (intro exI [of _ "[]"]) simp
  next
    case False
    with Cons.prems have "strchr xs c = Some t" by (simp split: if_splits)
    then obtain p where "xs = p @ t \<and> c \<notin> set p" using Cons.IH by blast
    with False show ?thesis by (intro exI [of _ "x # p"]) auto
  qed
qed simp

section \<open>Decimal and hexadecimal numerals\<close>

text \<open>
  The value of a digit string, and what \<^verbatim>\<open>printf\<close> prints for \<^verbatim>\<open>%u\<close> and \<^verbatim>\<open>%x\<close>.
\<close>

definition dec_value :: "string \<Rightarrow> nat" where
  "dec_value s = foldl (\<lambda>v c. v * 10 + digit_val c) 0 s"

definition xdigit_val :: "char \<Rightarrow> nat" where
  "xdigit_val c = (if isdigit c then of_char c - 48
     else if 97 \<le> (of_char c :: nat) \<and> (of_char c :: nat) \<le> 102 then 10 + (of_char c - 97)
     else 10 + (of_char c - 65))"

definition hex_value :: "string \<Rightarrow> nat" where
  "hex_value s = foldl (\<lambda>v c. v * 16 + xdigit_val c) 0 s"

definition dec_digit :: "nat \<Rightarrow> char" where
  "dec_digit d = char_of (48 + d)"

definition hex_digit :: "nat \<Rightarrow> char" where
  "hex_digit d = (if d < 10 then char_of (48 + d) else char_of (87 + d))"

fun dec_string :: "nat \<Rightarrow> string" where
  "dec_string n = (if n < 10 then [dec_digit n] else dec_string (n div 10) @ [dec_digit (n mod 10)])"

fun hex_string :: "nat \<Rightarrow> string" where
  "hex_string n = (if n < 16 then [hex_digit n] else hex_string (n div 16) @ [hex_digit (n mod 16)])"

declare dec_string.simps [simp del] hex_string.simps [simp del]

lemma of_char_char_of_lt: "k < 256 \<Longrightarrow> (of_char (char_of k :: char) :: nat) = k"
  by simp

lemma dec_digit_props: "d < 10 \<Longrightarrow> isdigit (dec_digit d) \<and> digit_val (dec_digit d) = d"
  by (simp add: dec_digit_def isdigit_def digit_val_def)

lemma hex_digit_props: "d < 16 \<Longrightarrow> isxdigit (hex_digit d) \<and> xdigit_val (hex_digit d) = d"
  by (simp add: hex_digit_def isxdigit_def isdigit_def xdigit_val_def)

lemma dec_string_digits: "list_all isdigit (dec_string n)"
proof (induction n rule: dec_string.induct)
  case (1 n)
  then show ?case by (subst dec_string.simps) (auto simp: dec_digit_props)
qed

lemma hex_string_digits: "list_all isxdigit (hex_string n)"
proof (induction n rule: hex_string.induct)
  case (1 n)
  then show ?case by (subst hex_string.simps) (auto simp: hex_digit_props)
qed

lemma dec_string_nonempty [simp]: "dec_string n \<noteq> []"
  by (subst dec_string.simps) simp

lemma hex_string_nonempty [simp]: "hex_string n \<noteq> []"
  by (subst hex_string.simps) simp

lemma dec_value_snoc [simp]: "dec_value (s @ [c]) = dec_value s * 10 + digit_val c"
  by (simp add: dec_value_def)

lemma hex_value_snoc [simp]: "hex_value (s @ [c]) = hex_value s * 16 + xdigit_val c"
  by (simp add: hex_value_def)

lemma dec_value_dec_string [simp]: "dec_value (dec_string n) = n"
proof (induction n rule: dec_string.induct)
  case (1 n)
  then show ?case
    by (subst dec_string.simps) (auto simp: dec_digit_props dec_value_def)
qed

lemma hex_value_hex_string [simp]: "hex_value (hex_string n) = n"
proof (induction n rule: hex_string.induct)
  case (1 n)
  then show ?case
    by (subst hex_string.simps) (auto simp: hex_digit_props hex_value_def)
qed

lemma isdigit_not_NUL: "isdigit c \<Longrightarrow> c \<noteq> NUL"
  by auto

lemma isxdigit_not_NUL: "isxdigit c \<Longrightarrow> c \<noteq> NUL"
  by (auto simp: isxdigit_def)

lemma foldl_dec_mono: "(v :: nat) \<le> foldl (\<lambda>v c. v * 10 + digit_val c) v s"
proof (induction s arbitrary: v)
  case (Cons c s)
  have "v \<le> v * 10 + digit_val c" by simp
  also have "\<dots> \<le> foldl (\<lambda>v c. v * 10 + digit_val c) (v * 10 + digit_val c) s" by (rule Cons.IH)
  finally show ?case by simp
qed simp

lemma foldl_hex_mono: "(v :: nat) \<le> foldl (\<lambda>v c. v * 16 + xdigit_val c) v s"
proof (induction s arbitrary: v)
  case (Cons c s)
  have "v \<le> v * 16 + xdigit_val c" by simp
  also have "\<dots> \<le> foldl (\<lambda>v c. v * 16 + xdigit_val c) (v * 16 + xdigit_val c) s" by (rule Cons.IH)
  finally show ?case by simp
qed simp

section \<open>C integer arithmetic\<close>

text \<open>Truncating division and remainder, as C defines them.\<close>

definition cdiv :: "int \<Rightarrow> int \<Rightarrow> int" where
  "cdiv a b = sgn a * sgn b * (\<bar>a\<bar> div \<bar>b\<bar>)"

definition cmod :: "int \<Rightarrow> int \<Rightarrow> int" where
  "cmod a b = a - cdiv a b * b"

lemma cdiv_nonneg: "0 \<le> a \<Longrightarrow> 0 < b \<Longrightarrow> cdiv a b = a div b"
  by (cases "a = 0") (simp_all add: cdiv_def)

lemma cmod_nonneg: "0 \<le> a \<Longrightarrow> 0 < b \<Longrightarrow> cmod a b = a mod b"
  by (simp add: cmod_def cdiv_nonneg minus_div_mult_eq_mod)

lemma int_div_less_iff:
  assumes "0 < (f :: int)"
  shows "m div f < w \<longleftrightarrow> m < w * f"
proof
  have m: "m = m div f * f + m mod f" by simp
  have r: "0 \<le> m mod f" "m mod f < f" using assms by simp_all
  assume "m div f < w"
  then have "m div f * f + f \<le> w * f"
    using mult_right_mono [of "m div f + 1" w f] assms by (simp add: distrib_right)
  with m r show "m < w * f" by linarith
next
  have r: "0 \<le> m mod f" using assms by simp
  assume l: "m < w * f"
  show "m div f < w"
  proof (rule ccontr)
    assume "\<not> m div f < w"
    then have "w * f \<le> m div f * f" using assms by (simp add: mult_right_mono)
    also have "m div f * f = m - m mod f" by (rule minus_mod_eq_div_mult [symmetric])
    also have "\<dots> \<le> m" using r by simp
    finally show False using l by simp
  qed
qed

text \<open>The value of a 32-bit two's complement \<^verbatim>\<open>int\<close> that holds the low bits of \<open>x\<close>.\<close>

definition wrap32 :: "int \<Rightarrow> int" where
  "wrap32 x = (x + 2 ^ 31) mod 2 ^ 32 - 2 ^ 31"

lemma wrap32_id: "- (2 ^ 31) \<le> x \<Longrightarrow> x < 2 ^ 31 \<Longrightarrow> wrap32 x = x"
  by (simp add: wrap32_def)

lemma wrap32_bounds: "- (2 ^ 31) \<le> wrap32 x \<and> wrap32 x < 2 ^ 31"
  by (simp add: wrap32_def)

abbreviation (input) max_uint64 :: nat where
  "max_uint64 \<equiv> 18446744073709551615"

abbreviation (input) INT_MAX :: int where
  "INT_MAX \<equiv> 2147483647"

abbreviation (input) SEC_PER_MIN :: int where "SEC_PER_MIN \<equiv> 60"
abbreviation (input) SEC_PER_HOUR :: int where "SEC_PER_HOUR \<equiv> 3600"
abbreviation (input) SEC_PER_DAY :: int where "SEC_PER_DAY \<equiv> 86400"
abbreviation (input) SEC_PER_WEEK :: int where "SEC_PER_WEEK \<equiv> 604800"
abbreviation (input) SEC_PER_YEAR :: int where "SEC_PER_YEAR \<equiv> 31536000"
abbreviation (input) ZBX_JAN_2038 :: int where "ZBX_JAN_2038 \<equiv> 2145916800"
abbreviation (input) ZBX_LENGTH_UNLIMITED :: int where "ZBX_LENGTH_UNLIMITED \<equiv> 2147483647"
abbreviation (input) ZBX_SIZE_T_MAX :: nat where "ZBX_SIZE_T_MAX \<equiv> 18446744073709551615"

end
