(* ===== verification/ZbxNum.thy ===== *)
theory ZbxNum
  imports Prelude
begin

text \<open>
  The number recognisers of \<^verbatim>\<open>src/libs/zbxnum/num.c\<close> and \<^verbatim>\<open>suffix2factor\<close> of
  \<^verbatim>\<open>src/libs/zbxcommon/misc.c\<close>. An output pointer \<^verbatim>\<open>value\<close> is the flag \<open>value\<close> (not NULL) and the
  \<open>Some\<close> result is what is stored through it; the stored number keeps the low \<open>size\<close> bytes of the
  64-bit value, as the \<^verbatim>\<open>memcpy\<close> does. The recognisers are proved equal to the arithmetic value of the
  digit string (\<open>dec_value\<close>, \<open>hex_value\<close>).
\<close>

section \<open>Unsigned decimal integers\<close>

fun uint_digits :: "string \<Rightarrow> nat \<Rightarrow> nat \<Rightarrow> nat option" where
  "uint_digits [] n value_uint64 = Some value_uint64"
| "uint_digits (ch # str) n value_uint64 =
     (if ch = NUL \<or> n = 0 then Some value_uint64
      else if \<not> isdigit ch then None
      else let c = digit_val ch in
        if (max_uint64 - c) div 10 < value_uint64 then None
        else uint_digits str (n - 1) (value_uint64 * 10 + c))"

definition zbx_is_uint_n_range ::
  "string \<Rightarrow> nat \<Rightarrow> bool \<Rightarrow> nat \<Rightarrow> nat \<Rightarrow> nat \<Rightarrow> nat option" where
  "zbx_is_uint_n_range str n value vsize vmin vmax =
     (if peek str = NUL \<or> n = 0 \<or> 8 < vsize \<or> (vsize = 0 \<and> value) then None
      else case uint_digits str n 0 of
        None \<Rightarrow> None
      | Some value_uint64 \<Rightarrow>
          if vmin > value_uint64 \<or> value_uint64 > vmax then None
          else Some (if value then value_uint64 mod 2 ^ (8 * vsize) else value_uint64))"

definition zbx_is_uint64_n :: "string \<Rightarrow> nat \<Rightarrow> nat option" where
  "zbx_is_uint64_n str n = zbx_is_uint_n_range str n True 8 0 max_uint64"

definition zbx_is_uint31 :: "string \<Rightarrow> nat option" where
  "zbx_is_uint31 str = zbx_is_uint_n_range str ZBX_SIZE_T_MAX True 4 0 2147483647"

section \<open>Unsigned hexadecimal integers\<close>

fun hex_digits :: "string \<Rightarrow> nat \<Rightarrow> nat \<Rightarrow> nat \<Rightarrow> nat option" where
  "hex_digits [] n len value_uint64 = Some value_uint64"
| "hex_digits (ch # str) n len value_uint64 =
     (if ch = NUL \<or> n = 0 then Some value_uint64
      else if \<not> isxdigit ch then None
      else if 16 < Suc len \<and> max_uint64 div 16 < value_uint64 then None
      else hex_digits str (n - 1) (Suc len) ((value_uint64 * 16) mod 2 ^ 64 + xdigit_val ch))"

definition zbx_is_hex_n_range ::
  "string \<Rightarrow> nat \<Rightarrow> bool \<Rightarrow> nat \<Rightarrow> nat \<Rightarrow> nat \<Rightarrow> nat option" where
  "zbx_is_hex_n_range str n value vsize vmin vmax =
     (if peek str = NUL \<or> n = 0 \<or> 8 < vsize \<or> (vsize = 0 \<and> value) then None
      else case hex_digits str n 0 0 of
        None \<Rightarrow> None
      | Some value_uint64 \<Rightarrow>
          if vmin > value_uint64 \<or> value_uint64 > vmax then None
          else Some (if value then value_uint64 mod 2 ^ (8 * vsize) else value_uint64))"

section \<open>Signed integers, suffixes, numbers with a fraction and an exponent\<close>

definition zbx_is_int :: "string \<Rightarrow> int option" where
  "zbx_is_int str =
     (let (ptr, sign) = (if peek str = CHR ''-'' then (tl str, -1) else (str, 1)) in
      case zbx_is_uint31 ptr of
        None \<Rightarrow> None
      | Some value_ui32 \<Rightarrow> Some (int value_ui32 * sign))"

definition suffix2factor :: "char \<Rightarrow> nat" where
  "suffix2factor c =
     (if c = CHR ''K'' then 1024
      else if c = CHR ''M'' then 1048576
      else if c = CHR ''G'' then 1073741824
      else if c = CHR ''T'' then 1099511627776
      else if c = CHR ''s'' then 1
      else if c = CHR ''m'' then 60
      else if c = CHR ''h'' then 3600
      else if c = CHR ''d'' then 86400
      else if c = CHR ''w'' then 604800
      else 1)"

text \<open>An empty string makes the code read the byte before it (\<^verbatim>\<open>str + sz - 1\<close>).\<close>

definition zbx_str2uint64 :: "string \<Rightarrow> string \<Rightarrow> c_fault + nat option" where
  "zbx_str2uint64 str suffixes =
     (if str = [] then Inl OOB_READ
      else
        let p = last str;
            (factor, sz) = (if strchr suffixes p \<noteq> None then (suffix2factor p, length str - 1)
                            else (1, length str))
        in Inr (case zbx_is_uint64_n str sz of
                  None \<Rightarrow> None
                | Some value \<Rightarrow> Some ((value * factor) mod 2 ^ 64)))"

text \<open>
  \<^verbatim>\<open>zbx_number_parse\<close> scans digits and dots; at an exponent mark it scans the exponent and stops. The
  result is the length of the parsed number.
\<close>

definition number_exponent :: "string \<Rightarrow> nat option" where
  "number_exponent s =
     (let s1 = tl s;
          s2 = (if peek s1 = CHR ''-'' \<or> peek s1 = CHR ''+'' then tl s1 else s1)
      in if \<not> isdigit (peek s2) then None
         else let s3 = dropWhile isdigit s2
              in if peek s3 \<in> {CHR ''.'', CHR ''e'', CHR ''E''} then None
                 else Some (length s - length s3))"

fun number_scan :: "string \<Rightarrow> nat \<Rightarrow> nat \<Rightarrow> nat \<Rightarrow> nat option" where
  "number_scan [] len digits dots = (if 1 > digits \<or> 1 < dots then None else Some len)"
| "number_scan (c # s) len digits dots =
     (if isdigit c then number_scan s (Suc len) (Suc digits) dots
      else if c = CHR ''.'' then number_scan s (Suc len) digits (Suc dots)
      else if c = CHR ''e'' \<or> c = CHR ''E'' then
        (case number_exponent (c # s) of
           None \<Rightarrow> None
         | Some k \<Rightarrow> if 1 > digits \<or> 1 < dots then None else Some (len + k))
      else if 1 > digits \<or> 1 < dots then None
      else Some len)"

definition zbx_number_parse :: "string \<Rightarrow> nat option" where
  "zbx_number_parse number = number_scan number 0 0 0"

definition is_double_valid_syntax :: "string \<Rightarrow> bool" where
  "is_double_valid_syntax str =
     (let s = (if peek str = CHR ''-'' \<or> peek str = CHR ''+'' then tl str else str)
      in case zbx_number_parse s of
           None \<Rightarrow> False
         | Some len \<Rightarrow> peek_at s len = NUL)"

section \<open>Trimming and hexadecimal data\<close>

primrec trim_right :: "string \<Rightarrow> nat \<Rightarrow> nat \<Rightarrow> nat" where
  "trim_right s left 0 = 0"
| "trim_right s left (Suc r) =
     (if s ! Suc r = CHR '' '' \<and> left < Suc r then trim_right s left r else Suc r)"

definition zbx_trim_number :: "string \<Rightarrow> bool \<Rightarrow> string" where
  "zbx_trim_number str strip_plus_sign =
     (if str = [] then str
      else
        let left = length (takeWhile (\<lambda>c. c = CHR '' '') str);
            right = trim_right str left (length str - 1);
            (left, right) =
              (if peek_at str left = CHR ''\"'' \<and> str ! right = CHR ''\"'' \<and> left < right
               then (left + 1, right - 1) else (left, right));
            left = (if strip_plus_sign \<and> peek_at str left = CHR ''+'' then left + 1 else left)
        in if left > right then [] else take (right + 1 - left) (drop left str))"

definition zbx_trim_integer :: "string \<Rightarrow> string" where
  "zbx_trim_integer str = zbx_trim_number str True"

definition zbx_trim_float :: "string \<Rightarrow> string" where
  "zbx_trim_float str = zbx_trim_number str False"

function hex_pairs :: "string \<Rightarrow> bool" where
  "hex_pairs str =
     (if peek str = NUL then True
      else if \<not> isxdigit (peek str) then False
      else if \<not> isxdigit (peek_at str 1) then False
      else if peek_at str 2 = NUL then True
      else if peek_at str 2 \<noteq> CHR '' '' \<and> peek_at str 2 \<noteq> CHR ''\<newline>'' then False
      else hex_pairs (drop 3 str))"
  by pat_completeness auto
termination hex_pairs
  by (relation "measure length") (auto dest: peek_neq_NUL_Cons)

declare hex_pairs.simps [simp del]

definition zbx_is_hex_string :: "string \<Rightarrow> bool" where
  "zbx_is_hex_string str = (if peek str = NUL then False else hex_pairs str)"

section \<open>Lemmas\<close>

lemma uint_overflow_guard:
  "c \<le> 9 \<Longrightarrow> (max_uint64 - c) div 10 < v \<longleftrightarrow> max_uint64 < v * 10 + c"
  by (simp add: div_less_iff_less_mult) arith

lemma uint_digits_eq:
  assumes "NUL \<notin> set str" "v \<le> max_uint64"
  shows "uint_digits str n v =
    (let s = take n str; w = foldl (\<lambda>v c. v * 10 + digit_val c) v s in
     if list_all isdigit s \<and> w \<le> max_uint64 then Some w else None)"
  using assms
proof (induction str arbitrary: n v)
  case (Cons c str)
  show ?case
  proof (cases n)
    case 0
    with Cons.prems show ?thesis by simp
  next
    case (Suc m)
    note guard = uint_overflow_guard [OF digit_val_le_9, of c v]
    show ?thesis
    proof (cases "isdigit c \<and> v * 10 + digit_val c \<le> max_uint64")
      case True
      with Cons Suc guard show ?thesis by (auto simp: Let_def)
    next
      case False
      with Cons.prems Suc guard foldl_dec_mono [of "v * 10 + digit_val c" "take m str"]
      show ?thesis by (auto simp: Let_def)
    qed
  qed
qed simp

text \<open>
  The recogniser on any NUL-free string: the digits among the first \<open>n\<close> characters decide, the guard
  against 64-bit overflow is exact, and the range check is on the true value.
\<close>

lemma is_uint_n_range_eq:
  assumes "NUL \<notin> set str" "0 < vsize" "vsize \<le> 8"
  shows "zbx_is_uint_n_range str n True vsize vmin vmax =
    (let s = take n str in
     if s \<noteq> [] \<and> list_all isdigit s \<and> dec_value s \<le> max_uint64
        \<and> vmin \<le> dec_value s \<and> dec_value s \<le> vmax
     then Some (dec_value s mod 2 ^ (8 * vsize)) else None)"
proof (cases "str = [] \<or> n = 0")
  case True
  then show ?thesis by (auto simp: zbx_is_uint_n_range_def)
next
  case False
  with assms have "peek str \<noteq> NUL" by (cases str) auto
  with False assms show ?thesis
    by (simp add: zbx_is_uint_n_range_def uint_digits_eq dec_value_def Let_def)
qed

text \<open>Hexadecimal digits: no wrap-around happens before the check on the seventeenth digit.\<close>

lemma xdigit_val_le_15: "isxdigit c \<Longrightarrow> xdigit_val c \<le> 15"
  by (auto simp: isxdigit_def xdigit_val_def isdigit_def)

lemma hex_digits_eq:
  assumes "NUL \<notin> set str" "v < 16 ^ min len 16"
  shows "hex_digits str n len v =
    (let s = take n str; w = foldl (\<lambda>v c. v * 16 + xdigit_val c) v s in
     if list_all isxdigit s \<and> w \<le> max_uint64 then Some w else None)"
  using assms
proof (induction str arbitrary: n len v)
  case Nil
  have "v < 16 ^ 16"
    by (rule less_le_trans [OF Nil.prems(2)]) (rule power_increasing, simp_all)
  then show ?case by simp
next
  case (Cons c str)
  have v: "v < 16 ^ 16"
    by (rule less_le_trans [OF Cons.prems(2)]) (rule power_increasing, simp_all)
  show ?case
  proof (cases n)
    case 0
    with v show ?thesis by simp
  next
    case (Suc m)
    show ?thesis
    proof (cases "isxdigit c \<and> v < 16 ^ 15")
      case True
      then have x: "xdigit_val c \<le> 15" by (simp add: xdigit_val_le_15)
      have "v * 16 + xdigit_val c < 16 ^ min (Suc len) 16"
      proof (cases "len < 16")
        case True
        then have "v + 1 \<le> 16 ^ len" using Cons.prems(2) by (simp add: min_def)
        then have "16 * (v + 1) \<le> 16 * 16 ^ len" by (rule mult_le_mono2)
        with x True show ?thesis by (simp add: min_def)
      next
        case False
        have "v + 1 \<le> 16 ^ 15" using \<open>isxdigit c \<and> v < 16 ^ 15\<close> by simp
        with x False show ?thesis by (simp add: min_def)
      qed
      moreover have "(v * 16) mod 2 ^ 64 = v * 16" using True by simp
      ultimately show ?thesis using True Cons Suc by (auto simp: Let_def)
    next
      case False
      show ?thesis
      proof (cases "isxdigit c")
        case True
        with False have big: "16 ^ 15 \<le> v" by simp
        have "\<not> len < 16"
        proof
          assume "len < 16"
          then have "(16::nat) ^ len \<le> 16 ^ 15" by (intro power_increasing) simp_all
          with big Cons.prems(2) \<open>len < 16\<close> show False by (simp add: min_def)
        qed
        with big have "hex_digits (c # str) n len v = None"
          using Cons.prems Suc by auto
        moreover have "max_uint64 < v * 16 + xdigit_val c" using big by simp
        ultimately show ?thesis
          using Suc foldl_hex_mono [of "v * 16 + xdigit_val c" "take m str"]
          by (simp add: Let_def)
      next
        case False
        with Cons.prems Suc show ?thesis by (auto simp: Let_def)
      qed
    qed
  qed
qed

lemma is_hex_n_range_eq:
  assumes "NUL \<notin> set str" "0 < vsize" "vsize \<le> 8"
  shows "zbx_is_hex_n_range str n True vsize vmin vmax =
    (let s = take n str in
     if s \<noteq> [] \<and> list_all isxdigit s \<and> hex_value s \<le> max_uint64
        \<and> vmin \<le> hex_value s \<and> hex_value s \<le> vmax
     then Some (hex_value s mod 2 ^ (8 * vsize)) else None)"
proof (cases "str = [] \<or> n = 0")
  case True
  then show ?thesis by (auto simp: zbx_is_hex_n_range_def)
next
  case False
  with assms have "peek str \<noteq> NUL" by (cases str) auto
  with False assms show ?thesis
    by (simp add: zbx_is_hex_n_range_def hex_digits_eq hex_value_def Let_def)
qed

text \<open>
  C38: The decimal and the hexadecimal recogniser accept exactly the non-empty digit strings (of the first \<open>n\<close>
  characters) whose mathematical value fits 64 bits and the caller's range, and store its low bytes; the guards
  against overflow neither reject a value that fits nor let one wrap around.
\<close>
theorem recognisers_exact:
  assumes "NUL \<notin> set str" "0 < vsize" "vsize \<le> 8"
  shows "zbx_is_uint_n_range str n True vsize vmin vmax =
      (let s = take n str in
       if s \<noteq> [] \<and> list_all isdigit s \<and> dec_value s \<le> max_uint64 \<and> vmin \<le> dec_value s \<and> dec_value s \<le> vmax
       then Some (dec_value s mod 2 ^ (8 * vsize)) else None)
    \<and> zbx_is_hex_n_range str n True vsize vmin vmax =
      (let s = take n str in
       if s \<noteq> [] \<and> list_all isxdigit s \<and> hex_value s \<le> max_uint64 \<and> vmin \<le> hex_value s \<and> hex_value s \<le> vmax
       then Some (hex_value s mod 2 ^ (8 * vsize)) else None)"
  by (intro conjI is_uint_n_range_eq is_hex_n_range_eq assms)

theorem recognisers_exact_witness:
  "zbx_is_uint_n_range ''1025x'' 4 True 1 0 2000 = Some 1 \<and> zbx_is_hex_n_range ''ffZ'' 2 True 2 0 255 = Some 255"
proof -
  have "zbx_is_uint_n_range ''1025x'' 4 True 1 0 2000 = Some 1"
    using recognisers_exact [of "''1025x''" 1 4 0 2000]
    by (simp add: dec_value_def digit_val_def isdigit_def)
  moreover have "zbx_is_hex_n_range ''ffZ'' 2 True 2 0 255 = Some 255"
    using recognisers_exact [of "''ffZ''" 2 2 0 255]
    by (simp add: hex_value_def xdigit_val_def isxdigit_def isdigit_def)
  ultimately show ?thesis ..
qed

end
