(* ===== verification/ZbxTime.thy ===== *)
theory ZbxTime
  imports ZbxNum
begin

text \<open>
  Calendar arithmetic of \<^verbatim>\<open>src/libs/zbxtime/time.c\<close>: leap years, month lengths, conversion of a
  broken-down UTC time to a timestamp, adding and subtracting calendar units, timespec normalisation, ISO
  week numbers and time suffixes. The reference is \<open>civil_days\<close>, the number of days since 1 January 1970
  in the proleptic Gregorian calendar, built from month and year lengths.

  \<^verbatim>\<open>struct tm\<close> is the record \<open>tm\<close>. The \<^verbatim>\<open>int\<close> result of \<^verbatim>\<open>zbx_utc_time\<close> is kept at its 32 bits
  (\<open>wrap32\<close>): from 19 January 2038 on it is negative and the function fails. Every sum, difference and product of
  the calendar arithmetic that can leave the 32 bits is wrapped too.
\<close>

section \<open>Definitions\<close>

record tm =
  tm_sec :: int
  tm_min :: int
  tm_hour :: int
  tm_mday :: int
  tm_mon :: int
  tm_year :: int
  tm_wday :: int
  tm_yday :: int
  tm_isdst :: int

record zbx_timespec =
  sec :: int
  ns :: int

function normalize_over :: "zbx_timespec \<Rightarrow> zbx_timespec" where
  "normalize_over ts =
     (if 1000000000 \<le> ns ts
      then normalize_over (ts\<lparr>sec := wrap32 (sec ts + 1), ns := ns ts - 1000000000\<rparr>) else ts)"
  by pat_completeness auto
termination normalize_over
  by (relation "measure (\<lambda>ts. nat (ns ts))") auto

function normalize_under :: "zbx_timespec \<Rightarrow> zbx_timespec" where
  "normalize_under ts =
     (if 0 > ns ts
      then normalize_under (ts\<lparr>sec := wrap32 (sec ts - 1), ns := ns ts + 1000000000\<rparr>) else ts)"
  by pat_completeness auto
termination normalize_under
  by (relation "measure (\<lambda>ts. nat (- ns ts))") auto

declare normalize_over.simps [simp del] normalize_under.simps [simp del]

definition zbx_timespec_normalize :: "zbx_timespec \<Rightarrow> zbx_timespec" where
  "zbx_timespec_normalize ts = normalize_under (normalize_over ts)"

definition zbx_is_leap_year :: "int \<Rightarrow> bool" where
  "zbx_is_leap_year year \<longleftrightarrow> year mod 4 = 0 \<and> (year mod 100 \<noteq> 0 \<or> year mod 400 = 0)"

definition zbx_day_in_month :: "int \<Rightarrow> int \<Rightarrow> int" where
  "zbx_day_in_month year mon =
     (if 1 \<le> mon \<and> mon \<le> 12
      then [31, 28, 31, 30, 31, 30, 31, 31, 30, 31, 30, 31] ! nat (mon - 1)
             + (if mon = 2 \<and> zbx_is_leap_year year then 1 else 0)
      else 30)"

definition ZBX_LEAP_YEARS :: "int \<Rightarrow> int" where
  "ZBX_LEAP_YEARS year = (year - 1) div 4 - (year - 1) div 100 + (year - 1) div 400"

definition month_day :: "int \<Rightarrow> int" where
  "month_day mon = [0, 31, 59, 90, 120, 151, 181, 212, 243, 273, 304, 334] ! nat (mon - 1)"

definition zbx_utc_time :: "int \<Rightarrow> int \<Rightarrow> int \<Rightarrow> int \<Rightarrow> int \<Rightarrow> int \<Rightarrow> int option" where
  "zbx_utc_time year mon mday hour mi se =
     (if 1970 \<le> year \<and> 1 \<le> mon \<and> mon \<le> 12 \<and> 1 \<le> mday \<and> mday \<le> zbx_day_in_month year mon
        \<and> 0 \<le> hour \<and> hour \<le> 23 \<and> 0 \<le> mi \<and> mi \<le> 59 \<and> 0 \<le> se \<and> se \<le> 61
      then let t = wrap32 ((year - 1970) * SEC_PER_YEAR
                 + (ZBX_LEAP_YEARS (if 2 < mon then year + 1 else year) - ZBX_LEAP_YEARS 1970)
                   * SEC_PER_DAY
                 + (month_day mon + mday - 1) * SEC_PER_DAY
                 + hour * SEC_PER_HOUR + mi * SEC_PER_MIN + se)
           in if 0 \<le> t then Some t else None
      else None)"

datatype zbx_time_unit =
  ZBX_TIME_UNIT_UNKNOWN | ZBX_TIME_UNIT_SECOND | ZBX_TIME_UNIT_MINUTE | ZBX_TIME_UNIT_HOUR
| ZBX_TIME_UNIT_DAY | ZBX_TIME_UNIT_WEEK | ZBX_TIME_UNIT_MONTH | ZBX_TIME_UNIT_YEAR
| ZBX_TIME_UNIT_ISOYEAR

definition zbx_tm_str_to_unit :: "string \<Rightarrow> zbx_time_unit" where
  "zbx_tm_str_to_unit s =
     (if peek s = CHR ''s'' then ZBX_TIME_UNIT_SECOND
      else if peek s = CHR ''m'' then ZBX_TIME_UNIT_MINUTE
      else if peek s = CHR ''h'' then ZBX_TIME_UNIT_HOUR
      else if peek s = CHR ''d'' then ZBX_TIME_UNIT_DAY
      else if peek s = CHR ''w'' then ZBX_TIME_UNIT_WEEK
      else if peek s = CHR ''M'' then ZBX_TIME_UNIT_MONTH
      else if peek s = CHR ''y'' then ZBX_TIME_UNIT_YEAR
      else ZBX_TIME_UNIT_UNKNOWN)"

datatype period_error = INVALID_PERIOD_MULTIPLIER | INVALID_PERIOD_TIME_UNIT

text \<open>
  The multiplier is read as an unsigned number up to \<^verbatim>\<open>UINT32_MAX\<close> and stored in an \<^verbatim>\<open>int\<close>.
\<close>

definition zbx_tm_parse_period :: "string \<Rightarrow> period_error + nat \<times> int \<times> zbx_time_unit" where
  "zbx_tm_parse_period period =
     (let p = dropWhile isdigit period; k = length period - length p in
      case zbx_is_uint_n_range period k True 4 0 4294967295 of
        None \<Rightarrow> Inl INVALID_PERIOD_MULTIPLIER
      | Some multiplier \<Rightarrow>
          if zbx_tm_str_to_unit p = ZBX_TIME_UNIT_UNKNOWN then Inl INVALID_PERIOD_TIME_UNIT
          else Inr (k + 1, wrap32 (int multiplier), zbx_tm_str_to_unit p))"

text \<open>Adding calendar units: one definition per case of the switch in \<^verbatim>\<open>tm_add\<close>.\<close>

definition tm_add_year :: "tm \<Rightarrow> int \<Rightarrow> tm" where
  "tm_add_year tm multiplier = tm\<lparr>tm_year := wrap32 (tm_year tm + multiplier)\<rparr>"

definition tm_add_month :: "tm \<Rightarrow> int \<Rightarrow> tm" where
  "tm_add_month tm multiplier =
     (let mon = wrap32 (tm_mon tm + multiplier) in
      if 12 \<le> mon then tm_add_year (tm\<lparr>tm_mon := cmod mon 12\<rparr>) (cdiv mon 12)
      else tm\<lparr>tm_mon := mon\<rparr>)"

lemma month_cases:
  "1 \<le> (m :: int) \<Longrightarrow> m \<le> 12 \<Longrightarrow>
   m = 1 \<or> m = 2 \<or> m = 3 \<or> m = 4 \<or> m = 5 \<or> m = 6 \<or> m = 7 \<or> m = 8 \<or> m = 9 \<or> m = 10 \<or> m = 11 \<or> m = 12"
  by arith

lemma day_in_month_bounds: "28 \<le> zbx_day_in_month y m \<and> zbx_day_in_month y m \<le> 31"
proof (cases "1 \<le> m \<and> m \<le> 12")
  case True
  then show ?thesis using month_cases [of m] by (auto simp: zbx_day_in_month_def)
qed (auto simp: zbx_day_in_month_def)

lemmas day_in_month_pos = day_in_month_bounds [THEN conjunct1]
  and day_in_month_le_31 = day_in_month_bounds [THEN conjunct2]

function tm_add_day_carry :: "tm \<Rightarrow> tm" where
  "tm_add_day_carry tm =
     (let shift = zbx_day_in_month (wrap32 (tm_year tm + 1900)) (wrap32 (tm_mon tm + 1)) in
      if tm_mday tm > shift
      then tm_add_day_carry (tm_add_month (tm\<lparr>tm_mday := tm_mday tm - shift\<rparr>) 1)
      else tm)"
  by pat_completeness auto
termination tm_add_day_carry
proof (relation "measure (\<lambda>tm. nat (tm_mday tm))")
  fix tm :: tm and shift
  assume "shift = zbx_day_in_month (wrap32 (tm_year tm + 1900)) (wrap32 (tm_mon tm + 1))" "shift < tm_mday tm"
  then show "(tm_add_month (tm\<lparr>tm_mday := tm_mday tm - shift\<rparr>) 1, tm) \<in> measure (\<lambda>tm. nat (tm_mday tm))"
    using day_in_month_pos [of "wrap32 (tm_year tm + 1900)" "wrap32 (tm_mon tm + 1)"]
    by (simp add: tm_add_month_def tm_add_year_def Let_def)
qed simp

declare tm_add_day_carry.simps [simp del]

definition tm_add_day :: "tm \<Rightarrow> int \<Rightarrow> tm" where
  "tm_add_day tm multiplier =
     (let tm' = tm_add_day_carry (tm\<lparr>tm_mday := wrap32 (tm_mday tm + multiplier)\<rparr>)
      in tm'\<lparr>tm_wday := cmod (wrap32 (tm_wday tm' + multiplier)) 7\<rparr>)"

definition tm_add_hour :: "tm \<Rightarrow> int \<Rightarrow> tm" where
  "tm_add_hour tm multiplier =
     (let hour = wrap32 (tm_hour tm + multiplier) in
      if 24 \<le> hour then tm_add_day (tm\<lparr>tm_hour := cmod hour 24\<rparr>) (cdiv hour 24)
      else tm\<lparr>tm_hour := hour\<rparr>)"

definition tm_add :: "tm \<Rightarrow> int \<Rightarrow> zbx_time_unit \<Rightarrow> tm" where
  "tm_add tm multiplier base =
     (case base of
        ZBX_TIME_UNIT_HOUR \<Rightarrow> tm_add_hour tm multiplier
      | ZBX_TIME_UNIT_DAY \<Rightarrow> tm_add_day tm multiplier
      | ZBX_TIME_UNIT_WEEK \<Rightarrow> tm_add_day tm (wrap32 (multiplier * 7))
      | ZBX_TIME_UNIT_MONTH \<Rightarrow> tm_add_month tm multiplier
      | ZBX_TIME_UNIT_YEAR \<Rightarrow> tm_add_year tm multiplier
      | _ \<Rightarrow> tm)"

definition neg_to_pos_wrap :: "int \<Rightarrow> int \<Rightarrow> int" where
  "neg_to_pos_wrap v base = (let reminder = cmod v base in if reminder = 0 then 0 else base + reminder)"

definition tm_sub_year :: "tm \<Rightarrow> int \<Rightarrow> tm" where
  "tm_sub_year tm multiplier = tm\<lparr>tm_year := wrap32 (tm_year tm - multiplier)\<rparr>"

definition tm_sub_month :: "tm \<Rightarrow> int \<Rightarrow> tm" where
  "tm_sub_month tm multiplier =
     (let mon = wrap32 (tm_mon tm - multiplier) in
      if 0 > mon
      then let mon' = neg_to_pos_wrap mon 12;
               shift = cdiv (wrap32 (- mon)) 12 + (if mon' \<noteq> 0 then 1 else 0)
           in tm_sub_year (tm\<lparr>tm_mon := mon'\<rparr>) shift
      else tm\<lparr>tm_mon := mon\<rparr>)"

function tm_sub_day_borrow :: "tm \<Rightarrow> tm" where
  "tm_sub_day_borrow tm =
     (if 0 \<ge> tm_mday tm
      then let prev_mon = (if 0 > wrap32 (tm_mon tm - 1) then 11 else wrap32 (tm_mon tm - 1)) + 1
           in tm_sub_day_borrow
                (tm_sub_month
                   (tm\<lparr>tm_mday := tm_mday tm + zbx_day_in_month (wrap32 (tm_year tm + 1900)) prev_mon\<rparr>) 1)
      else tm)"
  by pat_completeness auto
termination tm_sub_day_borrow
proof (relation "measure (\<lambda>tm. nat (1 - tm_mday tm))")
  fix tm :: tm and prev_mon
  assume "0 \<ge> tm_mday tm"
  then show "(tm_sub_month (tm\<lparr>tm_mday := tm_mday tm + zbx_day_in_month (wrap32 (tm_year tm + 1900)) prev_mon\<rparr>) 1, tm)
      \<in> measure (\<lambda>tm. nat (1 - tm_mday tm))"
    using day_in_month_pos [of "wrap32 (tm_year tm + 1900)" prev_mon]
    by (simp add: tm_sub_month_def tm_sub_year_def Let_def)
qed simp

declare tm_sub_day_borrow.simps [simp del]

definition tm_sub_day :: "tm \<Rightarrow> int \<Rightarrow> tm" where
  "tm_sub_day tm multiplier =
     (let tm' = tm_sub_day_borrow (tm\<lparr>tm_mday := wrap32 (tm_mday tm - multiplier)\<rparr>);
          wday = wrap32 (tm_wday tm' - multiplier)
      in tm'\<lparr>tm_wday := (if 0 > wday then neg_to_pos_wrap wday 7 else wday)\<rparr>)"

definition tm_sub_hour :: "tm \<Rightarrow> int \<Rightarrow> tm" where
  "tm_sub_hour tm multiplier =
     (let hour = wrap32 (tm_hour tm - multiplier) in
      if 0 > hour
      then let hour' = neg_to_pos_wrap hour 24;
               shift = cdiv (wrap32 (- hour)) 24 + (if hour' \<noteq> 0 then 1 else 0)
           in tm_sub_day (tm\<lparr>tm_hour := hour'\<rparr>) shift
      else tm\<lparr>tm_hour := hour\<rparr>)"

definition tm_sub :: "tm \<Rightarrow> int \<Rightarrow> zbx_time_unit \<Rightarrow> tm" where
  "tm_sub tm multiplier base =
     (case base of
        ZBX_TIME_UNIT_HOUR \<Rightarrow> tm_sub_hour tm multiplier
      | ZBX_TIME_UNIT_DAY \<Rightarrow> tm_sub_day tm multiplier
      | ZBX_TIME_UNIT_WEEK \<Rightarrow> tm_sub_day tm (wrap32 (multiplier * 7))
      | ZBX_TIME_UNIT_MONTH \<Rightarrow> tm_sub_month tm multiplier
      | ZBX_TIME_UNIT_YEAR \<Rightarrow> tm_sub_year tm multiplier
      | _ \<Rightarrow> tm)"

definition get_week_days :: "int \<Rightarrow> int \<Rightarrow> int" where
  "get_week_days yday wday = yday - cmod (yday - wday + 382) 7 + 3"

definition zbx_get_week_number :: "tm \<Rightarrow> int" where
  "zbx_get_week_number tm =
     (let days = get_week_days (tm_yday tm) (tm_wday tm);
          days' =
            (if 0 > days
             then get_week_days (tm_yday tm + 365
                    + (if zbx_is_leap_year (tm_year tm + 1899) then 1 else 0)) (tm_wday tm)
             else let d = tm_yday tm - 365 - (if zbx_is_leap_year (tm_year tm + 1900) then 1 else 0);
                      days_next = get_week_days d (tm_wday tm)
                  in if 0 \<le> days_next then days_next else days)
      in cdiv days' 7 + 1)"

text \<open>
  \<^verbatim>\<open>zbx_is_time_suffix\<close>: the digit loop with its overflow guard, then the suffix.
\<close>

fun time_digits :: "string \<Rightarrow> int \<Rightarrow> int \<Rightarrow> (string \<times> int \<times> int) option" where
  "time_digits [] len value_tmp = Some ([], len, value_tmp)"
| "time_digits (ch # str) len value_tmp =
     (if ch \<noteq> NUL \<and> 0 < len \<and> isdigit ch
      then let c = int (digit_val ch) in
        if (INT_MAX - c) div 10 < value_tmp then None
        else time_digits str (len - 1) (value_tmp * 10 + c)
      else Some (ch # str, len, value_tmp))"

definition time_factor :: "char \<Rightarrow> int option" where
  "time_factor c =
     (if c = CHR ''s'' then Some 1
      else if c = CHR ''m'' then Some SEC_PER_MIN
      else if c = CHR ''h'' then Some SEC_PER_HOUR
      else if c = CHR ''d'' then Some SEC_PER_DAY
      else if c = CHR ''w'' then Some SEC_PER_WEEK
      else None)"

definition zbx_is_time_suffix :: "string \<Rightarrow> int \<Rightarrow> int option" where
  "zbx_is_time_suffix str0 length0 =
     (if peek str0 = NUL \<or> 0 \<ge> length0 \<or> \<not> isdigit (peek str0) then None
      else case time_digits str0 length0 0 of
        None \<Rightarrow> None
      | Some (str, len, value_tmp) \<Rightarrow>
          (case (if peek str \<noteq> NUL \<and> 0 < len
                 then map_option (\<lambda>factor. (factor, tl str, len - 1)) (time_factor (peek str))
                 else Some (1, str, len)) of
             None \<Rightarrow> None
           | Some (factor, str, len) \<Rightarrow>
               if (length0 = ZBX_LENGTH_UNLIMITED \<and> peek str \<noteq> NUL)
                  \<or> (length0 \<noteq> ZBX_LENGTH_UNLIMITED \<and> len \<noteq> 0) then None
               else if INT_MAX div factor < value_tmp then None
               else Some (value_tmp * factor)))"

section \<open>The reference calendar\<close>

text \<open>
  Days from 1 January 1970 to the given date: whole years, then whole months of the year, then days.
\<close>

definition year_length :: "int \<Rightarrow> int" where
  "year_length y = (if zbx_is_leap_year y then 366 else 365)"

definition days_before_month :: "int \<Rightarrow> int \<Rightarrow> int" where
  "days_before_month y m = (\<Sum>k \<in> {1..<m}. zbx_day_in_month y k)"

definition civil_days :: "int \<Rightarrow> int \<Rightarrow> int \<Rightarrow> int" where
  "civil_days y m d = 365 * (y - 1970) + (ZBX_LEAP_YEARS y - ZBX_LEAP_YEARS 1970)
     + days_before_month y m + d - 1"

lemma div_pred: "y div n = (y - 1) div n + (if y mod n = 0 then 1 else 0)" if "0 < n" for n y :: int
proof -
  let ?q = "y div n" and ?r = "y mod n"
  have eq: "y = n * ?q + ?r" by simp
  have bounds: "0 \<le> ?r" "?r < n" using that by simp_all
  show ?thesis
  proof (cases "?r = 0")
    case True
    have "y - 1 = n * (?q - 1) + (n - 1)" using eq True by (simp only: right_diff_distrib)
    then have "(y - 1) div n = ?q - 1"
      by (rule int_div_pos_eq) (use that in simp_all)
    with True show ?thesis by simp
  next
    case False
    have "y - 1 = n * ?q + (?r - 1)" using eq by linarith
    then have "(y - 1) div n = ?q"
      by (rule int_div_pos_eq) (use bounds False in simp_all)
    with False show ?thesis by simp
qed
qed

lemma leap_years_Suc:
  "ZBX_LEAP_YEARS (y + 1) = ZBX_LEAP_YEARS y + (if zbx_is_leap_year y then 1 else 0)"
proof -
  have d: "(100 :: int) dvd 400" "(4 :: int) dvd 100" by simp_all
  have m: "y mod 400 = 0 \<Longrightarrow> y mod 100 = 0" "y mod 100 = 0 \<Longrightarrow> y mod 4 = 0"
    unfolding dvd_eq_mod_eq_0 [symmetric] by (rule dvd_trans [OF d(1)], assumption)
      (rule dvd_trans [OF d(2)], assumption)
  have eq: "ZBX_LEAP_YEARS (y + 1) = y div 4 - y div 100 + y div 400"
    "ZBX_LEAP_YEARS y = (y - 1) div 4 - (y - 1) div 100 + (y - 1) div 400"
    by (simp_all only: ZBX_LEAP_YEARS_def add_diff_cancel_right')
  have gen: "a + (if P then 1 else 0) - (b + (if Q then 1 else 0)) + (c + (if R then 1 else 0))
      = a - b + c + (if P \<and> (\<not> Q \<or> R) then 1 else 0)"
    if "R \<Longrightarrow> Q" "Q \<Longrightarrow> P" for a b c :: int and P Q R
    using that by (cases P; cases Q; cases R) simp_all
  have s4: "y div 4 = (y - 1) div 4 + (if y mod 4 = 0 then 1 else 0)"
    and s100: "y div 100 = (y - 1) div 100 + (if y mod 100 = 0 then 1 else 0)"
    and s400: "y div 400 = (y - 1) div 400 + (if y mod 400 = 0 then 1 else 0)"
    by (rule div_pred, simp only: zero_less_numeral)+
  show ?thesis
    unfolding eq zbx_is_leap_year_def s4 s100 s400 by (rule gen [OF m])
qed

lemma days_before_month_Suc:
  "1 \<le> m \<Longrightarrow> days_before_month y (m + 1) = days_before_month y m + zbx_day_in_month y m"
proof -
  assume "1 \<le> m"
  then have "{1..<m + 1} = insert m {1..<m}" by auto
  then show ?thesis by (simp add: days_before_month_def)
qed

lemma days_before_month_1 [simp]: "days_before_month y 1 = 0"
  by (simp add: days_before_month_def)

lemma days_before_month_table:
  assumes "1 \<le> m" "m \<le> 12"
  shows "days_before_month y m = month_day m + (if 2 < m \<and> zbx_is_leap_year y then 1 else 0)"
proof -
  have step: "days_before_month y (k + 1) = days_before_month y k + zbx_day_in_month y k"
    if "1 \<le> k" for k using that by (rule days_before_month_Suc)
  have t2: "days_before_month y 2 = 31" using step [of 1] by (simp add: zbx_day_in_month_def)
  have t3: "days_before_month y 3 = 59 + (if zbx_is_leap_year y then 1 else 0)"
    using step [of 2] t2 by (simp add: zbx_day_in_month_def)
  note dim = zbx_day_in_month_def
  have t4: "days_before_month y 4 = days_before_month y 3 + 31" using step [of 3] by (simp add: dim)
  have t5: "days_before_month y 5 = days_before_month y 3 + 61" using step [of 4] t4 by (simp add: dim)
  have t6: "days_before_month y 6 = days_before_month y 3 + 92" using step [of 5] t5 by (simp add: dim)
  have t7: "days_before_month y 7 = days_before_month y 3 + 122" using step [of 6] t6 by (simp add: dim)
  have t8: "days_before_month y 8 = days_before_month y 3 + 153" using step [of 7] t7 by (simp add: dim)
  have t9: "days_before_month y 9 = days_before_month y 3 + 184" using step [of 8] t8 by (simp add: dim)
  have t10: "days_before_month y 10 = days_before_month y 3 + 214"
    using step [of 9] t9 by (simp add: dim)
  have t11: "days_before_month y 11 = days_before_month y 3 + 245"
    using step [of 10] t10 by (simp add: dim)
  have t12: "days_before_month y 12 = days_before_month y 3 + 275"
    using step [of 11] t11 by (simp add: dim)
  from month_cases [OF assms] show ?thesis
    by (elim disjE) (simp_all only: t2 t3 t4 t5 t6 t7 t8 t9 t10 t11 t12, simp_all add: month_day_def)
qed

lemma days_in_year: "days_before_month y 12 + zbx_day_in_month y 12 = year_length y"
  by (simp add: days_before_month_table month_day_def zbx_day_in_month_def year_length_def)

lemma civil_days_next_month: "1 \<le> m \<Longrightarrow> civil_days y (m + 1) d = civil_days y m (d + zbx_day_in_month y m)"
  by (simp add: civil_days_def days_before_month_Suc)

lemma civil_days_next_year: "civil_days (y + 1) 1 d = civil_days y 12 (d + zbx_day_in_month y 12)"
  using days_in_year [of y] leap_years_Suc [of y]
  by (simp add: civil_days_def year_length_def split: if_splits)

text \<open>The year part of \<open>civil_days\<close> is the sum of the lengths of the years since 1970.\<close>

lemma civil_days_years:
  assumes "1970 \<le> y"
  shows "civil_days y 1 1 = (\<Sum>k \<in> {1970..<y}. year_length k)"
  using assms
proof (induction y rule: int_ge_induct)
  case base
  then show ?case by (simp add: civil_days_def)
next
  case (step y)
  then have "{1970..<y + 1} = insert y {1970..<y}" by auto
  with step leap_years_Suc [of y] show ?case
    by (simp add: civil_days_def year_length_def)
qed

lemma utc_days:
  assumes "1 \<le> mon" "mon \<le> 12"
  shows "(year - 1970) * SEC_PER_YEAR
      + (ZBX_LEAP_YEARS (if 2 < mon then year + 1 else year) - ZBX_LEAP_YEARS 1970) * SEC_PER_DAY
      + (month_day mon + mday - 1) * SEC_PER_DAY
    = civil_days year mon mday * SEC_PER_DAY"
  using days_before_month_table [OF assms, of year] leap_years_Suc [of year]
  by (simp add: civil_days_def algebra_simps)

section \<open>Timestamps\<close>

lemma month_day_bounds: "1 \<le> m \<Longrightarrow> m \<le> 12 \<Longrightarrow> 0 \<le> month_day m \<and> month_day m \<le> 334"
  using month_cases [of m] by (auto simp: month_day_def)

lemma civil_days_nonneg:
  assumes "1970 \<le> y" "1 \<le> m" "m \<le> 12" "1 \<le> d"
  shows "0 \<le> civil_days y m d"
proof -
  have "civil_days y m d = civil_days y 1 1 + days_before_month y m + d - 1"
    by (simp add: civil_days_def)
  moreover have "0 \<le> civil_days y 1 1"
    unfolding civil_days_years [OF assms(1)] by (intro sum_nonneg) (simp add: year_length_def)
  moreover have "0 \<le> days_before_month y m"
    using days_before_month_table [OF assms(2,3), of y] month_day_bounds [OF assms(2,3)] by simp
  ultimately show ?thesis using assms(4) by simp
qed

lemma leap_years_range:
  assumes "y \<le> 2037"
  shows "ZBX_LEAP_YEARS y \<le> 495"
proof -
  have "(y - 1) div 400 - (y - 1) div 100 \<le> - 3 * ((y - 1) div 400)"
    by (simp add: div_mult2_eq [symmetric])
  moreover have "ZBX_LEAP_YEARS y = (y - 1) div 4 - (y - 1) div 100 + (y - 1) div 400"
    by (simp only: ZBX_LEAP_YEARS_def)
  ultimately show ?thesis using assms by linarith
qed

lemma civil_days_upper:
  assumes "y \<le> 2037" "1 \<le> m" "m \<le> 12" "d \<le> 31"
  shows "civil_days y m d \<le> 24838"
proof -
  have "ZBX_LEAP_YEARS 1970 = 477" by (simp add: ZBX_LEAP_YEARS_def)
  then show ?thesis
    using leap_years_range [OF assms(1)] days_before_month_table [OF assms(2,3), of y]
      month_day_bounds [OF assms(2,3)] assms
    by (simp add: civil_days_def split: if_splits)
qed

definition valid_date :: "int \<Rightarrow> int \<Rightarrow> int \<Rightarrow> bool" where
  "valid_date y m d \<longleftrightarrow> 1 \<le> m \<and> m \<le> 12 \<and> 1 \<le> d \<and> d \<le> zbx_day_in_month y m"

definition valid_time :: "int \<Rightarrow> int \<Rightarrow> int \<Rightarrow> bool" where
  "valid_time h m s \<longleftrightarrow> 0 \<le> h \<and> h \<le> 23 \<and> 0 \<le> m \<and> m \<le> 59 \<and> 0 \<le> s \<and> s \<le> 59"

lemma utc_time_eq:
  assumes "1970 \<le> y" "y \<le> 2037" "valid_date y m d" "valid_time h mi s"
  shows "zbx_utc_time y m d h mi s
    = Some (civil_days y m d * SEC_PER_DAY + h * SEC_PER_HOUR + mi * SEC_PER_MIN + s)"
proof -
  let ?t = "civil_days y m d * SEC_PER_DAY + h * SEC_PER_HOUR + mi * SEC_PER_MIN + s"
  have m: "1 \<le> m" "m \<le> 12" and d: "1 \<le> d" "d \<le> 31"
    using assms(3) day_in_month_le_31 [of y m] by (auto simp: valid_date_def)
  have t: "0 \<le> civil_days y m d" "civil_days y m d \<le> 24838"
    using civil_days_nonneg [OF assms(1) m d(1)] civil_days_upper [OF assms(2) m d(2)] by auto
  then have "0 \<le> ?t" "?t < 2 ^ 31" using assms(4) by (auto simp: valid_time_def)
  then have wrap: "wrap32 ?t = ?t" by (simp add: wrap32_id)
  have sum: "(y - 1970) * SEC_PER_YEAR
      + (ZBX_LEAP_YEARS (if 2 < m then y + 1 else y) - ZBX_LEAP_YEARS 1970) * SEC_PER_DAY
      + (month_day m + d - 1) * SEC_PER_DAY + h * SEC_PER_HOUR + mi * SEC_PER_MIN + s = ?t"
    by (simp only: utc_days [OF m])
  have "1970 \<le> y \<and> 1 \<le> m \<and> m \<le> 12 \<and> 1 \<le> d \<and> d \<le> zbx_day_in_month y m
      \<and> 0 \<le> h \<and> h \<le> 23 \<and> 0 \<le> mi \<and> mi \<le> 59 \<and> 0 \<le> s \<and> s \<le> 61"
    using assms by (simp add: valid_date_def valid_time_def)
  with wrap \<open>0 \<le> ?t\<close> show ?thesis by (simp only: zbx_utc_time_def Let_def sum if_True simp_thms)
qed

section \<open>Adding and subtracting calendar units\<close>

definition tm_valid :: "tm \<Rightarrow> bool" where
  "tm_valid tm \<longleftrightarrow> valid_date (tm_year tm + 1900) (tm_mon tm + 1) (tm_mday tm)"

definition tm_days :: "tm \<Rightarrow> int" where
  "tm_days tm = civil_days (tm_year tm + 1900) (tm_mon tm + 1) (tm_mday tm)"

definition same_time :: "tm \<Rightarrow> tm \<Rightarrow> bool" where
  "same_time a b \<longleftrightarrow> tm_hour a = tm_hour b \<and> tm_min a = tm_min b \<and> tm_sec a = tm_sec b
     \<and> tm_wday a = tm_wday b \<and> tm_yday a = tm_yday b \<and> tm_isdst a = tm_isdst b"

text \<open>
  A date whose year cannot leave the 32 bits while days are carried into it: each carry adds at most one year and takes
  at least 28 days, and the other way round.
\<close>

definition carry_ok :: "tm \<Rightarrow> bool" where
  "carry_ok tm \<longleftrightarrow> - (2 ^ 31) \<le> tm_year tm \<and> tm_year tm + tm_mday tm + 1900 < 2 ^ 31"

definition borrow_ok :: "tm \<Rightarrow> bool" where
  "borrow_ok tm \<longleftrightarrow> - (2 ^ 31) < tm_year tm + tm_mday tm \<and> tm_year tm + 1900 < 2 ^ 31"

lemma tm_add_one_month:
  assumes "0 \<le> tm_mon tm" "tm_mon tm \<le> 11" "- (2 ^ 31) \<le> tm_year tm" "tm_year tm + 1 < 2 ^ 31"
  shows "tm_add_month tm 1 = (if tm_mon tm = 11 then tm\<lparr>tm_mon := 0, tm_year := tm_year tm + 1\<rparr>
    else tm\<lparr>tm_mon := tm_mon tm + 1\<rparr>)"
  using assms by (auto simp: tm_add_month_def tm_add_year_def Let_def cmod_nonneg cdiv_nonneg wrap32_id)

lemma tm_sub_one_month:
  assumes "0 \<le> tm_mon tm" "tm_mon tm \<le> 11" "- (2 ^ 31) < tm_year tm" "tm_year tm < 2 ^ 31"
  shows "tm_sub_month tm 1 = (if tm_mon tm = 0 then tm\<lparr>tm_mon := 11, tm_year := tm_year tm - 1\<rparr>
    else tm\<lparr>tm_mon := tm_mon tm - 1\<rparr>)"
  using assms by (auto simp: tm_sub_month_def tm_sub_year_def Let_def neg_to_pos_wrap_def cmod_def cdiv_def wrap32_id)

lemma tm_days_carry:
  assumes "0 \<le> tm_mon tm" "tm_mon tm \<le> 11" "- (2 ^ 31) \<le> tm_year tm" "tm_year tm + 1 < 2 ^ 31"
  shows "tm_days (tm_add_month (tm\<lparr>tm_mday := tm_mday tm
      - zbx_day_in_month (tm_year tm + 1900) (tm_mon tm + 1)\<rparr>) 1) = tm_days tm"
proof (cases "tm_mon tm = 11")
  case True
  then show ?thesis
    using assms civil_days_next_year [of "tm_year tm + 1900"]
    by (simp add: tm_add_one_month tm_days_def)
next
  case False
  then show ?thesis
    using assms civil_days_next_month [of "tm_mon tm + 1" "tm_year tm + 1900"]
    by (simp add: tm_add_one_month tm_days_def)
qed

lemma add_day_carry:
  assumes "0 \<le> tm_mon tm" "tm_mon tm \<le> 11" "1 \<le> tm_mday tm" "carry_ok tm"
  shows "tm_valid (tm_add_day_carry tm) \<and> tm_days (tm_add_day_carry tm) = tm_days tm
    \<and> same_time (tm_add_day_carry tm) tm"
  using assms
proof (induction tm rule: tm_add_day_carry.induct)
  case (1 tm)
  let ?d = "zbx_day_in_month (tm_year tm + 1900) (tm_mon tm + 1)"
  let ?n = "tm_add_month (tm\<lparr>tm_mday := tm_mday tm - ?d\<rparr>) 1"
  have y: "- (2 ^ 31) \<le> tm_year tm" "tm_year tm + 1 < 2 ^ 31" "wrap32 (tm_year tm + 1900) = tm_year tm + 1900"
    "wrap32 (tm_mon tm + 1) = tm_mon tm + 1"
    using 1(2-5) by (auto simp: carry_ok_def wrap32_id)
  show ?case
  proof (cases "tm_mday tm > ?d")
    case True
    have "tm_year tm + (tm_mday tm - ?d) + 1901 < 2 ^ 31"
      using 1(5) day_in_month_pos [of "tm_year tm + 1900" "tm_mon tm + 1"] unfolding carry_ok_def by linarith
    then have n: "0 \<le> tm_mon ?n" "tm_mon ?n \<le> 11" "1 \<le> tm_mday ?n" "carry_ok ?n" "same_time ?n tm"
      using 1 True y by (auto simp: tm_add_one_month same_time_def carry_ok_def)
    have "tm_add_day_carry tm = tm_add_day_carry ?n"
      using True by (subst tm_add_day_carry.simps) (simp add: Let_def y)
    moreover have "tm_days ?n = tm_days tm" using tm_days_carry 1(2,3) y(1,2) by simp
    moreover have "tm_valid (tm_add_day_carry ?n) \<and> tm_days (tm_add_day_carry ?n) = tm_days ?n \<and> same_time (tm_add_day_carry ?n) ?n"
      using "1.IH" [OF HOL.refl] True n(1-4) by (simp add: y)
    ultimately show ?thesis using n(5) by (simp add: same_time_def)
  next
    case False
    then have "tm_add_day_carry tm = tm" by (subst tm_add_day_carry.simps) (simp add: Let_def y)
    with False 1 show ?thesis by (simp add: tm_valid_def valid_date_def same_time_def)
  qed
qed

lemma tm_days_borrow:
  assumes "0 \<le> tm_mon tm" "tm_mon tm \<le> 11" "- (2 ^ 31) < tm_year tm" "tm_year tm < 2 ^ 31"
  shows "tm_days (tm_sub_month (tm\<lparr>tm_mday := tm_mday tm + zbx_day_in_month (tm_year tm + 1900)
      ((if 0 > tm_mon tm - 1 then 11 else tm_mon tm - 1) + 1)\<rparr>) 1) = tm_days tm"
proof (cases "tm_mon tm = 0")
  case True
  have "zbx_day_in_month (tm_year tm + 1900) 12 = zbx_day_in_month (tm_year tm + 1899) 12"
    by (simp add: zbx_day_in_month_def)
  then show ?thesis
    using assms True civil_days_next_year [of "tm_year tm + 1899" "tm_mday tm"]
    by (simp add: tm_sub_one_month tm_days_def add.commute [of _ "tm_year tm"])
next
  case False
  then show ?thesis
    using assms civil_days_next_month [of "tm_mon tm" "tm_year tm + 1900" "tm_mday tm"]
    by (simp add: tm_sub_one_month tm_days_def)
qed

lemma sub_day_borrow:
  assumes "0 \<le> tm_mon tm" "tm_mon tm \<le> 11" "borrow_ok tm"
    "tm_mday tm \<le> zbx_day_in_month (tm_year tm + 1900) (tm_mon tm + 1)"
  shows "tm_valid (tm_sub_day_borrow tm) \<and> tm_days (tm_sub_day_borrow tm) = tm_days tm
    \<and> same_time (tm_sub_day_borrow tm) tm"
  using assms
proof (induction tm rule: tm_sub_day_borrow.induct)
  case (1 tm)
  let ?p = "(if 0 > tm_mon tm - 1 then 11 else tm_mon tm - 1) + 1"
  let ?n = "tm_sub_month (tm\<lparr>tm_mday := tm_mday tm + zbx_day_in_month (tm_year tm + 1900) ?p\<rparr>) 1"
  show ?case
  proof (cases "0 \<ge> tm_mday tm")
    case True
    have y: "- (2 ^ 31) < tm_year tm" "tm_year tm < 2 ^ 31" "wrap32 (tm_year tm + 1900) = tm_year tm + 1900"
      "wrap32 (tm_mon tm - 1) = tm_mon tm - 1"
      using 1(2-4) True by (auto simp: borrow_ok_def wrap32_id)
    have dec: "zbx_day_in_month (tm_year tm + 1900) 12 = zbx_day_in_month (tm_year tm + 1899) 12"
      by (simp add: zbx_day_in_month_def)
    have "- (2 ^ 31) < tm_year tm - 1 + (tm_mday tm + zbx_day_in_month (tm_year tm + 1900) ?p)"
      using 1(4) day_in_month_pos [of "tm_year tm + 1900" ?p] unfolding borrow_ok_def by linarith
    then have n: "0 \<le> tm_mon ?n" "tm_mon ?n \<le> 11" "borrow_ok ?n" "same_time ?n tm"
      "tm_mday ?n \<le> zbx_day_in_month (tm_year ?n + 1900) (tm_mon ?n + 1)"
      using 1(2-4) True dec y
      by (auto simp: tm_sub_one_month same_time_def borrow_ok_def add.commute [of _ "tm_year tm"])
    have "tm_sub_day_borrow tm = tm_sub_day_borrow ?n"
      using True by (subst tm_sub_day_borrow.simps) (simp add: Let_def y)
    moreover have "tm_days ?n = tm_days tm" using tm_days_borrow 1(2,3) y(1,2) by simp
    moreover have "tm_valid (tm_sub_day_borrow ?n) \<and> tm_days (tm_sub_day_borrow ?n) = tm_days ?n \<and> same_time (tm_sub_day_borrow ?n) ?n"
      using "1.IH" [OF True HOL.refl, unfolded y, OF n(1,2,3,5)] .
    ultimately show ?thesis using n(4) by (simp add: same_time_def)
  next
    case False
    then have "tm_sub_day_borrow tm = tm" by (subst tm_sub_day_borrow.simps) simp
    with False 1 show ?thesis by (simp add: tm_valid_def valid_date_def same_time_def)
  qed
qed

lemma tm_days_mday [simp]: "tm_days (tm\<lparr>tm_mday := tm_mday tm + n\<rparr>) = tm_days tm + n"
    "tm_days (tm\<lparr>tm_mday := tm_mday tm - n\<rparr>) = tm_days tm - n"
  by (simp_all add: tm_days_def civil_days_def)

lemma tm_days_frame [simp]: "tm_days (tm\<lparr>tm_wday := w\<rparr>) = tm_days tm"
    "tm_days (tm\<lparr>tm_hour := h\<rparr>) = tm_days tm" "tm_valid (tm\<lparr>tm_wday := w\<rparr>) = tm_valid tm"
    "tm_valid (tm\<lparr>tm_hour := h\<rparr>) = tm_valid tm"
  by (simp_all add: tm_days_def tm_valid_def)

text \<open>How far a date may be moved without leaving the 32 bits: 2100000000 days, or hours, from a year within ten million years.\<close>

definition move_fits :: "tm \<Rightarrow> int \<Rightarrow> bool" where
  "move_fits tm n \<longleftrightarrow> \<bar>tm_year tm\<bar> \<le> 10000000 \<and> 0 \<le> tm_wday tm \<and> tm_wday tm \<le> 6 \<and> 0 \<le> n \<and> n \<le> 2100000000"

lemma tm_valid_bounds: "tm_valid tm \<Longrightarrow> 0 \<le> tm_mon tm \<and> tm_mon tm \<le> 11 \<and> 1 \<le> tm_mday tm \<and> tm_mday tm \<le> 31"
  using day_in_month_le_31 [of "tm_year tm + 1900" "tm_mon tm + 1"] by (auto simp: tm_valid_def valid_date_def)

lemma tm_add_day_days:
  assumes "tm_valid tm" "move_fits tm n"
  shows "tm_valid (tm_add_day tm n) \<and> tm_days (tm_add_day tm n) = tm_days tm + n
    \<and> tm_hour (tm_add_day tm n) = tm_hour tm \<and> tm_min (tm_add_day tm n) = tm_min tm
    \<and> tm_sec (tm_add_day tm n) = tm_sec tm \<and> tm_wday (tm_add_day tm n) = cmod (tm_wday tm + n) 7"
proof -
  note b = tm_valid_bounds [OF assms(1)]
  have w: "wrap32 (tm_mday tm + n) = tm_mday tm + n" "wrap32 (tm_wday tm + n) = tm_wday tm + n"
    using assms(2) b by (simp_all add: move_fits_def wrap32_id)
  have "carry_ok (tm\<lparr>tm_mday := tm_mday tm + n\<rparr>)" using assms(2) b by (auto simp: carry_ok_def move_fits_def abs_le_iff)
  then show ?thesis using add_day_carry [of "tm\<lparr>tm_mday := tm_mday tm + n\<rparr>"] b w assms(2)
    by (simp add: tm_add_day_def Let_def same_time_def move_fits_def)
qed

lemma tm_sub_day_days:
  assumes "tm_valid tm" "move_fits tm n"
  shows "tm_valid (tm_sub_day tm n) \<and> tm_days (tm_sub_day tm n) = tm_days tm - n
    \<and> tm_hour (tm_sub_day tm n) = tm_hour tm \<and> tm_min (tm_sub_day tm n) = tm_min tm
    \<and> tm_sec (tm_sub_day tm n) = tm_sec tm"
proof -
  note b = tm_valid_bounds [OF assms(1)]
  have w: "wrap32 (tm_mday tm - n) = tm_mday tm - n" using assms(2) b by (simp add: move_fits_def wrap32_id)
  have "borrow_ok (tm\<lparr>tm_mday := tm_mday tm - n\<rparr>)" using assms(2) b by (auto simp: borrow_ok_def move_fits_def abs_le_iff)
  moreover have "tm_mday tm - n \<le> zbx_day_in_month (tm_year tm + 1900) (tm_mon tm + 1)"
    using assms by (simp add: tm_valid_def valid_date_def move_fits_def)
  ultimately show ?thesis using sub_day_borrow [of "tm\<lparr>tm_mday := tm_mday tm - n\<rparr>"] b w
    by (simp add: tm_sub_day_def Let_def same_time_def)
qed

text \<open>Hours since the epoch: the quantity that the hour, day and week units move.\<close>

definition tm_hours :: "tm \<Rightarrow> int" where
  "tm_hours tm = tm_days tm * 24 + tm_hour tm"

lemma tm_add_hour_hours:
  assumes "tm_valid tm" "0 \<le> tm_hour tm" "tm_hour tm \<le> 23" "move_fits tm n"
  shows "tm_valid (tm_add_hour tm n) \<and> tm_hours (tm_add_hour tm n) = tm_hours tm + n
    \<and> 0 \<le> tm_hour (tm_add_hour tm n) \<and> tm_hour (tm_add_hour tm n) \<le> 23"
proof (cases "24 \<le> tm_hour tm + n")
  case True
  let ?h = "tm_hour tm + n"
  have c: "cmod ?h 24 = ?h mod 24" "cdiv ?h 24 = ?h div 24"
    using True by (simp_all add: cmod_nonneg cdiv_nonneg)
  have w: "wrap32 ?h = ?h" using assms by (simp add: move_fits_def wrap32_id)
  have "tm_valid (tm\<lparr>tm_hour := ?h mod 24\<rparr>)" "move_fits (tm\<lparr>tm_hour := ?h mod 24\<rparr>) (?h div 24)"
    using assms True by (auto simp: move_fits_def)
  note a = tm_add_day_days [OF this]
  have "?h div 24 * 24 + ?h mod 24 = ?h" by (rule div_mult_mod_eq)
  with a True c w show ?thesis by (simp add: tm_add_hour_def Let_def tm_hours_def algebra_simps)
next
  case False
  with assms show ?thesis by (simp add: tm_add_hour_def Let_def tm_hours_def tm_valid_def tm_days_def move_fits_def wrap32_id)
qed

lemma tm_sub_hour_hours:
  assumes "tm_valid tm" "0 \<le> tm_hour tm" "tm_hour tm \<le> 23" "move_fits tm n"
  shows "tm_valid (tm_sub_hour tm n) \<and> tm_hours (tm_sub_hour tm n) = tm_hours tm - n
    \<and> 0 \<le> tm_hour (tm_sub_hour tm n) \<and> tm_hour (tm_sub_hour tm n) \<le> 23"
proof (cases "0 > tm_hour tm - n")
  case True
  let ?k = "n - tm_hour tm"
  let ?r = "neg_to_pos_wrap (tm_hour tm - n) 24"
  let ?s = "cdiv (- (tm_hour tm - n)) 24 + (if ?r \<noteq> 0 then 1 else 0)"
  have k: "0 < ?k" using True by simp
  have w: "wrap32 (tm_hour tm - n) = tm_hour tm - n" "wrap32 (- (tm_hour tm - n)) = - (tm_hour tm - n)"
    using assms by (simp_all add: move_fits_def wrap32_id)
  have "cmod (tm_hour tm - n) 24 = - (?k mod 24)"
    using k by (simp add: cmod_def cdiv_def minus_div_mult_eq_mod [symmetric] sgn_if)
  then have r: "?r = (if ?k mod 24 = 0 then 0 else 24 - ?k mod 24)"
    by (simp add: neg_to_pos_wrap_def Let_def)
  have q: "cdiv (- (tm_hour tm - n)) 24 = ?k div 24" using k by (simp add: cdiv_nonneg)
  have b: "0 \<le> ?r" "?r \<le> 23" using r pos_mod_bound [of 24 ?k] pos_mod_sign [of 24 ?k] by auto
  have "0 \<le> ?k div 24" "?k div 24 < 2100000000" using k assms(2,4) unfolding move_fits_def by linarith+
  then have "move_fits (tm\<lparr>tm_hour := ?r\<rparr>) ?s" using q assms by (simp add: move_fits_def)
  moreover have "tm_valid (tm\<lparr>tm_hour := ?r\<rparr>)" using assms by simp
  ultimately have a: "tm_valid (tm_sub_day (tm\<lparr>tm_hour := ?r\<rparr>) ?s)
      \<and> tm_days (tm_sub_day (tm\<lparr>tm_hour := ?r\<rparr>) ?s) = tm_days tm - ?s
      \<and> tm_hour (tm_sub_day (tm\<lparr>tm_hour := ?r\<rparr>) ?s) = ?r"
    using tm_sub_day_days by fastforce
  have e: "?k div 24 * 24 + ?k mod 24 = ?k" by (rule div_mult_mod_eq)
  have g1: "24 - m - 24 * (d + 1) = h - j" if "d * 24 + m = j - h" for d m h j :: int
    using that by presburger
  have g2: "0 - 24 * d = h - j" if "d * 24 + m = j - h" "m = 0" for d m h j :: int
    using that by presburger
  have "?r - 24 * ?s = tm_hour tm - n"
  proof (cases "?k mod 24 = 0")
    case True
    with r have "?r = 0" by simp
    moreover from this q have "?s = ?k div 24" by simp
    ultimately have "?r - 24 * ?s = 0 - 24 * (?k div 24)" by (simp only:)
    also have "\<dots> = tm_hour tm - n" by (rule g2 [OF e True])
    finally show ?thesis .
  next
    case False
    with r have r': "?r = 24 - ?k mod 24" by simp
    moreover from this have "?r \<noteq> 0" using pos_mod_bound [of 24 ?k] by linarith
    moreover from this q have "?s = ?k div 24 + 1" by simp
    ultimately have "?r - 24 * ?s = (24 - ?k mod 24) - 24 * (?k div 24 + 1)" by (simp only:)
    also have "\<dots> = tm_hour tm - n" by (rule g1 [OF e])
    finally show ?thesis .
  qed
  moreover have "tm_sub_hour tm n = tm_sub_day (tm\<lparr>tm_hour := ?r\<rparr>) ?s"
    unfolding tm_sub_hour_def Let_def w using True by simp
  ultimately show ?thesis using a b unfolding tm_hours_def by (simp add: algebra_simps)
next
  case False
  with assms show ?thesis by (simp add: tm_sub_hour_def Let_def tm_hours_def tm_valid_def tm_days_def move_fits_def wrap32_id)
qed

section \<open>Time suffixes\<close>

lemma time_overflow_guard:
  "0 \<le> c \<Longrightarrow> c \<le> 9 \<Longrightarrow> (INT_MAX - c) div 10 < v \<longleftrightarrow> INT_MAX < v * 10 + (c :: int)"
  by linarith

lemma time_digits_eq:
  assumes "int (length str) < len" "v \<le> INT_MAX" "0 \<le> v"
  shows "time_digits str len v =
    (let ds = takeWhile isdigit str; w = foldl (\<lambda>v c. v * 10 + int (digit_val c)) v ds in
     if w \<le> INT_MAX then Some (dropWhile isdigit str, len - int (length ds), w) else None)"
  using assms
proof (induction str arbitrary: len v)
  case (Cons c str)
  have mono: "v \<le> foldl (\<lambda>v c. v * 10 + int (digit_val c)) v ds" if "0 \<le> v" for v ds
    using that
  proof (induction ds arbitrary: v)
    case (Cons d ds)
    have "v \<le> v * 10 + int (digit_val d)" using Cons.prems by simp
    also have "\<dots> \<le> foldl (\<lambda>v c. v * 10 + int (digit_val c)) (v * 10 + int (digit_val d)) ds"
      using Cons.prems by (intro Cons.IH) simp
    finally show ?case by simp
  qed simp
  show ?case
  proof (cases "isdigit c")
    case True
    then have g: "(INT_MAX - int (digit_val c)) div 10 < v \<longleftrightarrow> INT_MAX < v * 10 + int (digit_val c)"
      by (intro time_overflow_guard) (use digit_val_le_9 [OF True] in auto)
    have nn: "c \<noteq> NUL" using True by auto
    show ?thesis
    proof (cases "v * 10 + int (digit_val c) \<le> INT_MAX")
      case True
      with Cons.prems have "time_digits (c # str) len v
          = time_digits str (len - 1) (v * 10 + int (digit_val c))"
        using g nn \<open>isdigit c\<close> by simp
      with Cons.IH [of "len - 1" "v * 10 + int (digit_val c)"] True Cons.prems \<open>isdigit c\<close>
      show ?thesis by (simp add: Let_def algebra_simps)
    next
      case False
      with mono [of "v * 10 + int (digit_val c)" "takeWhile isdigit str"] Cons.prems g nn \<open>isdigit c\<close>
      show ?thesis by (simp add: Let_def)
    qed
  next
    case False
    with Cons.prems show ?thesis by simp
  qed
qed simp

lemma foldl_int_dec: "foldl (\<lambda>v c. v * 10 + int (digit_val c)) (int v) ds
    = int (foldl (\<lambda>v c. v * 10 + digit_val c) v ds)"
proof (induction ds arbitrary: v)
  case (Cons d ds)
  then show ?case using Cons.IH [of "v * 10 + digit_val d"] by simp
qed simp

lemma time_factor_pos: "time_factor c = Some f \<Longrightarrow> 0 < f \<and> c \<noteq> NUL \<and> \<not> isdigit c"
  by (auto simp: time_factor_def isdigit_def split: if_splits)

text \<open>Seconds, minutes, hours, days and weeks.\<close>

definition unit_seconds :: "(char \<times> int) list" where
  "unit_seconds = [(CHR ''s'', 1), (CHR ''m'', 60), (CHR ''h'', 60 * 60), (CHR ''d'', 24 * 60 * 60), (CHR ''w'', 7 * 24 * 60 * 60)]"

lemma time_factor_unit: "time_factor c = Some f \<longleftrightarrow> (c, f) \<in> set unit_seconds"
  by (auto simp: time_factor_def unit_seconds_def)

lemma time_suffix_eq:
  assumes "NUL \<notin> set str" "int (length str) < INT_MAX"
  shows "zbx_is_time_suffix str ZBX_LENGTH_UNLIMITED =
    (let ds = takeWhile isdigit str; suf = dropWhile isdigit str; w = int (dec_value ds) in
     if ds = [] \<or> INT_MAX < w then None
     else case (if suf = [] then Some 1 else if tl suf = [] then time_factor (hd suf) else None) of
       None \<Rightarrow> None
     | Some f \<Rightarrow> if INT_MAX div f < w then None else Some (w * f))"
proof (cases "takeWhile isdigit str = []")
  case True
  then have "\<not> isdigit (peek str)" by (cases str) (auto split: if_splits)
  with True show ?thesis by (simp add: zbx_is_time_suffix_def)
next
  case False
  then have str: "isdigit (peek str)" by (cases str) (auto split: if_splits)
  then have str': "peek str \<noteq> NUL" by auto
  have td: "time_digits str ZBX_LENGTH_UNLIMITED 0 =
    (let ds = takeWhile isdigit str; w = int (dec_value ds) in
     if w \<le> INT_MAX then Some (dropWhile isdigit str, INT_MAX - int (length ds), w) else None)"
    using time_digits_eq [of str INT_MAX 0] assms(2) foldl_int_dec [of 0] by (simp add: dec_value_def)
  show ?thesis
  proof (cases "dropWhile isdigit str")
    case Nil
    from td str str' False show ?thesis
      unfolding Nil Let_def zbx_is_time_suffix_def by (auto simp: not_le)
  next
    case (Cons x xs)
    have "set (dropWhile isdigit str) \<subseteq> set str" by (auto dest: set_dropWhileD)
    with assms(1) Cons have x: "x \<noteq> NUL" "NUL \<notin> set xs" by auto
    then have pk: "peek xs \<noteq> NUL \<longleftrightarrow> xs \<noteq> []" by (cases xs) auto
    have "length str = length (takeWhile isdigit str) + Suc (length xs)"
      using takeWhile_dropWhile_id [of isdigit str] Cons by (metis length_append length_Cons)
    then have l: "0 < INT_MAX - int (length (takeWhile isdigit str))" using assms(2) by linarith
    show ?thesis
      using td str str' False Cons x pk l
      by (auto simp: zbx_is_time_suffix_def Let_def not_le split: option.splits)
  qed
qed

section \<open>Timespec normalisation\<close>

definition total_ns :: "zbx_timespec \<Rightarrow> int" where
  "total_ns ts = sec ts * 1000000000 + ns ts"

text \<open>The seconds do not leave the 32 bits if the result does not.\<close>

lemma normalize_over_props:
  assumes "- (2 ^ 31) \<le> sec ts" "total_ns ts div 1000000000 < 2 ^ 31"
  shows "ns (normalize_over ts) < 1000000000 \<and> total_ns (normalize_over ts) = total_ns ts
    \<and> (0 \<le> ns ts \<longrightarrow> 0 \<le> ns (normalize_over ts)) \<and> (ns ts < 1000000000 \<longrightarrow> normalize_over ts = ts)"
  using assms
proof (induction ts rule: normalize_over.induct)
  case (1 ts)
  show ?case
  proof (cases "1000000000 \<le> ns ts")
    case True
    have w: "wrap32 (sec ts + 1) = sec ts + 1" using 1(2,3) True by (intro wrap32_id) (simp_all add: total_ns_def)
    let ?n = "ts\<lparr>sec := sec ts + 1, ns := ns ts - 1000000000\<rparr>"
    have t: "total_ns ?n = total_ns ts" by (simp add: total_ns_def)
    have "ns (normalize_over ?n) < 1000000000 \<and> total_ns (normalize_over ?n) = total_ns ?n \<and> (0 \<le> ns ?n \<longrightarrow> 0 \<le> ns (normalize_over ?n))"
      using 1(1) [OF True, unfolded w] 1(2,3) t by simp
    moreover have "normalize_over ts = normalize_over ?n" using True by (subst normalize_over.simps) (simp add: w)
    ultimately show ?thesis using True t by simp
  qed (simp add: normalize_over.simps)
qed

lemma normalize_under_props:
  assumes "sec ts < 2 ^ 31" "- (2 ^ 31) \<le> total_ns ts div 1000000000"
  shows "0 \<le> ns (normalize_under ts) \<and> total_ns (normalize_under ts) = total_ns ts
    \<and> (ns ts < 1000000000 \<longrightarrow> ns (normalize_under ts) < 1000000000)"
  using assms
proof (induction ts rule: normalize_under.induct)
  case (1 ts)
  show ?case
  proof (cases "0 > ns ts")
    case True
    have w: "wrap32 (sec ts - 1) = sec ts - 1" using 1(2,3) True by (intro wrap32_id) (simp_all add: total_ns_def)
    let ?n = "ts\<lparr>sec := sec ts - 1, ns := ns ts + 1000000000\<rparr>"
    have t: "total_ns ?n = total_ns ts" by (simp add: total_ns_def)
    have "0 \<le> ns (normalize_under ?n) \<and> total_ns (normalize_under ?n) = total_ns ?n
        \<and> (ns ?n < 1000000000 \<longrightarrow> ns (normalize_under ?n) < 1000000000)"
      using 1(1) [OF True, unfolded w] 1(2,3) t by simp
    moreover have "normalize_under ts = normalize_under ?n" using True by (subst normalize_under.simps) (simp add: w)
    ultimately show ?thesis using True t by simp
  qed (simp add: normalize_under.simps)
qed

section \<open>Properties\<close>

text \<open>
  C22: for every valid UTC date and time of the years 1970 to 2037 the conversion succeeds and returns the
  exact number of seconds since the epoch: the days of the reference calendar (whole years, whole months,
  days) times 86400 plus the time of day; the 32-bit result does not wrap.
\<close>

theorem utc_time_correct:
  assumes "1970 \<le> y" "y \<le> 2037" "valid_date y m d" "valid_time h mi s"
  shows "zbx_utc_time y m d h mi s
    = Some (((\<Sum>k \<in> {1970..<y}. year_length k) + (\<Sum>k \<in> {1..<m}. zbx_day_in_month y k) + d - 1)
        * SEC_PER_DAY + h * SEC_PER_HOUR + mi * SEC_PER_MIN + s)"
proof -
  have "civil_days y m d = civil_days y 1 1 + days_before_month y m + d - 1"
    by (simp add: civil_days_def)
  then show ?thesis
    using utc_time_eq [OF assms] civil_days_years [OF assms(1)] by (simp add: days_before_month_def)
qed

theorem utc_time_correct_witness:
  "zbx_utc_time 2024 2 29 12 30 15
    = Some (((\<Sum>k \<in> {1970..<2024}. year_length k) + (\<Sum>k \<in> {1..<2}. zbx_day_in_month 2024 k) + 29 - 1)
        * SEC_PER_DAY + 12 * SEC_PER_HOUR + 30 * SEC_PER_MIN + 15)"
  by (rule utc_time_correct)
    (simp_all add: valid_date_def valid_time_def zbx_day_in_month_def zbx_is_leap_year_def)

text \<open>
  C32: adding or subtracting up to 300000000 hours, days or weeks to a valid broken-down time of a year within ten
  million years moves its calendar position by exactly that many hours, across month ends, leap days and year ends, yields
  a valid date again, and no intermediate value leaves the 32 bits of an int (week counts above 306783378 would).
\<close>

theorem tm_add_sub_hours:
  assumes "tm_valid tm" "0 \<le> tm_hour tm" "tm_hour tm \<le> 23" "0 \<le> tm_wday tm" "tm_wday tm \<le> 6"
    "\<bar>tm_year tm\<bar> \<le> 10000000" "0 \<le> n" "n \<le> 300000000"
    "(base, unit) \<in> {(ZBX_TIME_UNIT_HOUR, 1), (ZBX_TIME_UNIT_DAY, 24), (ZBX_TIME_UNIT_WEEK, 168)}"
  shows "tm_valid (tm_add tm n base) \<and> tm_hours (tm_add tm n base) = tm_hours tm + n * unit
    \<and> tm_valid (tm_sub tm n base) \<and> tm_hours (tm_sub tm n base) = tm_hours tm - n * unit"
proof -
  have fits: "move_fits tm n" "move_fits tm (n * 7)" using assms(4-8) by (simp_all add: move_fits_def)
  have w: "wrap32 (n * 7) = n * 7" using assms(7,8) by (simp add: wrap32_id)
  show ?thesis
    using assms(9) tm_add_hour_hours [OF assms(1-3) fits(1)] tm_sub_hour_hours [OF assms(1-3) fits(1)]
      tm_add_day_days [OF assms(1) fits(1)] tm_sub_day_days [OF assms(1) fits(1)]
      tm_add_day_days [OF assms(1) fits(2)] tm_sub_day_days [OF assms(1) fits(2)]
    by (auto simp: tm_add_def tm_sub_def tm_hours_def w)
qed

theorem tm_add_sub_hours_witness:
  "let tm = \<lparr>tm_sec = 0, tm_min = 0, tm_hour = 23, tm_mday = 28, tm_mon = 1, tm_year = 124,
      tm_wday = 3, tm_yday = 58, tm_isdst = 0\<rparr> in
   tm_valid (tm_add tm 2 ZBX_TIME_UNIT_HOUR) \<and> tm_hours (tm_add tm 2 ZBX_TIME_UNIT_HOUR) = tm_hours tm + 2 * 1
    \<and> tm_valid (tm_sub tm 2 ZBX_TIME_UNIT_HOUR) \<and> tm_hours (tm_sub tm 2 ZBX_TIME_UNIT_HOUR) = tm_hours tm - 2 * 1"
  unfolding Let_def
  by (rule tm_add_sub_hours)
    (simp_all add: tm_valid_def valid_date_def zbx_day_in_month_def zbx_is_leap_year_def)

text \<open>
  Normalising a timespec keeps the instant it denotes and leaves the nanoseconds between 0 and 999999999, for positive and
  negative counts of nanoseconds, if the seconds of the result fit an int.
\<close>

theorem timespec_normalize_correct:
  assumes "- (2 ^ 31) \<le> sec ts" "sec ts < 2 ^ 31" "- (2 ^ 31) \<le> total_ns ts div 1000000000" "total_ns ts div 1000000000 < 2 ^ 31"
  shows "0 \<le> ns (zbx_timespec_normalize ts) \<and> ns (zbx_timespec_normalize ts) < 1000000000
    \<and> total_ns (zbx_timespec_normalize ts) = total_ns ts"
proof -
  note o = normalize_over_props [OF assms(1,4)]
  have "sec (normalize_over ts) < 2 ^ 31"
  proof (cases "ns ts < 1000000000")
    case False
    then have "0 \<le> ns (normalize_over ts)" using o by simp
    then have "sec (normalize_over ts) \<le> total_ns (normalize_over ts) div 1000000000" by (simp add: total_ns_def)
    then show ?thesis using o assms(4) by linarith
  qed (use o assms(2) in simp)
  then show ?thesis using normalize_under_props [of "normalize_over ts"] o assms(3) by (simp add: zbx_timespec_normalize_def)
qed

text \<open>
  C37: a whole string is accepted as a time with an optional suffix exactly when it is a non-empty run of
  decimal digits followed by nothing or by one of s, m, h, d, w, and the number of seconds it denotes
  fits into an int; the value is that number of seconds, never a wrapped one. What the letters denote is the table
  \<open>unit_seconds\<close>.
\<close>

theorem is_time_suffix_iff:
  assumes "NUL \<notin> set str" "int (length str) < INT_MAX"
  shows "zbx_is_time_suffix str ZBX_LENGTH_UNLIMITED = Some v \<longleftrightarrow>
    (\<exists>ds suf f. str = ds @ suf \<and> ds \<noteq> [] \<and> list_all isdigit ds
       \<and> (suf = [] \<and> f = 1 \<or> (\<exists>c. suf = [c] \<and> (c, f) \<in> set unit_seconds))
       \<and> v = int (dec_value ds) * f \<and> v \<le> INT_MAX)"
    (is "?l \<longleftrightarrow> ?r")
proof -
  have div: "INT_MAX div f < w \<longleftrightarrow> INT_MAX < w * f" if "0 < f" for f w :: int
    using that by (rule int_div_less_iff)
  have w_le: "w \<le> w * f" if "0 < f" "0 \<le> w" for f w :: int
    using mult_left_mono [of 1 f w] that by simp
  have tw: "list_all isdigit (takeWhile isdigit str)" by (auto simp: list_all_iff dest: set_takeWhileD)
  show ?thesis
  proof
    assume ?l
    then obtain f where f: "takeWhile isdigit str \<noteq> []"
      "(if dropWhile isdigit str = [] then Some 1 else if tl (dropWhile isdigit str) = []
        then time_factor (hd (dropWhile isdigit str)) else None) = Some f"
      "\<not> INT_MAX div f < int (dec_value (takeWhile isdigit str))"
      "v = int (dec_value (takeWhile isdigit str)) * f"
      unfolding time_suffix_eq [OF assms] by (auto simp: Let_def split: if_splits option.splits)
    have "0 < f" using f(2) by (auto dest: time_factor_pos split: if_splits)
    with f(3,4) div have "v \<le> INT_MAX" by (simp add: not_less)
    moreover have "dropWhile isdigit str = [] \<and> f = 1
        \<or> (\<exists>c. dropWhile isdigit str = [c] \<and> (c, f) \<in> set unit_seconds)"
      using f(2) by (cases "dropWhile isdigit str") (auto simp: time_factor_unit split: if_splits)
    ultimately show ?r using f tw by (metis takeWhile_dropWhile_id)
  next
    assume ?r
    then obtain ds suf f where s: "str = ds @ suf" "ds \<noteq> []" "list_all isdigit ds"
      "suf = [] \<and> f = 1 \<or> (\<exists>c. suf = [c] \<and> time_factor c = Some f)"
      "v = int (dec_value ds) * f" "v \<le> INT_MAX" unfolding time_factor_unit by blast
    have pos: "0 < f" using s(4) by (auto dest: time_factor_pos)
    have "suf = [] \<or> \<not> isdigit (hd suf)" using s(4) by (auto dest: time_factor_pos)
    then have tk: "takeWhile isdigit str = ds" "dropWhile isdigit str = suf"
      using s(1,3) by (cases suf; auto simp: list_all_iff)+
    have sel: "(if suf = [] then Some 1 else if tl suf = [] then time_factor (hd suf) else None) = Some f"
      using s(4) by auto
    have "int (dec_value ds) \<le> INT_MAX" using w_le [OF pos, of "int (dec_value ds)"] s(5,6) by simp
    moreover have "\<not> INT_MAX div f < int (dec_value ds)" using div [OF pos] s(5,6) by simp
    ultimately show ?l
      using s(2,5) by (simp add: time_suffix_eq [OF assms] tk Let_def sel not_less)
  qed
qed

theorem is_time_suffix_iff_witness:
  "zbx_is_time_suffix ''90m'' ZBX_LENGTH_UNLIMITED = Some 5400"
proof -
  have "dec_value ''90'' = 90" by (simp add: dec_value_def digit_val_def)
  then have "\<exists>ds suf f. ''90m'' = ds @ suf \<and> ds \<noteq> [] \<and> list_all isdigit ds
       \<and> (suf = [] \<and> f = 1 \<or> (\<exists>c. suf = [c] \<and> (c, f) \<in> set unit_seconds))
       \<and> 5400 = int (dec_value ds) * f \<and> (5400 :: int) \<le> INT_MAX"
    by (intro exI [of _ "''90''"] exI [of _ "''m''"] exI [of _ 60]) (simp add: unit_seconds_def isdigit_def)
  then show ?thesis using is_time_suffix_iff [of "''90m''" 5400] by simp
qed

end
