(* ===== verification/ZbxInterval.thy ===== *)
theory ZbxInterval
  imports ZbxTime
begin

text \<open>
  Parsing of item update intervals, \<^verbatim>\<open>src/libs/zbxexpr/interval.c\<close>: time periods, scheduler filters,
  scheduling and flexible intervals and the whole update interval string. The linked lists of filters
  and intervals are HOL lists in chain order (NULL is the empty list).

  The parsers walk a pointer \<^verbatim>\<open>text\<close> into the NUL-terminated string and a counter \<^verbatim>\<open>len\<close> of the
  characters left; both are kept, the pointer as the rest of the string, the counter as an \<open>int\<close>, since
  the code lets it run ahead of the pointer. Two pointers into the same string are compared by the
  length of what is left after them.
\<close>

section \<open>Data\<close>

record zbx_time_period =
  start_day :: int
  end_day :: int
  start_time :: int
  end_time :: int

record scheduler_filter =
  f_start :: int
  f_end :: int
  f_step :: int

record scheduler_interval =
  mdays :: "scheduler_filter list"
  wdays :: "scheduler_filter list"
  hours :: "scheduler_filter list"
  minutes :: "scheduler_filter list"
  seconds :: "scheduler_filter list"
  filter_level :: nat

record flexible_interval =
  period :: zbx_time_period
  delay :: int

record custom_interval =
  flexible :: "flexible_interval list"
  scheduling :: "scheduler_interval list"

abbreviation (input) ZBX_SCHEDULER_FILTER_DAY :: nat where "ZBX_SCHEDULER_FILTER_DAY \<equiv> 1"
abbreviation (input) ZBX_SCHEDULER_FILTER_HOUR :: nat where "ZBX_SCHEDULER_FILTER_HOUR \<equiv> 2"
abbreviation (input) ZBX_SCHEDULER_FILTER_MINUTE :: nat where "ZBX_SCHEDULER_FILTER_MINUTE \<equiv> 3"
abbreviation (input) ZBX_SCHEDULER_FILTER_SECOND :: nat where "ZBX_SCHEDULER_FILTER_SECOND \<equiv> 4"

section \<open>Time periods\<close>

fun scan_time_digits :: "string \<Rightarrow> int \<Rightarrow> nat \<Rightarrow> string \<times> int" where
  "scan_time_digits [] len k = ([], len)"
| "scan_time_digits (c # ptr) len k =
     (if 0 < len \<and> isdigit c \<and> 2 \<ge> k then scan_time_digits ptr (len - 1) (Suc k)
      else (c # ptr, len))"

definition time_parse :: "string \<Rightarrow> int \<Rightarrow> (int \<times> int) option" where
  "time_parse text old_len =
     (let (ptr, len) = scan_time_digits text old_len 0 in
      case zbx_is_uint_n_range text (length text - length ptr) True 4 0 24 of
        None \<Rightarrow> None
      | Some hh \<Rightarrow>
          if 0 \<ge> len \<or> peek ptr \<noteq> CHR '':'' then None
          else
            let text = tl ptr; (ptr, len) = scan_time_digits text (len - 1) 0 in
            if length text - length ptr \<noteq> 2 then None
            else case zbx_is_uint_n_range text 2 True 4 0 59 of
                None \<Rightarrow> None
              | Some mm \<Rightarrow>
                  if hh = 24 \<and> mm \<noteq> 0 then None
                  else Some (SEC_PER_HOUR * int hh + SEC_PER_MIN * int mm, old_len - len))"

definition is_weekday_char :: "char \<Rightarrow> bool" where
  "is_weekday_char c \<longleftrightarrow> 49 \<le> (of_char c :: nat) \<and> (of_char c :: nat) \<le> 55"

definition time_period_end_day :: "int \<Rightarrow> string \<Rightarrow> int \<Rightarrow> (int \<times> string \<times> int) option" where
  "time_period_end_day sday text len =
     (if peek text = CHR ''-''
      then let text = tl text; len = len - 1 in
        if 0 \<ge> len \<or> \<not> is_weekday_char (peek text) then None
        else let eday = int (digit_val (peek text)) in
          if sday > eday then None else Some (eday, tl text, len - 1)
      else Some (sday, text, len))"

definition time_period_parse :: "string \<Rightarrow> int \<Rightarrow> zbx_time_period option" where
  "time_period_parse text len =
     (if 0 \<ge> len \<or> \<not> is_weekday_char (peek text) then None
      else let sday = int (digit_val (peek text)); text = tl text; len = len - 1 in
        if 0 \<ge> len then None
        else case time_period_end_day sday text len of
            None \<Rightarrow> None
          | Some (eday, text, len) \<Rightarrow>
              if 0 \<ge> len \<or> peek text \<noteq> CHR '','' then None
              else let text = tl text; len = len - 1 in
                case time_parse text len of
                  None \<Rightarrow> None
                | Some (stime, parsed_len) \<Rightarrow>
                    let text = drop (nat parsed_len) text; len = len - parsed_len in
                    if 0 \<ge> len \<or> peek text \<noteq> CHR ''-'' then None
                    else let text = tl text; len = len - 1 in
                      case time_parse text len of
                        None \<Rightarrow> None
                      | Some (etime, parsed_len) \<Rightarrow>
                          if stime \<ge> etime then None
                          else if len - parsed_len \<noteq> 0 then None
                          else Some \<lparr>start_day = sday, end_day = eday,
                                      start_time = stime, end_time = etime\<rparr>)"

section \<open>Scheduler filters\<close>

fun skip_digits :: "string \<Rightarrow> int \<Rightarrow> string \<times> int" where
  "skip_digits [] len = ([], len)"
| "skip_digits (c # pend) len =
     (if isdigit c \<and> 0 < len then skip_digits pend (len - 1) else (c # pend, len))"

text \<open>A number of at most \<^verbatim>\<open>var_len\<close> digits after the separator \<^verbatim>\<open>*pend\<close> (the do-while loops).\<close>

definition filter_number ::
  "string \<Rightarrow> int \<Rightarrow> nat \<Rightarrow> nat \<Rightarrow> nat \<Rightarrow> (nat \<times> string \<times> int) option" where
  "filter_number pend len var_len vmin vmax =
     (let pstart = tl pend; (pend, len) = skip_digits pstart (len - 1);
          k = length pstart - length pend
      in if k = 0 \<or> k > var_len then None
         else map_option (\<lambda>v. (v, pend, len)) (zbx_is_uint_n_range pstart k True 4 vmin vmax))"

definition filter_range ::
  "string \<Rightarrow> int \<Rightarrow> nat \<Rightarrow> nat \<Rightarrow> nat \<Rightarrow> (nat \<times> nat \<times> string \<times> int) option" where
  "filter_range text len vmin vmax var_len =
     (let (pend, len) = skip_digits text len; k = length text - length pend in
      if k \<noteq> 0 then
        if k > var_len then None
        else case zbx_is_uint_n_range text k True 4 vmin vmax of
            None \<Rightarrow> None
          | Some start \<Rightarrow>
              if peek pend = CHR ''-'' then
                (case filter_number pend len var_len vmin vmax of
                   None \<Rightarrow> None
                 | Some (endv, pend, len) \<Rightarrow>
                     if endv < start then None else Some (start, endv, pend, len))
              else if peek pend = CHR ''/'' then None
              else Some (start, start, pend, len)
      else Some (vmin, vmax, pend, len))"

definition filter_fragment ::
  "string \<Rightarrow> int \<Rightarrow> nat \<Rightarrow> nat \<Rightarrow> nat \<Rightarrow> (scheduler_filter \<times> string \<times> int) option" where
  "filter_fragment text len vmin vmax var_len =
     (case filter_range text len vmin vmax var_len of
        None \<Rightarrow> None
      | Some (start, endv, pend, len) \<Rightarrow>
          if peek pend = CHR ''/'' then
            (case filter_number pend len var_len 1 (endv - start) of
               None \<Rightarrow> None
             | Some (step, pend, len) \<Rightarrow>
                 Some (\<lparr>f_start = int start, f_end = int endv, f_step = int step\<rparr>, pend, len))
          else if length pend = length text then None
          else Some (\<lparr>f_start = int start, f_end = int endv, f_step = 1\<rparr>, pend, len))"

lemma skip_digits_length: "length (fst (skip_digits text len)) \<le> length text"
  by (induction "text" len rule: skip_digits.induct) auto

lemma skip_digits_len: "snd (skip_digits text len) \<le> len"
  by (induction "text" len rule: skip_digits.induct) auto

lemma filter_number_shorter:
  "filter_number pend len var_len vmin vmax = Some (v, pend', len')
    \<Longrightarrow> length pend' \<le> length pend \<and> len' \<le> len"
  using skip_digits_length [of "tl pend" "len - 1"] skip_digits_len [of "tl pend" "len - 1"]
  by (auto simp: filter_number_def Let_def split: if_splits prod.splits)

lemma filter_range_shorter:
  "filter_range text len vmin vmax var_len = Some (s, e, pend, len')
    \<Longrightarrow> length pend \<le> length text \<and> len' \<le> len"
  using skip_digits_length [of "text" len] skip_digits_len [of "text" len]
  by (auto simp: filter_range_def Let_def split: if_splits prod.splits option.splits
        dest!: filter_number_shorter)

lemma filter_fragment_shorter:
  "filter_fragment text len vmin vmax var_len = Some (f, pend, len')
    \<Longrightarrow> length pend \<le> length text \<and> len' \<le> len"
  by (auto simp: filter_fragment_def split: if_splits prod.splits option.splits
        dest!: filter_number_shorter filter_range_shorter)

function scheduler_parse_filter_r ::
  "scheduler_filter list \<Rightarrow> string \<Rightarrow> int \<Rightarrow> nat \<Rightarrow> nat \<Rightarrow> nat \<Rightarrow> (scheduler_filter list \<times> int) option"
where
  "scheduler_parse_filter_r filt text len vmin vmax var_len =
     (case filter_fragment text len vmin vmax var_len of
        None \<Rightarrow> None
      | Some (filter_new, pend, len) \<Rightarrow>
          if peek pend = CHR '','' then
            if len - 1 = 0 then None
            else (case scheduler_parse_filter_r filt (tl pend) (len - 1) vmin vmax var_len of
                    None \<Rightarrow> None
                  | Some (filt, len) \<Rightarrow> Some (filter_new # filt, len))
          else Some (filter_new # filt, len))"
  by pat_completeness auto
termination scheduler_parse_filter_r
proof (relation "measure (\<lambda>(filt, text, len, vmin, vmax, var_len). length text)")
  fix tx len vmin vmax var_len filter_new pend len' and x y z and filt :: "scheduler_filter list"
  assume a: "filter_fragment tx len vmin vmax var_len = Some z" "(filter_new, y) = z"
    "(pend, len') = y" "peek pend = CHR '',''"
  then have "length pend \<le> length tx" "pend \<noteq> []" by (auto dest: filter_fragment_shorter)
  then show "((filt, tl pend, len' - 1, vmin, vmax, var_len), filt, tx, len, vmin, vmax, var_len)
      \<in> measure (\<lambda>(filt, text, len, vmin, vmax, var_len). length text)"
    by (cases pend) auto
qed simp

declare scheduler_parse_filter_r.simps [simp del]

definition scheduler_parse_filter ::
  "scheduler_filter list \<Rightarrow> string \<Rightarrow> int \<Rightarrow> nat \<Rightarrow> nat \<Rightarrow> nat \<Rightarrow> (scheduler_filter list \<times> int) option"
where
  "scheduler_parse_filter filt text len vmin vmax var_len =
     (if filt \<noteq> [] then None else scheduler_parse_filter_r filt text len vmin vmax var_len)"

section \<open>Scheduling intervals\<close>

lemma scheduler_parse_filter_r_len:
  "scheduler_parse_filter_r filt tx len vmin vmax var_len = Some (fs, len') \<Longrightarrow> len' \<le> len"
proof (induction filt tx len vmin vmax var_len arbitrary: fs len' rule: scheduler_parse_filter_r.induct)
  case (1 filt tx len vmin vmax var_len)
  from "1.prems" obtain f pend l where f: "filter_fragment tx len vmin vmax var_len = Some (f, pend, l)"
    by (subst (asm) scheduler_parse_filter_r.simps) (auto split: option.splits)
  with filter_fragment_shorter have l: "l \<le> len" by blast
  show ?case
  proof (cases "peek pend = CHR '',''")
    case True
    with "1.prems" f obtain fs' where
      "scheduler_parse_filter_r filt (tl pend) (l - 1) vmin vmax var_len = Some (fs', len')"
      by (subst (asm) scheduler_parse_filter_r.simps) (auto split: option.splits if_splits)
    with "1.IH" [OF f refl refl True] "1.prems" f True l show ?thesis
      by (subst (asm) (2) scheduler_parse_filter_r.simps) (fastforce split: if_splits)
  next
    case False
    with "1.prems" f l show ?thesis by (subst (asm) scheduler_parse_filter_r.simps) simp
  qed
qed

lemma scheduler_parse_filter_len:
  "scheduler_parse_filter filt tx len vmin vmax var_len = Some (fs, len') \<Longrightarrow> len' \<le> len"
  by (auto simp: scheduler_parse_filter_def split: if_splits dest: scheduler_parse_filter_r_len)

text \<open>One turn of the switch: \<open>text\<close> points at the unit letter, \<open>len\<close> is already decremented.\<close>

definition scheduler_interval_step ::
  "scheduler_interval \<Rightarrow> string \<Rightarrow> int \<Rightarrow> (scheduler_interval \<times> int) option" where
  "scheduler_interval_step interval text len =
     (if peek text = CHR ''h'' then
        if ZBX_SCHEDULER_FILTER_HOUR < filter_level interval then None
        else map_option (\<lambda>(fs, len). (interval\<lparr>hours := fs, filter_level := ZBX_SCHEDULER_FILTER_HOUR\<rparr>, len))
               (scheduler_parse_filter (hours interval) (tl text) len 0 23 2)
      else if peek text = CHR ''s'' then
        if ZBX_SCHEDULER_FILTER_SECOND < filter_level interval then None
        else map_option (\<lambda>(fs, len). (interval\<lparr>seconds := fs, filter_level := ZBX_SCHEDULER_FILTER_SECOND\<rparr>, len))
               (scheduler_parse_filter (seconds interval) (tl text) len 0 59 2)
      else if peek text = CHR ''w'' then
        if peek_at text 1 \<noteq> CHR ''d'' then None
        else if ZBX_SCHEDULER_FILTER_DAY < filter_level interval then None
        else map_option (\<lambda>(fs, len). (interval\<lparr>wdays := fs, filter_level := ZBX_SCHEDULER_FILTER_DAY\<rparr>, len))
               (scheduler_parse_filter (wdays interval) (drop 2 text) (len - 1) 1 7 1)
      else if peek text = CHR ''m'' then
        if peek_at text 1 = CHR ''d'' then
          if ZBX_SCHEDULER_FILTER_DAY < filter_level interval \<or> wdays interval \<noteq> [] then None
          else map_option (\<lambda>(fs, len). (interval\<lparr>mdays := fs, filter_level := ZBX_SCHEDULER_FILTER_DAY\<rparr>, len))
                 (scheduler_parse_filter (mdays interval) (drop 2 text) (len - 1) 1 31 2)
        else if ZBX_SCHEDULER_FILTER_MINUTE < filter_level interval then None
        else map_option (\<lambda>(fs, len). (interval\<lparr>minutes := fs, filter_level := ZBX_SCHEDULER_FILTER_MINUTE\<rparr>, len))
               (scheduler_parse_filter (minutes interval) (tl text) len 0 59 2)
      else None)"

lemma scheduler_interval_step_len:
  "scheduler_interval_step interval tx len = Some (interval', len') \<Longrightarrow> len' \<le> len \<and> tx \<noteq> []"
  by (cases tx) (auto simp: scheduler_interval_step_def split: if_splits
      dest!: scheduler_parse_filter_len)

function scheduler_interval_loop ::
  "scheduler_interval \<Rightarrow> string \<Rightarrow> int \<Rightarrow> scheduler_interval option" where
  "scheduler_interval_loop interval text len =
     (if len = 0 then Some interval
      else case scheduler_interval_step interval text (len - 1) of
          None \<Rightarrow> None
        | Some (interval, len') \<Rightarrow> scheduler_interval_loop interval (drop (nat (len - len')) text) len')"
  by pat_completeness auto
termination scheduler_interval_loop
proof (relation "measure (\<lambda>(interval, tx, len). length tx)")
  fix interval interval' :: scheduler_interval and tx :: string and len len' :: int and z
  assume "scheduler_interval_step interval tx (len - 1) = Some z" "(interval', len') = z"
  then show "((interval', drop (nat (len - len')) tx, len'), interval, tx, len)
      \<in> measure (\<lambda>(interval, tx, len). length tx)"
    by (auto dest!: scheduler_interval_step_len)
qed simp

declare scheduler_interval_loop.simps [simp del]

definition empty_scheduler_interval :: scheduler_interval where
  "empty_scheduler_interval = \<lparr>mdays = [], wdays = [], hours = [], minutes = [], seconds = [],
     filter_level = 0\<rparr>"

definition scheduler_interval_parse :: "scheduler_interval \<Rightarrow> string \<Rightarrow> int \<Rightarrow> scheduler_interval option" where
  "scheduler_interval_parse interval text len =
     (if len = 0 then None else scheduler_interval_loop interval text len)"

section \<open>Flexible intervals and the whole update interval\<close>

fun scan_to_slash :: "string \<Rightarrow> int \<Rightarrow> string \<times> int" where
  "scan_to_slash [] len = ([], len)"
| "scan_to_slash (c # ptr) len =
     (if 0 < len \<and> c \<noteq> NUL \<and> c \<noteq> CHR ''/'' then scan_to_slash ptr (len - 1) else (c # ptr, len))"

definition flexible_interval_parse :: "string \<Rightarrow> int \<Rightarrow> flexible_interval option" where
  "flexible_interval_parse text len =
     (let (ptr, len) = scan_to_slash text len in
      case zbx_is_time_suffix text (int (length text) - int (length ptr)) of
        None \<Rightarrow> None
      | Some d \<Rightarrow>
          if 0 \<ge> len \<or> peek ptr \<noteq> CHR ''/'' then None
          else map_option (\<lambda>p. \<lparr>period = p, delay = d\<rparr>) (time_period_parse (tl ptr) (len - 1)))"

text \<open>The error message names the kind of interval and quotes the segment at \<^verbatim>\<open>interval_str\<close>.\<close>

datatype interval_error =
  INVALID_UPDATE_INTERVAL string | INVALID_FLEXIBLE_INTERVAL string | INVALID_SCHEDULING_INTERVAL string

text \<open>\<^verbatim>\<open>delim - interval_str\<close>, or the whole length if there is no delimiter.\<close>

definition segment_length :: "string \<Rightarrow> string option \<Rightarrow> int" where
  "segment_length interval_str delim =
     (case delim of None \<Rightarrow> int (length interval_str)
      | Some d \<Rightarrow> int (length interval_str) - int (length d))"

definition segment :: "string \<Rightarrow> string option \<Rightarrow> string" where
  "segment interval_str delim = take (nat (segment_length interval_str delim)) interval_str"

function interval_preproc_loop ::
  "int \<Rightarrow> string \<Rightarrow> string option \<Rightarrow> flexible_interval list \<Rightarrow> scheduler_interval list
   \<Rightarrow> interval_error + string \<times> flexible_interval list \<times> scheduler_interval list" where
  "interval_preproc_loop simple_interval interval_str None flex sched = Inr (interval_str, flex, sched)"
| "interval_preproc_loop simple_interval interval_str (Some d) flex sched =
     (let interval_str = tl d; delim = strchr (tl d) CHR '';''; len = segment_length interval_str delim in
      if isdigit (peek interval_str) then
        (case flexible_interval_parse interval_str len of
           None \<Rightarrow> Inl (INVALID_FLEXIBLE_INTERVAL (segment interval_str delim))
         | Some new_interval \<Rightarrow>
             if simple_interval = 0 \<and> delay new_interval = 0
             then Inl (INVALID_FLEXIBLE_INTERVAL (segment interval_str delim))
             else interval_preproc_loop simple_interval interval_str delim (new_interval # flex) sched)
      else
        (case scheduler_interval_parse empty_scheduler_interval interval_str len of
           None \<Rightarrow> Inl (INVALID_SCHEDULING_INTERVAL (segment interval_str delim))
         | Some new_interval \<Rightarrow>
             interval_preproc_loop simple_interval interval_str delim flex (new_interval # sched)))"
  by pat_completeness auto
termination interval_preproc_loop
proof (relation "measure (\<lambda>(si, str, delim, flex, sched).
    case delim of None \<Rightarrow> 0 | Some d \<Rightarrow> Suc (length d))", goal_cases)
  case (2 si str d flex sched istr delim len new)
  then show ?case by (cases d) (auto dest!: strchr_length split: option.splits)
next
  case (3 si str d flex sched istr delim len new)
  then show ?case by (cases d) (auto dest!: strchr_length split: option.splits)
qed simp

text \<open>
  \<open>custom_intervals\<close> tells whether the caller passed a non-NULL output pointer; without one the
  custom intervals are not parsed.
\<close>

definition zbx_interval_preproc ::
  "string \<Rightarrow> bool \<Rightarrow> interval_error + int \<times> custom_interval option" where
  "zbx_interval_preproc interval_str custom_intervals =
     (let delim = strchr interval_str CHR '';'' in
      case zbx_is_time_suffix interval_str
             (case delim of None \<Rightarrow> ZBX_LENGTH_UNLIMITED | Some d \<Rightarrow> segment_length interval_str delim) of
        None \<Rightarrow> Inl (INVALID_UPDATE_INTERVAL (segment interval_str delim))
      | Some simple_interval \<Rightarrow>
          if \<not> custom_intervals then Inr (simple_interval, None)
          else case interval_preproc_loop simple_interval interval_str delim [] [] of
              Inl e \<Rightarrow> Inl e
            | Inr (interval_str, flex, sched) \<Rightarrow>
                if (flex = [] \<and> sched = [] \<and> simple_interval = 0) \<or> SEC_PER_DAY < simple_interval
                then Inl (INVALID_UPDATE_INTERVAL (segment interval_str None))
                else Inr (simple_interval, Some \<lparr>flexible = flex, scheduling = sched\<rparr>))"

definition zbx_custom_interval_is_scheduling :: "custom_interval \<Rightarrow> bool" where
  "zbx_custom_interval_is_scheduling custom_intervals \<longleftrightarrow> scheduling custom_intervals \<noteq> []"

section \<open>Well-formed results\<close>

definition filter_wf :: "int \<Rightarrow> int \<Rightarrow> scheduler_filter \<Rightarrow> bool" where
  "filter_wf vmin vmax f \<longleftrightarrow> vmin \<le> f_start f \<and> f_start f \<le> f_end f \<and> f_end f \<le> vmax
     \<and> 1 \<le> f_step f \<and> (f_step f = 1 \<or> f_step f \<le> f_end f - f_start f)"

definition period_wf :: "zbx_time_period \<Rightarrow> bool" where
  "period_wf p \<longleftrightarrow> 1 \<le> start_day p \<and> start_day p \<le> end_day p \<and> end_day p \<le> 7
     \<and> 0 \<le> start_time p \<and> start_time p < end_time p \<and> end_time p \<le> SEC_PER_DAY"

text \<open>
  A scheduling interval: every filter is inside the range of its unit, the filter level is the finest unit
  with a filter, and that unit has one.
\<close>

definition interval_wf :: "scheduler_interval \<Rightarrow> bool" where
  "interval_wf iv \<longleftrightarrow>
     list_all (filter_wf 1 31) (mdays iv) \<and> list_all (filter_wf 1 7) (wdays iv)
     \<and> list_all (filter_wf 0 23) (hours iv) \<and> list_all (filter_wf 0 59) (minutes iv)
     \<and> list_all (filter_wf 0 59) (seconds iv)
     \<and> filter_level iv \<le> 4
     \<and> (filter_level iv < 1 \<longrightarrow> mdays iv = [] \<and> wdays iv = [])
     \<and> (filter_level iv < 2 \<longrightarrow> hours iv = []) \<and> (filter_level iv < 3 \<longrightarrow> minutes iv = [])
     \<and> (filter_level iv < 4 \<longrightarrow> seconds iv = [])
     \<and> (filter_level iv = 1 \<longrightarrow> mdays iv \<noteq> [] \<or> wdays iv \<noteq> [])
     \<and> (filter_level iv = 2 \<longrightarrow> hours iv \<noteq> []) \<and> (filter_level iv = 3 \<longrightarrow> minutes iv \<noteq> [])
     \<and> (filter_level iv = 4 \<longrightarrow> seconds iv \<noteq> [])"

lemma uint_range_bounds:
  "zbx_is_uint_n_range s n True 4 vmin vmax = Some v \<Longrightarrow> vmax < 2 ^ 32 \<Longrightarrow> vmin \<le> v \<and> v \<le> vmax"
  by (auto simp: zbx_is_uint_n_range_def split: if_splits option.splits)

lemma filter_number_bounds:
  "filter_number pend len var_len vmin vmax = Some (v, pend', len') \<Longrightarrow> vmax < 2 ^ 32
    \<Longrightarrow> vmin \<le> v \<and> v \<le> vmax"
  by (auto simp: filter_number_def Let_def split: if_splits prod.splits dest!: uint_range_bounds)

lemma filter_range_bounds:
  assumes "filter_range tx len vmin vmax var_len = Some (s, e, pend, len')" "vmin \<le> vmax" "vmax < 2 ^ 32"
  shows "vmin \<le> s \<and> s \<le> e \<and> e \<le> vmax"
  using assms uint_range_bounds [OF _ assms(3)] filter_number_bounds [OF _ assms(3)]
  by (fastforce simp: filter_range_def Let_def split: if_splits prod.splits option.splits)

lemma filter_fragment_wf:
  assumes "filter_fragment tx len vmin vmax var_len = Some (f, pend, len')" "vmin \<le> vmax" "vmax < 2 ^ 32"
  shows "filter_wf (int vmin) (int vmax) f"
proof -
  from assms(1) obtain s e p l where r: "filter_range tx len vmin vmax var_len = Some (s, e, p, l)"
    by (auto simp: filter_fragment_def split: option.splits)
  note b = filter_range_bounds [OF r assms(2,3)]
  have "e - s \<le> vmax" using b by linarith
  then have lt: "e - s < 2 ^ 32" using assms(3) by (rule le_less_trans)
  show ?thesis
    using assms(1) r b
    by (auto simp: filter_fragment_def filter_wf_def split: if_splits option.splits
        dest!: filter_number_bounds [OF _ lt])
qed

lemma scheduler_parse_filter_r_wf:
  assumes "scheduler_parse_filter_r filt tx len vmin vmax var_len = Some (fs, len')"
    "vmin \<le> vmax" "vmax < 2 ^ 32" "list_all (filter_wf (int vmin) (int vmax)) filt"
  shows "fs \<noteq> [] \<and> list_all (filter_wf (int vmin) (int vmax)) fs"
  using assms
proof (induction filt tx len vmin vmax var_len arbitrary: fs len' rule: scheduler_parse_filter_r.induct)
  case (1 filt tx len vmin vmax var_len)
  from "1.prems"(1) obtain f pend l where f: "filter_fragment tx len vmin vmax var_len = Some (f, pend, l)"
    by (subst (asm) scheduler_parse_filter_r.simps) (auto split: option.splits)
  note wf = filter_fragment_wf [OF f "1.prems"(2,3)]
  show ?case
  proof (cases "peek pend = CHR '',''")
    case True
    with "1.prems"(1) f obtain fs' where l1: "l - 1 \<noteq> 0" and fs: "fs = f # fs'" and
      r: "scheduler_parse_filter_r filt (tl pend) (l - 1) vmin vmax var_len = Some (fs', len')"
      by (subst (asm) scheduler_parse_filter_r.simps) (auto split: option.splits if_splits)
    from "1.IH" [OF f refl refl True l1 r "1.prems"(2,3,4)] wf fs show ?thesis by simp
  next
    case False
    with "1.prems"(1) f have "fs = f # filt" by (subst (asm) scheduler_parse_filter_r.simps) simp
    with wf "1.prems"(4) show ?thesis by simp
  qed
qed

lemma scheduler_parse_filter_wf:
  assumes "scheduler_parse_filter filt tx len vmin vmax var_len = Some (fs, len')"
    "vmin \<le> vmax" "vmax < 2 ^ 32"
  shows "fs \<noteq> [] \<and> list_all (filter_wf (int vmin) (int vmax)) fs"
  using assms scheduler_parse_filter_r_wf [of "[]"]
  by (auto simp: scheduler_parse_filter_def split: if_splits)

lemma scheduler_interval_step_wf:
  assumes "scheduler_interval_step iv tx len = Some (iv', len')" "interval_wf iv"
  shows "interval_wf iv' \<and> 1 \<le> filter_level iv'"
proof -
  have "interval_wf iv' \<and> 1 \<le> filter_level iv'" if c: "peek tx = CHR ''h''"
  proof -
    from c assms(1) obtain fs where
      p: "scheduler_parse_filter (hours iv) (tl tx) (len) 0 23 2 = Some (fs, len')"
      and iv: "iv' = iv\<lparr>hours := fs, filter_level := 2\<rparr>" and l: "filter_level iv \<le> 2"
      by (auto simp: scheduler_interval_step_def split: if_splits)
    from scheduler_parse_filter_wf [OF p] have "fs \<noteq> [] \<and> list_all (filter_wf 0 23) fs" by simp
    with iv l assms(2) show ?thesis by (simp add: interval_wf_def)
  qed
  moreover
  have "interval_wf iv' \<and> 1 \<le> filter_level iv'" if c: "peek tx = CHR ''s''"
  proof -
    from c assms(1) obtain fs where
      p: "scheduler_parse_filter (seconds iv) (tl tx) (len) 0 59 2 = Some (fs, len')"
      and iv: "iv' = iv\<lparr>seconds := fs, filter_level := 4\<rparr>" and l: "filter_level iv \<le> 4"
      by (auto simp: scheduler_interval_step_def split: if_splits)
    from scheduler_parse_filter_wf [OF p] have "fs \<noteq> [] \<and> list_all (filter_wf 0 59) fs" by simp
    with iv l assms(2) show ?thesis by (simp add: interval_wf_def)
  qed
  moreover
  have "interval_wf iv' \<and> 1 \<le> filter_level iv'" if c: "peek tx = CHR ''w''"
  proof -
    from c assms(1) obtain fs where
      p: "scheduler_parse_filter (wdays iv) (drop 2 tx) (len - 1) 1 7 1 = Some (fs, len')"
      and iv: "iv' = iv\<lparr>wdays := fs, filter_level := 1\<rparr>" and l: "filter_level iv \<le> 1"
      by (auto simp: scheduler_interval_step_def split: if_splits)
    from scheduler_parse_filter_wf [OF p] have "fs \<noteq> [] \<and> list_all (filter_wf 1 7) fs" by simp
    with iv l assms(2) show ?thesis by (simp add: interval_wf_def)
  qed
  moreover
  have "interval_wf iv' \<and> 1 \<le> filter_level iv'" if c: "peek tx = CHR ''m'' \<and> peek_at tx 1 = CHR ''d''"
  proof -
    from c assms(1) obtain fs where
      p: "scheduler_parse_filter (mdays iv) (drop 2 tx) (len - 1) 1 31 2 = Some (fs, len')"
      and iv: "iv' = iv\<lparr>mdays := fs, filter_level := 1\<rparr>" and l: "filter_level iv \<le> 1"
      by (auto simp: scheduler_interval_step_def split: if_splits)
    from scheduler_parse_filter_wf [OF p] have "fs \<noteq> [] \<and> list_all (filter_wf 1 31) fs" by simp
    with iv l assms(2) show ?thesis by (simp add: interval_wf_def)
  qed
  moreover
  have "interval_wf iv' \<and> 1 \<le> filter_level iv'" if c: "peek tx = CHR ''m'' \<and> peek_at tx 1 \<noteq> CHR ''d''"
  proof -
    from c assms(1) obtain fs where
      p: "scheduler_parse_filter (minutes iv) (tl tx) (len) 0 59 2 = Some (fs, len')"
      and iv: "iv' = iv\<lparr>minutes := fs, filter_level := 3\<rparr>" and l: "filter_level iv \<le> 3"
      by (auto simp: scheduler_interval_step_def split: if_splits)
    from scheduler_parse_filter_wf [OF p] have "fs \<noteq> [] \<and> list_all (filter_wf 0 59) fs" by simp
    with iv l assms(2) show ?thesis by (simp add: interval_wf_def)
  qed
  ultimately show ?thesis
    using assms(1) by (fastforce simp: scheduler_interval_step_def split: if_splits)
qed

lemma scheduler_interval_loop_wf:
  assumes "scheduler_interval_loop iv tx len = Some iv'" "interval_wf iv"
  shows "interval_wf iv' \<and> (len \<noteq> 0 \<longrightarrow> 1 \<le> filter_level iv') \<and> filter_level iv \<le> filter_level iv'"
  using assms
proof (induction iv tx len rule: scheduler_interval_loop.induct)
  case (1 iv tx len)
  show ?case
  proof (cases "len = 0")
    case True
    with "1.prems" show ?thesis by (simp add: scheduler_interval_loop.simps)
  next
    case False
    with "1.prems"(1) obtain iv2 len2 where st: "scheduler_interval_step iv tx (len - 1) = Some (iv2, len2)"
      and l: "scheduler_interval_loop iv2 (drop (nat (len - len2)) tx) len2 = Some iv'"
      by (subst (asm) scheduler_interval_loop.simps) (auto split: option.splits)
    from scheduler_interval_step_wf [OF st "1.prems"(2)] have w: "interval_wf iv2" "1 \<le> filter_level iv2"
      by simp_all
    have "filter_level iv \<le> filter_level iv2"
      using st by (auto simp: scheduler_interval_step_def split: if_splits)
    with "1.IH" [OF False st refl l w(1)] w(2) show ?thesis by simp
  qed
qed

lemma empty_scheduler_interval_wf [simp]: "interval_wf empty_scheduler_interval"
  by (simp add: interval_wf_def empty_scheduler_interval_def)

lemma scheduler_interval_parse_wf:
  "scheduler_interval_parse empty_scheduler_interval tx len = Some iv
    \<Longrightarrow> interval_wf iv \<and> 1 \<le> filter_level iv"
  by (auto simp: scheduler_interval_parse_def split: if_splits dest!: scheduler_interval_loop_wf)

lemma time_parse_bounds:
  "time_parse tx len = Some (t, k) \<Longrightarrow> 0 \<le> t \<and> t \<le> SEC_PER_DAY"
  by (auto simp: time_parse_def Let_def split: if_splits prod.splits option.splits
      dest!: uint_range_bounds)

lemma weekday_char_val: "is_weekday_char c \<Longrightarrow> 1 \<le> digit_val c \<and> digit_val c \<le> 7"
  by (auto simp: is_weekday_char_def digit_val_def)

lemma time_period_end_day_bounds:
  "time_period_end_day d tx len = Some (e, tx', len') \<Longrightarrow> d \<le> 7 \<Longrightarrow> d \<le> e \<and> e \<le> 7"
  by (auto simp: time_period_end_day_def Let_def split: if_splits dest!: weekday_char_val)

lemma time_period_parse_wf:
  assumes "time_period_parse tx len = Some p"
  shows "period_wf p"
proof -
  let ?d = "int (digit_val (peek tx))"
  from assms have d: "is_weekday_char (peek tx)"
    by (auto simp: time_period_parse_def split: if_splits)
  from assms obtain e tx1 len1 where
    e: "time_period_end_day ?d (tl tx) (len - 1) = Some (e, tx1, len1)"
    by (auto simp: time_period_parse_def Let_def split: if_splits option.splits)
  from assms e obtain st k where
    st: "time_parse (tl tx1) (len1 - 1) = Some (st, k)"
    by (auto simp: time_period_parse_def Let_def split: if_splits option.splits)
  from assms e st obtain et k' tx2 len2 where
    et: "time_parse tx2 len2 = Some (et, k')" and "st < et"
    and p: "p = \<lparr>start_day = ?d, end_day = e, start_time = st, end_time = et\<rparr>"
    by (auto simp: time_period_parse_def Let_def split: if_splits option.splits)
  with weekday_char_val [OF d] time_period_end_day_bounds [OF e] time_parse_bounds [OF st]
    time_parse_bounds [OF et]
  show ?thesis by (simp add: period_wf_def)
qed

lemma time_digits_bounds:
  "time_digits str len v = Some (str', len', w) \<Longrightarrow> 0 \<le> v \<Longrightarrow> v \<le> INT_MAX \<Longrightarrow> 0 \<le> w \<and> w \<le> INT_MAX"
proof (induction str arbitrary: len v)
  case (Cons c str)
  show ?case
  proof (cases "c \<noteq> NUL \<and> 0 < len \<and> isdigit c")
    case True
    then have d: "0 \<le> int (digit_val c)" "int (digit_val c) \<le> 9" using digit_val_le_9 [of c] by auto
    with True Cons.prems time_overflow_guard [OF d, of v]
    have "v * 10 + int (digit_val c) \<le> INT_MAX"
      "time_digits str (len - 1) (v * 10 + int (digit_val c)) = Some (str', len', w)"
      by (auto simp: Let_def split: if_splits)
    with Cons.IH Cons.prems(2) d(1) show ?thesis by simp
  next
    case False
    with Cons.prems show ?thesis by auto
  qed
qed auto

lemma time_suffix_bounds: "zbx_is_time_suffix str len = Some v \<Longrightarrow> 0 \<le> v \<and> v \<le> INT_MAX"
proof -
  assume a: "zbx_is_time_suffix str len = Some v"
  then obtain s l w where td: "time_digits str len 0 = Some (s, l, w)"
    by (auto simp: zbx_is_time_suffix_def split: if_splits option.splits)
  have w: "0 \<le> w" using time_digits_bounds [OF td] by simp
  from a td obtain f s' l' where
    f: "(if peek s \<noteq> NUL \<and> 0 < l then map_option (\<lambda>factor. (factor, tl s, l - 1)) (time_factor (peek s))
         else Some (1, s, l)) = Some (f, s', l')" and "\<not> INT_MAX div f < w" "v = w * f"
    unfolding zbx_is_time_suffix_def by (simp split: if_splits option.splits)
  moreover from f have "0 < f" by (auto split: if_splits dest: time_factor_pos)
  ultimately show ?thesis using w int_div_less_iff [of f INT_MAX w] by simp
qed

definition flexible_wf :: "flexible_interval \<Rightarrow> bool" where
  "flexible_wf f \<longleftrightarrow> period_wf (period f) \<and> 0 \<le> delay f \<and> delay f \<le> INT_MAX"

lemma flexible_interval_parse_wf: "flexible_interval_parse tx len = Some f \<Longrightarrow> flexible_wf f"
  by (auto simp: flexible_interval_parse_def flexible_wf_def split: prod.splits option.splits if_splits
      dest!: time_suffix_bounds time_period_parse_wf)

lemma interval_preproc_loop_wf:
  assumes "interval_preproc_loop si str delim flex sched = Inr (str', flex', sched')"
    "\<forall>f \<in> set flex. flexible_wf f \<and> (si = 0 \<longrightarrow> delay f \<noteq> 0)"
    "\<forall>iv \<in> set sched. interval_wf iv \<and> 1 \<le> filter_level iv"
  shows "(\<forall>f \<in> set flex'. flexible_wf f \<and> (si = 0 \<longrightarrow> delay f \<noteq> 0))
    \<and> (\<forall>iv \<in> set sched'. interval_wf iv \<and> 1 \<le> filter_level iv)"
  using assms
proof (induction si str delim flex sched rule: interval_preproc_loop.induct)
  case (2 si str d flex sched)
  let ?s = "tl d" and ?dl = "strchr (tl d) CHR '';''"
  show ?case
  proof (cases "isdigit (peek ?s)")
    case True
    with "2.prems"(1) obtain f where f: "flexible_interval_parse ?s (segment_length ?s ?dl) = Some f"
      and z: "\<not> (si = 0 \<and> delay f = 0)"
      and r: "interval_preproc_loop si ?s ?dl (f # flex) sched = Inr (str', flex', sched')"
      by (auto simp: Let_def split: option.splits if_splits)
    from flexible_interval_parse_wf [OF f] z "2.prems"(2)
    have "\<forall>g \<in> set (f # flex). flexible_wf g \<and> (si = 0 \<longrightarrow> delay g \<noteq> 0)" by auto
    from "2.IH"(1) [OF refl refl refl True f z r this "2.prems"(3)] show ?thesis .
  next
    case False
    with "2.prems"(1) obtain iv where
      iv: "scheduler_interval_parse empty_scheduler_interval ?s (segment_length ?s ?dl) = Some iv"
      and r: "interval_preproc_loop si ?s ?dl flex (iv # sched) = Inr (str', flex', sched')"
      by (auto simp: Let_def split: option.splits)
    from scheduler_interval_parse_wf [OF iv] "2.prems"(3)
    have "\<forall>i \<in> set (iv # sched). interval_wf i \<and> 1 \<le> filter_level i" by auto
    from "2.IH"(2) [OF refl refl refl False iv r "2.prems"(2) this] show ?thesis .
  qed
qed auto

lemma interval_preproc_wf:
  assumes "zbx_interval_preproc str True = Inr (si, Some ci)"
  shows "0 \<le> si \<and> si \<le> SEC_PER_DAY
    \<and> (\<forall>f \<in> set (flexible ci). flexible_wf f \<and> (si = 0 \<longrightarrow> delay f \<noteq> 0))
    \<and> (\<forall>iv \<in> set (scheduling ci). interval_wf iv \<and> 1 \<le> filter_level iv)
    \<and> (si = 0 \<longrightarrow> flexible ci \<noteq> [] \<or> scheduling ci \<noteq> [])"
proof -
  let ?dl = "strchr str CHR '';''"
  from assms have ts: "zbx_is_time_suffix str
      (case ?dl of None \<Rightarrow> ZBX_LENGTH_UNLIMITED | Some d \<Rightarrow> segment_length str ?dl) = Some si"
    by (auto simp: zbx_interval_preproc_def Let_def split: option.splits sum.splits prod.splits if_splits)
  from assms obtain str' fl sc where
    l: "interval_preproc_loop si str ?dl [] [] = Inr (str', fl, sc)"
    and ci: "ci = \<lparr>flexible = fl, scheduling = sc\<rparr>"
    and "si \<le> SEC_PER_DAY" "\<not> (fl = [] \<and> sc = [] \<and> si = 0)"
    unfolding zbx_interval_preproc_def Let_def ts
    by (auto split: sum.splits prod.splits if_splits)
  with interval_preproc_loop_wf [OF l] time_suffix_bounds [OF ts] show ?thesis by auto
qed

lemma interval_preproc_some: "zbx_interval_preproc str True = Inr (si, ci) \<Longrightarrow> ci \<noteq> None"
  by (auto simp: zbx_interval_preproc_def Let_def split: option.splits sum.splits prod.splits if_splits)

text \<open>
  C23: Whatever the parser accepts is well-formed: the update interval lies within a day, every period has its
  days, times and delay in order and in range, every filter of a scheduling interval lies within the range of its
  unit with a positive step, and some interval is in force at some time: without an update interval no flexible
  delay is zero and there is at least one custom interval.
\<close>
theorem interval_parse_ok:
  "case zbx_interval_preproc str True of
     Inl e \<Rightarrow> True
   | Inr (si, None) \<Rightarrow> False
   | Inr (si, Some ci) \<Rightarrow> 0 \<le> si \<and> si \<le> SEC_PER_DAY
       \<and> (\<forall>f \<in> set (flexible ci). flexible_wf f \<and> (si = 0 \<longrightarrow> delay f \<noteq> 0))
       \<and> (\<forall>iv \<in> set (scheduling ci). interval_wf iv \<and> 1 \<le> filter_level iv)
       \<and> (si = 0 \<longrightarrow> flexible ci \<noteq> [] \<or> scheduling ci \<noteq> [])"
proof -
  have "case zbx_interval_preproc str True of Inl e \<Rightarrow> True | Inr (si, ci) \<Rightarrow> ci \<noteq> None"
    using interval_preproc_some by (auto split: sum.split)
  then show ?thesis using interval_preproc_wf by (auto split: sum.split option.splits)
qed

text \<open>An update interval with a flexible and a scheduling interval, parsed step by step.\<close>

definition sample_delay :: string where
  "sample_delay = ''30s;10/1-5,9:00-18:00;wd1-5h9m0-59/30''"

definition sample_intervals :: custom_interval where
  "sample_intervals =
     \<lparr>flexible = [\<lparr>period = \<lparr>start_day = 1, end_day = 5, start_time = 32400, end_time = 64800\<rparr>, delay = 10\<rparr>],
      scheduling = [\<lparr>mdays = [], wdays = [\<lparr>f_start = 1, f_end = 5, f_step = 1\<rparr>],
        hours = [\<lparr>f_start = 9, f_end = 9, f_step = 1\<rparr>], minutes = [\<lparr>f_start = 0, f_end = 59, f_step = 30\<rparr>],
        seconds = [], filter_level = 3\<rparr>]\<rparr>"

lemma sample_times:
  "time_parse ''9:00-18:00;wd1-5h9m0-59/30'' 10 = Some (32400, 4)"
  "time_parse ''18:00;wd1-5h9m0-59/30'' 5 = Some (64800, 5)"
  by (simp_all add: time_parse_def isdigit_def digit_val_def zbx_is_uint_n_range_def Let_def)

lemma sample_suffixes:
  "zbx_is_time_suffix ''30s;10/1-5,9:00-18:00;wd1-5h9m0-59/30'' 3 = Some 30"
  "zbx_is_time_suffix ''10/1-5,9:00-18:00;wd1-5h9m0-59/30'' 2 = Some 10"
  by code_simp+

lemma sample_flexible:
  "flexible_interval_parse ''10/1-5,9:00-18:00;wd1-5h9m0-59/30'' 17 = Some (hd (flexible sample_intervals))"
  by (simp add: flexible_interval_parse_def time_period_parse_def time_period_end_day_def is_weekday_char_def
      sample_times sample_suffixes sample_intervals_def Let_def digit_val_def)

lemma sample_scheduling:
  "scheduler_interval_parse empty_scheduler_interval ''wd1-5h9m0-59/30'' 15 = Some (hd (scheduling sample_intervals))"
  by (simp add: scheduler_interval_parse_def empty_scheduler_interval_def scheduler_interval_loop.simps
      scheduler_interval_step_def scheduler_parse_filter_def scheduler_parse_filter_r.simps filter_fragment_def
      filter_range_def filter_number_def zbx_is_uint_n_range_def Let_def peek_at_def isdigit_def digit_val_def
      sample_intervals_def)

lemma sample_delay_parsed: "zbx_interval_preproc sample_delay True = Inr (30, Some sample_intervals)"
  by (simp add: sample_delay_def zbx_interval_preproc_def segment_length_def sample_suffixes sample_flexible
      sample_scheduling isdigit_def) (simp add: sample_intervals_def)

theorem interval_parse_ok_witness:
  "\<exists>ci. zbx_interval_preproc sample_delay True = Inr (30, Some ci) \<and> (30 :: int) \<le> SEC_PER_DAY
    \<and> (\<forall>f \<in> set (flexible ci). flexible_wf f) \<and> (\<forall>iv \<in> set (scheduling ci). interval_wf iv)"
  using interval_parse_ok [of sample_delay] unfolding sample_delay_parsed by simp

end
