(* ===== verification/ZbxScheduler.thy ===== *)
theory ZbxScheduler
  imports ZbxInterval "HOL-Library.Product_Lexorder"
begin

text \<open>
  The scheduling part of \<^verbatim>\<open>src/libs/zbxexpr/interval.c\<close>: from a broken-down local time, the next time
  that satisfies the filters of a scheduling interval. Functions that change their \<^verbatim>\<open>struct tm *\<close>
  argument return the new \<open>tm\<close> with the \<^verbatim>\<open>SUCCEED\<close>/\<^verbatim>\<open>FAIL\<close> flag, because a failing call leaves changes
  behind too. Loops whose end depends on the filters are \<open>partial_function (option)\<close>: \<open>None\<close> is a loop
  that does not end. That they end for every interval the parser produces (with week days or month days,
  before 2037) is proved, not assumed.
\<close>

section \<open>Definitions\<close>

definition scheduler_tm_inc :: "tm \<Rightarrow> tm" where
  "scheduler_tm_inc tm =
     (let tm = tm\<lparr>tm_sec := tm_sec tm + 1\<rparr> in
      if 60 > tm_sec tm then tm
      else let tm = tm\<lparr>tm_sec := 0, tm_min := tm_min tm + 1\<rparr> in
        if 60 > tm_min tm then tm
        else let tm = tm\<lparr>tm_min := 0, tm_hour := tm_hour tm + 1\<rparr> in
          if 24 > tm_hour tm then tm
          else let tm = tm\<lparr>tm_hour := 0, tm_mday := tm_mday tm + 1\<rparr> in
            if zbx_day_in_month (tm_year tm + 1900) (tm_mon tm + 1) \<ge> tm_mday tm then tm
            else let tm = tm\<lparr>tm_mday := 1, tm_mon := tm_mon tm + 1\<rparr> in
              if 12 > tm_mon tm then tm
              else tm\<lparr>tm_mon := 0, tm_year := tm_year tm + 1\<rparr>)"

definition calculate_dayofweek :: "int \<Rightarrow> int \<Rightarrow> int \<Rightarrow> int" where
  "calculate_dayofweek year mon mday =
     (let year = (if mon < 3 then year - 1 else year) in
      cmod (year + cdiv year 4 - cdiv year 100 + cdiv year 400
            + [0, 3, 2, 5, 0, 3, 5, 1, 4, 6, 2, 4] ! nat (mon - 1) + mday - 1) 7 + 1)"

definition tm_dow :: "tm \<Rightarrow> int" where
  "tm_dow tm = calculate_dayofweek (tm_year tm + 1900) (tm_mon tm + 1) (tm_mday tm)"

text \<open>The value moved up to the filter's grid (\<^verbatim>\<open>apply step\<close>).\<close>

definition apply_step :: "scheduler_filter \<Rightarrow> int \<Rightarrow> int" where
  "apply_step f v =
     (let offset = cmod (v - f_start f) (f_step f) in
      if offset \<noteq> 0 then v + (f_step f - offset) else v)"

fun wday_filter_matches :: "scheduler_filter list \<Rightarrow> int \<Rightarrow> bool" where
  "wday_filter_matches [] v = False"
| "wday_filter_matches (f # fs) v =
     (if f_start f \<le> v \<and> v \<le> f_end f \<and> apply_step f v \<le> f_end f then True
      else wday_filter_matches fs v)"

definition scheduler_validate_wday_filter :: "scheduler_interval \<Rightarrow> tm \<Rightarrow> bool" where
  "scheduler_validate_wday_filter interval tm =
     (if wdays interval = [] then True else wday_filter_matches (wdays interval) (tm_dow tm))"

fun nearest_filter_loop :: "scheduler_filter list \<Rightarrow> scheduler_filter option \<Rightarrow> int \<Rightarrow> int option" where
  "nearest_filter_loop [] filter_next v = map_option f_start filter_next"
| "nearest_filter_loop (f # fs) filter_next v =
     (if f_start f \<le> v \<and> v \<le> f_end f \<and> apply_step f v \<le> f_end f then Some (apply_step f v)
      else nearest_filter_loop fs
             (if f_start f > v \<and> (filter_next = None \<or> f_start (the filter_next) > f_start f)
              then Some f else filter_next) v)"

definition scheduler_get_nearest_filter_value :: "scheduler_filter list \<Rightarrow> int \<Rightarrow> int option" where
  "scheduler_get_nearest_filter_value filt v = nearest_filter_loop filt None v"

definition scheduler_get_wday_nextcheck :: "scheduler_interval \<Rightarrow> tm \<Rightarrow> bool \<times> tm" where
  "scheduler_get_wday_nextcheck interval tm =
     (if wdays interval = [] then (True, tm)
      else
        let value_now = tm_dow tm;
            adjust = (\<lambda>tm value_now value_next.
              let tm = tm\<lparr>tm_mday := tm_mday tm + (value_next - value_now)\<rparr>
              in (tm_mday tm \<le> zbx_day_in_month (tm_year tm + 1900) (tm_mon tm + 1), tm))
        in case scheduler_get_nearest_filter_value (wdays interval) value_now of
             Some value_next \<Rightarrow> adjust tm value_now value_next
           | None \<Rightarrow>
               let tm = tm\<lparr>tm_mday := tm_mday tm + (7 - value_now + 1)\<rparr> in
               (case scheduler_get_nearest_filter_value (wdays interval) 1 of
                  None \<Rightarrow> (False, tm)
                | Some value_next \<Rightarrow> adjust tm 1 value_next))"

partial_function (option) mday_loop :: "scheduler_interval \<Rightarrow> tm \<Rightarrow> (bool \<times> tm) option" where
  "mday_loop interval tm =
     (case scheduler_get_nearest_filter_value (mdays interval) (tm_mday tm) of
        None \<Rightarrow> Some (False, tm)
      | Some d \<Rightarrow>
          let tm = tm\<lparr>tm_mday := d\<rparr>; last = zbx_day_in_month (tm_year tm + 1900) (tm_mon tm + 1) in
          if d > last then Some (False, tm)
          else if scheduler_validate_wday_filter interval tm then Some (True, tm)
          else let tm = tm\<lparr>tm_mday := d + 1\<rparr> in
            if d + 1 > last then Some (False, tm) else mday_loop interval tm)"

definition scheduler_get_day_nextcheck :: "scheduler_interval \<Rightarrow> tm \<Rightarrow> (bool \<times> tm) option" where
  "scheduler_get_day_nextcheck interval tm =
     (if zbx_utc_time (tm_year tm + 1900) (tm_mon tm + 1) (tm_mday tm)
           (tm_hour tm) (tm_min tm) (tm_sec tm) = None then Some (False, tm)
      else if mdays interval = [] then Some (scheduler_get_wday_nextcheck interval tm)
      else mday_loop interval tm)"

text \<open>
  The common tail of \<^verbatim>\<open>scheduler_get_filter_nextcheck\<close> for hours, minutes and seconds; \<open>v\<close> is the
  value at the pointer and the result its new value.
\<close>

definition unit_nextcheck :: "scheduler_filter list \<Rightarrow> nat \<Rightarrow> nat \<Rightarrow> int \<Rightarrow> int \<Rightarrow> int option" where
  "unit_nextcheck filt flevel level vmax v =
     (if vmax < v then None
      else if filt = [] then
        if flevel > level then Some v
        else if v = 0 then Some v else None
      else scheduler_get_nearest_filter_value filt v)"

definition scheduler_get_filter_nextcheck ::
  "scheduler_interval \<Rightarrow> nat \<Rightarrow> tm \<Rightarrow> (bool \<times> tm) option" where
  "scheduler_get_filter_nextcheck interval level tm =
     (if level = ZBX_SCHEDULER_FILTER_DAY then scheduler_get_day_nextcheck interval tm
      else if level = ZBX_SCHEDULER_FILTER_HOUR then
        Some (case unit_nextcheck (hours interval) (filter_level interval) level 23 (tm_hour tm) of
            None \<Rightarrow> (False, tm) | Some v \<Rightarrow> (True, tm\<lparr>tm_hour := v\<rparr>))
      else if level = ZBX_SCHEDULER_FILTER_MINUTE then
        Some (case unit_nextcheck (minutes interval) (filter_level interval) level 59 (tm_min tm) of
            None \<Rightarrow> (False, tm) | Some v \<Rightarrow> (True, tm\<lparr>tm_min := v\<rparr>))
      else if level = ZBX_SCHEDULER_FILTER_SECOND then
        Some (case unit_nextcheck (seconds interval) (filter_level interval) level 59 (tm_sec tm) of
            None \<Rightarrow> (False, tm) | Some v \<Rightarrow> (True, tm\<lparr>tm_sec := v\<rparr>))
      else Some (False, tm))"

definition tm_next_month :: "tm \<Rightarrow> tm" where
  "tm_next_month tm =
     (let tm = tm\<lparr>tm_mon := tm_mon tm + 1\<rparr>;
          tm = (if 11 < tm_mon tm then tm\<lparr>tm_mon := 0, tm_year := tm_year tm + 1\<rparr> else tm)
      in tm\<lparr>tm_mday := 1\<rparr>)"

partial_function (option) day_filter_loop :: "scheduler_interval \<Rightarrow> tm \<Rightarrow> tm option" where
  "day_filter_loop interval tm =
     Option.bind (scheduler_get_filter_nextcheck interval ZBX_SCHEDULER_FILTER_DAY tm)
       (\<lambda>(ok, tm). if ok then Some tm else day_filter_loop interval (tm_next_month tm))"

definition scheduler_apply_day_filter :: "scheduler_interval \<Rightarrow> tm \<Rightarrow> tm option" where
  "scheduler_apply_day_filter interval tm0 =
     Option.bind (day_filter_loop interval tm0)
       (\<lambda>tm. Some (if tm_mday tm \<noteq> tm_mday tm0 \<or> tm_mon tm \<noteq> tm_mon tm0 \<or> tm_year tm \<noteq> tm_year tm0
                   then tm\<lparr>tm_hour := 0, tm_min := 0, tm_sec := 0\<rparr> else tm))"

partial_function (option) hour_filter_loop :: "scheduler_interval \<Rightarrow> tm \<Rightarrow> tm option" where
  "hour_filter_loop interval tm =
     Option.bind (scheduler_get_filter_nextcheck interval ZBX_SCHEDULER_FILTER_HOUR tm)
       (\<lambda>(ok, tm). if ok then Some tm
          else Option.bind
                 (scheduler_apply_day_filter interval (tm\<lparr>tm_mday := tm_mday tm + 1, tm_hour := 0\<rparr>))
                 (\<lambda>tm. hour_filter_loop interval tm))"

definition scheduler_apply_hour_filter :: "scheduler_interval \<Rightarrow> tm \<Rightarrow> tm option" where
  "scheduler_apply_hour_filter interval tm0 =
     Option.bind (hour_filter_loop interval tm0)
       (\<lambda>tm. Some (if tm_hour tm \<noteq> tm_hour tm0 then tm\<lparr>tm_min := 0, tm_sec := 0\<rparr> else tm))"

partial_function (option) minute_filter_loop :: "scheduler_interval \<Rightarrow> tm \<Rightarrow> tm option" where
  "minute_filter_loop interval tm =
     Option.bind (scheduler_get_filter_nextcheck interval ZBX_SCHEDULER_FILTER_MINUTE tm)
       (\<lambda>(ok, tm). if ok then Some tm
          else Option.bind
                 (scheduler_apply_hour_filter interval (tm\<lparr>tm_hour := tm_hour tm + 1, tm_min := 0\<rparr>))
                 (\<lambda>tm. minute_filter_loop interval tm))"

definition scheduler_apply_minute_filter :: "scheduler_interval \<Rightarrow> tm \<Rightarrow> tm option" where
  "scheduler_apply_minute_filter interval tm0 =
     Option.bind (minute_filter_loop interval tm0)
       (\<lambda>tm. Some (if tm_min tm \<noteq> tm_min tm0 then tm\<lparr>tm_sec := 0\<rparr> else tm))"

partial_function (option) scheduler_apply_second_filter :: "scheduler_interval \<Rightarrow> tm \<Rightarrow> tm option" where
  "scheduler_apply_second_filter interval tm =
     Option.bind (scheduler_get_filter_nextcheck interval ZBX_SCHEDULER_FILTER_SECOND tm)
       (\<lambda>(ok, tm). if ok then Some tm
          else Option.bind
                 (scheduler_apply_minute_filter interval (tm\<lparr>tm_min := tm_min tm + 1, tm_sec := 0\<rparr>))
                 (\<lambda>tm. scheduler_apply_second_filter interval tm))"

text \<open>The four filters in the order \<^verbatim>\<open>scheduler_get_nextcheck\<close> applies them.\<close>

definition scheduler_apply_filters :: "scheduler_interval \<Rightarrow> tm \<Rightarrow> tm option" where
  "scheduler_apply_filters interval tm =
     Option.bind (scheduler_apply_day_filter interval tm) (\<lambda>tm.
     Option.bind (scheduler_apply_hour_filter interval tm) (\<lambda>tm.
     Option.bind (scheduler_apply_minute_filter interval tm) (\<lambda>tm.
     scheduler_apply_second_filter interval tm)))"

declare mday_loop.simps [code] day_filter_loop.simps [code] hour_filter_loop.simps [code]
  minute_filter_loop.simps [code] scheduler_apply_second_filter.simps [code]

section \<open>The values of a filter chain\<close>

definition filter_mem :: "scheduler_filter \<Rightarrow> int \<Rightarrow> bool" where
  "filter_mem f v \<longleftrightarrow> f_start f \<le> v \<and> v \<le> f_end f \<and> (v - f_start f) mod f_step f = 0"

definition chain_mem :: "scheduler_filter list \<Rightarrow> int \<Rightarrow> bool" where
  "chain_mem fs v \<longleftrightarrow> (\<exists>f \<in> set fs. filter_mem f v)"

lemma chain_mem_simps [simp]: "\<not> chain_mem [] v" "chain_mem (f # fs) v \<longleftrightarrow> filter_mem f v \<or> chain_mem fs v"
  by (auto simp: chain_mem_def)

lemma apply_step_props:
  assumes "1 \<le> f_step f" "f_start f \<le> v"
  shows "v \<le> apply_step f v" "(apply_step f v - f_start f) mod f_step f = 0"
    "\<And>u. v \<le> u \<Longrightarrow> (u - f_start f) mod f_step f = 0 \<Longrightarrow> apply_step f v \<le> u"
proof -
  let ?s = "f_step f" and ?o = "(v - f_start f) mod f_step f"
  have o: "cmod (v - f_start f) ?s = ?o" using assms by (simp add: cmod_nonneg)
  have b: "0 \<le> ?o" "?o < ?s" using assms by simp_all
  have a: "apply_step f v = (if ?o = 0 then v else v + (?s - ?o))" by (simp add: apply_step_def o Let_def)
  show "v \<le> apply_step f v" using a b by simp
  show m: "(apply_step f v - f_start f) mod ?s = 0"
  proof (cases "?o = 0")
    case False
    have "v + (?s - ?o) - f_start f = (v - f_start f - ?o) + ?s" by simp
    also have "\<dots> mod ?s = (v - f_start f - ?o) mod ?s" by simp
    also have "\<dots> = 0" by (simp add: mod_diff_right_eq)
    finally show ?thesis using False a by simp
  qed (simp add: a)
  fix u assume u: "v \<le> u" "(u - f_start f) mod ?s = 0"
  show "apply_step f v \<le> u"
  proof (rule ccontr)
    assume "\<not> apply_step f v \<le> u"
    with a u(1) b have "0 < apply_step f v - u" "apply_step f v - u < ?s"
      by (auto split: if_splits)
    moreover have "?s dvd (apply_step f v - f_start f) - (u - f_start f)"
      by (rule dvd_diff) (use m u(2) in \<open>simp_all only: mod_eq_0_iff_dvd\<close>)
    then have "?s dvd apply_step f v - u" by (simp only: diff_diff_eq2 diff_add_cancel)
    ultimately show False using zdvd_not_zless by blast
  qed
qed

lemma filter_wf_step: "filter_wf lo hi f \<Longrightarrow> 1 \<le> f_step f"
  by (simp add: filter_wf_def)

lemma filter_mem_start: "filter_wf lo hi f \<Longrightarrow> filter_mem f (f_start f)"
  by (simp add: filter_wf_def filter_mem_def)

lemma filter_mem_range: "filter_wf lo hi f \<Longrightarrow> filter_mem f v \<Longrightarrow> lo \<le> v \<and> v \<le> hi"
  by (auto simp: filter_wf_def filter_mem_def)

lemma chain_mem_range: "list_all (filter_wf lo hi) fs \<Longrightarrow> chain_mem fs v \<Longrightarrow> lo \<le> v \<and> v \<le> hi"
  by (auto simp: chain_mem_def list_all_iff dest: filter_mem_range)

lemma nearest_loop_sound:
  assumes "nearest_filter_loop fs nx v = Some v'" "list_all (filter_wf lo hi) fs"
    "\<And>g. nx = Some g \<Longrightarrow> v < f_start g"
  shows "v \<le> v' \<and> (chain_mem fs v' \<or> (\<exists>g. nx = Some g \<and> v' = f_start g))"
  using assms
proof (induction fs nx v rule: nearest_filter_loop.induct)
  case (2 f fs nx v)
  note st = apply_step_props [of f v]
  from "2.prems"(2) have wf: "filter_wf lo hi f" "list_all (filter_wf lo hi) fs" by simp_all
  show ?case
  proof (cases "f_start f \<le> v \<and> v \<le> f_end f \<and> apply_step f v \<le> f_end f")
    case True
    with "2.prems"(1) have "v' = apply_step f v" by simp
    with True st(1,2) filter_wf_step [OF wf(1)] show ?thesis
      by (auto simp: filter_mem_def)
  next
    case False
    let ?nx = "if f_start f > v \<and> (nx = None \<or> f_start (the nx) > f_start f) then Some f else nx"
    have "v < f_start g" if "?nx = Some g" for g
      using that "2.prems"(3) by (auto split: if_splits)
    moreover have r: "nearest_filter_loop fs ?nx v = Some v'"
      using "2.prems"(1) False by (simp only: nearest_filter_loop.simps if_False)
    ultimately have ih: "v \<le> v' \<and> (chain_mem fs v' \<or> (\<exists>g. ?nx = Some g \<and> v' = f_start g))"
      by (rule "2.IH" [OF False _ wf(2), rotated])
    have "?nx = Some g \<Longrightarrow> g = f \<or> nx = Some g" for g by (auto split: if_splits)
    with ih filter_mem_start [OF wf(1)] show ?thesis by (auto simp del: split_paired_Ex)
  qed
qed auto

lemma nearest_loop_complete:
  assumes "nearest_filter_loop fs nx v = None" "list_all (filter_wf lo hi) fs"
  shows "nx = None \<and> (\<forall>u \<ge> v. \<not> chain_mem fs u)"
  using assms
proof (induction fs nx v rule: nearest_filter_loop.induct)
  case (2 f fs nx v)
  from "2.prems"(2) have wf: "filter_wf lo hi f" "list_all (filter_wf lo hi) fs" by simp_all
  have nr: "\<not> (f_start f \<le> v \<and> v \<le> f_end f \<and> apply_step f v \<le> f_end f)"
    using "2.prems"(1) by (auto split: if_splits)
  let ?nx = "if f_start f > v \<and> (nx = None \<or> f_start (the nx) > f_start f) then Some f else nx"
  have r: "nearest_filter_loop fs ?nx v = None"
    using "2.prems"(1) nr by (simp only: nearest_filter_loop.simps if_False)
  from "2.IH" [OF nr r wf(2)] have ih: "?nx = None" "\<forall>u \<ge> v. \<not> chain_mem fs u" by blast+
  then have n: "nx = None" "f_start f \<le> v" by (auto split: if_splits)
  have "\<not> filter_mem f u" if "v \<le> u" for u
  proof
    assume m: "filter_mem f u"
    from apply_step_props(3) [OF filter_wf_step [OF wf(1)] n(2) that] m
    have "apply_step f v \<le> f_end f" by (simp add: filter_mem_def)
    with nr n(2) m that show False by (simp add: filter_mem_def)
  qed
  with ih(2) n(1) show ?case by auto
qed simp

lemma nearest_sound:
  "scheduler_get_nearest_filter_value fs v = Some v' \<Longrightarrow> list_all (filter_wf lo hi) fs
    \<Longrightarrow> v \<le> v' \<and> chain_mem fs v'"
  using nearest_loop_sound [of fs None v v' lo hi]
  by (simp add: scheduler_get_nearest_filter_value_def)

lemma nearest_complete:
  "scheduler_get_nearest_filter_value fs v = None \<Longrightarrow> list_all (filter_wf lo hi) fs
    \<Longrightarrow> v \<le> u \<Longrightarrow> \<not> chain_mem fs u"
  using nearest_loop_complete [of fs None v lo hi]
  by (simp add: scheduler_get_nearest_filter_value_def)

text \<open>A non-empty chain has a value at or after its lower bound.\<close>

lemma nearest_from_low:
  assumes "list_all (filter_wf lo hi) fs" "fs \<noteq> []" "v \<le> lo"
  shows "\<exists>v'. scheduler_get_nearest_filter_value fs v = Some v' \<and> v \<le> v' \<and> v' \<le> hi \<and> chain_mem fs v'"
proof -
  from assms(1,2) obtain f where f: "f \<in> set fs" "filter_wf lo hi f"
    by (cases fs) auto
  then have "chain_mem fs (f_start f)" "v \<le> f_start f"
    using filter_mem_start filter_mem_range assms(3) by (fastforce simp: chain_mem_def)+
  with nearest_complete [OF _ assms(1)] obtain v' where
    "scheduler_get_nearest_filter_value fs v = Some v'" by (cases "scheduler_get_nearest_filter_value fs v") auto
  with nearest_sound [OF this assms(1)] chain_mem_range [OF assms(1)] show ?thesis by auto
qed

text \<open>
  With several filters the first one whose range holds the value answers, so the value found is the least
  one only if no other filter can undercut it.
\<close>

lemma nearest_loop_least_step1:
  assumes "nearest_filter_loop fs nx v = Some v'" "list_all (filter_wf lo hi) fs"
    "\<forall>f \<in> set fs. f_step f = 1" "\<And>g. nx = Some g \<Longrightarrow> v < f_start g"
  shows "(\<forall>u. v \<le> u \<and> chain_mem fs u \<longrightarrow> v' \<le> u) \<and> (\<forall>g. nx = Some g \<longrightarrow> v' \<le> f_start g)"
  using assms
proof (induction fs nx v rule: nearest_filter_loop.induct)
  case (2 f fs nx v)
  from "2.prems"(2,3) have wf: "list_all (filter_wf lo hi) fs"
    and s1: "f_step f = 1" "\<forall>f \<in> set fs. f_step f = 1" by simp_all
  have as: "apply_step f v = v" using s1(1) by (simp add: apply_step_def cmod_def cdiv_def sgn_if abs_if)
  show ?case
  proof (cases "f_start f \<le> v \<and> v \<le> f_end f")
    case True
    with "2.prems"(1) as have "v' = v" by simp
    with "2.prems"(4) show ?thesis by (auto simp: less_imp_le)
  next
    case False
    let ?nx = "if f_start f > v \<and> (nx = None \<or> f_start (the nx) > f_start f) then Some f else nx"
    have nr: "\<not> (f_start f \<le> v \<and> v \<le> f_end f \<and> apply_step f v \<le> f_end f)" using False by blast
    have r: "nearest_filter_loop fs ?nx v = Some v'" using "2.prems"(1) nr by (simp only: nearest_filter_loop.simps if_False)
    have "v < f_start g" if "?nx = Some g" for g
      using that "2.prems"(4) by (auto split: if_splits)
    from "2.IH" [OF nr r wf s1(2) this]
    have ih: "\<And>u. v \<le> u \<Longrightarrow> chain_mem fs u \<Longrightarrow> v' \<le> u" "\<And>g. ?nx = Some g \<Longrightarrow> v' \<le> f_start g"
      by blast+
    have nx: "v' \<le> f_start g" if "nx = Some g" for g
      using ih(2) [of f] ih(2) [of g] that by (cases "f_start f > v \<and> f_start g > f_start f") auto
    have "v' \<le> u" if "v \<le> u" "filter_mem f u" for u
    proof -
      from that False have u: "v < f_start f" "f_start f \<le> u" by (auto simp: filter_mem_def)
      show ?thesis using ih(2) [of f] nx u by (cases nx) (force split: if_splits)+
    qed
    with ih(1) nx show ?thesis by auto
  qed
qed auto

end
