(* ===== verification/ZbxSearch.thy ===== *)
theory ZbxSearch
  imports ZbxScheduler
begin

text \<open>
  What the scheduler of \<^verbatim>\<open>src/libs/zbxexpr/interval.c\<close> promises: from a broken-down time, the filters of a
  scheduling interval lead to the least later time that they all admit. The hour, minute and second loops
  have one shape (look for a value of this unit, else step the next coarser unit once and look from zero),
  stated once in the locale \<open>unit_search\<close> and interpreted for each of them.
\<close>

section \<open>The day of the week\<close>

lemma month_table_mod:
  assumes "1 \<le> m" "m \<le> 12"
  shows "\<exists>k. month_day m = [0, 3, 2, 5, 0, 3, 5, 1, 4, 6, 2, 4] ! nat (m - 1)
    + (if m < 3 then 0 else 1) + 7 * k"
proof -
  have "(month_day m - ([0, 3, 2, 5, 0, 3, 5, 1, 4, 6, 2, 4] ! nat (m - 1)
    + (if m < 3 then 0 else 1))) mod 7 = 0"
    using month_cases [OF assms] by (elim disjE) (simp_all add: month_day_def)
  then obtain k where "month_day m - ([0, 3, 2, 5, 0, 3, 5, 1, 4, 6, 2, 4] ! nat (m - 1)
    + (if m < 3 then 0 else 1)) = 7 * k" unfolding mod_eq_0_iff_dvd by (rule dvdE)
  then show ?thesis by (intro exI [of _ k]) linarith
qed

lemma civil_days_table:
  assumes "1 \<le> m" "m \<le> 12"
  shows "civil_days y m d = 365 * (y - 1970)
    + (ZBX_LEAP_YEARS (if 2 < m then y + 1 else y) - 477) + month_day m + d - 1"
proof -
  have "ZBX_LEAP_YEARS 1970 = 477" by (simp add: ZBX_LEAP_YEARS_def)
  with utc_days [OF assms, of y d] show ?thesis by (simp add: algebra_simps)
qed

lemma leap_years_nonneg:
  assumes "1 \<le> y"
  shows "0 \<le> ZBX_LEAP_YEARS y"
proof -
  have "(y - 1) div 100 \<le> (y - 1) div 4" using assms by (intro zdiv_mono2) auto
  moreover have "0 \<le> (y - 1) div 400" using assms by (simp add: pos_imp_zdiv_nonneg_iff)
  ultimately show ?thesis by (simp add: ZBX_LEAP_YEARS_def)
qed

lemma dayofweek_civil:
  assumes "1970 \<le> y" "1 \<le> m" "m \<le> 12" "1 \<le> d"
  shows "calculate_dayofweek y m d = (civil_days y m d + 3) mod 7 + 1"
proof -
  let ?y = "if m < 3 then y - 1 else y"
  let ?t = "[0, 3, 2, 5, 0, 3, 5, 1, 4, 6, 2, 4] ! nat (m - 1) :: int"
  let ?L = "ZBX_LEAP_YEARS (if 2 < m then y + 1 else y)"
  have y: "0 \<le> ?y" "?y = (if 2 < m then y + 1 else y) - 1" using assms(1) by auto
  from y(1) have "cdiv ?y 4 - cdiv ?y 100 + cdiv ?y 400 = ?y div 4 - ?y div 100 + ?y div 400"
    by (simp only: cdiv_nonneg [OF y(1)] zero_less_numeral)
  also have "\<dots> = ?L" by (simp only: y(2) ZBX_LEAP_YEARS_def)
  finally have l: "cdiv ?y 4 - cdiv ?y 100 + cdiv ?y 400 = ?L" .
  have l0: "0 \<le> ?L" using assms(1) by (intro leap_years_nonneg) simp
  have t0: "0 \<le> ?t" using month_cases [OF assms(2,3)] by (elim disjE) simp_all
  obtain k where k: "month_day m = ?t + (if m < 3 then 0 else 1) + 7 * k"
    using month_table_mod [OF assms(2,3)] by blast
  let ?a = "?y + cdiv ?y 4 - cdiv ?y 100 + cdiv ?y 400 + ?t + d - 1"
  have a: "?a = ?y + ?L + ?t + d - 1" using l by linarith
  then have "0 \<le> ?a" using y(1) l0 t0 assms(4) by linarith
  then have "cmod ?a 7 = ?a mod 7" by (simp only: cmod_nonneg zero_less_numeral)
  also have "civil_days y m d + 3 = ?a + 7 * (52 * y - 102789 + k)"
    using civil_days_table [OF assms(2,3), of y d] a k by (simp split: if_splits)
  then have "?a mod 7 = (civil_days y m d + 3) mod 7" by (simp only: mod_mult_self2)
  finally show ?thesis by (simp only: calculate_dayofweek_def Let_def)
qed

section \<open>Searching one unit\<close>

text \<open>Months since 1900, and December 2037, the last month before the 32-bit timestamps end.\<close>

definition month_index :: "tm \<Rightarrow> int" where
  "month_index tm = 12 * tm_year tm + tm_mon tm"

abbreviation (input) LAST_MONTH :: int where
  "LAST_MONTH \<equiv> 1655"

text \<open>
  \<open>search_spec n E Pre M K low app\<close>: from a time that satisfies \<open>Pre\<close>, \<open>app\<close> ends at a time \<open>t'\<close> that
  satisfies \<open>M\<close> and is not before the start in the order \<open>K\<close> of the units searched so far; it is the first such
  time if \<open>E\<close> holds; the time is left alone if it satisfies \<open>M\<close>, else the finer units are
  cleared (\<open>low\<close>). The search passes at most \<open>n\<close> month ends.
\<close>

definition search_spec ::
  "int \<Rightarrow> bool \<Rightarrow> (tm \<Rightarrow> bool) \<Rightarrow> (tm \<Rightarrow> bool) \<Rightarrow> (tm \<Rightarrow> int) \<Rightarrow> (tm \<Rightarrow> bool) \<Rightarrow> (tm \<Rightarrow> tm option) \<Rightarrow> bool"
where
  "search_spec n E Pre M K low app \<longleftrightarrow>
     (\<forall>t. Pre t \<and> month_index t \<le> LAST_MONTH - n \<longrightarrow>
        (\<exists>t'. app t = Some t' \<and> M t' \<and> K t \<le> K t' \<and> (E \<longrightarrow> (\<forall>u. M u \<and> K t \<le> K u \<longrightarrow> K t' \<le> K u))
           \<and> (K t' = K t \<longrightarrow> t' = t) \<and> (K t' \<noteq> K t \<longrightarrow> low t') \<and> month_index t' \<le> month_index t + n))"

lemma search_specE:
  assumes "search_spec n E Pre M K low app" "Pre t" "month_index t \<le> LAST_MONTH - n"
  obtains t' where "app t = Some t'" "M t'" "K t \<le> K t'"
    "\<And>u. E \<Longrightarrow> M u \<Longrightarrow> K t \<le> K u \<Longrightarrow> K t' \<le> K u"
    "K t' = K t \<Longrightarrow> t' = t" "K t' \<noteq> K t \<Longrightarrow> low t'" "month_index t' \<le> month_index t + n"
  using assms unfolding search_spec_def by blast

text \<open>Comparison of two-digit numbers in base \<open>B\<close>.\<close>

lemma digits_le:
  assumes "0 \<le> a" "a < B" "0 \<le> b" "b < (B :: int)"
  shows "k * B + a \<le> l * B + b \<longleftrightarrow> k < l \<or> k = l \<and> a \<le> b"
proof -
  have "k * B + a < l * B + b" if "k < l" "0 \<le> a" "a < B" "0 \<le> b" "b < B" for k l a b :: int
  proof -
    have "(k + 1) * B \<le> l * B" using that by (intro mult_right_mono) auto
    with that show ?thesis by (simp add: distrib_right)
  qed
  from this [of k l a b] this [of l k b a] assms show ?thesis
    by (cases k l rule: linorder_cases) auto
qed

lemma digits_eq:
  assumes "0 \<le> a" "a < B" "0 \<le> b" "b < (B :: int)"
  shows "k * B + a = l * B + b \<longleftrightarrow> k = l \<and> a = b"
  using digits_le [OF assms, of k l] digits_le [OF assms(3,4,1,2), of l k] by auto

text \<open>
  One unit of the search. \<open>upper\<close> searches the coarser units, \<open>bump\<close> steps them once and zeroes this
  unit, \<open>nxt\<close> is the next value of this unit, \<open>clear\<close> zeroes the finer units, \<open>loop\<close> and \<open>app\<close> are the
  code's two functions.
\<close>

locale unit_search =
  fixes G E :: bool
    and Pre M M' Pre' :: "tm \<Rightarrow> bool" and K :: "tm \<Rightarrow> int" and upper :: "tm \<Rightarrow> tm option"
    and B :: int and gt :: "tm \<Rightarrow> int" and pt :: "int \<Rightarrow> tm \<Rightarrow> tm" and ok :: "int \<Rightarrow> bool"
    and nxt :: "int \<Rightarrow> int option" and bump clear :: "tm \<Rightarrow> tm" and low low' :: "tm \<Rightarrow> bool"
    and loop app :: "tm \<Rightarrow> tm option" and K' :: "tm \<Rightarrow> int"
  assumes upper: "G \<Longrightarrow> search_spec 2 E Pre M K low upper"
    and K': "K' t = K t * B + gt t"
    and M': "M' t \<longleftrightarrow> M t \<and> ok (gt t)"
    and ok_range: "ok v \<Longrightarrow> 0 \<le> v \<and> v < B"
    and nxt_None: "G \<Longrightarrow> nxt v = None \<Longrightarrow> 0 \<le> v \<Longrightarrow> v \<le> u \<Longrightarrow> \<not> ok u"
    and nxt_Some: "G \<Longrightarrow> nxt v = Some v' \<Longrightarrow> 0 \<le> v \<Longrightarrow> v \<le> v' \<and> ok v'"
    and nxt_least: "G \<Longrightarrow> nxt v = Some v' \<Longrightarrow> E \<Longrightarrow> 0 \<le> v \<Longrightarrow> v \<le> u \<Longrightarrow> ok u \<Longrightarrow> v' \<le> u"
    and nxt_0: "G \<Longrightarrow> nxt 0 \<noteq> None"
    and pt: "gt (pt v t) = v" "K (pt v t) = K t" "M (pt v t) = M t" "pt (gt t) t = t"
      "month_index (pt v t) = month_index t"
    and clear: "gt (clear t) = gt t" "K (clear t) = K t" "M (clear t) = M t" "low' (clear t)"
      "month_index (clear t) = month_index t"
    and bump: "K (bump t) = K t + 1" "gt (bump t) = 0" "month_index (bump t) = month_index t"
    and low_0: "low t \<Longrightarrow> gt t = 0 \<and> low' t"
    and Pre': "Pre' t \<Longrightarrow> M t \<and> Pre (bump t) \<and> 0 \<le> gt t \<and> gt t < B"
    and loop: "loop t = (case nxt (gt t) of Some v \<Rightarrow> Some (pt v t)
      | None \<Rightarrow> Option.bind (upper (bump t)) loop)"
    and app: "app t = Option.bind (loop t) (\<lambda>t'. Some (if gt t' \<noteq> gt t then clear t' else t'))"
begin

lemma here:
  assumes G and "Pre' t" "nxt (gt t) = Some v"
  shows "\<exists>t'. app t = Some t' \<and> M' t' \<and> K' t \<le> K' t' \<and> (E \<longrightarrow> (\<forall>u. M' u \<and> K' t \<le> K' u \<longrightarrow> K' t' \<le> K' u))
    \<and> (K' t' = K' t \<longrightarrow> t' = t) \<and> (K' t' \<noteq> K' t \<longrightarrow> low' t') \<and> month_index t' \<le> month_index t + 2"
proof -
  from Pre' [OF assms(2)] have p: "M t" "0 \<le> gt t" "gt t < B" by auto
  from nxt_Some [OF assms(1) assms(3) p(2)] ok_range have v: "gt t \<le> v" "ok v" "0 \<le> v" "v < B" by auto
  let ?t = "if v = gt t then t else clear (pt v t)"
  have a: "app t = Some ?t" using assms(3) by (simp add: app loop pt)
  have g: "gt ?t = v" "K ?t = K t" "M ?t" using p by (auto simp: pt clear)
  have least: "K' ?t \<le> K' u" if "E" "M' u" "K' t \<le> K' u" for u
  proof -
    from that(2) M' ok_range have u: "M u" "ok (gt u)" "0 \<le> gt u" "gt u < B" by blast+
    from that(3) have "K t < K u \<or> K t = K u \<and> gt t \<le> gt u"
      by (simp add: K' digits_le [OF p(2,3) u(3,4)])
    then have "K t < K u \<or> K t = K u \<and> v \<le> gt u"
      using nxt_least [OF assms(1) assms(3) that(1) p(2)] u(2) by blast
    then show ?thesis by (simp add: K' g digits_le [OF v(3,4) u(3,4)])
  qed
  show ?thesis
    by (rule exI [of _ ?t], intro conjI impI allI)
      (use a g v p least in \<open>auto simp: K' M' clear pt digits_le digits_eq\<close>)
qed

lemma above:
  assumes G and "Pre' t" "nxt (gt t) = None" "month_index t \<le> LAST_MONTH - 2"
  shows "\<exists>t'. app t = Some t' \<and> M' t' \<and> K' t \<le> K' t' \<and> (E \<longrightarrow> (\<forall>u. M' u \<and> K' t \<le> K' u \<longrightarrow> K' t' \<le> K' u))
    \<and> (K' t' = K' t \<longrightarrow> t' = t) \<and> (K' t' \<noteq> K' t \<longrightarrow> low' t') \<and> month_index t' \<le> month_index t + 2"
proof -
  from Pre' [OF assms(2)] have p: "M t" "Pre (bump t)" "0 \<le> gt t" "gt t < B" by auto
  from assms(4) have "month_index (bump t) \<le> LAST_MONTH - 2" by (simp add: bump)
  from search_specE [OF upper [OF assms(1)] p(2) this] obtain t1 where
    u1: "upper (bump t) = Some t1" and t1: "M t1" "K t + 1 \<le> K t1"
    and l1: "\<And>u. E \<Longrightarrow> M u \<Longrightarrow> K t + 1 \<le> K u \<Longrightarrow> K t1 \<le> K u"
    and "K t1 = K t + 1 \<Longrightarrow> t1 = bump t" "K t1 \<noteq> K t + 1 \<Longrightarrow> low t1"
    and mi: "month_index t1 \<le> month_index t + 2"
    by (auto simp: bump)
  then have g1: "gt t1 = 0" using low_0 bump(2) by metis
  obtain v where v0: "nxt 0 = Some v" using nxt_0 [OF assms(1)] by auto
  from nxt_Some [OF assms(1) v0] ok_range have v: "ok v" "0 \<le> v" "v < B" by auto
  have ne: "v \<noteq> gt t" "v < gt t"
    using nxt_None [OF assms(1) assms(3) p(3), of v] v(1) by (auto simp: not_less [symmetric])
  let ?t = "clear (pt v t1)"
  have a: "app t = Some ?t"
    using assms(3) u1 g1 v0 ne by (simp add: app loop [of t] loop [of t1] pt)
  have g: "gt ?t = v" "K ?t = K t1" "M ?t" using t1 by (auto simp: pt clear)
  have least: "K' ?t \<le> K' u" if "E" "M' u" "K' t \<le> K' u" for u
  proof -
    from that(2) M' ok_range have u: "M u" "ok (gt u)" "0 \<le> gt u" "gt u < B" by blast+
    from that(3) have "K t < K u \<or> K t = K u \<and> gt t \<le> gt u"
      by (simp add: K' digits_le [OF p(3,4) u(3,4)])
    then have "K t + 1 \<le> K u" using nxt_None [OF assms(1) assms(3) p(3), of "gt u"] u(2) by auto
    with l1 [OF that(1) u(1)] have "K t1 \<le> K u" .
    moreover have "v \<le> gt u" by (rule nxt_least [OF assms(1) v0 that(1) order_refl u(3,2)])
    ultimately have "K t1 < K u \<or> K t1 = K u \<and> v \<le> gt u" by auto
    then show ?thesis by (simp add: K' g digits_le [OF v(2,3) u(3,4)])
  qed
  have lt: "K t < K t1" using t1(2) by simp
  show ?thesis
    by (rule exI [of _ ?t], intro conjI impI allI)
      (use a g v p lt mi least in \<open>auto simp: K' M' clear pt digits_le digits_eq\<close>)
qed

lemma search: "G \<Longrightarrow> search_spec 2 E Pre' M' K' low' app"
  unfolding search_spec_def
proof (intro allI impI)
  fix t assume G and "Pre' t \<and> month_index t \<le> LAST_MONTH - 2"
  then show "\<exists>t'. app t = Some t' \<and> M' t' \<and> K' t \<le> K' t' \<and> (E \<longrightarrow> (\<forall>u. M' u \<and> K' t \<le> K' u \<longrightarrow> K' t' \<le> K' u))
    \<and> (K' t' = K' t \<longrightarrow> t' = t) \<and> (K' t' \<noteq> K' t \<longrightarrow> low' t') \<and> month_index t' \<le> month_index t + 2"
    using here above by (cases "nxt (gt t)") blast+
qed

text \<open>Searching the coarser units first and then this one.\<close>

lemma compose:
  assumes G and f: "search_spec n E Q M K low f" and Q: "\<And>t. Q t \<Longrightarrow> 0 \<le> gt t \<and> gt t < B"
    and pre: "\<And>t. M t \<Longrightarrow> Q t \<or> low t \<Longrightarrow> Pre' t" and n: "0 \<le> n"
  shows "search_spec (n + 2) E Q M' K' low' (\<lambda>t. Option.bind (f t) app)"
  unfolding search_spec_def
proof (intro allI impI)
  fix t assume t: "Q t \<and> month_index t \<le> LAST_MONTH - (n + 2)"
  then have q: "Q t" "month_index t \<le> LAST_MONTH - n" by auto
  from search_specE [OF f q] obtain t1 where
    f1: "f t = Some t1" and t1: "M t1" "K t \<le> K t1"
    and l1: "\<And>u. E \<Longrightarrow> M u \<Longrightarrow> K t \<le> K u \<Longrightarrow> K t1 \<le> K u"
    and s1: "K t1 = K t \<Longrightarrow> t1 = t" "K t1 \<noteq> K t \<Longrightarrow> low t1"
    and mi1: "month_index t1 \<le> month_index t + n" by metis
  have p1: "Pre' t1" using pre [OF t1(1)] q(1) s1 by blast
  have r1: "0 \<le> gt t1" "gt t1 < B" using Pre' [OF p1] by auto
  have m1: "month_index t1 \<le> LAST_MONTH - 2" using mi1 t by linarith
  from search_specE [OF search [OF assms(1)] p1 m1] obtain t2 where
    f2: "app t1 = Some t2" and t2: "M' t2" "K' t1 \<le> K' t2"
    and l2: "\<And>u. E \<Longrightarrow> M' u \<Longrightarrow> K' t1 \<le> K' u \<Longrightarrow> K' t2 \<le> K' u"
    and s2: "K' t2 = K' t1 \<Longrightarrow> t2 = t1" "K' t2 \<noteq> K' t1 \<Longrightarrow> low' t2"
    and mi2: "month_index t2 \<le> month_index t1 + 2" by metis
  have rt: "0 \<le> gt t" "gt t < B" using Q [OF q(1)] by auto
  have k1: "K' t \<le> K' t1" unfolding K' digits_le [OF rt r1] using t1(2) s1(1) by (metis order.order_iff_strict order_refl)
  have "K' t1 = K' t \<Longrightarrow> K t1 = K t" by (simp add: K' digits_eq [OF r1 rt])
  with s1(1) have k2: "K' t1 = K' t \<Longrightarrow> t1 = t" by blast
  have least: "K' t2 \<le> K' u" if "E" "M' u" "K' t \<le> K' u" for u
  proof -
    from that(2) M' ok_range have u: "M u" "0 \<le> gt u" "gt u < B" by blast+
    from that(3) have "K t < K u \<or> K t = K u \<and> gt t \<le> gt u" by (simp add: K' digits_le [OF rt u(2,3)])
    moreover from this l1 [OF that(1) u(1)] have "K t1 \<le> K u" by auto
    moreover have "gt t1 = 0" if "K t1 \<noteq> K t" using low_0 [OF s1(2) [OF that]] by simp
    ultimately have "K t1 < K u \<or> K t1 = K u \<and> gt t1 \<le> gt u" using s1(1) u(2) by fastforce
    then have "K' t1 \<le> K' u" by (simp add: K' digits_le [OF r1 u(2,3)])
    with l2 [OF that(1,2)] show ?thesis .
  qed
  have "low' t2" if "K' t2 \<noteq> K' t"
    using that s1 s2 low_0 by metis
  moreover have "t2 = t" if "K' t2 = K' t"
    using that k1 k2 t2(2) s2(1) by (metis order_antisym)
  ultimately show "\<exists>t'. Option.bind (f t) app = Some t' \<and> M' t' \<and> K' t \<le> K' t'
      \<and> (E \<longrightarrow> (\<forall>u. M' u \<and> K' t \<le> K' u \<longrightarrow> K' t' \<le> K' u))
      \<and> (K' t' = K' t \<longrightarrow> t' = t) \<and> (K' t' \<noteq> K' t \<longrightarrow> low' t') \<and> month_index t' \<le> month_index t + (n + 2)"
    using f1 f2 t2(1) order_trans [OF k1 t2(2)] least mi1 mi2 by (intro exI [of _ t2]) simp
qed

end

section \<open>Searching the day\<close>

definition simple_chain :: "scheduler_filter list \<Rightarrow> bool" where
  "simple_chain fs \<longleftrightarrow> length fs \<le> 1 \<or> list_all (\<lambda>f. f_step f = 1) fs"

definition last_day :: "tm \<Rightarrow> int" where
  "last_day t = zbx_day_in_month (tm_year t + 1900) (tm_mon t + 1)"

definition day_matches :: "scheduler_interval \<Rightarrow> tm \<Rightarrow> bool" where
  "day_matches iv t \<longleftrightarrow> (mdays iv = [] \<or> chain_mem (mdays iv) (tm_mday t))
     \<and> (wdays iv = [] \<or> chain_mem (wdays iv) (tm_dow t))"

definition date_ok :: "tm \<Rightarrow> bool" where
  "date_ok t \<longleftrightarrow> 70 \<le> tm_year t \<and> tm_valid t"

definition day_admitted :: "scheduler_interval \<Rightarrow> tm \<Rightarrow> bool" where
  "day_admitted iv t \<longleftrightarrow> date_ok t \<and> day_matches iv t"

definition time_ok :: "tm \<Rightarrow> bool" where
  "time_ok t \<longleftrightarrow> valid_time (tm_hour t) (tm_min t) (tm_sec t)"

definition day_start :: "tm \<Rightarrow> bool" where
  "day_start t \<longleftrightarrow> 70 \<le> tm_year t \<and> 0 \<le> tm_mon t \<and> tm_mon t \<le> 11 \<and> 1 \<le> tm_mday t \<and> tm_mday t \<le> 32
     \<and> time_ok t"

definition date_key :: "tm \<Rightarrow> int" where
  "date_key t = (tm_year t * 16 + tm_mon t) * 64 + tm_mday t"

lemma nearest_least_single:
  assumes "length fs \<le> 1" "list_all (filter_wf lo hi) fs"
    "scheduler_get_nearest_filter_value fs v = Some v'" "v \<le> u" "chain_mem fs u"
  shows "v' \<le> u"
proof -
  from assms(1,5) obtain f where f: "fs = [f]" "filter_mem f u" by (cases fs) auto
  have st: "1 \<le> f_step f" using assms(2) f(1) by (simp add: filter_wf_def)
  show ?thesis
  proof (cases "f_start f \<le> v")
    case True
    then have "apply_step f v \<le> u"
      using apply_step_props(3) [OF st _ assms(4)] f(2) by (simp add: filter_mem_def)
    with f assms(3,4) True show ?thesis
      by (auto simp: scheduler_get_nearest_filter_value_def filter_mem_def split: if_splits)
  next
    case False
    with f assms(3) show ?thesis
      by (auto simp: scheduler_get_nearest_filter_value_def filter_mem_def split: if_splits)
  qed
qed

lemma nearest_least:
  assumes "simple_chain fs" "list_all (filter_wf lo hi) fs"
    "scheduler_get_nearest_filter_value fs v = Some v'" "v \<le> u" "chain_mem fs u"
  shows "v' \<le> u"
  using assms nearest_least_single [OF _ assms(2-5)] nearest_loop_least_step1 [of fs None v v' lo hi]
  by (auto simp: simple_chain_def scheduler_get_nearest_filter_value_def list_all_iff)

lemma dow_days:
  assumes "70 \<le> tm_year t" "0 \<le> tm_mon t" "tm_mon t \<le> 11" "1 \<le> tm_mday t"
  shows "tm_dow t = (tm_days t + 3) mod 7 + 1"
  using dayofweek_civil [of "tm_year t + 1900" "tm_mon t + 1" "tm_mday t"] assms
  by (simp add: tm_dow_def tm_days_def)

lemma dow_range:
  assumes "70 \<le> tm_year t" "0 \<le> tm_mon t" "tm_mon t \<le> 11" "1 \<le> tm_mday t"
  shows "1 \<le> tm_dow t" "tm_dow t \<le> 7"
  using dow_days [OF assms] pos_mod_bound [of 7 "tm_days t + 3"] pos_mod_sign [of 7 "tm_days t + 3"]
  by auto

lemma tm_days_set_mday: "tm_days (t\<lparr>tm_mday := d\<rparr>) = tm_days t + (d - tm_mday t)"
  by (simp add: tm_days_def civil_days_def)

text \<open>The day of the week of a later day of the month.\<close>

lemma dow_later:
  assumes "70 \<le> tm_year t" "0 \<le> tm_mon t" "tm_mon t \<le> 11" "1 \<le> tm_mday t" "tm_mday t \<le> d"
  shows "tm_dow (t\<lparr>tm_mday := d\<rparr>) = (tm_dow t + (d - tm_mday t) - 1) mod 7 + 1"
proof -
  have "tm_dow (t\<lparr>tm_mday := d\<rparr>) = (tm_days t + (d - tm_mday t) + 3) mod 7 + 1"
    using dow_days [of "t\<lparr>tm_mday := d\<rparr>"] assms by (simp add: tm_days_set_mday)
  also have "(tm_days t + (d - tm_mday t) + 3) mod 7
      = ((tm_days t + 3) mod 7 + (d - tm_mday t)) mod 7"
    by (simp only: mod_add_left_eq) (simp add: ac_simps)
  finally show ?thesis using dow_days [OF assms(1-4)] by simp
qed

lemma dow_this_week:
  assumes "70 \<le> tm_year t" "0 \<le> tm_mon t" "tm_mon t \<le> 11" "1 \<le> tm_mday t" "tm_mday t \<le> d"
    "d < tm_mday t + (8 - tm_dow t)"
  shows "tm_dow (t\<lparr>tm_mday := d\<rparr>) = tm_dow t + (d - tm_mday t)"
proof -
  have "(tm_dow t + (d - tm_mday t) - 1) mod 7 = tm_dow t + (d - tm_mday t) - 1"
    using assms(5,6) dow_range [OF assms(1-4)] by (intro mod_pos_pos_trivial) linarith+
  then show ?thesis by (simp only: dow_later [OF assms(1-5)])
qed

lemma dow_next_week:
  assumes "70 \<le> tm_year t" "0 \<le> tm_mon t" "tm_mon t \<le> 11" "1 \<le> tm_mday t"
    "tm_mday t + (8 - tm_dow t) \<le> d" "d < tm_mday t + (8 - tm_dow t) + 7"
  shows "tm_dow (t\<lparr>tm_mday := d\<rparr>) = d - tm_mday t - (8 - tm_dow t) + 1"
proof -
  note w = dow_range [OF assms(1-4)]
  let ?x = "tm_dow t + (d - tm_mday t) - 8"
  have "(?x + 7) mod 7 = ?x mod 7" by (rule mod_add_self2)
  also have "\<dots> = ?x" using assms(5,6) w by (intro mod_pos_pos_trivial) linarith+
  finally have "(?x + 7) mod 7 = ?x" .
  moreover have "tm_dow t + (d - tm_mday t) - 1 = ?x + 7" by simp
  moreover have "tm_mday t \<le> d" using assms(5) w by simp
  ultimately show ?thesis by (simp only: dow_later [OF assms(1-4), of d])
qed

lemma wday_step:
  assumes t: "70 \<le> tm_year t" "0 \<le> tm_mon t" "tm_mon t \<le> 11" "1 \<le> tm_mday t"
    and iv: "wdays iv \<noteq> []" "list_all (filter_wf 1 7) (wdays iv)"
  shows "\<exists>d. scheduler_get_wday_nextcheck iv t = (d \<le> last_day t, t\<lparr>tm_mday := d\<rparr>)
    \<and> tm_mday t \<le> d \<and> d \<le> tm_mday t + 13 \<and> chain_mem (wdays iv) (tm_dow (t\<lparr>tm_mday := d\<rparr>))
    \<and> (simple_chain (wdays iv) \<longrightarrow>
        (\<forall>d' \<ge> tm_mday t. chain_mem (wdays iv) (tm_dow (t\<lparr>tm_mday := d'\<rparr>)) \<longrightarrow> d \<le> d'))"
proof -
  let ?w = "tm_dow t" and ?n = "scheduler_get_nearest_filter_value (wdays iv)"
  note w = dow_range [OF t]
  note sound = nearest_sound [OF _ iv(2)] and least = nearest_least [OF _ iv(2)]
  note range = chain_mem_range [OF iv(2)]
  show ?thesis
  proof (cases "?n ?w")
    case (Some w')
    from sound [OF Some] range have w': "?w \<le> w'" "w' \<le> 7" "chain_mem (wdays iv) w'" by auto
    let ?d = "tm_mday t + (w' - ?w)"
    have dow: "tm_dow (t\<lparr>tm_mday := d'\<rparr>) = ?w + (d' - tm_mday t)"
      if "tm_mday t \<le> d'" "d' \<le> ?d" for d'
      using dow_this_week [OF t that(1)] that w' by simp
    have min: "?d \<le> d'" if "simple_chain (wdays iv)" "tm_mday t \<le> d'"
        "chain_mem (wdays iv) (tm_dow (t\<lparr>tm_mday := d'\<rparr>))" for d'
    proof (rule ccontr)
      assume "\<not> ?d \<le> d'"
      with dow [OF that(2)] have e: "tm_dow (t\<lparr>tm_mday := d'\<rparr>) = ?w + (d' - tm_mday t)" by simp
      then have "w' \<le> tm_dow (t\<lparr>tm_mday := d'\<rparr>)"
        using least [OF that(1) Some _ that(3)] that(2) by simp
      with e \<open>\<not> ?d \<le> d'\<close> show False by simp
    qed
    show ?thesis
      by (rule exI [of _ ?d], intro conjI impI allI)
        (use Some iv(1) w w' dow [of ?d] min in
          \<open>simp_all add: scheduler_get_wday_nextcheck_def Let_def last_day_def\<close>)
  next
    case None
    have none: "\<not> chain_mem (wdays iv) u" if "?w \<le> u" for u
      using nearest_complete [OF None iv(2) that] .
    obtain w' where Some: "?n 1 = Some w'" and w': "1 \<le> w'" "w' \<le> 7" "chain_mem (wdays iv) w'"
      using nearest_from_low [OF iv(2,1), of 1] by auto
    have lt: "w' < ?w" using none [of w'] w'(3) by (meson not_le)
    let ?d = "tm_mday t + (8 - ?w) + (w' - 1)"
    have dow: "tm_dow (t\<lparr>tm_mday := d'\<rparr>)
        = (if d' < tm_mday t + (8 - ?w) then ?w + (d' - tm_mday t) else d' - tm_mday t - (8 - ?w) + 1)"
      if "tm_mday t \<le> d'" "d' \<le> ?d" for d'
      using dow_this_week [OF t that(1)] dow_next_week [OF t, of d'] that w' by simp
    have min: "?d \<le> d'" if "simple_chain (wdays iv)" "tm_mday t \<le> d'"
        "chain_mem (wdays iv) (tm_dow (t\<lparr>tm_mday := d'\<rparr>))" for d'
    proof (rule ccontr)
      assume l: "\<not> ?d \<le> d'"
      with none [of "?w + (d' - tm_mday t)"] dow [OF that(2)] that
      have "\<not> d' < tm_mday t + (8 - ?w)" by (auto split: if_splits)
      with dow [OF that(2)] l
      have e: "tm_dow (t\<lparr>tm_mday := d'\<rparr>) = d' - tm_mday t - (8 - ?w) + 1"
        "1 \<le> tm_dow (t\<lparr>tm_mday := d'\<rparr>)" by auto
      then have "w' \<le> tm_dow (t\<lparr>tm_mday := d'\<rparr>)"
        using least [OF that(1) Some _ that(3)] by simp
      with e l show False by simp
    qed
    show ?thesis
      by (rule exI [of _ ?d], intro conjI impI allI)
        (use None Some iv(1) w w' lt dow [of ?d] min in
          \<open>simp_all add: scheduler_get_wday_nextcheck_def Let_def last_day_def algebra_simps\<close>)
  qed
qed

lemma date_valid_iff: "0 \<le> tm_mon t \<Longrightarrow> tm_mon t \<le> 11 \<Longrightarrow> 1 \<le> tm_mday t \<Longrightarrow>
    tm_valid t \<longleftrightarrow> tm_mday t \<le> last_day t"
  by (simp add: tm_valid_def valid_date_def last_day_def)

lemma last_day_range: "28 \<le> last_day t" "last_day t \<le> 31"
  using day_in_month_bounds by (auto simp: last_day_def)

lemma last_day_mday [simp]: "last_day (t\<lparr>tm_mday := d\<rparr>) = last_day t"
  by (simp add: last_day_def)

lemma utc_time_ok:
  assumes "day_start t" "month_index t \<le> LAST_MONTH"
  shows "zbx_utc_time (tm_year t + 1900) (tm_mon t + 1) (tm_mday t) (tm_hour t) (tm_min t) (tm_sec t) = None
    \<longleftrightarrow> last_day t < tm_mday t"
proof (cases "last_day t < tm_mday t")
  case True
  then show ?thesis by (simp add: zbx_utc_time_def last_day_def)
next
  case False
  with assms have "valid_date (tm_year t + 1900) (tm_mon t + 1) (tm_mday t)"
    "valid_time (tm_hour t) (tm_min t) (tm_sec t)" "tm_year t + 1900 \<le> 2037"
    by (auto simp: day_start_def valid_date_def last_day_def time_ok_def month_index_def)
  then show ?thesis using utc_time_eq assms False by (simp add: day_start_def)
qed

text \<open>
  One call of \<^verbatim>\<open>scheduler_get_day_nextcheck\<close>: it only moves the day of the month, to an admitted day, or
  fails; from the first day of a month with 31 days it succeeds.
\<close>

definition day_step_spec :: "bool \<Rightarrow> scheduler_interval \<Rightarrow> tm \<Rightarrow> bool \<Rightarrow> int \<Rightarrow> bool" where
  "day_step_spec E iv t ok d \<longleftrightarrow>
     (ok \<longrightarrow> tm_mday t \<le> d \<and> d \<le> last_day t \<and> day_matches iv (t\<lparr>tm_mday := d\<rparr>))
     \<and> (E \<longrightarrow> (\<forall>d'. tm_mday t \<le> d' \<and> d' \<le> last_day t \<and> day_matches iv (t\<lparr>tm_mday := d'\<rparr>) \<longrightarrow> ok \<and> d \<le> d'))
     \<and> (tm_mday t = 1 \<and> last_day t = 31 \<longrightarrow> ok)"

lemma mday_step:
  assumes t: "1 \<le> tm_mday t"
    and iv: "mdays iv \<noteq> []" "wdays iv = []" "list_all (filter_wf 1 31) (mdays iv)"
    and E: "E \<longrightarrow> simple_chain (mdays iv)"
  shows "\<exists>ok d. mday_loop iv t = Some (ok, t\<lparr>tm_mday := d\<rparr>) \<and> day_step_spec E iv t ok d"
proof (cases "scheduler_get_nearest_filter_value (mdays iv) (tm_mday t)")
  case None
  then have "mday_loop iv t = Some (False, t\<lparr>tm_mday := tm_mday t\<rparr>)" by (subst mday_loop.simps) simp
  moreover have "day_step_spec E iv t False (tm_mday t)"
    using nearest_complete [OF None iv(3)] nearest_from_low [OF iv(3,1), of 1] None iv
    by (auto simp: day_step_spec_def day_matches_def)
  ultimately show ?thesis by blast
next
  case (Some d)
  note d = nearest_sound [OF Some iv(3)]
  have "d \<le> 31" using d chain_mem_range [OF iv(3)] by blast
  have "mday_loop iv t = Some (d \<le> last_day t, t\<lparr>tm_mday := d\<rparr>)"
    using Some iv by (subst mday_loop.simps)
      (auto simp: Let_def last_day_def scheduler_validate_wday_filter_def)
  moreover have "day_step_spec E iv t (d \<le> last_day t) d"
    using d \<open>d \<le> 31\<close> nearest_least [OF _ iv(3) Some] iv E
    by (fastforce simp: day_step_spec_def day_matches_def)
  ultimately show ?thesis by blast
qed

lemma wday_day_step:
  assumes t: "day_start t" and iv: "wdays iv \<noteq> []" "mdays iv = []" "list_all (filter_wf 1 7) (wdays iv)"
    and E: "E \<longrightarrow> simple_chain (wdays iv)"
  shows "\<exists>ok d. scheduler_get_wday_nextcheck iv t = (ok, t\<lparr>tm_mday := d\<rparr>) \<and> day_step_spec E iv t ok d"
proof -
  from t have t': "70 \<le> tm_year t" "0 \<le> tm_mon t" "tm_mon t \<le> 11" "1 \<le> tm_mday t"
    by (auto simp: day_start_def)
  from wday_step [OF t' iv(1,3)] obtain d where
    r: "scheduler_get_wday_nextcheck iv t = (d \<le> last_day t, t\<lparr>tm_mday := d\<rparr>)"
    and d: "tm_mday t \<le> d" "d \<le> tm_mday t + 13" "chain_mem (wdays iv) (tm_dow (t\<lparr>tm_mday := d\<rparr>))"
    and least: "\<And>d'. simple_chain (wdays iv) \<Longrightarrow> tm_mday t \<le> d'
      \<Longrightarrow> chain_mem (wdays iv) (tm_dow (t\<lparr>tm_mday := d'\<rparr>)) \<Longrightarrow> d \<le> d'" by blast
  have "day_step_spec E iv t (d \<le> last_day t) d"
    using d least iv E last_day_range [of t] by (fastforce simp: day_step_spec_def day_matches_def)
  with r show ?thesis by blast
qed

lemma day_step:
  assumes t: "day_start t" "month_index t \<le> LAST_MONTH"
    and iv: "interval_wf iv" "mdays iv = [] \<or> wdays iv = []"
    and E: "E \<longrightarrow> simple_chain (mdays iv) \<and> simple_chain (wdays iv)"
  shows "\<exists>ok d. scheduler_get_filter_nextcheck iv 1 t = Some (ok, t\<lparr>tm_mday := d\<rparr>) \<and> day_step_spec E iv t ok d"
proof -
  from iv(1) have wf: "list_all (filter_wf 1 31) (mdays iv)" "list_all (filter_wf 1 7) (wdays iv)"
    by (simp_all add: interval_wf_def)
  have r: "scheduler_get_filter_nextcheck iv 1 t = (if last_day t < tm_mday t then Some (False, t)
      else if mdays iv = [] then Some (scheduler_get_wday_nextcheck iv t) else mday_loop iv t)"
    using utc_time_ok [OF t] by (simp add: scheduler_get_filter_nextcheck_def scheduler_get_day_nextcheck_def)
  consider "last_day t < tm_mday t" | "tm_mday t \<le> last_day t" "mdays iv = []" "wdays iv = []"
    | "tm_mday t \<le> last_day t" "mdays iv = []" "wdays iv \<noteq> []"
    | "tm_mday t \<le> last_day t" "mdays iv \<noteq> []" "wdays iv = []" using iv(2) by force
  then show ?thesis
  proof cases
    case 1
    then have "day_step_spec E iv t False (tm_mday t)" by (auto simp: day_step_spec_def)
    with r 1 show ?thesis by (intro exI [of _ False] exI [of _ "tm_mday t"]) simp
  next
    case 2
    then have "day_step_spec E iv t True (tm_mday t)" by (auto simp: day_step_spec_def day_matches_def)
    with r 2 show ?thesis
      by (intro exI [of _ True] exI [of _ "tm_mday t"]) (simp add: scheduler_get_wday_nextcheck_def)
  next
    case 3
    with wday_day_step [OF t(1) 3(3,2) wf(2), of E] E r show ?thesis by auto
  next
    case 4
    with mday_step [of t iv E] t(1) wf(1) E r show ?thesis by (auto simp: day_start_def)
  qed
qed

lemma next_month_props:
  assumes "day_start t"
  shows "day_start (tm_next_month t)" "month_index (tm_next_month t) = month_index t + 1"
    "tm_mday (tm_next_month t) = 1"
    "tm_mday t \<le> 63 \<Longrightarrow> date_key t < date_key (tm_next_month t)"
  using assms by (auto simp: tm_next_month_def Let_def day_start_def time_ok_def month_index_def date_key_def)

lemma next_month_mday [simp]: "tm_next_month (t\<lparr>tm_mday := d\<rparr>) = tm_next_month t"
  by (simp add: tm_next_month_def Let_def)

text \<open>A month with fewer than 31 days is followed by one with 31.\<close>

lemma next_month_31:
  assumes "day_start t" "last_day t \<noteq> 31"
  shows "last_day (tm_next_month t) = 31"
  using assms month_cases [of "tm_mon t + 1"]
  by (auto simp: day_start_def last_day_def tm_next_month_def Let_def zbx_day_in_month_def)

lemma date_key_le:
  assumes "0 \<le> tm_mon t" "tm_mon t \<le> 11" "0 \<le> tm_mday t" "tm_mday t \<le> 63"
    "0 \<le> tm_mon u" "tm_mon u \<le> 11" "0 \<le> tm_mday u" "tm_mday u \<le> 63"
  shows "date_key t \<le> date_key u \<longleftrightarrow> month_index t < month_index u
    \<or> month_index t = month_index u \<and> tm_mday t \<le> tm_mday u"
proof -
  let ?a = "tm_year t * 16 + tm_mon t" and ?b = "tm_year u * 16 + tm_mon u"
  have "?a \<le> ?b \<longleftrightarrow> month_index t \<le> month_index u"
    using digits_le [of "tm_mon t" 16 "tm_mon u" "tm_year t" "tm_year u"]
      digits_le [of "tm_mon t" 12 "tm_mon u" "tm_year t" "tm_year u"] assms
    by (simp add: month_index_def mult.commute)
  moreover have "?b \<le> ?a \<longleftrightarrow> month_index u \<le> month_index t"
    using digits_le [of "tm_mon u" 16 "tm_mon t" "tm_year u" "tm_year t"]
      digits_le [of "tm_mon u" 12 "tm_mon t" "tm_year u" "tm_year t"] assms
    by (simp add: month_index_def mult.commute)
  moreover have "date_key t \<le> date_key u \<longleftrightarrow> ?a < ?b \<or> ?a = ?b \<and> tm_mday t \<le> tm_mday u"
    using digits_le [of "tm_mday t" 64 "tm_mday u" ?a ?b] assms by (simp add: date_key_def)
  ultimately show ?thesis by (simp only: less_le_not_le order_eq_iff [of ?a ?b]
        order_eq_iff [of "month_index t" "month_index u"])
qed

lemma same_month:
  assumes "0 \<le> tm_mon t" "tm_mon t \<le> 11" "0 \<le> tm_mon u" "tm_mon u \<le> 11" "month_index t = month_index u"
  shows "tm_year t = tm_year u" "tm_mon t = tm_mon u"
  using digits_eq [of "tm_mon t" 12 "tm_mon u" "tm_year t" "tm_year u"] assms
  by (simp_all add: month_index_def mult.commute)

lemma date_key_eq:
  assumes "0 \<le> tm_mon t" "tm_mon t \<le> 11" "0 \<le> tm_mday t" "tm_mday t \<le> 63"
    "0 \<le> tm_mon u" "tm_mon u \<le> 11" "0 \<le> tm_mday u" "tm_mday u \<le> 63"
  shows "date_key t = date_key u \<longleftrightarrow> tm_year t = tm_year u \<and> tm_mon t = tm_mon u \<and> tm_mday t = tm_mday u"
proof -
  have "date_key t = date_key u
      \<longleftrightarrow> tm_year t * 16 + tm_mon t = tm_year u * 16 + tm_mon u \<and> tm_mday t = tm_mday u"
    unfolding date_key_def using assms by (intro digits_eq) auto
  also have "tm_year t * 16 + tm_mon t = tm_year u * 16 + tm_mon u \<longleftrightarrow> tm_year t = tm_year u \<and> tm_mon t = tm_mon u"
    using assms by (intro digits_eq) auto
  finally show ?thesis by blast
qed

lemma day_matches_cong:
  "tm_year t = tm_year u \<Longrightarrow> tm_mon t = tm_mon u \<Longrightarrow> tm_mday t = tm_mday u \<Longrightarrow> day_matches iv t = day_matches iv u"
  by (simp add: day_matches_def tm_dow_def)

lemma day_admitted_bounds:
  assumes "day_admitted iv u"
  shows "70 \<le> tm_year u" "0 \<le> tm_mon u" "tm_mon u \<le> 11" "1 \<le> tm_mday u" "tm_mday u \<le> last_day u"
    "tm_mday u \<le> 31"
  using assms last_day_range(2) [of u]
  by (auto simp: day_admitted_def date_ok_def tm_valid_def valid_date_def last_day_def)

definition day_search :: "bool \<Rightarrow> scheduler_interval \<Rightarrow> tm \<Rightarrow> tm \<Rightarrow> bool" where
  "day_search E iv t t' \<longleftrightarrow> (\<exists>y m d. t' = t\<lparr>tm_mday := d, tm_mon := m, tm_year := y\<rparr>)
     \<and> day_admitted iv t' \<and> date_key t \<le> date_key t'
     \<and> (E \<longrightarrow> (\<forall>u. day_admitted iv u \<and> date_key t \<le> date_key u \<longrightarrow> date_key t' \<le> date_key u))"

lemma day_step_ok:
  assumes "day_start t" "day_step_spec E iv t True d"
  shows "day_search E iv t (t\<lparr>tm_mday := d\<rparr>)"
proof -
  let ?t = "t\<lparr>tm_mday := d\<rparr>"
  from assms have d: "tm_mday t \<le> d" "d \<le> last_day t" "day_matches iv ?t"
    and b: "70 \<le> tm_year t" "0 \<le> tm_mon t" "tm_mon t \<le> 11" "1 \<le> tm_mday t" "tm_mday t \<le> 32"
    by (auto simp: day_step_spec_def day_start_def)
  have "d \<le> 31" using d(2) last_day_range(2) [of t] by simp
  have adm: "day_admitted iv ?t"
    using b d by (auto simp: day_admitted_def date_ok_def date_valid_iff)
  have least: "date_key ?t \<le> date_key u" if "E" "day_admitted iv u" "date_key t \<le> date_key u" for u
  proof -
    note u = day_admitted_bounds [OF that(2)]
    have le: "month_index t < month_index u \<or> month_index t = month_index u \<and> tm_mday t \<le> tm_mday u"
      using that(3) b u by (simp add: date_key_le)
    have "d \<le> tm_mday u" if "month_index t = month_index u"
    proof -
      note s = same_month [OF b(2,3) u(2,3) that]
      have "day_matches iv (t\<lparr>tm_mday := tm_mday u\<rparr>)"
        using \<open>day_admitted iv u\<close> day_matches_cong [of "t\<lparr>tm_mday := tm_mday u\<rparr>" u] s
        by (simp add: day_admitted_def)
      moreover have "tm_mday u \<le> last_day t" using u(5) s by (simp add: last_day_def)
      ultimately show ?thesis using assms(2) \<open>E\<close> le that by (auto simp: day_step_spec_def)
    qed
    with le b u d \<open>d \<le> 31\<close> show ?thesis by (auto simp: date_key_le month_index_def)
  qed
  have "?t = t\<lparr>tm_mday := d, tm_mon := tm_mon t, tm_year := tm_year t\<rparr>" by simp
  moreover have "date_key t \<le> date_key ?t" using d(1) by (simp add: date_key_def)
  ultimately show ?thesis using adm least unfolding day_search_def by blast
qed

lemma day_step_fail:
  assumes "day_start t" "day_step_spec E iv t False d" "day_search E iv (tm_next_month t) t'"
  shows "day_search E iv t t'"
proof -
  let ?n = "tm_next_month t"
  from assms(1) have b: "70 \<le> tm_year t" "0 \<le> tm_mon t" "tm_mon t \<le> 11" "1 \<le> tm_mday t" "tm_mday t \<le> 32"
    by (auto simp: day_start_def)
  note n = next_month_props [OF assms(1)]
  have n': "0 \<le> tm_mon ?n" "tm_mon ?n \<le> 11" using n(1) by (auto simp: day_start_def)
  have le: "date_key ?n \<le> date_key u" if "E" "day_admitted iv u" "date_key t \<le> date_key u" for u
  proof -
    note u = day_admitted_bounds [OF that(2)]
    have "month_index t \<noteq> month_index u"
    proof
      assume m: "month_index t = month_index u"
      note s = same_month [OF b(2,3) u(2,3) m]
      have "day_matches iv (t\<lparr>tm_mday := tm_mday u\<rparr>)"
        using that(2) day_matches_cong [of "t\<lparr>tm_mday := tm_mday u\<rparr>" u] s by (simp add: day_admitted_def)
      moreover have "tm_mday u \<le> last_day t" using u(5) s by (simp add: last_day_def)
      moreover have "tm_mday t \<le> tm_mday u" using that(3) m b u by (simp add: date_key_le)
      ultimately show False using assms(2) \<open>E\<close> by (auto simp: day_step_spec_def)
    qed
    then have "month_index ?n \<le> month_index u" using that(3) n(2) b u by (auto simp: date_key_le)
    then show ?thesis using n(3) n' u by (auto simp: date_key_le)
  qed
  from assms(3) obtain y m d' where t': "t' = ?n\<lparr>tm_mday := d', tm_mon := m, tm_year := y\<rparr>"
    by (auto simp: day_search_def)
  then have "t' = t\<lparr>tm_mday := d', tm_mon := m, tm_year := y\<rparr>"
    by (simp add: tm_next_month_def Let_def split: if_splits)
  moreover have "date_key t \<le> date_key t'" using n(4) b assms(3) by (auto simp: day_search_def)
  ultimately show ?thesis using assms(3) le unfolding day_search_def by blast
qed

definition day_interval_ok :: "bool \<Rightarrow> scheduler_interval \<Rightarrow> bool" where
  "day_interval_ok E iv \<longleftrightarrow> interval_wf iv \<and> (mdays iv = [] \<or> wdays iv = [])
     \<and> (E \<longrightarrow> simple_chain (mdays iv) \<and> simple_chain (wdays iv))"

lemma day_loop_step:
  assumes "day_start t" "month_index t \<le> LAST_MONTH" "day_interval_ok E iv"
  shows "(\<exists>d. day_filter_loop iv t = Some (t\<lparr>tm_mday := d\<rparr>) \<and> day_search E iv t (t\<lparr>tm_mday := d\<rparr>))
    \<or> \<not> (tm_mday t = 1 \<and> last_day t = 31) \<and> day_filter_loop iv t = day_filter_loop iv (tm_next_month t)
      \<and> (\<forall>t'. day_search E iv (tm_next_month t) t' \<longrightarrow> day_search E iv t t')"
proof -
  from assms(3) have iv: "interval_wf iv" "mdays iv = [] \<or> wdays iv = []"
    "E \<longrightarrow> simple_chain (mdays iv) \<and> simple_chain (wdays iv)" by (auto simp: day_interval_ok_def)
  from day_step [OF assms(1,2) iv] obtain ok d where
    r: "scheduler_get_filter_nextcheck iv 1 t = Some (ok, t\<lparr>tm_mday := d\<rparr>)" "day_step_spec E iv t ok d"
    by blast
  show ?thesis
  proof (cases ok)
    case True
    then have "day_filter_loop iv t = Some (t\<lparr>tm_mday := d\<rparr>)"
      using r(1) by (subst day_filter_loop.simps) simp
    with day_step_ok [OF assms(1)] r(2) True show ?thesis by auto
  next
    case False
    then have "day_filter_loop iv t = day_filter_loop iv (tm_next_month t)"
      using r(1) by (subst day_filter_loop.simps) simp
    moreover have "\<not> (tm_mday t = 1 \<and> last_day t = 31)"
      using r(2) False by (simp add: day_step_spec_def)
    ultimately show ?thesis using day_step_fail [OF assms(1), of E iv d] r(2) False by auto
  qed
qed

lemma day_loop:
  assumes "day_start t" "month_index t \<le> LAST_MONTH - 2" "day_interval_ok E iv"
  shows "\<exists>t'. day_filter_loop iv t = Some t' \<and> day_search E iv t t' \<and> month_index t' \<le> month_index t + 2"
proof -
  let ?n = tm_next_month
  have mi: "month_index (u\<lparr>tm_mday := d\<rparr>) = month_index u" for u d by (simp add: month_index_def)
  have one: "\<exists>t'. day_filter_loop iv u = Some t' \<and> day_search E iv u t' \<and> month_index t' = month_index u"
    if "day_start u" "month_index u \<le> LAST_MONTH" "tm_mday u = 1" "last_day u = 31" for u
    using day_loop_step [OF that(1,2) assms(3)] that(3,4) mi [of _ u] by auto
  have two: "\<exists>t'. day_filter_loop iv u = Some t' \<and> day_search E iv u t' \<and> month_index t' \<le> month_index u + 1"
    if "day_start u" "month_index u \<le> LAST_MONTH - 1" "tm_mday u = 1" for u
  proof (cases "last_day u = 31")
    case True
    with one [OF that(1) _ that(3)] that(2) show ?thesis by force
  next
    case False
    note n = next_month_props [OF that(1)]
    from one [OF n(1) _ n(3) next_month_31 [OF that(1) False]] n(2) that(2) obtain t' where
      "day_filter_loop iv (?n u) = Some t'" "day_search E iv (?n u) t'" "month_index t' = month_index u + 1"
      by auto
    then show ?thesis using day_loop_step [OF that(1) _ assms(3)] that(2) mi [of _ u] by fastforce
  qed
  note n = next_month_props [OF assms(1)]
  from two [OF n(1) _ n(3)] n(2) assms(2) obtain t' where
    "day_filter_loop iv (?n t) = Some t'" "day_search E iv (?n t) t'" "month_index t' \<le> month_index t + 2"
    by auto
  then show ?thesis using day_loop_step [OF assms(1) _ assms(3)] assms(2) mi [of _ t] by fastforce
qed

definition time_zero :: "tm \<Rightarrow> bool" where
  "time_zero t \<longleftrightarrow> tm_hour t = 0 \<and> tm_min t = 0 \<and> tm_sec t = 0"

lemma apply_day_search:
  assumes "day_interval_ok E iv"
  shows "search_spec 2 E day_start (day_admitted iv) date_key time_zero (scheduler_apply_day_filter iv)"
  unfolding search_spec_def
proof (intro allI impI)
  fix t assume t: "day_start t \<and> month_index t \<le> LAST_MONTH - 2"
  with day_loop [OF _ _ assms] obtain t' where
    l: "day_filter_loop iv t = Some t'" and s: "day_search E iv t t'" and mi: "month_index t' \<le> month_index t + 2"
    by blast
  let ?r = "if tm_mday t' \<noteq> tm_mday t \<or> tm_mon t' \<noteq> tm_mon t \<or> tm_year t' \<noteq> tm_year t
    then t'\<lparr>tm_hour := 0, tm_min := 0, tm_sec := 0\<rparr> else t'"
  have a: "scheduler_apply_day_filter iv t = Some ?r" by (simp add: scheduler_apply_day_filter_def l)
  have k: "date_key ?r = date_key t'" "day_admitted iv ?r = day_admitted iv t'" "month_index ?r = month_index t'"
    by (simp_all add: date_key_def month_index_def day_admitted_def date_ok_def tm_valid_def
        day_matches_def tm_dow_def)
  have b: "day_admitted iv t'" using s by (simp add: day_search_def)
  note b = day_admitted_bounds [OF b]
  have eq: "date_key t' = date_key t \<longleftrightarrow> tm_year t' = tm_year t \<and> tm_mon t' = tm_mon t \<and> tm_mday t' = tm_mday t"
    using b t by (intro date_key_eq) (auto simp: day_start_def)
  have "?r = t" if "date_key t' = date_key t"
    using that eq s by (auto simp: day_search_def)
  moreover have "time_zero ?r" if "date_key t' \<noteq> date_key t"
    using that eq by (auto simp: time_zero_def)
  ultimately show "\<exists>t'. scheduler_apply_day_filter iv t = Some t' \<and> day_admitted iv t' \<and> date_key t \<le> date_key t'
      \<and> (E \<longrightarrow> (\<forall>u. day_admitted iv u \<and> date_key t \<le> date_key u \<longrightarrow> date_key t' \<le> date_key u))
      \<and> (date_key t' = date_key t \<longrightarrow> t' = t) \<and> (date_key t' \<noteq> date_key t \<longrightarrow> time_zero t')
      \<and> month_index t' \<le> month_index t + 2"
    using s mi k by (intro exI [of _ ?r]) (simp add: a day_search_def)
qed

section \<open>Searching the time of day\<close>

text \<open>
  The values a unit admits: those of its filters; without filters any value if a finer unit has filters,
  else only zero.
\<close>

definition unit_admits :: "scheduler_filter list \<Rightarrow> nat \<Rightarrow> nat \<Rightarrow> int \<Rightarrow> int \<Rightarrow> bool" where
  "unit_admits fs flevel level vmax v \<longleftrightarrow> 0 \<le> v \<and> v \<le> vmax
     \<and> (if fs = [] then level < flevel \<or> v = 0 else chain_mem fs v)"

definition hour_admitted :: "scheduler_interval \<Rightarrow> tm \<Rightarrow> bool" where
  "hour_admitted iv t \<longleftrightarrow> day_admitted iv t \<and> unit_admits (hours iv) (filter_level iv) 2 23 (tm_hour t)"

definition minute_admitted :: "scheduler_interval \<Rightarrow> tm \<Rightarrow> bool" where
  "minute_admitted iv t \<longleftrightarrow> hour_admitted iv t \<and> unit_admits (minutes iv) (filter_level iv) 3 59 (tm_min t)"

definition time_admitted :: "scheduler_interval \<Rightarrow> tm \<Rightarrow> bool" where
  "time_admitted iv t \<longleftrightarrow> minute_admitted iv t \<and> unit_admits (seconds iv) (filter_level iv) 4 59 (tm_sec t)"

definition hour_key :: "tm \<Rightarrow> int" where "hour_key t = date_key t * 32 + tm_hour t"
definition minute_key :: "tm \<Rightarrow> int" where "minute_key t = hour_key t * 64 + tm_min t"
definition time_key :: "tm \<Rightarrow> int" where "time_key t = minute_key t * 64 + tm_sec t"

definition interval_ok :: "bool \<Rightarrow> scheduler_interval \<Rightarrow> bool" where
  "interval_ok E iv \<longleftrightarrow> day_interval_ok E iv
     \<and> (E \<longrightarrow> simple_chain (hours iv) \<and> simple_chain (minutes iv) \<and> simple_chain (seconds iv))"

definition hour_start :: "scheduler_interval \<Rightarrow> tm \<Rightarrow> bool" where
  "hour_start iv t \<longleftrightarrow> day_admitted iv t \<and> 0 \<le> tm_hour t \<and> tm_hour t \<le> 24
     \<and> 0 \<le> tm_min t \<and> tm_min t \<le> 59 \<and> 0 \<le> tm_sec t \<and> tm_sec t \<le> 59"

definition minute_start :: "scheduler_interval \<Rightarrow> tm \<Rightarrow> bool" where
  "minute_start iv t \<longleftrightarrow> hour_admitted iv t \<and> 0 \<le> tm_min t \<and> tm_min t \<le> 60 \<and> 0 \<le> tm_sec t \<and> tm_sec t \<le> 59"

definition second_start :: "scheduler_interval \<Rightarrow> tm \<Rightarrow> bool" where
  "second_start iv t \<longleftrightarrow> minute_admitted iv t \<and> 0 \<le> tm_sec t \<and> tm_sec t \<le> 60"

lemma unit_nextcheck_None:
  assumes "list_all (filter_wf 0 vmax) fs" "unit_nextcheck fs flevel level vmax v = None" "0 \<le> v" "v \<le> u"
  shows "\<not> unit_admits fs flevel level vmax u"
  using assms nearest_complete [OF _ assms(1,4)]
  by (auto simp: unit_nextcheck_def unit_admits_def split: if_splits)

lemma unit_nextcheck_Some:
  assumes "list_all (filter_wf 0 vmax) fs" "unit_nextcheck fs flevel level vmax v = Some v'" "0 \<le> v"
  shows "v \<le> v' \<and> unit_admits fs flevel level vmax v'"
  using assms nearest_sound [OF _ assms(1)] chain_mem_range [OF assms(1)]
  by (auto simp: unit_nextcheck_def unit_admits_def split: if_splits)

lemma unit_nextcheck_least:
  assumes "list_all (filter_wf 0 vmax) fs" "unit_nextcheck fs flevel level vmax v = Some v'"
    "simple_chain fs" "v \<le> u" "unit_admits fs flevel level vmax u"
  shows "v' \<le> u"
  using assms nearest_least [OF assms(3,1) _ assms(4)]
  by (auto simp: unit_nextcheck_def unit_admits_def split: if_splits)

lemma unit_nextcheck_0:
  assumes "list_all (filter_wf 0 vmax) fs" "0 \<le> vmax"
  shows "unit_nextcheck fs flevel level vmax 0 \<noteq> None"
  using assms nearest_from_low [OF assms(1), of 0] by (auto simp: unit_nextcheck_def)

lemmas unit_nextcheck_facts =
  unit_nextcheck_None unit_nextcheck_Some unit_nextcheck_least unit_nextcheck_0

lemma date_frame [simp]:
  "date_key (t\<lparr>tm_hour := h\<rparr>) = date_key t" "date_key (t\<lparr>tm_min := m\<rparr>) = date_key t"
  "date_key (t\<lparr>tm_sec := s\<rparr>) = date_key t"
  "day_admitted iv (t\<lparr>tm_hour := h\<rparr>) = day_admitted iv t" "day_admitted iv (t\<lparr>tm_min := m\<rparr>) = day_admitted iv t"
  "day_admitted iv (t\<lparr>tm_sec := s\<rparr>) = day_admitted iv t"
  "month_index (t\<lparr>tm_hour := h\<rparr>) = month_index t" "month_index (t\<lparr>tm_min := m\<rparr>) = month_index t"
  "month_index (t\<lparr>tm_sec := s\<rparr>) = month_index t" "month_index (t\<lparr>tm_mday := d\<rparr>) = month_index t"
  by (simp_all add: date_key_def day_admitted_def date_ok_def tm_valid_def day_matches_def tm_dow_def
      month_index_def)

lemma interval_ok_filters:
  assumes "interval_ok E iv"
  shows "list_all (filter_wf 0 23) (hours iv)" "list_all (filter_wf 0 59) (minutes iv)"
    "list_all (filter_wf 0 59) (seconds iv)" "day_interval_ok E iv"
    "E \<Longrightarrow> simple_chain (hours iv)" "E \<Longrightarrow> simple_chain (minutes iv)" "E \<Longrightarrow> simple_chain (seconds iv)"
  using assms by (auto simp: interval_ok_def day_interval_ok_def interval_wf_def)

interpretation hour: unit_search "interval_ok E iv" E day_start "day_admitted iv" "hour_admitted iv"
  "hour_start iv" date_key "scheduler_apply_day_filter iv" 32 tm_hour "\<lambda>v t. t\<lparr>tm_hour := v\<rparr>"
  "unit_admits (hours iv) (filter_level iv) 2 23" "unit_nextcheck (hours iv) (filter_level iv) 2 23"
  "\<lambda>t. t\<lparr>tm_mday := tm_mday t + 1, tm_hour := 0\<rparr>" "\<lambda>t. t\<lparr>tm_min := 0, tm_sec := 0\<rparr>"
  time_zero "\<lambda>t. tm_min t = 0 \<and> tm_sec t = 0" "hour_filter_loop iv" "scheduler_apply_hour_filter iv" hour_key
  for E iv
proof (unfold_locales, goal_cases)
  case 1
  then show ?case by (intro apply_day_search) (rule interval_ok_filters)
next
  case (5 v u)
  then show ?case using unit_nextcheck_None interval_ok_filters(1) by blast
next
  case (6 v v')
  then show ?case using unit_nextcheck_Some interval_ok_filters(1) by blast
next
  case (7 v v' u)
  then show ?case using unit_nextcheck_least interval_ok_filters(1,5) by blast
next
  case 8
  then show ?case using unit_nextcheck_0 interval_ok_filters(1) by simp
next
  case (23 t)
  then show ?case
    by (auto simp: hour_start_def day_start_def time_ok_def valid_time_def dest: day_admitted_bounds)
next
  case (24 t)
  then show ?case
    by (subst hour_filter_loop.simps) (auto simp: scheduler_get_filter_nextcheck_def split: option.split)
qed (auto simp: hour_key_def hour_admitted_def unit_admits_def date_key_def time_zero_def
    scheduler_apply_hour_filter_def)

interpretation minute: unit_search "interval_ok E iv" E "hour_start iv" "hour_admitted iv" "minute_admitted iv"
  "minute_start iv" hour_key "scheduler_apply_hour_filter iv" 64 tm_min "\<lambda>v t. t\<lparr>tm_min := v\<rparr>"
  "unit_admits (minutes iv) (filter_level iv) 3 59" "unit_nextcheck (minutes iv) (filter_level iv) 3 59"
  "\<lambda>t. t\<lparr>tm_hour := tm_hour t + 1, tm_min := 0\<rparr>" "\<lambda>t. t\<lparr>tm_sec := 0\<rparr>"
  "\<lambda>t. tm_min t = 0 \<and> tm_sec t = 0" "\<lambda>t. tm_sec t = 0" "minute_filter_loop iv"
  "scheduler_apply_minute_filter iv" minute_key
  for E iv
proof (unfold_locales, goal_cases)
  case 1
  then show ?case by (rule hour.search)
next
  case (5 v u)
  then show ?case using unit_nextcheck_None interval_ok_filters(2) by blast
next
  case (6 v v')
  then show ?case using unit_nextcheck_Some interval_ok_filters(2) by blast
next
  case (7 v v' u)
  then show ?case using unit_nextcheck_least interval_ok_filters(2,6) by blast
next
  case 8
  then show ?case using unit_nextcheck_0 interval_ok_filters(2) by simp
next
  case (23 t)
  then show ?case
    by (auto simp: minute_start_def hour_start_def hour_admitted_def unit_admits_def)
next
  case (24 t)
  then show ?case
    by (subst minute_filter_loop.simps) (auto simp: scheduler_get_filter_nextcheck_def split: option.split)
qed (auto simp: minute_key_def hour_key_def minute_admitted_def hour_admitted_def unit_admits_def
    scheduler_apply_minute_filter_def)

interpretation second: unit_search "interval_ok E iv" E "minute_start iv" "minute_admitted iv" "time_admitted iv"
  "second_start iv" minute_key "scheduler_apply_minute_filter iv" 64 tm_sec "\<lambda>v t. t\<lparr>tm_sec := v\<rparr>"
  "unit_admits (seconds iv) (filter_level iv) 4 59" "unit_nextcheck (seconds iv) (filter_level iv) 4 59"
  "\<lambda>t. t\<lparr>tm_min := tm_min t + 1, tm_sec := 0\<rparr>" "\<lambda>t. t"
  "\<lambda>t. tm_sec t = 0" "\<lambda>t. True" "scheduler_apply_second_filter iv"
  "scheduler_apply_second_filter iv" time_key
  for E iv
proof (unfold_locales, goal_cases)
  case 1
  then show ?case by (rule minute.search)
next
  case (5 v u)
  then show ?case using unit_nextcheck_None interval_ok_filters(3) by blast
next
  case (6 v v')
  then show ?case using unit_nextcheck_Some interval_ok_filters(3) by blast
next
  case (7 v v' u)
  then show ?case using unit_nextcheck_least interval_ok_filters(3,7) by blast
next
  case 8
  then show ?case using unit_nextcheck_0 interval_ok_filters(3) by simp
next
  case (23 t)
  then show ?case
    by (auto simp: second_start_def minute_start_def minute_admitted_def hour_admitted_def unit_admits_def)
next
  case (24 t)
  then show ?case
    by (subst scheduler_apply_second_filter.simps)
      (auto simp: scheduler_get_filter_nextcheck_def split: option.split)
qed (auto simp: time_key_def minute_key_def hour_key_def time_admitted_def minute_admitted_def hour_admitted_def
    unit_admits_def)

section \<open>The whole search\<close>

text \<open>A broken-down time as \<^verbatim>\<open>localtime\<close> returns it, from 1970 on, without leap seconds.\<close>

definition tm_ok :: "tm \<Rightarrow> bool" where
  "tm_ok t \<longleftrightarrow> date_ok t \<and> time_ok t"

lemma tm_ok_day_start: "tm_ok t \<Longrightarrow> day_start t"
  using last_day_range(2) [of t]
  by (auto simp: tm_ok_def date_ok_def day_start_def tm_valid_def valid_date_def last_day_def)

lemma apply_filters_search:
  assumes "interval_ok E iv"
  shows "search_spec 8 E tm_ok (time_admitted iv) time_key (\<lambda>_. True) (scheduler_apply_filters iv)"
proof -
  have "search_spec 2 E tm_ok (day_admitted iv) date_key time_zero (scheduler_apply_day_filter iv)"
    using apply_day_search [OF interval_ok_filters(4) [OF assms]] tm_ok_day_start
    unfolding search_spec_def by blast
  then have "search_spec (2 + 2) E tm_ok (hour_admitted iv) hour_key (\<lambda>t. tm_min t = 0 \<and> tm_sec t = 0)
      (\<lambda>t. Option.bind (scheduler_apply_day_filter iv t) (scheduler_apply_hour_filter iv))"
    by (rule hour.compose [OF assms])
      (auto simp: tm_ok_def time_ok_def valid_time_def hour_start_def time_zero_def)
  then have "search_spec (2 + 2 + 2) E tm_ok (minute_admitted iv) minute_key (\<lambda>t. tm_sec t = 0)
      (\<lambda>t. Option.bind (Option.bind (scheduler_apply_day_filter iv t) (scheduler_apply_hour_filter iv))
        (scheduler_apply_minute_filter iv))"
    by (rule minute.compose [OF assms])
      (auto simp: tm_ok_def time_ok_def valid_time_def minute_start_def)
  then have "search_spec (2 + 2 + 2 + 2) E tm_ok (time_admitted iv) time_key (\<lambda>_. True)
      (\<lambda>t. Option.bind (Option.bind (Option.bind (scheduler_apply_day_filter iv t)
        (scheduler_apply_hour_filter iv)) (scheduler_apply_minute_filter iv)) (scheduler_apply_second_filter iv))"
    by (rule second.compose [OF assms])
      (auto simp: tm_ok_def time_ok_def valid_time_def second_start_def)
  then show ?thesis
    by (simp add: scheduler_apply_filters_def [abs_def])
qed

text \<open>The same order, as the lexicographic order of the fields.\<close>

definition tm_tuple :: "tm \<Rightarrow> int \<times> int \<times> int \<times> int \<times> int \<times> int" where
  "tm_tuple t = (tm_year t, tm_mon t, tm_mday t, tm_hour t, tm_min t, tm_sec t)"

lemma tm_ok_bounds:
  assumes "tm_ok t"
  shows "70 \<le> tm_year t" "0 \<le> tm_mon t" "tm_mon t \<le> 11" "1 \<le> tm_mday t" "tm_mday t \<le> last_day t"
    "tm_mday t \<le> 31" "0 \<le> tm_hour t" "tm_hour t \<le> 23" "0 \<le> tm_min t" "tm_min t \<le> 59"
    "0 \<le> tm_sec t" "tm_sec t \<le> 59"
  using assms last_day_range(2) [of t]
  by (auto simp: tm_ok_def date_ok_def tm_valid_def valid_date_def last_day_def time_ok_def valid_time_def)

lemma time_key_le:
  assumes "tm_ok t" "tm_ok u"
  shows "time_key t \<le> time_key u \<longleftrightarrow> tm_tuple t \<le> tm_tuple u"
proof -
  note b = tm_ok_bounds [OF assms(1)] and c = tm_ok_bounds [OF assms(2)]
  have step: "(k * B + a < l * B + d \<longleftrightarrow> k < l \<or> k = l \<and> a < d) \<and> (k * B + a = l * B + d \<longleftrightarrow> k = l \<and> a = d)"
    if "0 \<le> a" "a < B" "0 \<le> d" "d < B" for k l a d B :: int
    using digits_le [OF that(3,4,1,2), of l k] digits_eq [OF that, of k l]
    by (auto simp: not_le [symmetric])
  have m: "tm_mon t < 16" "tm_mon u < 16" "tm_mday t < 64" "tm_mday u < 64" "tm_hour t < 32" "tm_hour u < 32"
    "tm_min t < 64" "tm_min u < 64" "tm_sec t < 64" "tm_sec u < 64" "0 \<le> tm_mday t" "0 \<le> tm_mday u"
    using b c by linarith+
  note s1 = step [OF b(2) m(1) c(2) m(2)] and s2 = step [OF m(11,3,12,4)]
    and s3 = step [OF b(7) m(5) c(7) m(6)] and s4 = step [OF b(9) m(7) c(9) m(8)]
    and s5 = step [OF b(11) m(9) c(11) m(10)]
  show ?thesis
    unfolding time_key_def minute_key_def hour_key_def date_key_def tm_tuple_def
    by (simp only: le_less less_eq_prod_simp less_prod_simp s1 s2 s3 s4 s5) blast
qed

lemma admitted_ok: "time_admitted iv t \<Longrightarrow> tm_ok t"
  by (simp add: time_admitted_def minute_admitted_def hour_admitted_def day_admitted_def unit_admits_def
      tm_ok_def time_ok_def valid_time_def)

lemma tm_inc_next:
  assumes "tm_ok t"
  shows "tm_ok (scheduler_tm_inc t)" "tm_tuple t < tm_tuple (scheduler_tm_inc t)"
    "month_index (scheduler_tm_inc t) \<le> month_index t + 1"
proof -
  note b = tm_ok_bounds [OF assms]
  note d = day_in_month_pos
  show "tm_ok (scheduler_tm_inc t)"
    using b d [of "tm_year t + 1900" "tm_mon t + 2"] d [of "tm_year t + 1901" 1]
    by (simp add: scheduler_tm_inc_def Let_def tm_ok_def date_ok_def tm_valid_def valid_date_def
        time_ok_def valid_time_def last_day_def add.commute)
  show "tm_tuple t < tm_tuple (scheduler_tm_inc t)"
    by (simp add: scheduler_tm_inc_def Let_def tm_tuple_def)
  show "month_index (scheduler_tm_inc t) \<le> month_index t + 1"
    using b by (simp add: scheduler_tm_inc_def Let_def month_index_def)
qed

lemma tm_inc_least:
  assumes "tm_ok t" and u: "tm_ok u" and tu: "tm_tuple t < tm_tuple u"
  shows "tm_tuple (scheduler_tm_inc t) \<le> tm_tuple u"
proof -
  note b = tm_ok_bounds [OF assms(1)]
  from tu have l: "time_key t < time_key u"
    by (metis time_key_le [OF u assms(1)] not_le)
  note c = tm_ok_bounds [OF u]
  have top: "k < l" if "k * B + a < l * B + d" "d \<le> a" "0 < B" for k l a d B :: int
  proof (rule ccontr)
    assume "\<not> k < l"
    then have "l * B \<le> k * B" using that(3) by (intro mult_right_mono) auto
    with that show False by linarith
  qed
  have s: "minute_key t < minute_key u" if "tm_sec t = 59"
    using top [OF l [unfolded time_key_def]] that c by simp
  have m: "hour_key t < hour_key u" if "tm_sec t = 59" "tm_min t = 59"
    using top [OF s [unfolded minute_key_def]] that c by simp
  have h: "date_key t < date_key u" if "tm_sec t = 59" "tm_min t = 59" "tm_hour t = 23"
    using top [OF m [unfolded hour_key_def]] that c by simp
  have d: "month_index t < month_index u"
    if "tm_sec t = 59" "tm_min t = 59" "tm_hour t = 23" "tm_mday t = last_day t"
  proof -
    have "tm_mday u \<le> last_day t" if "month_index u = month_index t"
      using same_month [OF c(2,3) b(2,3) that] c(5) by (simp add: last_day_def)
    moreover have "\<not> (month_index u < month_index t \<or> month_index u = month_index t \<and> tm_mday u \<le> tm_mday t)"
      using date_key_le [OF c(2,3) _ _ b(2,3)] h [OF that(1-3)] b(4,6) c(4,6) by simp
    ultimately show ?thesis using that(4) by (metis linorder_neqE_linordered_idom)
  qed
  have z: "time_key v \<le> time_key u" if "date_key v \<le> date_key u" "tm_hour v = 0" "tm_min v = 0" "tm_sec v = 0" for v
    using that c(7,9,11) by (simp add: time_key_def minute_key_def hour_key_def)
  let ?n = "scheduler_tm_inc t"
  consider "tm_sec t < 59" | "tm_sec t = 59" "tm_min t < 59"
    | "tm_sec t = 59" "tm_min t = 59" "tm_hour t < 23"
    | "tm_sec t = 59" "tm_min t = 59" "tm_hour t = 23" "tm_mday t < last_day t"
    | "tm_sec t = 59" "tm_min t = 59" "tm_hour t = 23" "tm_mday t = last_day t"
    using b by linarith
  then have "time_key ?n \<le> time_key u"
  proof cases
    case 1
    then have "time_key ?n = time_key t + 1"
      by (simp add: scheduler_tm_inc_def time_key_def minute_key_def hour_key_def)
    with l show ?thesis by simp
  next
    case 2
    then have "time_key ?n = (minute_key t + 1) * 64"
      by (simp add: scheduler_tm_inc_def time_key_def minute_key_def hour_key_def)
    with s [OF 2(1)] c(11) show ?thesis by (simp add: time_key_def)
  next
    case 3
    then have "time_key ?n = (hour_key t + 1) * 4096"
      by (simp add: scheduler_tm_inc_def time_key_def minute_key_def hour_key_def)
    with m [OF 3(1,2)] c(9,11) show ?thesis by (simp add: time_key_def minute_key_def)
  next
    case 4
    then have "date_key ?n = date_key t + 1" "tm_hour ?n = 0" "tm_min ?n = 0" "tm_sec ?n = 0"
      by (simp_all add: scheduler_tm_inc_def last_day_def date_key_def)
    with h [OF 4(1-3)] show ?thesis by (intro z) simp_all
  next
    case 5
    then have n: "month_index ?n = month_index t + 1" "tm_mday ?n = 1" "0 \<le> tm_mon ?n" "tm_mon ?n \<le> 11"
      "tm_hour ?n = 0" "tm_min ?n = 0" "tm_sec ?n = 0"
      using b(2,3) by (simp_all add: scheduler_tm_inc_def Let_def last_day_def month_index_def)
    have "date_key ?n \<le> date_key u"
      using date_key_le [OF n(3,4) _ _ c(2,3)] n(1,2) c(4,6) d [OF 5] by auto
    then show ?thesis using n(5-7) by (intro z)
  qed
  then show "tm_tuple (scheduler_tm_inc t) \<le> tm_tuple u"
    using time_key_le tm_inc_next(1) [OF assms(1)] u by blast
qed

lemma inc_apply_filters:
  assumes "interval_ok E iv" "tm_ok t" "month_index t \<le> LAST_MONTH - 9"
  shows "\<exists>t'. scheduler_apply_filters iv (scheduler_tm_inc t) = Some t' \<and> time_admitted iv t'
    \<and> tm_tuple t < tm_tuple t'
    \<and> (E \<longrightarrow> (\<forall>u. time_admitted iv u \<and> tm_tuple t < tm_tuple u \<longrightarrow> tm_tuple t' \<le> tm_tuple u))"
proof -
  let ?n = "scheduler_tm_inc t"
  note n = tm_inc_next [OF assms(2)]
  have mi: "month_index ?n \<le> LAST_MONTH - 8" using n(3) assms(3) by simp
  from search_specE [OF apply_filters_search [OF assms(1)] n(1) mi] obtain t' where
    a: "scheduler_apply_filters iv ?n = Some t'" and t': "time_admitted iv t'" "time_key ?n \<le> time_key t'"
    and l: "\<And>u. E \<Longrightarrow> time_admitted iv u \<Longrightarrow> time_key ?n \<le> time_key u \<Longrightarrow> time_key t' \<le> time_key u"
    by metis
  note ok = admitted_ok [OF t'(1)]
  have "tm_tuple t < tm_tuple t'" using t'(2) n(2) time_key_le [OF n(1) ok] by (metis order_less_le_trans)
  moreover have "tm_tuple t' \<le> tm_tuple u" if "E" "time_admitted iv u" "tm_tuple t < tm_tuple u" for u
    using l [OF that(1,2)] tm_inc_least [OF assms(2) admitted_ok [OF that(2)] that(3)]
      time_key_le [OF n(1) admitted_ok [OF that(2)]] time_key_le [OF ok admitted_ok [OF that(2)]] by blast
  ultimately show ?thesis using a t'(1) by blast
qed

section \<open>An example\<close>

text \<open>\<^verbatim>\<open>wd1-5h9m0-59/30\<close>, and Friday 1 March 2024, 09:30.\<close>

definition workday_morning :: scheduler_interval where
  "workday_morning = \<lparr>mdays = [], wdays = [\<lparr>f_start = 1, f_end = 5, f_step = 1\<rparr>],
     hours = [\<lparr>f_start = 9, f_end = 9, f_step = 1\<rparr>], minutes = [\<lparr>f_start = 0, f_end = 59, f_step = 30\<rparr>],
     seconds = [], filter_level = 3\<rparr>"

definition friday_0930 :: tm where
  "friday_0930 = \<lparr>tm_sec = 0, tm_min = 30, tm_hour = 9, tm_mday = 1, tm_mon = 2, tm_year = 124,
     tm_wday = 5, tm_yday = 60, tm_isdst = 0\<rparr>"

text \<open>
  Two cases the search does not cover, each a witness of what the code does there. A week day filter with
  a step beside a month day filter: \<^verbatim>\<open>scheduler_validate_wday_filter\<close> tests that a value of the filter
  follows, not that the day is one, so that \<^verbatim>\<open>wd1-7/2\<close> accepts a Tuesday. Several filters with steps:
  \<^verbatim>\<open>scheduler_get_nearest_filter_value\<close> answers from the first filter whose range holds the value, so that
  \<^verbatim>\<open>m0-59/30,5\<close> goes from minute 1 to minute 30.
\<close>

lemma validate_wday_accepts_tuesday:
  "let iv = \<lparr>mdays = [\<lparr>f_start = 1, f_end = 31, f_step = 1\<rparr>], wdays = [\<lparr>f_start = 1, f_end = 7, f_step = 2\<rparr>],
       hours = [], minutes = [], seconds = [], filter_level = 1\<rparr>;
     tuesday = friday_0930\<lparr>tm_mday := 5\<rparr>
   in tm_dow tuesday = 2 \<and> scheduler_validate_wday_filter iv tuesday
     \<and> mday_loop iv tuesday = Some (True, tuesday)"
  by code_simp

lemma nearest_passes_a_value:
  "let fs = [\<lparr>f_start = 0, f_end = 59, f_step = 30\<rparr>, \<lparr>f_start = 5, f_end = 5, f_step = 1\<rparr>]
   in scheduler_get_nearest_filter_value fs 1 = Some 30 \<and> scheduler_get_nearest_filter_value fs 5 = Some 30"
  by code_simp

section \<open>Properties\<close>

text \<open>
  C5: for every scheduling interval the parser builds that has no month days or no week days, and every
  local time before April 2037, the search ends, and at a valid date and time strictly after the given one
  that all filters of the interval admit: the day filter, and for each unit of the time of day its filters,
  any value if only finer units have filters, zero otherwise.
\<close>

theorem scheduler_next_admitted:
  assumes "interval_wf iv" "mdays iv = [] \<or> wdays iv = []" "tm_ok t" "month_index t \<le> LAST_MONTH - 9"
  shows "\<exists>t'. scheduler_apply_filters iv (scheduler_tm_inc t) = Some t' \<and> time_admitted iv t'
    \<and> tm_tuple t < tm_tuple t'"
  using inc_apply_filters [of False iv t] assms by (auto simp: interval_ok_def day_interval_ok_def)

theorem scheduler_next_admitted_witness:
  "\<exists>t'. scheduler_apply_filters workday_morning (scheduler_tm_inc friday_0930) = Some t'
    \<and> time_admitted workday_morning t' \<and> tm_tuple friday_0930 < tm_tuple t'"
  by (rule scheduler_next_admitted) code_simp+

text \<open>
  C10: if moreover every unit has a single filter or only filters without a step, the search ends at the first admitted
  time: the time found is later than the given one, all filters admit it, and every admitted time that is later than
  the given one is the time found or after it.
\<close>

theorem scheduler_next_least:
  assumes "interval_wf iv" "mdays iv = [] \<or> wdays iv = []"
    "list_all simple_chain [mdays iv, wdays iv, hours iv, minutes iv, seconds iv]"
    "tm_ok t" "month_index t \<le> LAST_MONTH - 9"
  shows "\<exists>t'. scheduler_apply_filters iv (scheduler_tm_inc t) = Some t' \<and> time_admitted iv t' \<and> tm_tuple t < tm_tuple t'
    \<and> (\<forall>u. time_admitted iv u \<and> tm_tuple t < tm_tuple u \<longrightarrow> tm_tuple t' \<le> tm_tuple u)"
proof -
  have "interval_ok True iv" using assms(1-3) by (simp add: interval_ok_def day_interval_ok_def)
  from inc_apply_filters [OF this assms(4,5)] show ?thesis by auto
qed

theorem scheduler_next_least_witness:
  "\<exists>t'. scheduler_apply_filters workday_morning (scheduler_tm_inc friday_0930) = Some t'
    \<and> time_admitted workday_morning t' \<and> tm_tuple friday_0930 < tm_tuple t'
    \<and> tm_tuple t' \<le> tm_tuple (friday_0930\<lparr>tm_mday := 4\<rparr>)"
proof -
  have "time_admitted workday_morning (friday_0930\<lparr>tm_mday := 4\<rparr>)" by code_simp
  moreover have "tm_tuple friday_0930 < tm_tuple (friday_0930\<lparr>tm_mday := 4\<rparr>)" by code_simp
  moreover have "\<exists>t'. scheduler_apply_filters workday_morning (scheduler_tm_inc friday_0930) = Some t'
      \<and> time_admitted workday_morning t' \<and> tm_tuple friday_0930 < tm_tuple t'
      \<and> (\<forall>u. time_admitted workday_morning u \<and> tm_tuple friday_0930 < tm_tuple u \<longrightarrow> tm_tuple t' \<le> tm_tuple u)"
    by (rule scheduler_next_least) code_simp+
  ultimately show ?thesis by blast
qed

text \<open>
  The day of the week is computed correctly for every date from 1970 on: 1 January 1970 was a Thursday,
  and the number of days since then decides (1 is Monday, 7 is Sunday).
\<close>

theorem dayofweek_correct:
  assumes "1970 \<le> y" "valid_date y m d"
  shows "calculate_dayofweek y m d
    = ((\<Sum>k \<in> {1970..<y}. year_length k) + (\<Sum>k \<in> {1..<m}. zbx_day_in_month y k) + (d - 1) + 3) mod 7 + 1"
proof -
  have "civil_days y m d = civil_days y 1 1 + days_before_month y m + d - 1"
    by (simp add: civil_days_def)
  then show ?thesis
    using dayofweek_civil [of y m d] civil_days_years [of y] assms
    by (simp add: valid_date_def days_before_month_def)
qed

theorem dayofweek_correct_witness:
  "calculate_dayofweek 2000 2 29
    = ((\<Sum>k \<in> {1970..<2000}. year_length k) + (\<Sum>k \<in> {1..<2}. zbx_day_in_month 2000 k) + (29 - 1) + 3) mod 7 + 1"
  by (rule dayofweek_correct) code_simp+

end
