(* ===== verification/ZbxNextcheck.thy ===== *)
theory ZbxNextcheck
  imports ZbxSearch
begin

text \<open>
  When an item is checked next (\<^verbatim>\<open>src/libs/zbxexpr/interval.c\<close>): the delay that applies at a moment, the
  moment it may change, the next scheduled time with its daylight saving correction, and the nextcheck of
  items. The time zone is a parameter: \<open>lt\<close> is \<^verbatim>\<open>localtime\<close> and \<open>mk\<close> is \<^verbatim>\<open>mktime\<close> (the time or
  -1, and the normalised time) in the zone of the process. Loops that end only for a sane zone are
  \<open>partial_function (option)\<close>.
\<close>

section \<open>Definitions\<close>

type_synonym localtime = "int \<Rightarrow> tm"
type_synonym mktime = "tm \<Rightarrow> int \<times> tm"

text \<open>
  \<^verbatim>\<open>zbx_localtime_now\<close> keeps the last time and its broken-down form in static variables; the callers below
  use \<open>lt\<close> for it, which \<open>localtime_now_transparent\<close> justifies.
\<close>

record localtime_cache =
  tm_last :: tm
  time_last :: int

definition zbx_localtime_now :: "localtime \<Rightarrow> localtime_cache \<Rightarrow> int \<Rightarrow> tm \<times> localtime_cache" where
  "zbx_localtime_now lt c t =
     (let c = (if time_last c \<noteq> t then c\<lparr>time_last := t, tm_last := lt t\<rparr> else c) in (tm_last c, c))"

definition week_day :: "tm \<Rightarrow> int" where
  "week_day tm = (if tm_wday tm = 0 then 7 else tm_wday tm)"

definition day_time :: "tm \<Rightarrow> int" where
  "day_time tm = SEC_PER_HOUR * tm_hour tm + SEC_PER_MIN * tm_min tm + tm_sec tm"

definition check_time_period :: "zbx_time_period \<Rightarrow> tm \<Rightarrow> bool" where
  "check_time_period p tm \<longleftrightarrow> start_day p \<le> week_day tm \<and> week_day tm \<le> end_day p
     \<and> start_time p \<le> day_time tm \<and> day_time tm < end_time p"

fun current_delay_loop :: "localtime \<Rightarrow> int \<Rightarrow> flexible_interval list \<Rightarrow> int \<Rightarrow> int" where
  "current_delay_loop lt current_delay [] now = current_delay"
| "current_delay_loop lt current_delay (f # fs) now =
     current_delay_loop lt
       (if (current_delay = -1 \<or> delay f < current_delay) \<and> check_time_period (period f) (lt now)
        then delay f else current_delay) fs now"

definition get_current_delay :: "localtime \<Rightarrow> int \<Rightarrow> flexible_interval list \<Rightarrow> int \<Rightarrow> int" where
  "get_current_delay lt default_delay flex_intervals now =
     (let current_delay = current_delay_loop lt (-1) flex_intervals now
      in if current_delay = -1 then default_delay else current_delay)"

definition delay_candidate :: "zbx_time_period \<Rightarrow> int \<Rightarrow> int \<Rightarrow> int" where
  "delay_candidate p day time =
     (if start_day p \<le> day \<and> day \<le> end_day p \<and> time < end_time p then
        if time < start_time p then start_time p else end_time p
      else if day < end_day p then
        if day < start_day p then SEC_PER_DAY * (start_day p - day) + start_time p
        else SEC_PER_DAY + start_time p
      else SEC_PER_DAY * (start_day p + 7 - day) + start_time p)"

fun next_delay_loop :: "flexible_interval list \<Rightarrow> int \<Rightarrow> int \<Rightarrow> int \<Rightarrow> int" where
  "next_delay_loop [] day time next = next"
| "next_delay_loop (f # fs) day time next =
     (let candidate = delay_candidate (period f) day time
      in next_delay_loop fs day time (if next = 0 \<or> next > candidate then candidate else next))"

definition get_next_delay_interval :: "localtime \<Rightarrow> flexible_interval list \<Rightarrow> int \<Rightarrow> int option" where
  "get_next_delay_interval lt flex_intervals now =
     (if flex_intervals = [] then None
      else let tm = lt now; next = next_delay_loop flex_intervals (week_day tm) (day_time tm) 0
        in if next = 0 then None else Some (now - day_time tm + next))"

text \<open>
  The static \<^verbatim>\<open>time_dst\<close> is passed in and returned. The minutes and their products by 60 are ints; where they wrap the
  bisection need not end, and \<open>None\<close> is not returning.
\<close>

partial_function (option) dst_bisect :: "localtime \<Rightarrow> int \<Rightarrow> int \<Rightarrow> int \<Rightarrow> int option" where
  "dst_bisect lt dst_start start stop =
     (if stop > wrap32 (start + 1) then
        let mid = cdiv (wrap32 (start + stop)) 2; time_mid = wrap32 (mid * 60) in
        if tm_isdst (lt time_mid) = dst_start then dst_bisect lt dst_start mid stop
        else dst_bisect lt dst_start start mid
      else Some stop)"

definition scheduler_find_dst_change :: "localtime \<Rightarrow> int \<Rightarrow> int \<Rightarrow> int \<Rightarrow> int option" where
  "scheduler_find_dst_change lt time_dst time_start time_end =
     (if time_dst < time_start \<or> time_dst > time_end
      then map_option (\<lambda>stop. wrap32 (stop * 60))
             (dst_bisect lt (tm_isdst (lt time_start)) (wrap32 (cdiv time_start 60)) (wrap32 (cdiv time_end 60)))
      else Some time_dst)"

partial_function (option) schedule_attempt ::
  "mktime \<Rightarrow> scheduler_interval \<Rightarrow> int \<Rightarrow> tm \<Rightarrow> int option" where
  "schedule_attempt mk interval isdst tm =
     Option.bind (scheduler_apply_filters interval (scheduler_tm_inc tm))
       (\<lambda>tm. case mk (tm\<lparr>tm_isdst := isdst\<rparr>) of
          (t, tm) \<Rightarrow> if t = -1 then schedule_attempt mk interval isdst tm else Some t)"

text \<open>One pass of the interval loop: the candidate and the static \<^verbatim>\<open>time_dst\<close> afterwards.\<close>

definition schedule_interval ::
  "localtime \<Rightarrow> mktime \<Rightarrow> int \<Rightarrow> int \<Rightarrow> scheduler_interval \<Rightarrow> (int \<times> int) option" where
  "schedule_interval lt mk now time_dst interval =
     (let tm_start = lt now in
      Option.bind (schedule_attempt mk interval (tm_isdst tm_start) tm_start) (\<lambda>current_nextcheck.
      let dst = tm_isdst (lt current_nextcheck) in
      if dst \<noteq> tm_isdst tm_start then
        Option.bind (scheduler_find_dst_change lt time_dst now current_nextcheck) (\<lambda>time_dst.
        Option.bind (scheduler_apply_filters interval (lt time_dst)) (\<lambda>tm_dst.
        Some (fst (mk (tm_dst\<lparr>tm_isdst := dst\<rparr>)), time_dst)))
      else Some (current_nextcheck, time_dst)))"

fun schedule_loop ::
  "localtime \<Rightarrow> mktime \<Rightarrow> int \<Rightarrow> scheduler_interval list \<Rightarrow> int \<Rightarrow> int \<Rightarrow> (int \<times> int) option" where
  "schedule_loop lt mk now [] nextcheck time_dst = Some (nextcheck, time_dst)"
| "schedule_loop lt mk now (iv # ivs) nextcheck time_dst =
     Option.bind (schedule_interval lt mk now time_dst iv) (\<lambda>(current_nextcheck, time_dst).
     schedule_loop lt mk now ivs
       (if nextcheck = 0 \<or> current_nextcheck < nextcheck then current_nextcheck else nextcheck) time_dst)"

definition scheduler_get_nextcheck ::
  "localtime \<Rightarrow> mktime \<Rightarrow> int \<Rightarrow> scheduler_interval list \<Rightarrow> int \<Rightarrow> (int \<times> int) option" where
  "scheduler_get_nextcheck lt mk time_dst interval now = schedule_loop lt mk now interval 0 time_dst"

section \<open>Nextcheck of items\<close>

text \<open>
  \<^verbatim>\<open>while (nextcheck <= t)\<close> for the first attempt, \<^verbatim>\<open>while (nextcheck < t)\<close> for the others.
\<close>

partial_function (option) advance_nextcheck :: "bool \<Rightarrow> int \<Rightarrow> int \<Rightarrow> int \<Rightarrow> int option" where
  "advance_nextcheck first current_delay t nextcheck =
     (if (if first then nextcheck \<le> t else nextcheck < t)
      then advance_nextcheck first current_delay t (wrap32 (nextcheck + current_delay))
      else Some nextcheck)"

definition delay_nextcheck :: "nat \<Rightarrow> int \<Rightarrow> bool \<Rightarrow> int \<Rightarrow> int option" where
  "delay_nextcheck seed current_delay first t =
     (if current_delay \<noteq> 0 then
        advance_nextcheck first current_delay t
          (wrap32 (current_delay * wrap32 (cdiv t current_delay)
             + wrap32 (int (seed mod nat (current_delay mod 2 ^ 64)))))
      else Some ZBX_JAN_2038)"

partial_function (option) item_nextcheck_loop ::
  "localtime \<Rightarrow> nat \<Rightarrow> int \<Rightarrow> custom_interval option \<Rightarrow> int \<Rightarrow> int \<Rightarrow> nat \<Rightarrow> int \<Rightarrow> int option" where
  "item_nextcheck_loop lt seed simple_interval custom_intervals tmax t attempt nextcheck =
     (if t < tmax then
        Option.bind
          (delay_nextcheck seed
             (case custom_intervals of None \<Rightarrow> simple_interval
              | Some ci \<Rightarrow> get_current_delay lt simple_interval (flexible ci) t) (attempt = 0) t)
          (\<lambda>nextcheck.
             case custom_intervals of None \<Rightarrow> Some nextcheck
             | Some ci \<Rightarrow>
                 (case get_next_delay_interval lt (flexible ci) t of
                    None \<Rightarrow> Some nextcheck
                  | Some next_interval \<Rightarrow>
                      if nextcheck \<ge> next_interval
                      then item_nextcheck_loop lt seed simple_interval custom_intervals tmax next_interval
                             (attempt + 1) nextcheck
                      else Some nextcheck))
      else Some nextcheck)"

text \<open>
  \<^verbatim>\<open>item_type\<close> matters only in being \<^verbatim>\<open>ITEM_TYPE_ZABBIX_ACTIVE\<close> (7). The result is the nextcheck and
  the static \<^verbatim>\<open>time_dst\<close>.
\<close>

definition ITEM_TYPE_ZABBIX_ACTIVE :: nat where
  "ITEM_TYPE_ZABBIX_ACTIVE = 7"

definition ITEM_TYPE_ZABBIX :: nat where
  "ITEM_TYPE_ZABBIX = 0"

definition zbx_calculate_item_nextcheck ::
  "localtime \<Rightarrow> mktime \<Rightarrow> int \<Rightarrow> nat \<Rightarrow> nat \<Rightarrow> int \<Rightarrow> custom_interval option \<Rightarrow> int \<Rightarrow> (int \<times> int) option"
where
  "zbx_calculate_item_nextcheck lt mk time_dst seed item_type simple_interval custom_intervals now =
     (if item_type = ITEM_TYPE_ZABBIX_ACTIVE then
        Some (if simple_interval \<noteq> 0 then wrap32 (wrap32 now + simple_interval) else ZBX_JAN_2038, time_dst)
      else
        Option.bind (case custom_intervals of None \<Rightarrow> Some (0, time_dst)
          | Some ci \<Rightarrow> scheduler_get_nextcheck lt mk time_dst (scheduling ci) now)
          (\<lambda>(scheduled_check, time_dst).
        Option.bind (item_nextcheck_loop lt seed simple_interval custom_intervals (now + SEC_PER_YEAR) now 0 0)
          (\<lambda>nextcheck.
        Some (if scheduled_check \<noteq> 0 \<and> scheduled_check < nextcheck then wrap32 scheduled_check else nextcheck,
              time_dst))))"

partial_function (option) unreachable_loop ::
  "localtime \<Rightarrow> int \<Rightarrow> flexible_interval list \<Rightarrow> int \<Rightarrow> int \<Rightarrow> int option" where
  "unreachable_loop lt simple_interval flex tmax nextcheck =
     (if nextcheck < tmax then
        if get_current_delay lt simple_interval flex nextcheck \<noteq> 0 then Some nextcheck
        else (case get_next_delay_interval lt flex nextcheck of
                None \<Rightarrow> Some ZBX_JAN_2038
              | Some next_interval \<Rightarrow> unreachable_loop lt simple_interval flex tmax (wrap32 next_interval))
      else Some nextcheck)"

definition zbx_calculate_item_nextcheck_unreachable ::
  "localtime \<Rightarrow> mktime \<Rightarrow> int \<Rightarrow> int \<Rightarrow> custom_interval option \<Rightarrow> int \<Rightarrow> (int \<times> int) option"
where
  "zbx_calculate_item_nextcheck_unreachable lt mk time_dst simple_interval custom_intervals disable_until =
     Option.bind (case custom_intervals of None \<Rightarrow> Some (0, time_dst)
       | Some ci \<Rightarrow> scheduler_get_nextcheck lt mk time_dst (scheduling ci) disable_until)
       (\<lambda>(scheduled_check, time_dst).
     Option.bind (case custom_intervals of None \<Rightarrow> Some (wrap32 disable_until)
       | Some ci \<Rightarrow> unreachable_loop lt simple_interval (flexible ci) (disable_until + SEC_PER_YEAR)
                       (wrap32 disable_until))
       (\<lambda>nextcheck.
     Some (if scheduled_check \<noteq> 0 \<and> scheduled_check < nextcheck then wrap32 scheduled_check else nextcheck,
           time_dst)))"

text \<open>
  The loop over the periods; \<open>str\<close> (\<^verbatim>\<open>period\<close>) and \<open>next\<close> are the two pointers. \<open>None\<close> is an invalid period,
  \<open>Some\<close> holds \<^verbatim>\<open>*res\<close>.
\<close>

function time_period_loop :: "tm \<Rightarrow> string \<Rightarrow> string option \<Rightarrow> bool \<Rightarrow> bool option" where
  "time_period_loop tm str next res_total =
     (case time_period_parse str (segment_length str next) of
        None \<Rightarrow> None
      | Some tp \<Rightarrow>
          let res_total = (check_time_period tp tm \<or> res_total) in
          case next of None \<Rightarrow> Some res_total
          | Some n \<Rightarrow> time_period_loop tm (tl n) (strchr (tl n) CHR '';'') res_total)"
  by pat_completeness auto
termination time_period_loop
proof (relation "measure (\<lambda>(tm, p, nx, r). case nx of None \<Rightarrow> 0 | Some n \<Rightarrow> Suc (length n))", goal_cases)
  case (2 tm p nx r tp r' n)
  then show ?case by (cases n) (auto split: option.splits dest: strchr_length)
qed simp

declare time_period_loop.simps [simp del]

definition zbx_check_time_period :: "(string \<Rightarrow> localtime) \<Rightarrow> string \<Rightarrow> int \<Rightarrow> string \<Rightarrow> bool option" where
  "zbx_check_time_period zone str time tz =
     time_period_loop (zone tz time) str (strchr str CHR '';'') False"

text \<open>\<open>Inl\<close> is a failure, with the nextcheck still set to 2038.\<close>

definition zbx_get_agent_item_nextcheck ::
  "localtime \<Rightarrow> mktime \<Rightarrow> int \<Rightarrow> nat \<Rightarrow> string \<Rightarrow> int \<Rightarrow> (int \<times> interval_error + int \<times> bool \<times> int) option"
where
  "zbx_get_agent_item_nextcheck lt mk time_dst itemid delay_str now =
     (case zbx_interval_preproc delay_str True of
        Inl e \<Rightarrow> Some (Inl (ZBX_JAN_2038, e))
      | Inr (simple_interval, custom_intervals) \<Rightarrow>
          map_option (\<lambda>(nextcheck, time_dst).
              Inr (nextcheck, zbx_custom_interval_is_scheduling (the custom_intervals), time_dst))
            (zbx_calculate_item_nextcheck lt mk time_dst itemid ITEM_TYPE_ZABBIX simple_interval
               custom_intervals now))"

declare schedule_attempt.simps [code] advance_nextcheck.simps [code] item_nextcheck_loop.simps [code]
  unreachable_loop.simps [code]

section \<open>The delay that applies\<close>

lemma localtime_now_transparent:
  assumes "time_last c \<noteq> t \<or> tm_last c = lt t"
  shows "fst (zbx_localtime_now lt c t) = lt t"
    "tm_last (snd (zbx_localtime_now lt c t)) = lt (time_last (snd (zbx_localtime_now lt c t)))"
  using assms by (auto simp: zbx_localtime_now_def Let_def)

lemma current_delay_loop_min:
  assumes "\<forall>f \<in> set fs. 0 \<le> delay f" "-1 \<le> c"
  shows "current_delay_loop lt c fs now =
    (let ds = map delay (filter (\<lambda>f. check_time_period (period f) (lt now)) fs)
     in if ds = [] then c else if c = -1 then Min (set ds) else min c (Min (set ds)))"
  using assms
proof (induction fs arbitrary: c)
  case (Cons f fs)
  let ?ds = "map delay (filter (\<lambda>f. check_time_period (period f) (lt now)) fs)"
  have nn: "0 \<le> Min (set ?ds)" if "?ds \<noteq> []"
    using Cons.prems(1) that by (subst Min_ge_iff) (auto simp: filter_empty_conv)
  show ?case
  proof (cases "check_time_period (period f) (lt now)")
    case True
    let ?c = "if c = -1 \<or> delay f < c then delay f else c"
    define ds where "ds = ?ds"
    have "current_delay_loop lt c (f # fs) now = current_delay_loop lt ?c fs now" using True by simp
    also have "\<dots> = (if ds = [] then ?c else if ?c = -1 then Min (set ds) else min ?c (Min (set ds)))"
      using Cons.IH [of ?c] Cons.prems by (simp add: Let_def ds_def)
    also have "\<dots> = (if c = -1 then Min (set (delay f # ds)) else min c (Min (set (delay f # ds))))"
      using nn [folded ds_def] Cons.prems by (cases "ds = []") (auto simp: min_def)
    finally show ?thesis using True by (simp add: ds_def)
  next
    case False
    then show ?thesis using Cons.IH [of c] Cons.prems by (simp add: Let_def)
  qed
qed simp

lemma current_delay_cong:
  assumes "\<And>f. f \<in> set fs \<Longrightarrow> check_time_period (period f) (lt t) = check_time_period (period f) (lt u)"
  shows "get_current_delay lt d fs t = get_current_delay lt d fs u"
proof -
  have "current_delay_loop lt c fs t = current_delay_loop lt c fs u" for c
    using assms by (induction fs arbitrary: c) auto
  then show ?thesis by (simp add: get_current_delay_def)
qed

section \<open>When the delay may change\<close>

definition tm_sane :: "tm \<Rightarrow> bool" where
  "tm_sane tm \<longleftrightarrow> 0 \<le> tm_wday tm \<and> tm_wday tm \<le> 6 \<and> valid_time (tm_hour tm) (tm_min tm) (tm_sec tm)"

text \<open>Seconds since Monday 00:00, and a zone in which the week runs on without a clock change.\<close>

definition week_time :: "tm \<Rightarrow> int" where
  "week_time tm = (week_day tm - 1) * SEC_PER_DAY + day_time tm"

definition regular_weeks :: "localtime \<Rightarrow> int \<Rightarrow> int \<Rightarrow> bool" where
  "regular_weeks lt a b \<longleftrightarrow>
     (\<forall>u. a \<le> u \<and> u < b \<longrightarrow> tm_sane (lt u) \<and> week_time (lt u) = (week_time (lt a) + (u - a)) mod SEC_PER_WEEK)"

lemma tm_sane_bounds:
  assumes "tm_sane tm"
  shows "1 \<le> week_day tm" "week_day tm \<le> 7" "0 \<le> day_time tm" "day_time tm < SEC_PER_DAY"
  using assms by (auto simp: tm_sane_def week_day_def day_time_def valid_time_def)

lemma week_split:
  assumes "tm_sane tm" "tm_sane tm'" "week_time tm' = (week_time tm + k) mod SEC_PER_WEEK"
  obtains q where "(week_day tm' + 7 * q) * SEC_PER_DAY + day_time tm' = week_day tm * SEC_PER_DAY + day_time tm + k"
proof
  let ?x = "week_time tm + k"
  have "?x div SEC_PER_WEEK * SEC_PER_WEEK + ?x mod SEC_PER_WEEK = ?x" by (rule div_mult_mod_eq)
  then show "(week_day tm' + 7 * (?x div SEC_PER_WEEK)) * SEC_PER_DAY + day_time tm'
      = week_day tm * SEC_PER_DAY + day_time tm + k"
    unfolding assms(3) [symmetric] by (simp add: week_time_def)
qed

text \<open>A period is open or closed throughout until its candidate.\<close>

lemma candidate_stable:
  assumes p: "period_wf p" and s: "tm_sane tm" "tm_sane tm'"
    and w: "week_time tm' = (week_time tm + k) mod SEC_PER_WEEK"
    and k: "0 \<le> k" "day_time tm + k < delay_candidate p (week_day tm) (day_time tm)"
  shows "check_time_period p tm' = check_time_period p tm"
proof -
  let ?d = "week_day tm" and ?t = "day_time tm" and ?d' = "week_day tm'" and ?t' = "day_time tm'"
  note b = tm_sane_bounds [OF s(1)] and c = tm_sane_bounds [OF s(2)]
  from p have p: "1 \<le> start_day p" "start_day p \<le> end_day p" "end_day p \<le> 7" "0 \<le> start_time p"
    "start_time p < end_time p" "end_time p \<le> SEC_PER_DAY" "start_time p < SEC_PER_DAY"
    by (auto simp: period_wf_def)
  from week_split [OF s w] obtain q where q: "(?d' + 7 * q) * SEC_PER_DAY + ?t' = ?d * SEC_PER_DAY + ?t + k" .
  define D where "D = ?d' + 7 * q"
  have lo: "?d < D \<or> ?d = D \<and> ?t \<le> ?t'"
    using digits_le [OF b(3,4) c(3,4), of ?d D] q k(1) by (simp add: D_def)
  have hi: "D < e \<or> D = e \<and> ?t' < x" if "?t + k < (e - ?d) * SEC_PER_DAY + x" "0 \<le> x" "x < SEC_PER_DAY" for e x
  proof -
    have "\<not> e * SEC_PER_DAY + x \<le> D * SEC_PER_DAY + ?t'" using that(1) q by (simp add: D_def algebra_simps)
    then show ?thesis using digits_le [OF that(2,3) c(3,4), of e D] by auto
  qed
  have same: "?d' = ?d" if "D = ?d" using that b c unfolding D_def by presburger
  have next_day: "?d' = ?d + 1" if "D = ?d + 1" "?d < 7" using that b c unfolding D_def by presburger
  have this_week: "?d' = D" if "D \<le> 7" using that lo b c unfolding D_def by presburger
  have next_week: "?d' = D \<or> ?d' = D - 7" if "D \<le> 14" using that lo b c unfolding D_def by presburger
  consider (wait) "start_day p \<le> ?d" "?d \<le> end_day p" "?t < start_time p"
    | (active) "start_day p \<le> ?d" "?d \<le> end_day p" "start_time p \<le> ?t" "?t < end_time p"
    | (later) "?d < start_day p"
    | (tomorrow) "start_day p \<le> ?d" "?d < end_day p" "end_time p \<le> ?t"
    | (next_week) "end_day p < ?d \<or> end_day p = ?d \<and> end_time p \<le> ?t" by linarith
  then show ?thesis
  proof cases
    case wait
    then have "D = ?d \<and> ?t' < start_time p" using hi [of ?d "start_time p"] k p lo by (auto simp: delay_candidate_def)
    with same wait show ?thesis by (auto simp: check_time_period_def)
  next
    case active
    then have e: "?t + k < end_time p" using k by (auto simp: delay_candidate_def)
    with hi [of ?d "end_time p - 1"] hi [of "?d + 1" 0] lo p c(3) have "D = ?d" by auto
    moreover from this q e have "?t' < end_time p" by (simp add: D_def)
    ultimately show ?thesis using active lo same by (auto simp: check_time_period_def)
  next
    case later
    then have "D < start_day p \<or> D = start_day p \<and> ?t' < start_time p"
      using hi [of "start_day p" "start_time p"] k p by (auto simp: delay_candidate_def algebra_simps)
    with this_week later p show ?thesis by (auto simp: check_time_period_def)
  next
    case tomorrow
    then have "D < ?d + 1 \<or> D = ?d + 1 \<and> ?t' < start_time p"
      using hi [of "?d + 1" "start_time p"] k p by (auto simp: delay_candidate_def)
    with tomorrow lo same next_day p show ?thesis by (auto simp: check_time_period_def)
  next
    case next_week
    then have "D < start_day p + 7 \<or> D = start_day p + 7 \<and> ?t' < start_time p"
      using hi [of "start_day p + 7" "start_time p"] k p by (auto simp: delay_candidate_def algebra_simps)
    with next_week lo \<open>D \<le> 14 \<Longrightarrow> ?d' = D \<or> ?d' = D - 7\<close> p c show ?thesis by (auto simp: check_time_period_def)
  qed
qed

lemma candidate_bounds:
  assumes "period_wf p" "tm_sane tm"
  shows "day_time tm < delay_candidate p (week_day tm) (day_time tm)"
    "delay_candidate p (week_day tm) (day_time tm) < 14 * SEC_PER_DAY"
  using tm_sane_bounds [OF assms(2)] assms(1) by (auto simp: delay_candidate_def period_wf_def)

lemma next_delay_loop_props:
  assumes "\<forall>f \<in> set fs. time < delay_candidate (period f) day time" "0 \<le> time" "next = 0 \<or> time < next"
    "fs \<noteq> [] \<or> time < next"
  shows "time < next_delay_loop fs day time next
    \<and> (next \<noteq> 0 \<longrightarrow> next_delay_loop fs day time next \<le> next)
    \<and> (\<forall>f \<in> set fs. next_delay_loop fs day time next \<le> delay_candidate (period f) day time)"
  using assms
proof (induction fs arbitrary: "next")
  case (Cons f fs)
  let ?c = "delay_candidate (period f) day time"
  let ?n = "if next = 0 \<or> next > ?c then ?c else next"
  define m where "m = ?n"
  from Cons.prems have n: "time < m" "m \<noteq> 0" "m \<le> ?c" "next \<noteq> 0 \<longrightarrow> m \<le> next" by (auto simp: m_def)
  let ?r = "next_delay_loop fs day time m"
  have r: "time < ?r" "?r \<le> m" "\<forall>f \<in> set fs. ?r \<le> delay_candidate (period f) day time"
    using Cons.IH [of m] Cons.prems n(1,2) by simp_all
  have "next_delay_loop (f # fs) day time next = ?r" by (simp add: Let_def m_def)
  moreover have "?r \<le> ?c" "next \<noteq> 0 \<longrightarrow> ?r \<le> next" using r(2) n(3,4) by linarith+
  ultimately show ?case using r(1,3) by (simp only: list.set ball_simps)
qed simp

lemma next_interval_props:
  assumes "fs \<noteq> []" "list_all flexible_wf fs" "tm_sane (lt now)"
  shows "\<exists>n. get_next_delay_interval lt fs now = Some n \<and> now < n \<and> n < now + 14 * SEC_PER_DAY
    \<and> (\<forall>f \<in> set fs. n - now + day_time (lt now)
          \<le> delay_candidate (period f) (week_day (lt now)) (day_time (lt now)))"
proof -
  let ?t = "day_time (lt now)" and ?d = "week_day (lt now)"
  let ?n = "next_delay_loop fs ?d ?t 0"
  from assms(2) have wf: "\<forall>f \<in> set fs. period_wf (period f)" by (auto simp: list_all_iff flexible_wf_def)
  have t0: "0 \<le> ?t" using tm_sane_bounds [OF assms(3)] by simp
  have n: "?t < ?n \<and> (\<forall>f \<in> set fs. ?n \<le> delay_candidate (period f) ?d ?t)"
    using next_delay_loop_props [of fs ?t ?d 0] assms(1,3) wf t0 candidate_bounds(1) by auto
  moreover obtain f where "f \<in> set fs" using assms(1) by (cases fs) auto
  ultimately have "?n < 14 * SEC_PER_DAY" using candidate_bounds(2) [OF _ assms(3)] wf by fastforce
  with n t0 assms(1) show ?thesis by (auto simp: get_next_delay_interval_def Let_def)
qed

text \<open>The delay does not change before the moment \<^verbatim>\<open>get_next_delay_interval\<close> returns.\<close>

lemma regular_weeks_later:
  assumes "regular_weeks lt a b" "a \<le> t" "t < b"
  shows "regular_weeks lt t b"
proof -
  let ?w = "\<lambda>u. week_time (lt u)"
  have w: "?w u = (?w a + (u - a)) mod SEC_PER_WEEK" if "a \<le> u" "u < b" for u
    using assms(1) that unfolding regular_weeks_def by blast
  have "?w u = (?w t + (u - t)) mod SEC_PER_WEEK" if "t \<le> u" "u < b" for u
  proof -
    have "(?w t + (u - t)) mod SEC_PER_WEEK = (?w a + (t - a) + (u - t)) mod SEC_PER_WEEK"
      unfolding w [OF assms(2,3)] by (rule mod_add_left_eq)
    also have "?w a + (t - a) + (u - t) = ?w a + (u - a)" by simp
    also have "(?w a + (u - a)) mod SEC_PER_WEEK = ?w u"
      by (rule w [symmetric]) (use that assms(2) in simp_all)
    finally show ?thesis by (rule sym)
  qed
  moreover have "tm_sane (lt u)" if "t \<le> u" "u < b" for u
    using assms(1,2) that unfolding regular_weeks_def by force
  ultimately show ?thesis unfolding regular_weeks_def by blast
qed

lemma delay_stable:
  assumes fs: "list_all flexible_wf fs" and n: "get_next_delay_interval lt fs now = Some n"
    and r: "regular_weeks lt now b" "now \<le> u" "u < n" "u < b"
  shows "get_current_delay lt d fs u = get_current_delay lt d fs now"
proof (rule current_delay_cong)
  fix f assume f: "f \<in> set fs"
  have "now < b" using r by simp
  with r have s: "tm_sane (lt now)" "tm_sane (lt u)"
    "week_time (lt u) = (week_time (lt now) + (u - now)) mod SEC_PER_WEEK"
    unfolding regular_weeks_def by blast+
  have "fs \<noteq> []" using f by auto
  from next_interval_props [of fs lt now, OF this fs s(1)] obtain n' where
    n': "get_next_delay_interval lt fs now = Some n'"
      "n' - now + day_time (lt now) \<le> delay_candidate (period f) (week_day (lt now)) (day_time (lt now))"
    using f by blast
  have "period_wf (period f)" using fs f by (auto simp: list_all_iff flexible_wf_def)
  moreover have "n' = n" using n n'(1) by simp
  ultimately show "check_time_period (period f) (lt u) = check_time_period (period f) (lt now)"
    using n'(2) r by (intro candidate_stable [OF _ s]) linarith+
qed

section \<open>The nextcheck for one delay\<close>

lemma wrap32_small: "0 \<le> x \<Longrightarrow> x \<le> INT_MAX \<Longrightarrow> wrap32 x = x"
  by (rule wrap32_id) simp_all

lemma delay_nextcheck_props:
  assumes d: "0 < d" "0 \<le> t" "t + d \<le> INT_MAX"
  shows "\<exists>n. delay_nextcheck seed d first t = Some n \<and> n mod d = int seed mod d
    \<and> (if first then t < n \<and> n \<le> t + d else t \<le> n \<and> n < t + d)"
proof -
  let ?q = "t div d" and ?s = "int seed mod d"
  have q: "?q * d + t mod d = t" by (rule div_mult_mod_eq)
  have s: "0 \<le> ?s" "?s < d" and m: "0 \<le> t mod d" "t mod d < d" using d(1) by simp_all
  have q0: "0 \<le> ?q" using d by (simp add: pos_imp_zdiv_nonneg_iff)
  have "?q \<le> ?q * d" using q0 d(1) mult_left_mono [of 1 d ?q] by simp
  then have "?q \<le> INT_MAX" using q m d by linarith
  then have wq: "wrap32 (cdiv t d) = ?q" using q0 d by (simp add: cdiv_nonneg wrap32_id)
  have "d < 2 ^ 64" using d by simp
  then have "int (seed mod nat (d mod 2 ^ 64)) = ?s" using d(1) by (simp add: zmod_int)
  moreover have "wrap32 ?s = ?s" using s d by (intro wrap32_small) linarith+
  ultimately have ws: "wrap32 (int (seed mod nat (d mod 2 ^ 64))) = ?s" by (simp only:)
  define n where "n = d * ?q + ?s"
  have nq: "n = ?q * d + ?s" by (simp add: n_def)
  have n: "t - d < n" "n < t + d" using nq q s m by linarith+
  have nm: "n mod d = ?s" "(n + d) mod d = ?s" by (simp_all add: n_def)
  have wn: "wrap32 n = n" "n + d \<le> INT_MAX \<Longrightarrow> wrap32 (n + d) = n + d" using n d by (auto simp: wrap32_id)
  have "delay_nextcheck seed d first t = advance_nextcheck first d t n"
    unfolding delay_nextcheck_def wq ws n_def [symmetric] wn(1) using d(1) by simp
  also have "\<dots> = (if (if first then n \<le> t else n < t) then Some (n + d) else Some n)"
    using n d wn(2) by (subst advance_nextcheck.simps) (subst advance_nextcheck.simps, auto)
  finally show ?thesis using n nm by (auto split: if_splits)
qed

lemma current_delay_bounds:
  assumes "list_all flexible_wf fs" "0 \<le> d" "d \<le> D" "\<forall>f \<in> set fs. delay f \<le> D"
  shows "0 \<le> get_current_delay lt d fs t" "get_current_delay lt d fs t \<le> D"
proof -
  have "current_delay_loop lt c fs t = -1 \<or> 0 \<le> current_delay_loop lt c fs t \<and> current_delay_loop lt c fs t \<le> D"
    if "c = -1 \<or> 0 \<le> c \<and> c \<le> D" for c
    using assms(1,4) that
    by (induction fs arbitrary: c) (simp_all add: flexible_wf_def)
  from this [of "-1"] show "0 \<le> get_current_delay lt d fs t" "get_current_delay lt d fs t \<le> D"
    using assms(2,3) by (auto simp: get_current_delay_def Let_def)
qed

text \<open>A nextcheck of the flexible intervals: late enough, and on the grid of the delay in force then.\<close>

definition nextcheck_ok :: "localtime \<Rightarrow> nat \<Rightarrow> int \<Rightarrow> flexible_interval list \<Rightarrow> int \<Rightarrow> int \<Rightarrow> bool" where
  "nextcheck_ok lt seed si fs now n \<longleftrightarrow> now < n \<and> n \<le> INT_MAX
     \<and> (n < now + SEC_PER_YEAR \<longrightarrow> get_current_delay lt si fs n \<noteq> 0
          \<and> n mod get_current_delay lt si fs n = int seed mod get_current_delay lt si fs n)"

lemma item_loop_ok:
  assumes ci: "flexible ci = fs" "list_all flexible_wf fs"
    and lt: "regular_weeks lt now (now + SEC_PER_YEAR)"
    and D: "0 \<le> si" "si \<le> D" "\<forall>f \<in> set fs. delay f \<le> D" "now + SEC_PER_YEAR + D \<le> INT_MAX"
    and now: "0 \<le> now" "now + SEC_PER_YEAR \<le> ZBX_JAN_2038"
    and t: "now \<le> t" "attempt = 0 \<longrightarrow> t < now + SEC_PER_YEAR" "attempt \<noteq> 0 \<longrightarrow> now < t \<and> t \<le> nextcheck \<and> nextcheck \<le> INT_MAX"
  shows "\<exists>n. item_nextcheck_loop lt seed si (Some ci) (now + SEC_PER_YEAR) t attempt nextcheck = Some n
    \<and> nextcheck_ok lt seed si fs now n"
  using t
proof (induction "nat (now + SEC_PER_YEAR - t)" arbitrary: t attempt nextcheck rule: less_induct)
  case less
  let ?m = "now + SEC_PER_YEAR" and ?d = "get_current_delay lt si fs t"
  show ?case
  proof (cases "t < ?m")
    case False
    with less.prems show ?thesis
      by (subst item_nextcheck_loop.simps) (auto simp: nextcheck_ok_def)
  next
    case True
    note d = current_delay_bounds [OF ci(2) D(1,2,3), of lt t]
    have "\<exists>n1. delay_nextcheck seed ?d (attempt = 0) t = Some n1 \<and> t \<le> n1 \<and> now < n1 \<and> n1 \<le> INT_MAX
        \<and> (n1 < ?m \<longrightarrow> ?d \<noteq> 0 \<and> n1 mod ?d = int seed mod ?d)"
    proof (cases "?d = 0")
      case True
      with \<open>t < ?m\<close> now show ?thesis by (simp add: delay_nextcheck_def)
    next
      case False
      then have "0 < ?d" "t + ?d \<le> INT_MAX" "0 \<le> t" using d True D(4) less.prems(1) now by auto
      from delay_nextcheck_props [OF this(1,3,2), of seed "attempt = 0"] obtain n1 where
        "delay_nextcheck seed ?d (attempt = 0) t = Some n1" "n1 mod ?d = int seed mod ?d"
        "if attempt = 0 then t < n1 \<and> n1 \<le> t + ?d else t \<le> n1 \<and> n1 < t + ?d" by blast
      with False less.prems \<open>t + ?d \<le> INT_MAX\<close> show ?thesis by (auto split: if_splits)
    qed
    then obtain n1 where n1: "delay_nextcheck seed ?d (attempt = 0) t = Some n1" "t \<le> n1" "now < n1" "n1 \<le> INT_MAX"
      "n1 < ?m \<Longrightarrow> ?d \<noteq> 0 \<and> n1 mod ?d = int seed mod ?d" by blast
    have unfold: "item_nextcheck_loop lt seed si (Some ci) ?m t attempt nextcheck =
        (case get_next_delay_interval lt fs t of None \<Rightarrow> Some n1
         | Some n \<Rightarrow> if n1 \<ge> n then item_nextcheck_loop lt seed si (Some ci) ?m n (attempt + 1) n1 else Some n1)"
      using True n1(1) ci(1) by (subst item_nextcheck_loop.simps) simp
    have r: "regular_weeks lt t ?m" using regular_weeks_later [OF lt less.prems(1) True] .
    then have sane: "tm_sane (lt t)" using True unfolding regular_weeks_def by simp
    show ?thesis
    proof (cases "fs = []")
      case True
      with unfold n1 show ?thesis
        by (simp add: get_next_delay_interval_def nextcheck_ok_def get_current_delay_def)
    next
      case False
      from next_interval_props [of fs lt t, OF this ci(2) sane] obtain n where
        n: "get_next_delay_interval lt fs t = Some n" "t < n" by blast
      show ?thesis
      proof (cases "n1 \<ge> n")
        case True
        have "nat (?m - n) < nat (?m - t)" using n(2) \<open>t < ?m\<close> by simp
        from less.hyps [OF this, of "attempt + 1" n1] True n n1(4) unfold less.prems(1) show ?thesis by simp
      next
        case False
        have "get_current_delay lt si fs n1 = ?d" if "n1 < ?m"
          using delay_stable [OF ci(2) n(1) r n1(2) _ that] False by simp
        with n1 False unfold n(1) show ?thesis by (simp add: nextcheck_ok_def)
      qed
    qed
  qed
qed

section \<open>The order of broken-down times is the order of instants\<close>

definition tm_seconds :: "tm \<Rightarrow> int" where
  "tm_seconds t = tm_days t * SEC_PER_DAY + day_time t"

definition month_days :: "int \<Rightarrow> int" where
  "month_days k = civil_days (k div 12 + 1900) (k mod 12 + 1) 1"

definition month_length :: "int \<Rightarrow> int" where
  "month_length k = zbx_day_in_month (k div 12 + 1900) (k mod 12 + 1)"

lemma civil_days_add: "civil_days y m (d + n) = civil_days y m d + n"
  by (simp add: civil_days_def)

lemma month_days_at:
  assumes "0 \<le> r" "r < 12"
  shows "month_days (12 * q + r) = civil_days (q + 1900) (r + 1) 1"
    "month_length (12 * q + r) = zbx_day_in_month (q + 1900) (r + 1)"
  using assms by (simp_all add: month_days_def month_length_def)

lemma month_days_Suc: "month_days (k + 1) = month_days k + month_length k"
proof -
  define q r where "q = k div 12" and "r = k mod 12"
  have k: "k = 12 * q + r" and r: "0 \<le> r" "r < 12" by (simp_all add: q_def r_def)
  show ?thesis
  proof (cases "r = 11")
    case True
    have "month_days (k + 1) = month_days (12 * (q + 1) + 0)" by (simp add: k True algebra_simps)
    also have "\<dots> = civil_days (q + 1900 + 1) 1 1" by (subst month_days_at) simp_all
    also have "\<dots> = civil_days (q + 1900) 12 1 + zbx_day_in_month (q + 1900) 12"
      unfolding civil_days_next_year civil_days_add ..
    finally show ?thesis unfolding k month_days_at [OF r] by (simp add: True)
  next
    case False
    have "month_days (k + 1) = month_days (12 * q + (r + 1))" by (simp only: k add.assoc)
    also have "\<dots> = civil_days (q + 1900) (r + 1 + 1) 1" by (rule month_days_at) (use r False in simp_all)
    also have "\<dots> = civil_days (q + 1900) (r + 1) 1 + zbx_day_in_month (q + 1900) (r + 1)"
      using civil_days_next_month [of "r + 1" "q + 1900" 1] r by (simp only: civil_days_add)
    finally show ?thesis unfolding k month_days_at [OF r] .
  qed
qed

lemma month_days_less:
  assumes "k < l"
  shows "month_days k + month_length k \<le> month_days l"
  using assms
proof (induction rule: int_gr_induct)
  case base
  then show ?case by (simp add: month_days_Suc)
next
  case (step l)
  moreover have "0 \<le> month_length l" using day_in_month_pos [of "l div 12 + 1900" "l mod 12 + 1"] by (simp add: month_length_def)
  ultimately show ?case by (simp add: month_days_Suc)
qed

lemma tm_days_month:
  assumes "0 \<le> tm_mon t" "tm_mon t \<le> 11"
  shows "tm_days t = month_days (month_index t) + tm_mday t - 1" "last_day t = month_length (month_index t)"
proof -
  have r: "tm_mon t < 12" using assms(2) by simp
  show "tm_days t = month_days (month_index t) + tm_mday t - 1" "last_day t = month_length (month_index t)"
    unfolding month_index_def month_days_at [OF assms(1) r]
    by (simp_all add: tm_days_def last_day_def civil_days_def)
qed

lemma tm_seconds_less:
  assumes "tm_ok t" "tm_ok u" "tm_tuple t < tm_tuple u"
  shows "tm_seconds t < tm_seconds u"
proof -
  note b = tm_ok_bounds [OF assms(1)] and c = tm_ok_bounds [OF assms(2)]
  have dt: "0 \<le> day_time v" "day_time v < SEC_PER_DAY" if "tm_ok v" for v
    using tm_ok_bounds [OF that] by (simp_all add: day_time_def)
  consider (day) "tm_days t < tm_days u" | (time) "tm_days t = tm_days u" "day_time t < day_time u"
  proof (cases "date_key t = date_key u")
    case True
    then have d: "tm_year t = tm_year u" "tm_mon t = tm_mon u" "tm_mday t = tm_mday u"
      using date_key_eq [OF b(2,3) _ _ c(2,3)] b(4,6) c(4,6) by auto
    with assms(3) have "tm_hour t < tm_hour u \<or> tm_hour t = tm_hour u \<and>
      (tm_min t < tm_min u \<or> tm_min t = tm_min u \<and> tm_sec t < tm_sec u)"
      by (auto simp: tm_tuple_def le_less)
    then have "day_time t < day_time u" using b(9-12) c(9-12) by (auto simp: day_time_def)
    moreover have "tm_days t = tm_days u" using d by (simp add: tm_days_def)
    ultimately show ?thesis using that by blast
  next
    case False
    have dl: "date_key t \<le> date_key u \<longleftrightarrow> month_index t < month_index u
        \<or> month_index t = month_index u \<and> tm_mday t \<le> tm_mday u"
      using date_key_le [OF b(2,3) _ _ c(2,3)] b(4,6) c(4,6) by simp
    have de: "tm_mday t \<noteq> tm_mday u" if "month_index t = month_index u"
      using False same_month [OF b(2,3) c(2,3) that] by (auto simp: date_key_def)
    have "time_key t < time_key u" using assms time_key_le [OF assms(2,1)] by (simp add: not_le [symmetric])
    then have "date_key t \<le> date_key u"
      using b(7-12) c(7-12) by (simp add: time_key_def minute_key_def hour_key_def)
    then have "month_index t < month_index u \<or> month_index t = month_index u \<and> tm_mday t < tm_mday u"
      using dl de by (auto simp: le_less)
    then have "tm_days t < tm_days u"
      using month_days_less [of "month_index t" "month_index u"] b(5) c(4)
        tm_days_month [OF b(2,3)] tm_days_month [OF c(2,3)] by auto
    then show ?thesis using that by blast
  qed
  then show ?thesis
    using dt [OF assms(1)] dt [OF assms(2)] by cases (simp_all add: tm_seconds_def)
qed

lemma tm_seconds_le_iff:
  assumes "tm_ok t" "tm_ok u"
  shows "tm_seconds t \<le> tm_seconds u \<longleftrightarrow> tm_tuple t \<le> tm_tuple u"
proof
  show "tm_tuple t \<le> tm_tuple u" if "tm_seconds t \<le> tm_seconds u"
    using that tm_seconds_less [OF assms(2,1)] by (meson not_le)
  show "tm_seconds t \<le> tm_seconds u" if "tm_tuple t \<le> tm_tuple u"
  proof (cases "tm_tuple t = tm_tuple u")
    case True
    then show ?thesis by (simp add: tm_tuple_def tm_seconds_def tm_days_def day_time_def)
  next
    case False
    with that tm_seconds_less [OF assms] show ?thesis by (simp add: order_less_le)
  qed
qed

section \<open>Zones without daylight saving time\<close>

text \<open>
  \<open>lt\<close> and \<open>mk\<close> are the two directions of a zone with the fixed offset \<open>off\<close> from UTC, for local times from
  1970 on.
\<close>

definition fixed_zone :: "int \<Rightarrow> localtime \<Rightarrow> mktime \<Rightarrow> bool" where
  "fixed_zone off lt mk \<longleftrightarrow>
     (\<forall>t. 0 \<le> t + off \<longrightarrow> tm_ok (lt t) \<and> tm_seconds (lt t) = t + off \<and> tm_isdst (lt t) = 0
        \<and> tm_wday (lt t) = (tm_days (lt t) + 4) mod 7)
     \<and> (\<forall>tm. tm_ok tm \<longrightarrow> fst (mk tm) = tm_seconds tm - off)"

lemma fixed_zoneD:
  assumes "fixed_zone off lt mk"
  shows "0 \<le> t + off \<Longrightarrow> tm_ok (lt t)" "0 \<le> t + off \<Longrightarrow> tm_seconds (lt t) = t + off"
    "0 \<le> t + off \<Longrightarrow> tm_isdst (lt t) = 0" "0 \<le> t + off \<Longrightarrow> tm_wday (lt t) = (tm_days (lt t) + 4) mod 7"
    "tm_ok tm \<Longrightarrow> fst (mk tm) = tm_seconds tm - off"
  using assms by (auto simp: fixed_zone_def)

lemma week_time_seconds:
  assumes "tm_ok tm" "tm_wday tm = (tm_days tm + 4) mod 7"
  shows "tm_sane tm" "week_time tm = (tm_seconds tm + 3 * SEC_PER_DAY) mod SEC_PER_WEEK"
proof -
  show s: "tm_sane tm" using assms by (simp add: tm_sane_def tm_ok_def time_ok_def)
  note b = tm_sane_bounds [OF s]
  let ?m = "(tm_days tm + 4) mod 7"
  have m: "0 \<le> ?m" "?m < 7" by simp_all
  have "(?m - 1) mod 7 = (tm_days tm + 4 - 1) mod 7" by (rule mod_diff_left_eq)
  moreover have "tm_days tm + 4 - 1 = tm_days tm + 3" by simp
  ultimately have e: "(tm_days tm + 3) mod 7 = (?m - 1) mod 7" by (simp only:)
  have "week_day tm - 1 = (tm_days tm + 3) mod 7"
  proof (cases "?m = 0")
    case True
    then show ?thesis unfolding e using assms(2) by (simp add: week_day_def)
  next
    case False
    with m have "(?m - 1) mod 7 = ?m - 1" by (intro mod_pos_pos_trivial) linarith+
    with False show ?thesis unfolding e using assms(2) by (simp add: week_day_def)
  qed
  then obtain q where q: "week_day tm - 1 = tm_days tm + 3 - 7 * q"
    by (metis minus_mult_div_eq_mod)
  have "week_time tm = (tm_seconds tm + 3 * SEC_PER_DAY) + SEC_PER_WEEK * (- q)"
    by (simp add: week_time_def tm_seconds_def q algebra_simps)
  then have "(tm_seconds tm + 3 * SEC_PER_DAY) mod SEC_PER_WEEK = week_time tm mod SEC_PER_WEEK"
    by (simp only: mod_mult_self2)
  also have "\<dots> = week_time tm" using b by (intro mod_pos_pos_trivial) (simp_all add: week_time_def)
  finally show "week_time tm = (tm_seconds tm + 3 * SEC_PER_DAY) mod SEC_PER_WEEK" by (rule sym)
qed

lemma fixed_zone_regular:
  assumes z: "fixed_zone off lt mk" and a: "0 \<le> a + off"
  shows "regular_weeks lt a b"
  unfolding regular_weeks_def
proof (intro allI impI)
  fix u assume u: "a \<le> u \<and> u < b"
  with a have u0: "0 \<le> u + off" by simp
  note wa = week_time_seconds [OF fixed_zoneD(1,4) [OF z a]]
    and wu = week_time_seconds [OF fixed_zoneD(1,4) [OF z u0]]
  have "(week_time (lt a) + (u - a)) mod SEC_PER_WEEK = (a + off + 3 * SEC_PER_DAY + (u - a)) mod SEC_PER_WEEK"
    unfolding wa(2) fixed_zoneD(2) [OF z a] by (rule mod_add_left_eq)
  also have "a + off + 3 * SEC_PER_DAY + (u - a) = u + off + 3 * SEC_PER_DAY" by simp
  also have "\<dots> mod SEC_PER_WEEK = week_time (lt u)" unfolding wu(2) fixed_zoneD(2) [OF z u0] ..
  finally show "tm_sane (lt u) \<and> week_time (lt u) = (week_time (lt a) + (u - a)) mod SEC_PER_WEEK"
    using wu(1) by simp
qed

text \<open>UTC is such a zone: the broken-down time is found by walking the months since January 1970.\<close>

function find_month :: "int \<Rightarrow> int \<Rightarrow> int \<times> int" where
  "find_month k d = (if d < month_length k then (k, d) else find_month (k + 1) (d - month_length k))"
  by pat_completeness auto

lemma month_length_pos: "0 < month_length k"
  using day_in_month_pos [of "k div 12 + 1900" "k mod 12 + 1"] by (simp add: month_length_def)

termination find_month
proof (relation "measure (\<lambda>(k, d). nat (d + 1))")
  fix k d :: int
  assume "\<not> d < month_length k"
  then show "((k + 1, d - month_length k), k, d) \<in> measure (\<lambda>(k, d). nat (d + 1))"
    using month_length_pos [of k] by simp
qed simp

declare find_month.simps [simp del]

lemma find_month_props:
  assumes "0 \<le> d" "find_month k d = (l, e)"
  shows "k \<le> l" "0 \<le> e" "e < month_length l" "month_days l + e = month_days k + d"
proof -
  have "k \<le> l \<and> 0 \<le> e \<and> e < month_length l \<and> month_days l + e = month_days k + d"
    using assms
  proof (induction k d rule: find_month.induct)
    case (1 k d)
    show ?case
    proof (cases "d < month_length k")
      case True
      with 1(2,3) show ?thesis by (subst (asm) find_month.simps) simp
    next
      case False
      with 1(3) have "find_month (k + 1) (d - month_length k) = (l, e)" by (subst (asm) find_month.simps) simp
      with 1(1) [OF False] False show ?thesis by (simp add: month_days_Suc)
    qed
  qed
  then show "k \<le> l" "0 \<le> e" "e < month_length l" "month_days l + e = month_days k + d" by auto
qed

definition utc_localtime :: localtime where
  "utc_localtime t =
     (let (k, d) = find_month 840 (t div SEC_PER_DAY); s = t mod SEC_PER_DAY in
      \<lparr>tm_sec = s mod 60, tm_min = s div 60 mod 60, tm_hour = s div 3600, tm_mday = d + 1, tm_mon = k mod 12,
       tm_year = k div 12, tm_wday = (t div SEC_PER_DAY + 4) mod 7, tm_yday = 0, tm_isdst = 0\<rparr>)"

definition utc_mktime :: mktime where
  "utc_mktime tm = (tm_seconds tm, tm)"

lemma month_days_1970: "month_days 840 = 0"
  by (simp add: month_days_def civil_days_def)

lemma utc_fixed_zone: "fixed_zone 0 utc_localtime utc_mktime"
proof -
  have "tm_ok (utc_localtime t) \<and> tm_seconds (utc_localtime t) = t \<and> tm_isdst (utc_localtime t) = 0
    \<and> tm_wday (utc_localtime t) = (tm_days (utc_localtime t) + 4) mod 7" if "0 \<le> t" for t
  proof -
    let ?d = "t div SEC_PER_DAY" and ?s = "t mod SEC_PER_DAY" and ?t = "utc_localtime t"
    obtain k e where f: "find_month 840 ?d = (k, e)" by (cases "find_month 840 ?d")
    have "0 \<le> ?d" using that by (simp add: pos_imp_zdiv_nonneg_iff)
    note p = find_month_props [OF this f]
    have s: "0 \<le> ?s" "?s < SEC_PER_DAY" by simp_all
    have k: "k = 12 * (k div 12) + k mod 12" by simp
    have m: "0 \<le> k mod 12" "k mod 12 \<le> 11" "70 \<le> k div 12" using p(1) by auto
    have sel: "tm_mon ?t = k mod 12" "tm_year ?t = k div 12" "tm_mday ?t = e + 1" "tm_isdst ?t = 0"
      "tm_wday ?t = (?d + 4) mod 7" "tm_hour ?t = ?s div 3600" "tm_min ?t = ?s div 60 mod 60" "tm_sec ?t = ?s mod 60"
      by (simp_all add: utc_localtime_def f Let_def)
    have mi: "month_index ?t = k" unfolding month_index_def sel by simp
    have days: "tm_days ?t = ?d" and last: "last_day ?t = month_length k"
      using tm_days_month [of ?t] p(4) month_days_1970 m by (simp_all add: sel mi)
    have "day_time ?t = ?s"
    proof -
      have "?s div 60 div 60 = ?s div 3600" by (simp add: zdiv_zmult2_eq [symmetric])
      then show ?thesis unfolding day_time_def sel
        using div_mult_mod_eq [of ?s 60] div_mult_mod_eq [of "?s div 60" 60] by linarith
    qed
    then have sec: "tm_seconds ?t = t" using div_mult_mod_eq [of t SEC_PER_DAY] by (simp add: tm_seconds_def days)
    have "0 \<le> ?s div 3600" "?s div 3600 < 24" using s by (simp_all add: int_div_less_iff pos_imp_zdiv_nonneg_iff)
    moreover have "?s div 60 mod 60 < 60" "?s mod 60 < 60" "0 \<le> ?s div 60 mod 60" "0 \<le> ?s mod 60"
      by simp_all
    ultimately have "time_ok ?t" unfolding time_ok_def valid_time_def sel
      by (metis zle_diff1_eq [of _ 24, simplified] zle_diff1_eq [of _ 60, simplified])
    then have "tm_ok ?t"
      using p m last by (simp add: tm_ok_def date_ok_def date_valid_iff sel)
    with sec show ?thesis unfolding days sel(4,5) by blast
  qed
  then show ?thesis by (simp add: fixed_zone_def utc_mktime_def)
qed

section \<open>Scheduled times in a zone\<close>

lemma time_admitted_cong:
  assumes "tm_tuple t = tm_tuple u"
  shows "time_admitted iv t = time_admitted iv u"
  using assms day_matches_cong [of t u iv]
  by (auto simp: tm_tuple_def time_admitted_def minute_admitted_def hour_admitted_def day_admitted_def
      date_ok_def tm_valid_def)

lemma tm_ok_isdst [simp]: "tm_ok (t\<lparr>tm_isdst := d\<rparr>) = tm_ok t" "tm_tuple (t\<lparr>tm_isdst := d\<rparr>) = tm_tuple t"
  "tm_seconds (t\<lparr>tm_isdst := d\<rparr>) = tm_seconds t"
  by (simp_all add: tm_ok_def date_ok_def tm_valid_def time_ok_def tm_tuple_def tm_seconds_def tm_days_def day_time_def)

text \<open>The first moment after \<open>now\<close> that an interval admits, or some later one if \<open>E\<close> does not hold.\<close>

definition scheduled_at :: "bool \<Rightarrow> localtime \<Rightarrow> int \<Rightarrow> scheduler_interval list \<Rightarrow> int \<Rightarrow> bool" where
  "scheduled_at E lt now ivs n \<longleftrightarrow> now < n \<and> (\<exists>iv \<in> set ivs. time_admitted iv (lt n))
     \<and> (E \<longrightarrow> (\<forall>iv \<in> set ivs. \<forall>u. now < u \<and> u < n \<longrightarrow> \<not> time_admitted iv (lt u)))"

lemma schedule_interval_ok:
  assumes iv: "interval_ok E iv" and z: "fixed_zone off lt mk" and now: "0 \<le> now" "0 \<le> now + off"
    "month_index (lt now) \<le> LAST_MONTH - 9"
  shows "\<exists>n. schedule_interval lt mk now dst iv = Some (n, dst) \<and> scheduled_at E lt now [iv] n"
proof -
  note zn = fixed_zoneD(1-3) [OF z now(2)]
  from inc_apply_filters [OF iv zn(1) now(3)] obtain t' where
    a: "scheduler_apply_filters iv (scheduler_tm_inc (lt now)) = Some t'"
    and t': "time_admitted iv t'" "tm_tuple (lt now) < tm_tuple t'"
    and least: "\<And>u. E \<Longrightarrow> time_admitted iv u \<Longrightarrow> tm_tuple (lt now) < tm_tuple u \<Longrightarrow> tm_tuple t' \<le> tm_tuple u" by blast
  note ok = admitted_ok [OF t'(1)]
  define n where "n = tm_seconds t' - off"
  have n: "now < n" using tm_seconds_less [OF zn(1) ok t'(2)] by (simp add: n_def zn(2))
  have mk: "fst (mk (t'\<lparr>tm_isdst := 0\<rparr>)) = n" using fixed_zoneD(5) [OF z, of "t'\<lparr>tm_isdst := 0\<rparr>"] ok by (simp add: n_def)
  then have att: "schedule_attempt mk iv 0 (lt now) = Some n"
    using n now(1) a by (subst schedule_attempt.simps) (auto split: prod.split)
  have n0: "0 \<le> n + off" using n now(2) by simp
  note zz = fixed_zoneD(1-3) [OF z n0]
  have "tm_tuple (lt n) = tm_tuple t'"
    using tm_seconds_le_iff [OF zz(1) ok] tm_seconds_le_iff [OF ok zz(1)] zz(2) by (simp add: n_def)
  with t'(1) have adm: "time_admitted iv (lt n)" using time_admitted_cong by blast
  have "\<not> time_admitted iv (lt u)" if "E" "now < u" "u < n" for u
  proof
    assume au: "time_admitted iv (lt u)"
    have u0: "0 \<le> u + off" using that now(2) by simp
    note zu = fixed_zoneD(1,2) [OF z u0]
    have "tm_tuple (lt now) < tm_tuple (lt u)"
      using tm_seconds_le_iff [OF zu(1) zn(1)] zu(2) zn(2) that(2) by (simp add: not_le [symmetric])
    from least [OF that(1) au this] have "tm_seconds t' \<le> tm_seconds (lt u)"
      using tm_seconds_le_iff [OF ok zu(1)] by simp
    with zu(2) that(3) show False by (simp add: n_def)
  qed
  with n adm have "scheduled_at E lt now [iv] n" by (simp add: scheduled_at_def)
  moreover have "schedule_interval lt mk now dst iv = Some (n, dst)"
    using att zz(3) zn(3) by (simp add: schedule_interval_def Let_def)
  ultimately show ?thesis by blast
qed

lemma schedule_loop_ok:
  assumes "\<forall>iv \<in> set ivs. interval_ok E iv" and z: "fixed_zone off lt mk" and now: "0 \<le> now" "0 \<le> now + off"
    "month_index (lt now) \<le> LAST_MONTH - 9"
    and "if done = [] then nextcheck = 0 else scheduled_at E lt now done nextcheck"
  shows "\<exists>n. schedule_loop lt mk now ivs nextcheck dst = Some (n, dst)
    \<and> (if done @ ivs = [] then n = 0 else scheduled_at E lt now (done @ ivs) n)"
  using assms(1,6)
proof (induction ivs arbitrary: "done" nextcheck)
  case (Cons iv ivs)
  from Cons.prems(1) have "interval_ok E iv" by simp
  from schedule_interval_ok [OF this z now, of dst] obtain c where
    c: "schedule_interval lt mk now dst iv = Some (c, dst)" "scheduled_at E lt now [iv] c" by blast
  let ?n = "if nextcheck = 0 \<or> c < nextcheck then c else nextcheck"
  have "scheduled_at E lt now (done @ [iv]) ?n"
    using Cons.prems(2) c(2) now(1) by (auto simp: scheduled_at_def split: if_splits)
  then have "\<exists>n. schedule_loop lt mk now ivs ?n dst = Some (n, dst)
      \<and> (if (done @ [iv]) @ ivs = [] then n = 0 else scheduled_at E lt now ((done @ [iv]) @ ivs) n)"
    using Cons.prems(1) by (intro Cons.IH) auto
  with c(1) show ?case by simp
qed auto

lemma scheduler_get_nextcheck_ok:
  assumes "\<forall>iv \<in> set ivs. interval_ok E iv" "fixed_zone off lt mk" "0 \<le> now" "0 \<le> now + off"
    "month_index (lt now) \<le> LAST_MONTH - 9"
  shows "\<exists>n. scheduler_get_nextcheck lt mk dst ivs now = Some (n, dst)
    \<and> (if ivs = [] then n = 0 else scheduled_at E lt now ivs n)"
proof -
  have "if ([] :: scheduler_interval list) = [] then (0 :: int) = 0 else scheduled_at E lt now [] 0" by simp
  from schedule_loop_ok [OF assms this] show ?thesis unfolding scheduler_get_nextcheck_def append_Nil .
qed

lemma cdiv_mid: "start + 1 < stop \<Longrightarrow> start < cdiv (start + stop) 2 \<and> cdiv (start + stop) 2 < stop"
  by (auto simp: cdiv_def sgn_if abs_if split: if_splits)

lemma dst_bisect_props:
  assumes "s < e" "0 \<le> s" "e * 60 \<le> INT_MAX" "tm_isdst (lt (s * 60)) = d" "tm_isdst (lt (e * 60)) \<noteq> d"
  shows "\<exists>m. dst_bisect lt d s e = Some m \<and> s < m \<and> m \<le> e \<and> tm_isdst (lt (m * 60)) \<noteq> d \<and> tm_isdst (lt ((m - 1) * 60)) = d"
  using assms
proof (induction "nat (e - s)" arbitrary: s e rule: less_induct)
  case less
  let ?m = "cdiv (s + e) 2"
  have w: "wrap32 (s + 1) = s + 1" "wrap32 (s + e) = s + e" using less.prems by (simp_all add: wrap32_id)
  show ?case
  proof (cases "s + 1 < e")
    case True
    note m = cdiv_mid [OF True]
    have wm: "wrap32 (?m * 60) = ?m * 60" using m less.prems by (intro wrap32_id) simp_all
    have step: "dst_bisect lt d s e = (if tm_isdst (lt (?m * 60)) = d then dst_bisect lt d ?m e else dst_bisect lt d s ?m)"
      using True by (subst dst_bisect.simps) (simp add: w wm Let_def)
    show ?thesis
    proof (cases "tm_isdst (lt (?m * 60)) = d")
      case True
      have "nat (e - ?m) < nat (e - s)" using m by linarith
      then show ?thesis using less.hyps [of e ?m] less.prems m True step by auto
    next
      case False
      have "nat (?m - s) < nat (e - s)" using m by linarith
      then show ?thesis using less.hyps [of ?m s] less.prems m False step by auto
    qed
  next
    case False
    with less.prems(1) have "e = s + 1" by simp
    with less.prems show ?thesis by (subst dst_bisect.simps) (simp add: w)
  qed
qed

section \<open>Properties\<close>

text \<open>
  C21: without custom intervals an item that is not checked by an active agent, with a positive delay, is
  checked next at the unique moment after now, at most one delay away, that is congruent to the item's seed
  modulo the delay, so that the checks of different items spread over the delay period. No value wraps as
  long as now plus the delay fits into an int.
\<close>

theorem simple_nextcheck_correct:
  assumes "0 < si" "0 \<le> now" "now + si \<le> INT_MAX" "item_type \<noteq> ITEM_TYPE_ZABBIX_ACTIVE"
  shows "\<exists>n. zbx_calculate_item_nextcheck lt mk dst seed item_type si None now = Some (n, dst)
    \<and> now < n \<and> n \<le> now + si \<and> n mod si = int seed mod si"
proof -
  from delay_nextcheck_props [OF assms(1-3), of seed True] obtain n where
    n: "delay_nextcheck seed si True now = Some n" "now < n" "n \<le> now + si" "n mod si = int seed mod si" by auto
  then have "item_nextcheck_loop lt seed si None (now + SEC_PER_YEAR) now 0 0 = Some n"
    by (subst item_nextcheck_loop.simps) simp
  with n assms(4) show ?thesis by (simp add: zbx_calculate_item_nextcheck_def)
qed

theorem simple_nextcheck_correct_witness:
  "\<exists>n. zbx_calculate_item_nextcheck utc_localtime utc_mktime 0 23456 ITEM_TYPE_ZABBIX 30 None 1700000000
      = Some (n, 0) \<and> 1700000000 < n \<and> n \<le> 1700000000 + 30 \<and> n mod 30 = int 23456 mod 30"
  by (rule simple_nextcheck_correct) (simp_all add: ITEM_TYPE_ZABBIX_def ITEM_TYPE_ZABBIX_ACTIVE_def)

text \<open>
  C27: the delay that applies is the least one of the flexible intervals whose period holds the local time,
  or the default delay if there is none.
\<close>

theorem current_delay_is_least:
  assumes "list_all flexible_wf fs"
  shows "get_current_delay lt d fs now =
    (let ds = map delay (filter (\<lambda>f. check_time_period (period f) (lt now)) fs)
     in if ds = [] then d else Min (set ds))"
proof -
  let ?ds = "map delay (filter (\<lambda>f. check_time_period (period f) (lt now)) fs)"
  have nn: "\<forall>f \<in> set fs. 0 \<le> delay f" using assms by (auto simp: list_all_iff flexible_wf_def)
  then have "0 \<le> Min (set ?ds)" if "?ds \<noteq> []"
    using that by (subst Min_ge_iff) (auto simp: filter_empty_conv)
  then show ?thesis
    using current_delay_loop_min [OF nn, of "-1" lt now] by (auto simp: get_current_delay_def Let_def)
qed

theorem current_delay_is_least_witness:
  "get_current_delay utc_localtime 60
     [\<lparr>period = \<lparr>start_day = 1, end_day = 5, start_time = 32400, end_time = 64800\<rparr>, delay = 10\<rparr>] 1700000000 =
    (let ds = map delay (filter (\<lambda>f. check_time_period (period f) (utc_localtime 1700000000))
        [\<lparr>period = \<lparr>start_day = 1, end_day = 5, start_time = 32400, end_time = 64800\<rparr>, delay = 10\<rparr>])
     in if ds = [] then 60 else Min (set ds))"
  by (rule current_delay_is_least) (simp add: flexible_wf_def period_wf_def)

text \<open>
  C20: while local time runs on without a clock change, the moment found as the next change of the delay is
  later than now, and the delay in force does not change before it.
\<close>

theorem next_delay_interval_correct:
  assumes "fs \<noteq> []" "list_all flexible_wf fs" "regular_weeks lt now b" "now < b"
  shows "\<exists>n. get_next_delay_interval lt fs now = Some n \<and> now < n
    \<and> (\<forall>u. now \<le> u \<and> u < n \<and> u < b \<longrightarrow> get_current_delay lt d fs u = get_current_delay lt d fs now)"
proof -
  have "tm_sane (lt now)" using assms(3,4) unfolding regular_weeks_def by simp
  from next_interval_props [of fs lt now, OF assms(1,2) this] delay_stable [OF assms(2) _ assms(3)]
  show ?thesis by blast
qed

theorem next_delay_interval_correct_witness:
  "let fs = [\<lparr>period = \<lparr>start_day = 1, end_day = 5, start_time = 32400, end_time = 64800\<rparr>, delay = 10\<rparr>] in
   \<exists>n. get_next_delay_interval utc_localtime fs 1700000000 = Some n \<and> 1700000000 < n
    \<and> (\<forall>u. 1700000000 \<le> u \<and> u < n \<and> u < 1800000000 \<longrightarrow>
         get_current_delay utc_localtime 60 fs u = get_current_delay utc_localtime 60 fs 1700000000)"
  unfolding Let_def
  by (rule next_delay_interval_correct)
    (simp_all add: flexible_wf_def period_wf_def fixed_zone_regular [OF utc_fixed_zone])

text \<open>
  C29: when the cached change lies outside the range and the range ends within the ints, before 2038, the bisection for a
  daylight saving change ends, without a wrapped value, at a whole minute of the range at which the flag differs from the
  one at the start, while one minute earlier it does not.
\<close>

theorem find_dst_change_correct:
  assumes "time_dst < time_start \<or> time_end < time_dst" "0 \<le> time_start" "time_end \<le> INT_MAX"
    "time_start div 60 < time_end div 60"
    "tm_isdst (lt (time_start div 60 * 60)) = tm_isdst (lt time_start)"
    "tm_isdst (lt (time_end div 60 * 60)) \<noteq> tm_isdst (lt time_start)"
  shows "\<exists>t. scheduler_find_dst_change lt time_dst time_start time_end = Some t
    \<and> t mod 60 = 0 \<and> time_start < t \<and> t \<le> time_end \<and> tm_isdst (lt t) \<noteq> tm_isdst (lt time_start)
    \<and> tm_isdst (lt (t - 60)) = tm_isdst (lt time_start)"
proof -
  let ?d = "tm_isdst (lt time_start)" and ?s = "time_start div 60" and ?e = "time_end div 60"
  have s0: "0 \<le> ?s" using assms(2) by (simp add: pos_imp_zdiv_nonneg_iff)
  then have e0: "0 \<le> time_end" using assms(4) by (simp add: pos_imp_zdiv_nonneg_iff [symmetric])
  have e60: "?e * 60 \<le> time_end" using div_mult_mod_eq [of time_end 60] pos_mod_sign [of 60 time_end] by linarith
  then have max: "?e * 60 \<le> INT_MAX" using assms(3) by linarith
  obtain m where b: "dst_bisect lt ?d ?s ?e = Some m" and m: "?s < m" "m \<le> ?e" "tm_isdst (lt (m * 60)) \<noteq> ?d"
    "tm_isdst (lt ((m - 1) * 60)) = ?d" using dst_bisect_props [OF assms(4) s0 max assms(5,6)] by blast
  have "wrap32 ?s = ?s" "wrap32 ?e = ?e" "wrap32 (m * 60) = m * 60" using s0 m(1,2) max assms(4) by (simp_all add: wrap32_id)
  then have r: "scheduler_find_dst_change lt time_dst time_start time_end = Some (m * 60)"
    using assms(1,2) e0 b by (auto simp: scheduler_find_dst_change_def cdiv_nonneg)
  have "time_start < m * 60" using m(1) by (simp add: int_div_less_iff)
  moreover have "m * 60 \<le> time_end" using m(2) e60 by linarith
  ultimately show ?thesis unfolding r using m(3,4) by (simp add: left_diff_distrib)
qed

theorem find_dst_change_correct_witness:
  "let lt = (\<lambda>t. (utc_localtime t)\<lparr>tm_isdst := (if t < 1711846800 then 0 else 1)\<rparr>) in
    \<exists>t. scheduler_find_dst_change lt 0 1711800000 1711900000 = Some t
    \<and> t mod 60 = 0 \<and> 1711800000 < t \<and> t \<le> 1711900000 \<and> tm_isdst (lt t) \<noteq> tm_isdst (lt 1711800000)
      \<and> tm_isdst (lt (t - 60)) = tm_isdst (lt 1711800000)"
  using find_dst_change_correct [of 0 1711800000 1711900000
      "\<lambda>t. (utc_localtime t)\<lparr>tm_isdst := (if t < 1711846800 then 0 else 1)\<rparr>"]
  unfolding Let_def by simp

lemma item_nextcheck_ok:
  assumes "fixed_zone off lt mk" "list_all flexible_wf (flexible ci)"
    "\<forall>iv \<in> set (scheduling ci). interval_wf iv \<and> (mdays iv = [] \<or> wdays iv = [])"
    "item_type \<noteq> ITEM_TYPE_ZABBIX_ACTIVE" "0 \<le> si" "si \<le> D" "\<forall>f \<in> set (flexible ci). delay f \<le> D"
    "0 \<le> now" "0 \<le> now + off" "now + SEC_PER_YEAR + D \<le> INT_MAX" "now + SEC_PER_YEAR \<le> ZBX_JAN_2038"
    "month_index (lt now) \<le> LAST_MONTH - 9"
  shows "\<exists>n. zbx_calculate_item_nextcheck lt mk dst seed item_type si (Some ci) now = Some (n, dst) \<and> now < n
    \<and> (n < now + SEC_PER_YEAR \<longrightarrow> (\<exists>iv \<in> set (scheduling ci). time_admitted iv (lt n))
        \<or> (let d = get_current_delay lt si (flexible ci) n in d \<noteq> 0 \<and> n mod d = int seed mod d))
    \<and> ((\<forall>iv \<in> set (scheduling ci). list_all simple_chain [mdays iv, wdays iv, hours iv, minutes iv, seconds iv])
        \<longrightarrow> (\<forall>iv \<in> set (scheduling ci). \<forall>u. now < u \<and> u < n \<longrightarrow> \<not> time_admitted iv (lt u)))"
proof -
  define E where "E = (\<forall>iv \<in> set (scheduling ci).
    list_all simple_chain [mdays iv, wdays iv, hours iv, minutes iv, seconds iv])"
  have iv: "\<forall>iv \<in> set (scheduling ci). interval_ok E iv"
    using assms(3) by (auto simp: E_def interval_ok_def day_interval_ok_def)
  from scheduler_get_nextcheck_ok [OF iv assms(1,8,9,12), of dst] obtain s where
    s: "scheduler_get_nextcheck lt mk dst (scheduling ci) now = Some (s, dst)"
      "if scheduling ci = [] then s = 0 else scheduled_at E lt now (scheduling ci) s" by blast
  from item_loop_ok [OF refl assms(2) fixed_zone_regular [OF assms(1,9)] assms(5,6,7,10,8,11), of now 0 0 seed]
  obtain n where n: "item_nextcheck_loop lt seed si (Some ci) (now + SEC_PER_YEAR) now 0 0 = Some n"
    "nextcheck_ok lt seed si (flexible ci) now n" by auto
  let ?r = "if s \<noteq> 0 \<and> s < n then wrap32 s else n"
  have r: "zbx_calculate_item_nextcheck lt mk dst seed item_type si (Some ci) now = Some (?r, dst)"
    using s(1) n(1) assms(4) by (simp add: zbx_calculate_item_nextcheck_def)
  show ?thesis
  proof (cases "s \<noteq> 0 \<and> s < n")
    case True
    then have sc: "scheduled_at E lt now (scheduling ci) s" using s(2) by (simp split: if_splits)
    have "wrap32 s = s"
      using True n(2) sc assms(8) by (intro wrap32_small) (auto simp: scheduled_at_def nextcheck_ok_def)
    with r True sc show ?thesis unfolding E_def [symmetric] by (auto simp: scheduled_at_def)
  next
    case False
    have "\<not> time_admitted iv (lt u)" if "E" "iv \<in> set (scheduling ci)" "now < u" "u < n" for iv u
    proof -
      from that(2) have "scheduling ci \<noteq> []" by auto
      with s(2) have sc: "scheduled_at E lt now (scheduling ci) s" by simp
      with False assms(8) that(4) have "u < s" by (auto simp: scheduled_at_def)
      with sc that show ?thesis by (auto simp: scheduled_at_def)
    qed
    with r False n(2) show ?thesis unfolding E_def [symmetric] by (auto simp: nextcheck_ok_def Let_def)
  qed
qed

text \<open>
  C1: in a zone without daylight saving, for custom intervals as the parser builds them, the nextcheck of an
  item is always found and lies after now; if it lies within the next year, then it is either a moment some
  scheduling interval admits, or a moment at which a non-zero delay is in force and which is congruent to
  the seed modulo that delay. Scheduling intervals without overlapping steps are never skipped: no moment
  between now and the nextcheck is admitted by one of them.
\<close>

theorem item_nextcheck_correct:
  assumes "fixed_zone off lt mk" "list_all flexible_wf (flexible ci)"
    "\<forall>iv \<in> set (scheduling ci). interval_wf iv \<and> (mdays iv = [] \<or> wdays iv = [])"
    "item_type \<noteq> ITEM_TYPE_ZABBIX_ACTIVE" "0 \<le> si" "si \<le> D" "\<forall>f \<in> set (flexible ci). delay f \<le> D"
    "0 \<le> now" "0 \<le> now + off" "now + SEC_PER_YEAR + D \<le> INT_MAX" "now + SEC_PER_YEAR \<le> ZBX_JAN_2038"
    "month_index (lt now) \<le> LAST_MONTH - 9"
  shows "\<exists>n. zbx_calculate_item_nextcheck lt mk dst seed item_type si (Some ci) now = Some (n, dst) \<and> now < n
    \<and> (n < now + SEC_PER_YEAR \<longrightarrow> (\<exists>iv \<in> set (scheduling ci). time_admitted iv (lt n))
        \<or> (let d = get_current_delay lt si (flexible ci) n in d \<noteq> 0 \<and> n mod d = int seed mod d))
    \<and> ((\<forall>iv \<in> set (scheduling ci). list_all simple_chain [mdays iv, wdays iv, hours iv, minutes iv, seconds iv])
        \<longrightarrow> (\<forall>iv \<in> set (scheduling ci). \<forall>u. now < u \<and> u < n \<longrightarrow> \<not> time_admitted iv (lt u)))"
  by (rule item_nextcheck_ok [OF assms])

definition example_intervals :: custom_interval where
  "example_intervals = \<lparr>flexible = [\<lparr>period = \<lparr>start_day = 1, end_day = 5, start_time = 32400, end_time = 64800\<rparr>,
     delay = 10\<rparr>], scheduling = [workday_morning]\<rparr>"

theorem item_nextcheck_correct_witness:
  "\<exists>n. zbx_calculate_item_nextcheck utc_localtime utc_mktime 0 7 ITEM_TYPE_ZABBIX 60 (Some example_intervals)
      1700000000 = Some (n, 0) \<and> 1700000000 < n
    \<and> (n < 1700000000 + SEC_PER_YEAR
        \<longrightarrow> (\<exists>iv \<in> set (scheduling example_intervals). time_admitted iv (utc_localtime n))
        \<or> (let d = get_current_delay utc_localtime 60 (flexible example_intervals) n
            in d \<noteq> 0 \<and> n mod d = int 7 mod d))
    \<and> ((\<forall>iv \<in> set (scheduling example_intervals).
          list_all simple_chain [mdays iv, wdays iv, hours iv, minutes iv, seconds iv])
        \<longrightarrow> (\<forall>iv \<in> set (scheduling example_intervals). \<forall>u. 1700000000 < u \<and> u < n
              \<longrightarrow> \<not> time_admitted iv (utc_localtime u)))"
  by (rule item_nextcheck_correct [OF utc_fixed_zone, where D = 60])
    (simp_all add: example_intervals_def flexible_wf_def period_wf_def workday_morning_def interval_wf_def
      filter_wf_def ITEM_TYPE_ZABBIX_def ITEM_TYPE_ZABBIX_ACTIVE_def, code_simp)

end
