(* ===== verification/ZbxIp.thy ===== *)
theory ZbxIp
  imports ZbxNum
begin

text \<open>
  IP addresses and address ranges: \<^verbatim>\<open>src/libs/zbxip/ip.c\<close> and \<^verbatim>\<open>src/libs/zbxip/iprange.c\<close>, with IPv6 support
  compiled in (\<^verbatim>\<open>HAVE_IPV6\<close>). The range parsers keep several pointers into one string, so here a pointer is
  an index into the string; reading past the terminator is \<open>Inl OOB_READ\<close>, writing past the eight groups
  of a range \<open>Inl OOB_WRITE\<close>. Groups and addresses are \<open>int\<close> lists of length 8.
\<close>

unbundle bit_operations_syntax

section \<open>Address recognisers\<close>

fun ip4_loop :: "string \<Rightarrow> nat \<Rightarrow> nat \<Rightarrow> nat \<Rightarrow> nat \<times> nat \<times> nat" where
  "ip4_loop [] digits dots octet = (digits, dots, octet)"
| "ip4_loop (c # p) digits dots octet =
     (if c = NUL then (digits, dots, octet)
      else if isdigit c then ip4_loop p (digits + 1) dots (octet * 10 + digit_val c)
      else if c = CHR ''.'' then
        if digits = 0 \<or> 3 < digits \<or> 255 < octet then (digits, dots, octet)
        else ip4_loop p 0 (dots + 1) 0
      else (0, dots, octet))"

definition zbx_is_ip4 :: "string \<Rightarrow> bool" where
  "zbx_is_ip4 ip =
     (let (digits, dots, octet) = ip4_loop ip 0 0 0
      in dots = 3 \<and> 1 \<le> digits \<and> digits \<le> 3 \<and> octet \<le> 255)"

record ip6_scan =
  xdigits :: nat
  only_xdigits :: bool
  colons :: nat
  dbl_colons :: nat

text \<open>The result holds the rest of the string at the pointer \<^verbatim>\<open>p\<close> where the loop stopped.\<close>

fun ip6_loop :: "string \<Rightarrow> ip6_scan \<Rightarrow> string \<times> ip6_scan" where
  "ip6_loop [] s = ([], s)"
| "ip6_loop (c # p) s =
     (if c = NUL then (c # p, s)
      else if isxdigit c then ip6_loop p (s\<lparr>xdigits := xdigits s + 1, only_xdigits := True\<rparr>)
      else if c = CHR '':'' then
        let s = (if xdigits s = 0 \<and> 0 < colons s
                 then s\<lparr>only_xdigits := True, dbl_colons := dbl_colons s + 1\<rparr> else s)
        in if 4 < xdigits s \<or> 1 < dbl_colons s then (c # p, s)
           else ip6_loop p (s\<lparr>xdigits := 0, colons := colons s + 1\<rparr>)
      else (c # p, s\<lparr>only_xdigits := False\<rparr>))"

text \<open>\<^verbatim>\<open>strrchr\<close>: the suffix that starts at the last occurrence.\<close>

fun strrchr :: "string \<Rightarrow> char \<Rightarrow> string option" where
  "strrchr [] c = None"
| "strrchr (x # xs) c =
     (if x = NUL then None
      else case strrchr xs c of Some t \<Rightarrow> Some t | None \<Rightarrow> if x = c then Some (x # xs) else None)"

definition zbx_is_ip6 :: "string \<Rightarrow> bool" where
  "zbx_is_ip6 ip =
     (let (p, s) = ip6_loop ip \<lparr>xdigits = 0, only_xdigits = False, colons = 0, dbl_colons = 0\<rparr> in
      if 2 > colons s \<or> 7 < colons s \<or> 1 < dbl_colons s \<or> 4 < xdigits s then False
      else if only_xdigits s then True
      else case strrchr ip CHR '':'' of
          None \<Rightarrow> False
        | Some last_colon \<Rightarrow>
            if 7 > colons s \<and> length last_colon > length p then zbx_is_ip4 (tl last_colon) else False)"

definition zbx_is_supported_ip :: "string \<Rightarrow> bool" where
  "zbx_is_supported_ip ip = (if zbx_is_ip4 ip then True else if zbx_is_ip6 ip then True else False)"

definition zbx_is_ip :: "string \<Rightarrow> bool" where
  "zbx_is_ip ip = (if zbx_is_ip4 ip then True else zbx_is_ip6 ip)"

definition zbx_is_ushort :: "string \<Rightarrow> nat option" where
  "zbx_is_ushort str = zbx_is_uint_n_range str ZBX_SIZE_T_MAX True 2 0 65535"

text \<open>Host and port on success; a failure leaves the default port and no host.\<close>

definition zbx_parse_serveractive_element :: "string \<Rightarrow> nat \<Rightarrow> (string \<times> nat) option" where
  "zbx_parse_serveractive_element str port_default =
     (if peek str = CHR ''['' then
        let str = tl str in
        case strchr str CHR '']'' of
          None \<Rightarrow> None
        | Some r1 \<Rightarrow>
            if peek_at r1 1 \<noteq> CHR '':'' \<and> peek_at r1 1 \<noteq> NUL then None
            else
              (case (if peek_at r1 1 = CHR '':'' then zbx_is_ushort (drop 2 r1) else Some port_default) of
                 None \<Rightarrow> None
               | Some port \<Rightarrow>
                   let host = take (length str - length r1) str in
                   if zbx_is_ip6 host then Some (host, port) else None)
      else if zbx_is_ip6 str then Some (str, port_default)
      else case strchr str CHR '':'' of
          None \<Rightarrow> Some (str, port_default)
        | Some r2 \<Rightarrow>
            (case zbx_is_ushort (drop 1 r2) of
               None \<Rightarrow> None
             | Some port \<Rightarrow> Some (take (length str - length r2) str, port)))"

text \<open>\<^verbatim>\<open>snprintf\<close> cuts the text to the buffer, leaving room for the terminator.\<close>

definition zbx_join_hostport :: "nat \<Rightarrow> string \<Rightarrow> nat \<Rightarrow> string" where
  "zbx_join_hostport hostport_sz host port =
     take (hostport_sz - 1)
       (if strchr host CHR '':'' \<noteq> None then ''['' @ host @ '']:'' @ dec_string port
        else host @ '':'' @ dec_string port)"

section \<open>Address ranges\<close>

record zbx_range =
  r_from :: int
  r_to :: int

datatype iprange_type = ZBX_IPRANGE_V4 | ZBX_IPRANGE_V6

record zbx_iprange =
  groups :: "zbx_range list"
  iptype :: iprange_type
  has_mask :: bool

definition iprange_is_whitespace_character :: "char \<Rightarrow> bool" where
  "iprange_is_whitespace_character c \<longleftrightarrow> c = CHR '' '' \<or> c = CHR 0x0D \<or> c = CHR ''\<newline>'' \<or> c = CHR 0x09"

definition iprange_address_length :: "string \<Rightarrow> nat" where
  "iprange_address_length address = length (dropWhile iprange_is_whitespace_character (rev address))"

definition iprange_groups :: "iprange_type \<Rightarrow> nat" where
  "iprange_groups t = (if t = ZBX_IPRANGE_V4 then 4 else 8)"

definition iprange_group_bits :: "iprange_type \<Rightarrow> nat" where
  "iprange_group_bits t = (if t = ZBX_IPRANGE_V4 then 8 else 16)"

definition mask_range :: "nat \<Rightarrow> zbx_range \<Rightarrow> zbx_range" where
  "mask_range mask_bits r =
     \<lparr>r_from = r_from r AND take_bit 32 (push_bit mask_bits 0xffffffff),
      r_to = r_to r OR drop_bit (32 - mask_bits) 0xffffffff\<rparr>"

text \<open>The loop from the last group on; \<open>bits\<close> is the number of host bits left.\<close>

fun apply_mask_loop :: "nat \<Rightarrow> nat \<Rightarrow> nat \<Rightarrow> zbx_range list \<Rightarrow> zbx_range list" where
  "apply_mask_loop 0 group_bits bits rs = rs"
| "apply_mask_loop (Suc i) group_bits bits rs =
     (if 0 < bits
      then apply_mask_loop i group_bits (bits - group_bits)
             (rs[i := mask_range (if bits > group_bits then group_bits else bits) (rs ! i)])
      else rs)"

definition iprange_apply_mask :: "zbx_iprange \<Rightarrow> nat \<Rightarrow> zbx_iprange" where
  "iprange_apply_mask iprange bits =
     (let n = iprange_groups (iptype iprange); gb = iprange_group_bits (iptype iprange)
      in iprange\<lparr>groups := apply_mask_loop n gb (n * gb - bits) (groups iprange)\<rparr>)"

text \<open>\<^verbatim>\<open>strchr\<close> from an index on; the value of a group from \<open>address\<close> to \<open>p\<close>, with an optional dash.\<close>

definition find_from :: "string \<Rightarrow> nat \<Rightarrow> char \<Rightarrow> nat option" where
  "find_from s i c = map_option (\<lambda>t. length s - length t) (strchr (drop i s) c)"

definition group_value ::
  "(string \<Rightarrow> nat \<Rightarrow> nat option) \<Rightarrow> string \<Rightarrow> nat \<Rightarrow> nat \<Rightarrow> nat option \<Rightarrow> zbx_range option" where
  "group_value num s address p dash =
     (case num (drop address s) ((case dash of None \<Rightarrow> p | Some d \<Rightarrow> d) - address) of
        None \<Rightarrow> None
      | Some f \<Rightarrow>
          (case dash of
             None \<Rightarrow> Some \<lparr>r_from = int f, r_to = int f\<rparr>
           | Some d \<Rightarrow>
               (case num (drop (d + 1) s) (p - (d + 1)) of
                  None \<Rightarrow> None
                | Some t \<Rightarrow> if t < f then None else Some \<lparr>r_from = int f, r_to = int t\<rparr>)))"

text \<open>The mask after a slash: the position of the end of the groups, the mask bits if any; \<open>None\<close> is a bad mask.\<close>

definition iprange_end :: "string \<Rightarrow> nat \<Rightarrow> (nat \<times> nat option) option" where
  "iprange_end s max_bits =
     (let len = iprange_address_length s in
      case find_from s 0 CHR ''/'' of
        None \<Rightarrow> Some (len, None)
      | Some e \<Rightarrow> map_option (\<lambda>b. (e, Some b))
                   (zbx_is_uint_n_range (drop (e + 1) s) (len - (e + 1)) True 4 0 max_bits))"

text \<open>The dash of the current group, \<open>None\<close> if a dash follows although there is a mask.\<close>

definition group_dash :: "string \<Rightarrow> nat \<Rightarrow> nat \<Rightarrow> bool \<Rightarrow> nat option option" where
  "group_dash s address p masked =
     (case find_from s address CHR ''-'' of
        None \<Rightarrow> Some None
      | Some d \<Rightarrow> if masked then None else Some (if d > p then None else Some d))"

definition dec_group :: "string \<Rightarrow> nat \<Rightarrow> nat option" where
  "dec_group s n = zbx_is_uint_n_range s n True 4 0 255"

definition hex_group :: "string \<Rightarrow> nat \<Rightarrow> nat option" where
  "hex_group s n = zbx_is_hex_n_range s n True 4 0 65535"

function v4_loop ::
  "string \<Rightarrow> nat \<Rightarrow> bool \<Rightarrow> nat \<Rightarrow> nat \<Rightarrow> nat \<Rightarrow> zbx_range list \<Rightarrow> (nat \<times> zbx_range list) option" where
  "v4_loop s e masked p address index rs =
     (if p < e \<and> index < 4 then
        let p = (case find_from s address CHR ''.'' of None \<Rightarrow> e | Some q \<Rightarrow> q) in
        case group_dash s address p masked of
          None \<Rightarrow> None
        | Some dash \<Rightarrow>
            (case group_value dec_group s address p dash of
               None \<Rightarrow> None
             | Some r \<Rightarrow> v4_loop s e masked p (p + 1) (index + 1) (rs[index := r]))
      else Some (index, rs))"
  by pat_completeness auto
termination v4_loop
  by (relation "measure (\<lambda>(s, e, masked, p, address, index, rs). 4 - index)") auto

declare v4_loop.simps [simp del]

definition iprangev4_parse :: "zbx_iprange \<Rightarrow> string \<Rightarrow> zbx_iprange option" where
  "iprangev4_parse iprange s =
     (case iprange_end s 30 of
        None \<Rightarrow> None
      | Some (e, bits) \<Rightarrow>
          (case v4_loop s e (bits \<noteq> None) 0 0 0 (groups iprange) of
             None \<Rightarrow> None
           | Some (index, rs) \<Rightarrow>
               if index \<noteq> 4 then None
               else
                 let iprange = iprange\<lparr>iptype := ZBX_IPRANGE_V4, has_mask := (bits \<noteq> None), groups := rs\<rparr>
                 in Some (case bits of None \<Rightarrow> iprange | Some b \<Rightarrow> iprange_apply_mask iprange b)))"

text \<open>
  The \<^verbatim>\<open>check_fill\<close> part: a second colon opens the \<^verbatim>\<open>::\<close> construct, once. The first component of the
  result is the \<^verbatim>\<open>break\<close>.
\<close>

definition v6_check_fill ::
  "string \<Rightarrow> nat \<Rightarrow> nat \<Rightarrow> nat \<Rightarrow> nat option \<Rightarrow> zbx_range list
   \<Rightarrow> c_fault + (bool \<times> nat \<times> nat \<times> nat option \<times> zbx_range list) option" where
  "v6_check_fill s e p index fill rs =
     (if peek_at s p \<noteq> NUL \<and> peek_at s (p + 1) = CHR '':'' then
        if fill \<noteq> None then Inr None
        else if 8 \<le> index then Inl OOB_WRITE
        else Inr (Some (p + 2 = e, p + 1, index + 1, Some index, rs[index := \<lparr>r_from = 0, r_to = 0\<rparr>]))
      else Inr (Some (False, p, index, fill, rs)))"

definition v6_group ::
  "string \<Rightarrow> nat \<Rightarrow> bool \<Rightarrow> nat \<Rightarrow> nat \<Rightarrow> nat option \<Rightarrow> zbx_range list
   \<Rightarrow> c_fault + (bool \<times> nat \<times> nat \<times> nat option \<times> zbx_range list) option" where
  "v6_group s e masked address index fill rs =
     (let p = (case find_from s address CHR '':'' of None \<Rightarrow> e | Some q \<Rightarrow> q) in
      if p = address then
        if length s < p + 1 then Inl OOB_READ
        else if peek_at s (p + 1) \<noteq> CHR '':'' then Inr None
        else v6_check_fill s e p index fill rs
      else
        (case group_dash s address p masked of
           None \<Rightarrow> Inr None
         | Some dash \<Rightarrow>
             (case group_value hex_group s address p dash of
                None \<Rightarrow> Inr None
              | Some r \<Rightarrow> v6_check_fill s e p (index + 1) fill (rs[index := r]))))"

function v6_loop ::
  "string \<Rightarrow> nat \<Rightarrow> bool \<Rightarrow> nat \<Rightarrow> nat \<Rightarrow> nat \<Rightarrow> nat option \<Rightarrow> zbx_range list
   \<Rightarrow> c_fault + (nat \<times> nat option \<times> zbx_range list) option" where
  "v6_loop s e masked p address index fill rs =
     (if p < e \<and> index < 8 then
        (case v6_group s e masked address index fill rs of
           Inl f \<Rightarrow> Inl f
         | Inr None \<Rightarrow> Inr None
         | Inr (Some (brk, p, index, fill, rs)) \<Rightarrow>
             if brk then Inr (Some (index, fill, rs))
             else v6_loop s e masked p (p + 1) index fill rs)
      else Inr (Some (index, fill, rs)))"
  by pat_completeness auto

lemma v6_group_progress:
  "v6_group s e masked address index fill rs = Inr (Some (brk, p, index', fill', rs'))
    \<Longrightarrow> index < index' \<or> index' = index \<and> p = address \<and> address < length s"
  by (auto simp: v6_group_def v6_check_fill_def Let_def split: if_splits option.splits)

termination v6_loop
proof (relation "measures [\<lambda>(s, e, masked, p, address, index, fill, rs). 8 - index,
    \<lambda>(s, e, masked, p, address, index, fill, rs). length s + 1 - address]", goal_cases)
  case (2 s e masked p address index fill rs x2 a brk y p' z index' w fill' rs')
  then show ?case using v6_group_progress [of s e masked address index fill rs brk p' index' fill' rs'] by auto
qed simp

declare v6_loop.simps [simp del]

fun v6_shift :: "nat \<Rightarrow> nat \<Rightarrow> nat \<Rightarrow> zbx_range list \<Rightarrow> nat \<times> zbx_range list" where
  "v6_shift index fill target rs =
     (if index - 1 > fill then v6_shift (index - 1) fill (target - 1) (rs[target := rs ! (index - 1)])
      else (target, rs))"

fun v6_zero :: "nat \<Rightarrow> nat \<Rightarrow> zbx_range list \<Rightarrow> zbx_range list" where
  "v6_zero target fill rs =
     (if target > fill then v6_zero (target - 1) fill (rs[target := \<lparr>r_from = 0, r_to = 0\<rparr>]) else rs)"

declare v6_shift.simps [simp del] v6_zero.simps [simp del]

definition iprangev6_parse :: "zbx_iprange \<Rightarrow> string \<Rightarrow> c_fault + zbx_iprange option" where
  "iprangev6_parse iprange s =
     (case iprange_end s 128 of
        None \<Rightarrow> Inr None
      | Some (e, bits) \<Rightarrow>
          (case v6_loop s e (bits \<noteq> None) 0 0 0 None (groups iprange) of
             Inl f \<Rightarrow> Inl f
           | Inr None \<Rightarrow> Inr None
           | Inr (Some (index, fill, rs)) \<Rightarrow>
               if 8 < index then Inr None
               else if index < 8 \<and> fill = None then Inr None
               else
                 let rs = (if index < 8 then let (target, rs) = v6_shift index (the fill) 7 rs
                             in v6_zero target (the fill) rs
                           else rs);
                     iprange = iprange\<lparr>iptype := ZBX_IPRANGE_V6, has_mask := (bits \<noteq> None), groups := rs\<rparr>
                 in Inr (Some (case bits of None \<Rightarrow> iprange | Some b \<Rightarrow> iprange_apply_mask iprange b))))"

definition zbx_iprange_parse :: "zbx_iprange \<Rightarrow> string \<Rightarrow> c_fault + zbx_iprange option" where
  "zbx_iprange_parse iprange address =
     (let address = dropWhile iprange_is_whitespace_character address in
      if strchr address CHR ''.'' \<noteq> None then Inr (iprangev4_parse iprange address)
      else iprangev6_parse iprange address)"

section \<open>Walking the addresses of a range\<close>

definition zbx_iprange_ip2str :: "iprange_type \<Rightarrow> int list \<Rightarrow> nat \<Rightarrow> string" where
  "zbx_iprange_ip2str t ipaddress len =
     (let u = (\<lambda>i. nat (take_bit 32 (ipaddress ! i))) in
      take (len - 1)
        (if t = ZBX_IPRANGE_V6
         then hex_string (u 0) @ '':'' @ hex_string (u 1) @ '':'' @ hex_string (u 2) @ '':''
           @ hex_string (u 3) @ '':'' @ hex_string (u 4) @ '':'' @ hex_string (u 5) @ '':''
           @ hex_string (u 6) @ '':'' @ hex_string (u 7)
         else dec_string (u 0) @ ''.'' @ dec_string (u 1) @ ''.'' @ dec_string (u 2) @ ''.''
           @ dec_string (u 3)))"

text \<open>The first address overwrites the groups of the range's type in the caller's array.\<close>

definition zbx_iprange_first :: "zbx_iprange \<Rightarrow> int list \<Rightarrow> int list" where
  "zbx_iprange_first iprange address =
     (let n = iprange_groups (iptype iprange);
          address = map r_from (take n (groups iprange)) @ drop n address
      in if iptype iprange = ZBX_IPRANGE_V4 \<and> has_mask iprange
         then address[n - 1 := address ! (n - 1) + 1] else address)"

fun next_loop :: "zbx_range list \<Rightarrow> nat \<Rightarrow> int list \<Rightarrow> bool \<times> int list" where
  "next_loop rs 0 address = (False, address)"
| "next_loop rs (Suc i) address =
     (if address ! i < r_to (rs ! i) then (True, address[i := address ! i + 1])
      else next_loop rs i (if r_from (rs ! i) < r_to (rs ! i) then address[i := r_from (rs ! i)] else address))"

definition zbx_iprange_next :: "zbx_iprange \<Rightarrow> int list \<Rightarrow> bool \<times> int list" where
  "zbx_iprange_next iprange address =
     (let n = iprange_groups (iptype iprange); (ok, address) = next_loop (groups iprange) n address in
      if ok \<and> iptype iprange = ZBX_IPRANGE_V4 \<and> has_mask iprange
      then (list_ex (\<lambda>i. address ! i \<noteq> r_to (groups iprange ! i)) [0..<n], address)
      else (ok, address))"

definition zbx_iprange_validate :: "zbx_iprange \<Rightarrow> int list \<Rightarrow> bool" where
  "zbx_iprange_validate iprange address =
     list_all (\<lambda>i. \<not> (address ! i < r_from (groups iprange ! i) \<or> address ! i > r_to (groups iprange ! i)))
       [0..<iprange_groups (iptype iprange)]"

text \<open>\<^verbatim>\<open>ZBX_MAX_UINT64 / n\<close> is a division by zero if a group is empty; the parsers make no such group.\<close>

fun volume_loop :: "zbx_range list \<Rightarrow> nat \<Rightarrow> nat option" where
  "volume_loop [] volume = Some volume"
| "volume_loop (r # rs) volume =
     (let n = nat (r_to r - r_from r + 1) in
      if max_uint64 div n < volume then None else volume_loop rs (volume * n))"

definition zbx_iprange_volume :: "zbx_iprange \<Rightarrow> nat" where
  "zbx_iprange_volume iprange =
     (case volume_loop (take (iprange_groups (iptype iprange)) (groups iprange)) 1 of
        None \<Rightarrow> max_uint64
      | Some volume \<Rightarrow>
          if iptype iprange = ZBX_IPRANGE_V4 \<and> has_mask iprange then volume - 2 else volume)"

text \<open>
  The do-while loop that leaves out addresses of the ranges before; \<open>None\<close> outside is a loop that does not
  end, \<open>None\<close> inside is \<^verbatim>\<open>FAIL\<close>.
\<close>

partial_function (option) uniq_loop ::
  "zbx_iprange list \<Rightarrow> nat \<Rightarrow> int list \<Rightarrow> (bool \<times> nat \<times> int list) option" where
  "uniq_loop ipranges idx ipaddress =
     (let (ok, ipaddress) = zbx_iprange_next (ipranges ! idx) ipaddress in
      if \<not> ok \<and> idx + 1 = length ipranges then Some (False, idx + 1, ipaddress)
      else
        let idx' = (if ok then idx else idx + 1);
            ipaddress = (if ok then ipaddress else zbx_iprange_first (ipranges ! (idx + 1)) ipaddress)
        in if list_ex (\<lambda>i. zbx_iprange_validate (ipranges ! i) ipaddress) [0..<idx']
           then uniq_loop ipranges idx' ipaddress
           else Some (True, idx', ipaddress))"

definition zbx_iprange_uniq_iter ::
  "zbx_iprange list \<Rightarrow> nat \<Rightarrow> int list \<Rightarrow> (bool \<times> nat \<times> int list) option" where
  "zbx_iprange_uniq_iter ipranges idx ipaddress =
     (if ipranges = [] then Some (False, idx, ipaddress)
      else if list_all (\<lambda>x. x = 0) (take (iprange_groups (iptype (hd ipranges))) ipaddress)
      then Some (True, 0, zbx_iprange_first (hd ipranges) ipaddress)
      else if idx = length ipranges then Some (False, idx, ipaddress)
      else uniq_loop ipranges idx ipaddress)"

text \<open>The static index and address are the state; the string is empty for the first call.\<close>

definition zbx_iprange_uniq_next ::
  "zbx_iprange list \<Rightarrow> nat \<times> int list \<Rightarrow> string \<Rightarrow> nat \<Rightarrow> (bool \<times> (nat \<times> int list) \<times> string) option" where
  "zbx_iprange_uniq_next ipranges st ip len =
     (if peek ip = NUL then
        let a = zbx_iprange_first (ipranges ! 0) (snd st)
        in Some (True, (0, a), zbx_iprange_ip2str (iptype (ipranges ! 0)) a len)
      else
        map_option (\<lambda>(ok, idx, a).
            if ok then (True, (idx, a), zbx_iprange_ip2str (iptype (ipranges ! idx)) a len)
            else (False, (idx, a), ip))
          (zbx_iprange_uniq_iter ipranges (fst st) (snd st)))"

section \<open>Port ranges\<close>

abbreviation (input) ZBX_PORTRANGE_INIT_PORT :: int where
  "ZBX_PORTRANGE_INIT_PORT \<equiv> -1"

partial_function (option) port_loop :: "zbx_range list \<Rightarrow> nat \<Rightarrow> int \<Rightarrow> (bool \<times> nat \<times> int) option" where
  "port_loop ranges idx port =
     (let port = port + 1 in
      if port > r_to (ranges ! idx) \<and> idx + 1 = length ranges then Some (False, idx + 1, port)
      else
        let (idx, port) = (if port > r_to (ranges ! idx) then (idx + 1, r_from (ranges ! (idx + 1)))
                           else (idx, port))
        in if list_ex (\<lambda>i. port \<ge> r_from (ranges ! i) \<and> port \<le> r_to (ranges ! i)) [0..<idx]
           then port_loop ranges idx port
           else Some (True, idx, port))"

definition zbx_portrange_uniq_iter :: "zbx_range list \<Rightarrow> nat \<Rightarrow> int \<Rightarrow> (bool \<times> nat \<times> int) option" where
  "zbx_portrange_uniq_iter ranges idx port =
     (if ranges = [] then Some (False, idx, port)
      else if port = ZBX_PORTRANGE_INIT_PORT then Some (True, 0, r_from (hd ranges))
      else if idx = length ranges then Some (False, idx, port)
      else port_loop ranges idx port)"

definition zbx_portrange_uniq_next ::
  "zbx_range list \<Rightarrow> nat \<times> int \<Rightarrow> int \<Rightarrow> (bool \<times> (nat \<times> int) \<times> int) option" where
  "zbx_portrange_uniq_next ranges st port =
     (if ranges = [] then Some (False, st, port)
      else if port = ZBX_PORTRANGE_INIT_PORT then
        Some (True, (0, r_from (ranges ! 0)), r_from (ranges ! 0))
      else if length ranges = fst st then Some (False, st, port)
      else map_option (\<lambda>(ok, idx, p). (ok, (idx, p), if ok then p else port))
             (zbx_portrange_uniq_iter ranges (fst st) (snd st)))"

declare uniq_loop.simps [code] port_loop.simps [code]

section \<open>Address lists\<close>

text \<open>
  \<open>iprange\<close> and \<open>ipaddress\<close> hold what the uninitialised stack variables of \<^verbatim>\<open>zbx_ip_in_list\<close> hold. The loop
  runs once more after a final comma.
\<close>

function ip_in_list_loop :: "zbx_iprange \<Rightarrow> string \<Rightarrow> int list \<Rightarrow> c_fault + bool" where
  "ip_in_list_loop iprange lst ipaddress =
     (let comma = strchr lst CHR '','';
          address = (case comma of None \<Rightarrow> lst | Some p \<Rightarrow> take (length lst - length p) lst) in
      case zbx_iprange_parse iprange address of
        Inl f \<Rightarrow> Inl f
      | Inr parsed \<Rightarrow>
          if (case parsed of None \<Rightarrow> False | Some r \<Rightarrow> zbx_iprange_validate r ipaddress) then Inr True
          else (case comma of None \<Rightarrow> Inr False | Some p \<Rightarrow> ip_in_list_loop iprange (tl p) ipaddress))"
  by pat_completeness auto
termination ip_in_list_loop
proof (relation "measure (\<lambda>(r, lst, a). length lst)", goal_cases)
  case (2 r lst a comma address parsed p)
  then have "strchr lst CHR '','' = Some p" by simp
  then have "length p \<le> length lst" "p \<noteq> []" by (auto dest: strchr_length strchr_nonempty)
  then show ?case by (cases p) auto
qed simp

declare ip_in_list_loop.simps [simp del]

definition zbx_ip_in_list :: "zbx_iprange \<Rightarrow> int list \<Rightarrow> string \<Rightarrow> string \<Rightarrow> c_fault + bool" where
  "zbx_ip_in_list iprange ipaddress lst ip =
     (case zbx_iprange_parse iprange ip of
        Inl f \<Rightarrow> Inl f
      | Inr None \<Rightarrow> Inr False
      | Inr (Some r) \<Rightarrow>
          if peek lst = NUL then Inr False
          else ip_in_list_loop r lst (zbx_iprange_first r ipaddress))"

end
