(* ===== verification/ZbxIpWalk.thy ===== *)
theory ZbxIpWalk
  imports ZbxIp
begin

text \<open>
  Iterating over the ports and addresses of several overlapping ranges: an interface of the iterators of
  \<^verbatim>\<open>src/libs/zbxip/iprange.c\<close> with the list of what they visit as its contract, and its two instances.
\<close>

section \<open>Walks\<close>

text \<open>The caller's loop: call the iterator until it fails and collect what it stored.\<close>

fun walk :: "(nat \<Rightarrow> 'a \<Rightarrow> (bool \<times> nat \<times> 'a) option) \<Rightarrow> nat \<Rightarrow> nat \<Rightarrow> 'a \<Rightarrow> 'a list option" where
  "walk step 0 idx a = None"
| "walk step (Suc n) idx a =
     (case step idx a of
        None \<Rightarrow> None
      | Some (ok, idx', b) \<Rightarrow> if ok then map_option ((#) b) (walk step n idx' b) else Some [])"

text \<open>What is to be visited: from each range the elements no range before it covers.\<close>

definition fresh :: "('r \<Rightarrow> 'a \<Rightarrow> bool) \<Rightarrow> 'r list \<Rightarrow> nat \<Rightarrow> 'a \<Rightarrow> bool" where
  "fresh cover rs idx b \<longleftrightarrow> \<not> list_ex (\<lambda>i. cover (rs ! i) b) [0..<idx]"

definition fresh_from :: "('r \<Rightarrow> 'a list) \<Rightarrow> ('r \<Rightarrow> 'a \<Rightarrow> bool) \<Rightarrow> 'r list \<Rightarrow> nat \<Rightarrow> 'a list" where
  "fresh_from elems cover rs idx =
     concat (map (\<lambda>i. filter (fresh cover rs i) (elems (rs ! i))) [idx..<length rs])"

lemma fresh_from_unfold:
  "idx < length rs \<Longrightarrow>
    fresh_from elems cover rs idx
      = filter (fresh cover rs idx) (elems (rs ! idx)) @ fresh_from elems cover rs (Suc idx)"
  by (simp add: fresh_from_def upt_conv_Cons)

lemma fresh_from_end [simp]: "length rs \<le> idx \<Longrightarrow> fresh_from elems cover rs idx = []"
  by (simp add: fresh_from_def)

lemma fresh_from_set:
  "set (fresh_from elems cover rs idx)
    = {b. \<exists>i. idx \<le> i \<and> i < length rs \<and> b \<in> set (elems (rs ! i)) \<and> fresh cover rs i b}"
  by (auto simp: fresh_from_def)

locale uniq_walk =
  fixes elems :: "'r \<Rightarrow> 'a list"
    and cover :: "'r \<Rightarrow> 'a \<Rightarrow> bool"
    and ok :: "'r \<Rightarrow> bool"
    and init :: "'a \<Rightarrow> bool"
    and iter :: "'r list \<Rightarrow> nat \<Rightarrow> 'a \<Rightarrow> (bool \<times> nat \<times> 'a) option"
  assumes elems_nonempty: "ok r \<Longrightarrow> elems r \<noteq> []"
    and elems_distinct: "ok r \<Longrightarrow> distinct (elems r)"
    and elems_cover: "ok r \<Longrightarrow> b \<in> set (elems r) \<Longrightarrow> cover r b"
    and iter_init: "rs \<noteq> [] \<Longrightarrow> list_all ok rs \<Longrightarrow> init a \<Longrightarrow>
      iter rs idx a = Some (True, 0, hd (elems (hd rs)))"
    and iter_step: "list_all ok rs \<Longrightarrow> idx < length rs \<Longrightarrow> elems (rs ! idx) = pre @ a # b # post \<Longrightarrow>
      iter rs idx a = (if fresh cover rs idx b then Some (True, idx, b) else iter rs idx b)"
    and iter_switch: "list_all ok rs \<Longrightarrow> Suc idx < length rs \<Longrightarrow> elems (rs ! idx) = pre @ [a] \<Longrightarrow>
      iter rs idx a =
        (if fresh cover rs (Suc idx) (hd (elems (rs ! Suc idx)))
         then Some (True, Suc idx, hd (elems (rs ! Suc idx)))
         else iter rs (Suc idx) (hd (elems (rs ! Suc idx))))"
    and iter_end: "list_all ok rs \<Longrightarrow> Suc idx = length rs \<Longrightarrow> elems (rs ! idx) = pre @ [a] \<Longrightarrow>
      \<exists>b. iter rs idx a = Some (False, Suc idx, b)"
begin

text \<open>What one call does, for the elements still to come.\<close>

lemma iter_remaining:
  assumes "list_all ok rs" "idx < length rs" "elems (rs ! idx) = pre @ a # post"
  shows "(case filter (fresh cover rs idx) post @ fresh_from elems cover rs (Suc idx) of
      [] \<Rightarrow> \<exists>b. iter rs idx a = Some (False, length rs, b)
    | b # bs \<Rightarrow> \<exists>idx' pre' post'. iter rs idx a = Some (True, idx', b) \<and> idx' < length rs
        \<and> elems (rs ! idx') = pre' @ b # post'
        \<and> bs = filter (fresh cover rs idx') post' @ fresh_from elems cover rs (Suc idx'))"
  using assms
proof (induction "length post + length (concat (map (\<lambda>i. elems (rs ! i)) [Suc idx..<length rs]))"
    arbitrary: idx pre a post rule: less_induct)
  case less
  show ?case
  proof (cases post)
    case (Cons b post')
    note step = iter_step [OF less.prems(1,2), of pre a b post']
    have e: "elems (rs ! idx) = (pre @ [a]) @ b # post'" using less.prems(3) Cons by simp
    show ?thesis
    proof (cases "fresh cover rs idx b")
      case True
      have "iter rs idx a = Some (True, idx, b)" using step less.prems(3) Cons True by simp
      with Cons True less.prems(2) e have "\<exists>idx' pre' post''. iter rs idx a = Some (True, idx', b)
          \<and> idx' < length rs \<and> elems (rs ! idx') = pre' @ b # post''
          \<and> filter (fresh cover rs idx) post' @ fresh_from elems cover rs (Suc idx)
            = filter (fresh cover rs idx') post'' @ fresh_from elems cover rs (Suc idx')"
        by (intro exI [of _ idx] exI [of _ "pre @ [a]"] exI [of _ post']) simp
      with Cons True show ?thesis by simp
    next
      case False
      have eq: "iter rs idx a = iter rs idx b" using step less.prems(3) Cons False by simp
      show ?thesis unfolding eq
        using less.hyps [of post' idx "pre @ [a]" b] less.prems(1,2) e Cons False by simp
    qed
  next
    case Nil
    show ?thesis
    proof (cases "Suc idx < length rs")
      case False
      then have "Suc idx = length rs" using less.prems(2) by simp
      then show ?thesis using iter_end [OF less.prems(1), of idx pre a] less.prems(3) Nil by simp
    next
      case True
      have "ok (rs ! Suc idx)" using less.prems(1) True by (simp add: list_all_length)
      then obtain b post' where b: "elems (rs ! Suc idx) = b # post'"
        using elems_nonempty by (meson neq_Nil_conv)
      note step = iter_switch [OF less.prems(1) True, of pre a]
      note unf = fresh_from_unfold [OF True, of elems cover]
      show ?thesis
      proof (cases "fresh cover rs (Suc idx) b")
        case f: True
        have "iter rs idx a = Some (True, Suc idx, b)" using step less.prems(3) Nil b f by simp
        with Nil f True b unf show ?thesis by simp (metis append_Nil)
      next
        case f: False
        have eq: "iter rs idx a = iter rs (Suc idx) b" using step less.prems(3) Nil b f by simp
        show ?thesis unfolding eq
          using less.hyps [of post' "Suc idx" "[]" b] less.prems(1) True b Nil f unf
          by (simp add: upt_conv_Cons)
      qed
    qed
  qed
qed

lemma walk_remaining:
  assumes "list_all ok rs" "idx < length rs" "elems (rs ! idx) = pre @ a # post"
    "filter (fresh cover rs idx) post @ fresh_from elems cover rs (Suc idx) = bs" "length bs < n"
  shows "walk (iter rs) n idx a = Some bs"
  using assms
proof (induction bs arbitrary: n idx pre a post)
  case Nil
  then obtain m where "n = Suc m" by (cases n) auto
  then show ?case using iter_remaining [OF Nil.prems(1-3)] Nil.prems(4) by auto
next
  case (Cons b bs)
  then obtain m where n: "n = Suc m" by (cases n) auto
  from iter_remaining [OF Cons.prems(1-3)] Cons.prems(4) obtain idx' pre' post' where
    i: "iter rs idx a = Some (True, idx', b)" "idx' < length rs" "elems (rs ! idx') = pre' @ b # post'"
      "filter (fresh cover rs idx') post' @ fresh_from elems cover rs (Suc idx') = bs"
    by auto
  have "walk (iter rs) m idx' b = Some bs"
    using Cons.IH [OF Cons.prems(1) i(2,3,4)] Cons.prems(5) n by simp
  with i(1) n show ?case by simp
qed

lemma walk_all:
  assumes "rs \<noteq> []" "list_all ok rs" "init a" "length (fresh_from elems cover rs 0) < n"
  shows "walk (iter rs) n idx a = Some (fresh_from elems cover rs 0)"
proof -
  have "ok (hd rs)" using assms by (cases rs) auto
  then obtain b post where b: "elems (rs ! 0) = b # post" "elems (hd rs) = b # post"
    using elems_nonempty assms(1) by (metis hd_conv_nth neq_Nil_conv)
  obtain m where n: "n = Suc m" using assms(4) by (cases n) auto
  have l: "0 < length rs" using assms(1) by simp
  have f: "fresh_from elems cover rs 0
      = b # filter (fresh cover rs 0) post @ fresh_from elems cover rs (Suc 0)"
    using fresh_from_unfold [OF l, of elems cover] b by (simp add: fresh_def)
  have "walk (iter rs) m 0 b = Some (filter (fresh cover rs 0) post @ fresh_from elems cover rs (Suc 0))"
    by (rule walk_remaining [OF assms(2) l, of "[]" b post]) (use b f n assms(4) in auto)
  then show ?thesis using iter_init [OF assms(1-3)] b f n by simp
qed

lemma fresh_distinct: "list_all ok rs \<Longrightarrow> distinct (fresh_from elems cover rs idx)"
proof (induction "length rs - idx" arbitrary: idx)
  case (Suc k)
  then have l: "idx < length rs" by simp
  have d: "distinct (elems (rs ! idx))" using Suc.prems l by (simp add: list_all_length elems_distinct)
  have c: "cover (rs ! idx) b" if "b \<in> set (elems (rs ! idx))" for b
    using elems_cover that Suc.prems l by (simp add: list_all_length)
  have "distinct (fresh_from elems cover rs (Suc idx))" using Suc by simp
  moreover have "b \<notin> set (fresh_from elems cover rs (Suc idx))" if "b \<in> set (elems (rs ! idx))" for b
    using c [OF that] by (auto simp: fresh_from_set fresh_def list_ex_iff Suc_le_eq)
  ultimately show ?case using d l by (auto simp: fresh_from_unfold)
qed simp

end

section \<open>Ports\<close>

definition port_ok :: "zbx_range \<Rightarrow> bool" where
  "port_ok r \<longleftrightarrow> 0 \<le> r_from r \<and> r_from r \<le> r_to r"

definition port_elems :: "zbx_range \<Rightarrow> int list" where
  "port_elems r = [r_from r..r_to r]"

definition port_in :: "zbx_range \<Rightarrow> int \<Rightarrow> bool" where
  "port_in r p \<longleftrightarrow> p \<ge> r_from r \<and> p \<le> r_to r"

lemma upto_split_last: "[i..j] = pre @ [a] \<Longrightarrow> a = (j::int)"
  by (metis append_is_Nil_conv last_snoc not_Cons_self2 upto_Nil upto_rec2 linorder_not_less)

lemma upto_split_mid: "[i..j] = pre @ a # b # post \<Longrightarrow> b = a + (1::int) \<and> b \<le> j \<and> i \<le> a"
proof (induction pre arbitrary: i)
  case Nil
  then show ?case by (cases "i \<le> j"; cases "i + 1 \<le> j") (auto simp: upto_rec1)
next
  case (Cons x pre)
  then have "i \<le> j" using upto_Nil [of i j] by (cases "i \<le> j") auto
  with Cons.prems have "[i + 1..j] = pre @ a # b # post" by (metis append_Cons list.inject upto_rec1)
  from Cons.IH [OF this] show ?case by simp
qed

lemma port_loop_split:
  "port_loop rs idx a =
     (if a + 1 > r_to (rs ! idx) then
        if idx + 1 = length rs then Some (False, idx + 1, a + 1)
        else let b = r_from (rs ! (idx + 1)) in
          if fresh port_in rs (idx + 1) b then Some (True, idx + 1, b) else port_loop rs (idx + 1) b
      else if fresh port_in rs idx (a + 1) then Some (True, idx, a + 1) else port_loop rs idx (a + 1))"
  by (subst port_loop.simps) (simp add: Let_def fresh_def port_in_def)

interpretation port: uniq_walk port_elems port_in port_ok "\<lambda>p. p = -1" zbx_portrange_uniq_iter
proof (unfold_locales, goal_cases)
  case (1 r)
  then show ?case by (simp add: port_ok_def port_elems_def)
next
  case (2 r)
  then show ?case by (simp add: port_elems_def)
next
  case (3 r b)
  then show ?case by (simp add: port_elems_def port_in_def)
next
  case (4 rs a idx)
  then show ?case by (cases rs) (auto simp: port_ok_def port_elems_def zbx_portrange_uniq_iter_def upto_rec1)
next
  case (5 rs idx pre a b post)
  then have "port_ok (rs ! idx)" by (simp add: list_all_length)
  with 5(2,3) upto_split_mid [of "r_from (rs ! idx)" "r_to (rs ! idx)" pre a b post] show ?case
    by (auto simp: zbx_portrange_uniq_iter_def port_elems_def port_ok_def port_loop_split [of rs idx a])
next
  case (6 rs idx pre a)
  then have "port_ok (rs ! idx)" "port_ok (rs ! Suc idx)" by (simp_all add: list_all_length)
  with 6(2,3) upto_split_last [of "r_from (rs ! idx)" "r_to (rs ! idx)" pre a] show ?case
    by (auto simp: zbx_portrange_uniq_iter_def port_elems_def port_ok_def port_loop_split [of rs idx "r_to (rs ! idx)"]
        Let_def upto_rec1)
next
  case (7 rs idx pre a)
  then have "port_ok (rs ! idx)" by (simp add: list_all_length)
  with 7(2,3) upto_split_last [of "r_from (rs ! idx)" "r_to (rs ! idx)" pre a] show ?case
    by (auto simp: zbx_portrange_uniq_iter_def port_elems_def port_ok_def port_loop_split [of rs idx "r_to (rs ! idx)"]
        Let_def)
qed

end
