(* ===== verification/ZbxIpAddr.thy ===== *)
theory ZbxIpAddr
  imports ZbxIpWalk
begin

unbundle bit_operations_syntax

section \<open>The addresses of one range\<close>

definition iprange_ok :: "zbx_iprange \<Rightarrow> bool" where
  "iprange_ok r \<longleftrightarrow> length (groups r) = 8
     \<and> list_all (\<lambda>g. 0 \<le> r_from g \<and> r_from g \<le> r_to g \<and> r_to g < 2 ^ iprange_group_bits (iptype r))
         (take (iprange_groups (iptype r)) (groups r))
     \<and> (iptype r = ZBX_IPRANGE_V4 \<and> has_mask r \<longrightarrow> r_from (groups r ! 3) + 3 \<le> r_to (groups r ! 3))"

definition group_addresses :: "zbx_range list \<Rightarrow> int list list" where
  "group_addresses gs = product_lists (map (\<lambda>g. [r_from g..r_to g]) gs)"

text \<open>In increasing order; a network range leaves out its first and last address.\<close>

definition iprange_addresses :: "zbx_iprange \<Rightarrow> int list list" where
  "iprange_addresses r =
     (let all = group_addresses (take (iprange_groups (iptype r)) (groups r))
      in if iptype r = ZBX_IPRANGE_V4 \<and> has_mask r then butlast (tl all) else all)"

lemma product_lists_snoc:
  "product_lists (xss @ [ys]) = concat (map (\<lambda>p. map (\<lambda>y. p @ [y]) ys) (product_lists xss))"
proof (induction xss)
  case Nil
  show ?case by (induction ys) simp_all
next
  case (Cons xs xss)
  have *: "map ((#) x) (concat (map (\<lambda>p. map (\<lambda>y. p @ [y]) ys) ps))
      = concat (map (\<lambda>p. map (\<lambda>y. p @ [y]) ys) (map ((#) x) ps))" for x and ps :: "'a list list"
    by (induction ps) simp_all
  have **: "concat (map (\<lambda>x. map ((#) x) (concat (map (\<lambda>p. map (\<lambda>y. p @ [y]) ys) ps))) xs)
      = concat (map (\<lambda>p. map (\<lambda>y. p @ [y]) ys) (concat (map (\<lambda>x. map ((#) x) ps) xs)))"
    for ps :: "'a list list"
    by (induction xs) (simp_all only: list.map concat.simps concat_append map_append *)
  show ?case by (simp only: append_Cons product_lists.simps Cons **)
qed

lemma successively_upto: "successively (\<lambda>x y. y = x + 1 \<and> y \<le> j) [i..j::int]"
proof (induction i j rule: upto.induct)
  case (1 i j)
  show ?case
  proof (cases "i + 1 \<le> j")
    case True
    then have "[i..j] = i # [i + 1..j]" "[i + 1..j] = (i + 1) # [i + 1 + 1..j]"
      by (simp_all only: upto_rec1 [of i j] upto_rec1 [of "i + 1" j])
    with 1 True show ?thesis by simp
  next
    case False
    then have "[i..j] = [] \<or> [i..j] = [i]" by (cases "i \<le> j") (simp_all add: upto_rec1)
    then show ?thesis by auto
  qed
qed

lemma successively_concat:
  assumes "\<And>b. b \<in> set bs \<Longrightarrow> b \<noteq> [] \<and> successively P b" "successively (\<lambda>b c. P (last b) (hd c)) bs"
  shows "successively P (concat bs)"
  using assms
proof (induction bs)
  case (Cons b bs)
  show ?case
  proof (cases bs)
    case Nil
    with Cons.prems show ?thesis by simp
  next
    case (Cons c cs)
    have "successively P (concat bs)"
      by (rule Cons.IH) (use Cons.prems Cons in auto)
    with Cons.prems Cons show ?thesis by (auto simp: successively_append_iff)
  qed
qed simp

abbreviation groups_ordered :: "zbx_range list \<Rightarrow> bool" where
  "groups_ordered gs \<equiv> list_all (\<lambda>g. r_from g \<le> r_to g) gs"

lemma group_addresses_snoc:
  "group_addresses (gs @ [g])
    = concat (map (\<lambda>p. map (\<lambda>y. p @ [y]) [r_from g..r_to g]) (group_addresses gs))"
  by (simp add: group_addresses_def product_lists_snoc)

lemma group_addresses_nonempty: "groups_ordered gs \<Longrightarrow> group_addresses gs \<noteq> []"
  by (induction gs) (auto simp: group_addresses_def)

lemma group_addresses_length: "a \<in> set (group_addresses gs) \<Longrightarrow> length a = length gs"
  by (auto simp: group_addresses_def product_lists_set dest: list_all2_lengthD)

lemma hd_concat_map:
  "xs \<noteq> [] \<Longrightarrow> f (hd xs) \<noteq> [] \<Longrightarrow> hd (concat (map f xs)) = hd (f (hd xs))"
  by (cases xs) auto

lemma last_concat_map:
  "xs \<noteq> [] \<Longrightarrow> f (last xs) \<noteq> [] \<Longrightarrow> last (concat (map f xs)) = last (f (last xs))"
  by (induction xs rule: rev_induct) auto

lemma upto_hd: "i \<le> j \<Longrightarrow> hd [i..j::int] = i"
  by (simp add: upto_rec1)

lemma upto_last: "i \<le> j \<Longrightarrow> last [i..j::int] = j"
  by (simp add: upto_rec2)

lemma group_addresses_hd: "groups_ordered gs \<Longrightarrow> hd (group_addresses gs) = map r_from gs"
proof (induction gs rule: rev_induct)
  case (snoc g gs)
  then show ?case
    by (simp add: group_addresses_snoc hd_concat_map group_addresses_nonempty hd_map upto_hd)
qed (simp add: group_addresses_def)

lemma group_addresses_last: "groups_ordered gs \<Longrightarrow> last (group_addresses gs) = map r_to gs"
proof (induction gs rule: rev_induct)
  case (snoc g gs)
  then show ?case
    by (simp add: group_addresses_snoc last_concat_map group_addresses_nonempty last_map upto_last)
qed (simp add: group_addresses_def)

text \<open>The loop of \<^verbatim>\<open>zbx_iprange_next\<close> moves each address to the next one of the list.\<close>

lemma next_loop_prefix: "n \<le> length gs \<Longrightarrow> next_loop (gs @ hs) n a = next_loop gs n a"
  by (induction n arbitrary: a) (auto simp: nth_append)

lemma next_loop_step:
  assumes "groups_ordered gs"
  shows "successively (\<lambda>a b. \<forall>tail. next_loop gs (length gs) (a @ tail) = (True, b @ tail)) (group_addresses gs)"
  using assms
proof (induction gs rule: rev_induct)
  case Nil
  then show ?case by (simp add: group_addresses_def)
next
  case (snoc g gs)
  let ?P = "\<lambda>gs a b. \<forall>tail. next_loop gs (length gs) (a @ tail) = (True, b @ tail)"
  have ord: "r_from g \<le> r_to g" using snoc.prems by simp
  have len: "length p = length gs" if "p \<in> set (group_addresses gs)" for p
    using that by (rule group_addresses_length)
  have inside: "successively (?P (gs @ [g])) (map (\<lambda>y. p @ [y]) [r_from g..r_to g])"
    if "p \<in> set (group_addresses gs)" for p
    unfolding successively_map
  proof (rule successively_mono [OF successively_upto [of "r_to g" "r_from g"]])
    fix x y :: int
    assume "y = x + 1 \<and> y \<le> r_to g"
    then show "?P (gs @ [g]) (p @ [x]) (p @ [y])"
      by (auto simp: len [OF that] nth_append list_update_append)
  qed
  have across: "?P (gs @ [g]) (p @ [r_to g]) (q @ [r_from g])"
    if "p \<in> set (group_addresses gs)" "?P gs p q" for p q
    using that(2) ord
    by (auto simp: len [OF that(1)] nth_append list_update_append next_loop_prefix)
  have "successively (\<lambda>p q. ?P (gs @ [g]) (p @ [r_to g]) (q @ [r_from g])) (group_addresses gs)"
    by (rule successively_mono [OF snoc.IH]) (use snoc.prems across in auto)
  then have "successively (\<lambda>b c. ?P (gs @ [g]) (last b) (hd c))
      (map (\<lambda>p. map (\<lambda>y. p @ [y]) [r_from g..r_to g]) (group_addresses gs))"
    unfolding successively_map using ord by (simp add: last_map hd_map upto_hd upto_last)
  moreover have "b \<noteq> [] \<and> successively (?P (gs @ [g])) b"
    if m: "b \<in> set (map (\<lambda>p. map (\<lambda>y. p @ [y]) [r_from g..r_to g]) (group_addresses gs))" for b
  proof -
    obtain p where p: "p \<in> set (group_addresses gs)" "b = map (\<lambda>y. p @ [y]) [r_from g..r_to g]"
      using m unfolding set_map by (elim imageE) simp
    then show ?thesis using inside [OF p(1)] ord by (intro conjI) (simp, blast)
  qed
  ultimately show ?case
    unfolding group_addresses_snoc by (intro successively_concat)
qed

lemma next_loop_last:
  assumes "groups_ordered gs"
  shows "next_loop gs (length gs) (map r_to gs @ tail) = (False, map r_from gs @ tail)"
  using assms
proof (induction gs arbitrary: tail rule: rev_induct)
  case (snoc g gs)
  then show ?case
    by (auto simp: nth_append list_update_append next_loop_prefix)
qed simp

lemma group_addresses_mid:
  assumes "groups_ordered gs" "group_addresses gs = pre @ a # b # post"
  shows "next_loop gs (length gs) (a @ tail) = (True, b @ tail)"
  using next_loop_step [OF assms(1)] unfolding assms(2) by (simp add: successively_append_iff)


lemma iprange_ok_groups:
  assumes "iprange_ok r" "n = iprange_groups (iptype r)"
  shows "groups_ordered (take n (groups r))" "length (take n (groups r)) = n" "n \<le> 8" "0 < n"
  using assms by (auto simp: iprange_ok_def iprange_groups_def list_all_iff)

lemma next_loop_take:
  assumes "n \<le> length gs"
  shows "next_loop gs n a = next_loop (take n gs) n a"
  using next_loop_prefix [of n "take n gs" "drop n gs" a] assms by simp

abbreviation masked4 :: "zbx_iprange \<Rightarrow> bool" where
  "masked4 r \<equiv> iptype r = ZBX_IPRANGE_V4 \<and> has_mask r"

lemma masked4_all:
  assumes "iprange_ok r" "masked4 r"
  shows "\<exists>a z. group_addresses (take 4 (groups r)) = a # iprange_addresses r @ [z]
    \<and> iprange_addresses r \<noteq> []
    \<and> a = map r_from (take 4 (groups r)) \<and> z = map r_to (take 4 (groups r))
    \<and> hd (iprange_addresses r) = a[3 := a ! 3 + 1]"
proof -
  have g: "iprange_groups (iptype r) = 4" using assms by (simp add: iprange_groups_def)
  obtain gs g4 where gs: "take 4 (groups r) = gs @ [g4]" "length gs = 3" "groups r ! 3 = g4"
  proof
    have "length (groups r) = 8" using assms by (simp add: iprange_ok_def)
    then show "take 4 (groups r) = take 3 (groups r) @ [groups r ! 3]" "length (take 3 (groups r)) = 3"
      by (simp_all add: take_Suc_conv_app_nth [of 3, simplified])
  qed simp
  have w: "r_from g4 + 3 \<le> r_to g4" using assms gs(3) by (simp add: iprange_ok_def)
  have ord: "groups_ordered gs" "groups_ordered (gs @ [g4])"
    using iprange_ok_groups(1) [OF assms(1) refl] gs g by auto
  let ?p = "map r_from gs"
  obtain ps where ps: "group_addresses gs = ?p # ps"
    using group_addresses_nonempty [OF ord(1)] group_addresses_hd [OF ord(1)]
    by (metis list.collapse)
  have up: "[r_from g4..r_to g4] = r_from g4 # (r_from g4 + 1) # (r_from g4 + 1 + 1) # [r_from g4 + 1 + 1 + 1..r_to g4]"
    using w by (simp only: upto_rec1)
  obtain xs where xs: "group_addresses (gs @ [g4])
      = (?p @ [r_from g4]) # (?p @ [r_from g4 + 1]) # (?p @ [r_from g4 + 1 + 1]) # xs"
    by (simp add: group_addresses_snoc ps up)
  have z: "last (group_addresses (gs @ [g4])) = map r_to (gs @ [g4])"
    by (rule group_addresses_last [OF ord(2)])
  have ad: "iprange_addresses r = (?p @ [r_from g4 + 1]) # butlast ((?p @ [r_from g4 + 1 + 1]) # xs)"
    using assms(2) g gs(1) by (simp add: iprange_addresses_def xs)
  have "group_addresses (gs @ [g4]) = (?p @ [r_from g4]) # iprange_addresses r @ [map r_to (gs @ [g4])]"
    unfolding ad z [symmetric] by (simp add: xs)
  with ad gs show ?thesis by (simp add: list_update_append nth_append)
qed

lemma addresses_nonempty: "iprange_ok r \<Longrightarrow> iprange_addresses r \<noteq> []"
  using masked4_all [of r] iprange_ok_groups(1) [of r]
  by (cases "masked4 r") (auto simp: iprange_addresses_def Let_def group_addresses_nonempty)

lemma first_address:
  assumes "iprange_ok r"
  shows "zbx_iprange_first r address
    = hd (iprange_addresses r) @ drop (iprange_groups (iptype r)) address"
proof (cases "masked4 r")
  case True
  have l: "length (groups r) = 8" using assms by (simp add: iprange_ok_def)
  obtain a z where az: "a = map r_from (take 4 (groups r))" "hd (iprange_addresses r) = a[3 := a ! 3 + 1]"
    using masked4_all [OF assms True] by blast
  show ?thesis unfolding az using True l
    by (simp add: zbx_iprange_first_def iprange_groups_def nth_append list_update_append Let_def)
next
  case False
  show ?thesis
    using False group_addresses_hd [OF iprange_ok_groups(1) [OF assms refl]]
    by (auto simp: zbx_iprange_first_def iprange_addresses_def Let_def)
qed

lemma next_address_mid:
  assumes "iprange_ok r" "iprange_addresses r = pre @ a # b # post"
  shows "zbx_iprange_next r (a @ tail) = (True, b @ tail)"
proof -
  let ?n = "iprange_groups (iptype r)"
  let ?gs = "take ?n (groups r)"
  note g = iprange_ok_groups [OF assms(1) refl]
  have l: "?n \<le> length (groups r)" using assms(1) g(3) by (simp add: iprange_ok_def)
  show ?thesis
  proof (cases "masked4 r")
    case True
    then have n4: "?n = 4" by (simp add: iprange_groups_def)
    obtain x z where az: "group_addresses ?gs = x # iprange_addresses r @ [z]" "z = map r_to ?gs"
      using masked4_all [OF assms(1) True] n4 by auto
    then have all: "group_addresses ?gs = (x # pre) @ a # b # (post @ [z])" using assms(2) by simp
    have nx: "next_loop (groups r) ?n (a @ tail) = (True, b @ tail)"
      using group_addresses_mid [OF g(1) all, of tail] g(2) next_loop_take [OF l] by simp
    have "distinct (group_addresses ?gs)"
      unfolding group_addresses_def by (rule distinct_product_lists) auto
    then have "b \<noteq> map r_to ?gs" using all az(2) by auto
    moreover have "length b = ?n" using group_addresses_length [of b ?gs] all g(2) by auto
    ultimately have "\<exists>i<?n. b ! i \<noteq> r_to (groups r ! i)"
      using l by (auto simp: list_eq_iff_nth_eq)
    then have "list_ex (\<lambda>i. (b @ tail) ! i \<noteq> r_to (groups r ! i)) [0..<?n]"
      using \<open>length b = ?n\<close> by (auto simp: list_ex_iff nth_append)
    with nx True show ?thesis by (simp add: zbx_iprange_next_def)
  next
    case False
    then have all: "group_addresses ?gs = pre @ a # b # post"
      using assms(2) by (auto simp: iprange_addresses_def Let_def)
    have nx: "next_loop (groups r) ?n (a @ tail) = (True, b @ tail)"
      using group_addresses_mid [OF g(1) all, of tail] g(2) next_loop_take [OF l] by simp
    with False show ?thesis by (auto simp: zbx_iprange_next_def)
  qed
qed

lemma next_address_last:
  assumes "iprange_ok r" "iprange_addresses r = pre @ [a]"
  shows "\<exists>c. zbx_iprange_next r (a @ tail) = (False, c @ tail) \<and> length c = length a"
proof -
  let ?n = "iprange_groups (iptype r)"
  let ?gs = "take ?n (groups r)"
  note g = iprange_ok_groups [OF assms(1) refl]
  have l: "?n \<le> length (groups r)" using assms(1) g(3) by (simp add: iprange_ok_def)
  show ?thesis
  proof (cases "masked4 r")
    case True
    then have n4: "?n = 4" by (simp add: iprange_groups_def)
    obtain x z where az: "group_addresses ?gs = x # iprange_addresses r @ [z]" "z = map r_to ?gs"
      using masked4_all [OF assms(1) True] n4 by auto
    then have all: "group_addresses ?gs = (x # pre) @ a # z # []" using assms(2) by simp
    have nx: "next_loop (groups r) ?n (a @ tail) = (True, z @ tail)"
      using group_addresses_mid [OF g(1) all, of tail] g(2) next_loop_take [OF l] by simp
    have "length z = ?n" "length a = ?n" using group_addresses_length [of _ ?gs] all g(2) by auto
    moreover have "\<not> list_ex (\<lambda>i. (z @ tail) ! i \<noteq> r_to (groups r ! i)) [0..<?n]"
      unfolding az(2) using l by (auto simp: list_ex_iff nth_append)
    ultimately show ?thesis using nx True by (auto simp: zbx_iprange_next_def)
  next
    case False
    then have "group_addresses ?gs = pre @ [a]"
      using assms(2) by (auto simp: iprange_addresses_def Let_def)
    then have a: "a = map r_to ?gs" using group_addresses_last [OF g(1)] by simp
    have "next_loop (groups r) ?n (a @ tail) = (False, map r_from ?gs @ tail)"
      using next_loop_last [OF g(1), of tail] g(2) next_loop_take [OF l] by (simp add: a)
    with False show ?thesis by (auto simp: zbx_iprange_next_def a)
  qed
qed


lemma validate_iff:
  assumes "iprange_ok r" "length a = iprange_groups (iptype r)"
  shows "zbx_iprange_validate r (a @ tail)
    \<longleftrightarrow> a \<in> set (group_addresses (take (iprange_groups (iptype r)) (groups r)))"
proof -
  let ?n = "iprange_groups (iptype r)"
  have l: "?n \<le> length (groups r)"
    using assms(1) iprange_ok_groups(3) [OF assms(1) refl] by (simp add: iprange_ok_def)
  show ?thesis
    using l assms(2)
    by (auto simp: zbx_iprange_validate_def group_addresses_def product_lists_set list_all2_conv_all_nth
        list_all_iff nth_append linorder_not_less)
qed

lemma in_set_butlast_tlD: "x \<in> set (butlast (tl xs)) \<Longrightarrow> x \<in> set xs"
  by (cases xs) (auto dest: in_set_butlastD)

lemma addresses_all:
  "iprange_ok r \<Longrightarrow> a \<in> set (iprange_addresses r)
    \<Longrightarrow> a \<in> set (group_addresses (take (iprange_groups (iptype r)) (groups r)))"
  by (auto simp: iprange_addresses_def Let_def split: if_splits dest: in_set_butlast_tlD)

lemma addresses_length:
  "iprange_ok r \<Longrightarrow> a \<in> set (iprange_addresses r) \<Longrightarrow> length a = iprange_groups (iptype r)"
  using addresses_all [of r a] iprange_ok_groups(2) [of r] by (auto dest: group_addresses_length)

lemma addresses_distinct: "distinct (iprange_addresses r)"
  unfolding iprange_addresses_def group_addresses_def Let_def
  by (simp add: distinct_butlast distinct_tl distinct_product_lists)

section \<open>The addresses of several ranges\<close>

text \<open>
  The groups past those of the range's type keep the caller's values. The address of all zeros marks the start
  of the iteration, so no range may hold it.
\<close>

definition address_elems :: "int list \<Rightarrow> zbx_iprange \<Rightarrow> int list list" where
  "address_elems tail r = map (\<lambda>a. a @ tail) (iprange_addresses r)"

definition address_ok :: "iprange_type \<Rightarrow> zbx_iprange \<Rightarrow> bool" where
  "address_ok t r \<longleftrightarrow> iprange_ok r \<and> iptype r = t
     \<and> replicate (iprange_groups t) 0 \<notin> set (iprange_addresses r)"

definition address_start :: "iprange_type \<Rightarrow> int list \<Rightarrow> int list \<Rightarrow> bool" where
  "address_start t tail a \<longleftrightarrow> a = replicate (iprange_groups t) 0 @ tail"

lemma address_okD:
  "address_ok t r \<Longrightarrow> iprange_ok r" "address_ok t r \<Longrightarrow> iptype r = t"
  by (simp_all add: address_ok_def)

lemma address_elemsE:
  assumes "address_elems tail r = pre @ x # post" "address_ok t r"
  obtains pre' a post' where "iprange_addresses r = pre' @ a # post'" "x = a @ tail"
    "post = map (\<lambda>a. a @ tail) post'" "length a = iprange_groups t" "a \<noteq> replicate (iprange_groups t) 0"
proof -
  from assms(1) obtain pre' a post' where s: "iprange_addresses r = pre' @ a # post'"
    "x = a @ tail" "post = map (\<lambda>a. a @ tail) post'"
    unfolding address_elems_def by (auto simp: map_eq_append_conv)
  have "a \<in> set (iprange_addresses r)" using s(1) by simp
  then have "length a = iprange_groups t" "a \<noteq> replicate (iprange_groups t) 0"
    using addresses_length [OF address_okD(1) [OF assms(2)]] assms(2) by (auto simp: address_ok_def)
  with s that show thesis by blast
qed

lemma uniq_iter_loop:
  assumes "list_all (address_ok t) rs" "idx < length rs"
    "length a = iprange_groups t" "a \<noteq> replicate (iprange_groups t) 0"
  shows "zbx_iprange_uniq_iter rs idx (a @ tail) = uniq_loop rs idx (a @ tail)"
proof -
  have rs: "rs \<noteq> []" using assms(2) by auto
  have "iptype (hd rs) = t" using assms(1) rs by (cases rs) (auto simp: address_ok_def)
  note rs = rs this
  have "\<not> list_all (\<lambda>x. x = 0) a"
    using replicate_eqI [of a "iprange_groups t" 0] assms(3,4) by (auto simp: list_all_iff)
  with rs assms(2,3) show ?thesis by (simp add: zbx_iprange_uniq_iter_def)
qed

interpretation address: uniq_walk "address_elems tail" zbx_iprange_validate "address_ok t"
  "address_start t tail" zbx_iprange_uniq_iter for t tail
proof (unfold_locales, goal_cases)
  case (1 r)
  then show ?case by (simp add: address_elems_def address_ok_def addresses_nonempty)
next
  case (2 r)
  then show ?case by (simp add: address_elems_def distinct_map addresses_distinct inj_on_def)
next
  case (3 r b)
  then show ?case
    by (auto simp: address_elems_def address_ok_def validate_iff addresses_length addresses_all)
next
  case (4 rs a idx)
  then have "address_ok t (hd rs)" by (cases rs) auto
  with 4(1,3) show ?case
    by (auto simp: zbx_iprange_uniq_iter_def address_start_def address_ok_def first_address
        address_elems_def list_all_iff hd_map addresses_nonempty)
next
  case (5 rs idx pre a b post)
  then have ok: "address_ok t (rs ! idx)" by (simp add: list_all_length)
  obtain pre' x post' where x: "iprange_addresses (rs ! idx) = pre' @ x # post'" "a = x @ tail"
    "b # post = map (\<lambda>a. a @ tail) post'" "length x = iprange_groups t" "x \<noteq> replicate (iprange_groups t) 0"
    using address_elemsE [OF 5(3) ok] by blast
  then obtain y post'' where y: "post' = y # post''" "b = y @ tail" by auto
  have yt: "length y = iprange_groups t" "y \<noteq> replicate (iprange_groups t) 0"
    using x(1) y(1) addresses_length [OF address_okD(1) [OF ok], of y] ok by (auto simp: address_ok_def)
  have n: "zbx_iprange_next (rs ! idx) a = (True, b)"
    using next_address_mid [OF address_okD(1) [OF ok], of pre' x y post''] x y by simp
  show ?case
    unfolding x(2) uniq_iter_loop [OF 5(1,2) x(4,5)]
    unfolding y(2) uniq_iter_loop [OF 5(1,2) yt]
    by (subst uniq_loop.simps) (use n x(2) y(2) in \<open>simp add: fresh_def Let_def\<close>)
next
  case (6 rs idx pre a)
  then have ok: "address_ok t (rs ! idx)" "address_ok t (rs ! Suc idx)" by (simp_all add: list_all_length)
  have l: "idx < length rs" using 6(2) by simp
  obtain pre' x post' where x: "iprange_addresses (rs ! idx) = pre' @ x # post'" "a = x @ tail"
    "[] = map (\<lambda>a. a @ tail) post'" "length x = iprange_groups t" "x \<noteq> replicate (iprange_groups t) 0"
    using address_elemsE [OF 6(3) ok(1)] by blast
  obtain c where c: "zbx_iprange_next (rs ! idx) (x @ tail) = (False, c @ tail)" "length c = length x"
    using next_address_last [OF address_okD(1) [OF ok(1)], of pre' x] x by auto
  let ?y = "hd (iprange_addresses (rs ! Suc idx))"
  have y: "?y \<in> set (iprange_addresses (rs ! Suc idx))"
    using addresses_nonempty [OF address_okD(1) [OF ok(2)]] by simp
  have yt: "length ?y = iprange_groups t" "?y \<noteq> replicate (iprange_groups t) 0"
    using y addresses_length [OF address_okD(1) [OF ok(2)], of ?y] ok(2) by (auto simp: address_ok_def)
  have f: "zbx_iprange_first (rs ! Suc idx) (c @ tail) = ?y @ tail"
    using first_address [OF address_okD(1) [OF ok(2)], of "c @ tail"] c(2) x(4) address_okD(2) [OF ok(2)]
    by simp
  have h: "hd (address_elems tail (rs ! Suc idx)) = ?y @ tail"
    using addresses_nonempty [OF address_okD(1) [OF ok(2)]] by (simp add: address_elems_def hd_map)
  show ?case
    unfolding x(2) uniq_iter_loop [OF 6(1) l x(4,5)] h uniq_iter_loop [OF 6(1,2) yt]
    by (subst uniq_loop.simps) (use c(1) f 6(2) in \<open>simp add: fresh_def Let_def\<close>)
next
  case (7 rs idx pre a)
  then have ok: "address_ok t (rs ! idx)" and l: "idx < length rs" by (simp_all add: list_all_length)
  obtain pre' x post' where x: "iprange_addresses (rs ! idx) = pre' @ x # post'" "a = x @ tail"
    "[] = map (\<lambda>a. a @ tail) post'" "length x = iprange_groups t" "x \<noteq> replicate (iprange_groups t) 0"
    using address_elemsE [OF 7(3) ok] by blast
  obtain c where c: "zbx_iprange_next (rs ! idx) (x @ tail) = (False, c @ tail)"
    using next_address_last [OF address_okD(1) [OF ok], of pre' x] x by auto
  show ?case
    unfolding x(2) uniq_iter_loop [OF 7(1) l x(4,5)]
    by (subst uniq_loop.simps) (use c 7(2) in \<open>simp add: Let_def\<close>)
qed

end
