(* ===== verification/ZbxIpProps.thy ===== *)
theory ZbxIpProps
  imports ZbxIpAddr
begin

lemma dec_string_small: "n < 1000 \<Longrightarrow> length (dec_string n) \<le> 3"
  by (subst dec_string.simps, simp, intro impI, subst dec_string.simps, simp, intro impI,
      subst dec_string.simps, simp)

lemma hex_string_small: "n < 65536 \<Longrightarrow> length (hex_string n) \<le> 4"
  by (subst hex_string.simps, simp, intro impI, subst hex_string.simps, simp, intro impI,
      subst hex_string.simps, simp, intro impI, subst hex_string.simps, simp)

lemma strchr_found: "c \<notin> set g \<Longrightarrow> NUL \<notin> set g \<Longrightarrow> strchr (g @ c # post) c = Some (c # post)"
  by (induction g) auto

lemma strchr_absent: "c \<notin> set g \<Longrightarrow> strchr g c = None"
  by (induction g) auto

lemma find_from_found:
  "c \<notin> set g \<Longrightarrow> NUL \<notin> set g \<Longrightarrow> find_from (pre @ g @ c # post) (length pre) c = Some (length pre + length g)"
  by (simp add: find_from_def strchr_found)

lemma find_from_absent: "c \<notin> set s \<Longrightarrow> find_from s i c = None"
  using in_set_dropD [of c i s] by (auto simp: find_from_def intro: strchr_absent)

lemma find_from_absent_tail: "c \<notin> set g \<Longrightarrow> find_from (pre @ g) (length pre) c = None"
  by (simp add: find_from_def strchr_absent)

lemma dec_string_set: "c \<in> set (dec_string n) \<Longrightarrow> isdigit c"
  using dec_string_digits [of n] by (auto simp: list_all_iff)

lemma hex_string_set: "c \<in> set (hex_string n) \<Longrightarrow> isxdigit c"
  using hex_string_digits [of n] by (auto simp: list_all_iff)

lemma not_isxdigit_seps [simp]:
  "\<not> isxdigit CHR ''-''" "\<not> isxdigit CHR ''/''" "\<not> isxdigit CHR '',''" "\<not> isxdigit CHR '':''"
  "\<not> isxdigit CHR ''.''" "\<not> isxdigit NUL"
  by (simp_all add: isxdigit_def isdigit_def)

lemma dec_string_free [simp]:
  "NUL \<notin> set (dec_string n)" "CHR ''.'' \<notin> set (dec_string n)" "CHR ''-'' \<notin> set (dec_string n)"
  "CHR ''/'' \<notin> set (dec_string n)" "CHR '':'' \<notin> set (dec_string n)"
  by (auto dest: dec_string_set)

lemma hex_string_free [simp]:
  "NUL \<notin> set (hex_string n)" "CHR ''.'' \<notin> set (hex_string n)" "CHR ''-'' \<notin> set (hex_string n)"
  "CHR ''/'' \<notin> set (hex_string n)" "CHR '':'' \<notin> set (hex_string n)"
  by (auto dest: hex_string_set)

lemma dec_group_dec_string:
  "k \<le> 255 \<Longrightarrow> NUL \<notin> set rest \<Longrightarrow> dec_group (dec_string k @ rest) (length (dec_string k)) = Some k"
  by (simp add: dec_group_def is_uint_n_range_eq dec_string_digits)

lemma hex_group_hex_string:
  "k \<le> 65535 \<Longrightarrow> NUL \<notin> set rest \<Longrightarrow> hex_group (hex_string k @ rest) (length (hex_string k)) = Some k"
  by (simp add: hex_group_def is_hex_n_range_eq hex_string_digits)

text \<open>One group of a printed address.\<close>

lemma v4_loop_group:
  assumes "s = pre @ dec_string k @ rest" "k \<le> 255" "NUL \<notin> set rest" "CHR ''-'' \<notin> set s"
    "rest = [] \<or> (\<exists>post. rest = CHR ''.'' # post)" "p < length s" "index < 4"
  shows "v4_loop s (length s) False p (length pre) index rs
    = v4_loop s (length s) False (length pre + length (dec_string k))
        (length pre + length (dec_string k) + 1) (index + 1) (rs[index := \<lparr>r_from = int k, r_to = int k\<rparr>])"
proof -
  have d: "(case find_from s (length pre) CHR ''.'' of None \<Rightarrow> length s | Some q \<Rightarrow> q)
      = length pre + length (dec_string k)"
    using assms(1,5) by (auto simp: find_from_found find_from_absent_tail)
  have v: "group_value dec_group s (length pre) (length pre + length (dec_string k)) None
      = Some \<lparr>r_from = int k, r_to = int k\<rparr>"
    using assms(1-3) dec_group_dec_string [of k rest] by (simp add: group_value_def)
  have g: "group_dash s (length pre) p' False = Some None" for p'
    using assms(4) by (simp add: group_dash_def find_from_absent)
  show ?thesis
    using assms(6,7) by (subst v4_loop.simps) (simp add: d v g Let_def)
qed

lemma v6_loop_group:
  assumes "s = pre @ hex_string k @ rest" "k \<le> 65535" "NUL \<notin> set rest" "CHR ''-'' \<notin> set s"
    "rest = [] \<or> (\<exists>c post. rest = CHR '':'' # c # post \<and> c \<noteq> CHR '':'')" "p < length s" "index < 8"
  shows "v6_loop s (length s) False p (length pre) index None rs
    = v6_loop s (length s) False (length pre + length (hex_string k))
        (length pre + length (hex_string k) + 1) (index + 1) None (rs[index := \<lparr>r_from = int k, r_to = int k\<rparr>])"
proof -
  have d: "(case find_from s (length pre) CHR '':'' of None \<Rightarrow> length s | Some q \<Rightarrow> q)
      = length pre + length (hex_string k)"
    using assms(1,5) by (auto simp: find_from_found find_from_absent_tail)
  have v: "group_value hex_group s (length pre) (length pre + length (hex_string k)) None
      = Some \<lparr>r_from = int k, r_to = int k\<rparr>"
    using assms(1-3) hex_group_hex_string [of k rest] by (simp add: group_value_def)
  have g: "group_dash s (length pre) p' False = Some None" for p'
    using assms(4) by (simp add: group_dash_def find_from_absent)
  have f: "v6_check_fill s (length s) (length pre + length (hex_string k)) (Suc index) None rs'
      = Inr (Some (False, length pre + length (hex_string k), Suc index, None, rs'))" for rs'
    using assms(1,5) by (auto simp: v6_check_fill_def peek_at_def)
  have "v6_group s (length s) False (length pre) index None rs
      = Inr (Some (False, length pre + length (hex_string k), Suc index, None, rs[index := \<lparr>r_from = int k, r_to = int k\<rparr>]))"
    by (simp add: v6_group_def d v g f Let_def)
  then show ?thesis
    using assms(6,7) by (subst v6_loop.simps) simp
qed

lemma iprange_end_plain:
  assumes "CHR ''/'' \<notin> set s" "s \<noteq> []" "\<not> iprange_is_whitespace_character (last s)"
  shows "iprange_end s m = Some (length s, None)"
proof -
  have "dropWhile iprange_is_whitespace_character (rev s) = rev s"
    using assms(2,3) by (simp add: dropWhile_eq_self_iff hd_rev)
  then show ?thesis using assms(1) by (simp add: iprange_end_def iprange_address_length_def find_from_absent)
qed

lemma xdigit_not_whitespace: "isxdigit c \<Longrightarrow> \<not> iprange_is_whitespace_character c"
  by (auto simp: isxdigit_def isdigit_def iprange_is_whitespace_character_def)

lemma digit_not_whitespace: "isdigit c \<Longrightarrow> \<not> iprange_is_whitespace_character c"
  by (simp add: xdigit_not_whitespace isxdigit_def)


lemma len8:
  assumes "length (xs :: 'a list) = 8"
  obtains x0 x1 x2 x3 x4 x5 x6 x7 where "xs = [x0, x1, x2, x3, x4, x5, x6, x7]"
  using assms by (auto simp: length_Suc_conv eval_nat_numeral)

lemma whitespace_prefix: "isxdigit (peek s) \<Longrightarrow> dropWhile iprange_is_whitespace_character s = s"
  by (cases s) (auto dest: xdigit_not_whitespace)

lemma peek_append: "peek (a @ b) = (if a = [] then peek b else peek a)"
  by (cases a) auto

lemma peek_dec_string [simp]: "isxdigit (peek (dec_string n))"
  using dec_string_set [of "peek (dec_string n)" n] by (cases "dec_string n") (auto simp: isxdigit_def)

lemma peek_hex_string [simp]: "isxdigit (peek (hex_string n))"
  using hex_string_set [of "peek (hex_string n)" n] by (cases "hex_string n") auto

lemma last_dec_string: "isdigit (last (dec_string n))"
  using dec_string_set [of "last (dec_string n)" n] by simp

lemma last_hex_string: "isxdigit (last (hex_string n))"
  using hex_string_set [of "last (hex_string n)" n] by simp

abbreviation single :: "nat \<Rightarrow> zbx_range" where
  "single k \<equiv> \<lparr>r_from = int k, r_to = int k\<rparr>"

text \<open>A printed address is its groups with separators between them.\<close>

fun join :: "char \<Rightarrow> string list \<Rightarrow> string" where
  "join c [] = []"
| "join c [x] = x"
| "join c (x # y # xs) = x @ c # join c (y # xs)"

lemma join_set [simp]: "d \<in> set (join c xs) \<longleftrightarrow> (\<exists>x \<in> set xs. d \<in> set x) \<or> d = c \<and> 1 < length xs"
  by (induction c xs rule: join.induct) auto

lemma join_Cons: "join c (x # xs) = x @ (if xs = [] then [] else c # join c xs)"
  by (cases xs) auto

lemma last_join: "xs \<noteq> [] \<Longrightarrow> last xs \<noteq> [] \<Longrightarrow> last (join c xs) = last (last xs)"
  by (induction c xs rule: join.induct) (auto simp: join_Cons split: if_splits)

fun set_groups :: "nat \<Rightarrow> nat list \<Rightarrow> zbx_range list \<Rightarrow> zbx_range list" where
  "set_groups index [] rs = rs"
| "set_groups index (k # ks) rs = set_groups (index + 1) ks (rs[index := single k])"

lemma set_groups_eq:
  "index + length ks \<le> length rs \<Longrightarrow>
    set_groups index ks rs = take index rs @ map single ks @ drop (index + length ks) rs"
  by (induction ks arbitrary: index rs) (auto simp: take_Suc_conv_app_nth take_update_swap list_update_append)

lemma v4_loop_join:
  assumes "s = pre @ join CHR ''.'' (map dec_string ks)" "ks \<noteq> []" "list_all (\<lambda>k. k \<le> 255) ks"
    "CHR ''-'' \<notin> set s" "index + length ks = 4" "p < length s"
  shows "v4_loop s (length s) False p (length pre) index rs = Some (4, set_groups index ks rs)"
  using assms
proof (induction ks arbitrary: pre index p rs)
  case (Cons k ks)
  let ?rest = "if ks = [] then [] else CHR ''.'' # join CHR ''.'' (map dec_string ks)"
  have s: "s = pre @ dec_string k @ ?rest" using Cons.prems(1) by (simp add: join_Cons)
  have nul: "NUL \<notin> set ?rest" by auto
  have step: "v4_loop s (length s) False p (length pre) index rs
    = v4_loop s (length s) False (length pre + length (dec_string k))
        (length pre + length (dec_string k) + 1) (index + 1) (rs[index := single k])"
    by (rule v4_loop_group [OF s]) (use Cons.prems nul in auto)
  show ?case
  proof (cases "ks = []")
    case True
    with Cons.prems(5) s step show ?thesis by (subst (asm) (2) v4_loop.simps) simp
  next
    case False
    have "v4_loop s (length s) False (length pre + length (dec_string k))
        (length (pre @ dec_string k @ ''.'')) (index + 1) (rs[index := single k])
      = Some (4, set_groups (index + 1) ks (rs[index := single k]))"
      by (rule Cons.IH) (use Cons.prems s False in \<open>auto simp: join_Cons\<close>)
    with step show ?thesis by simp
  qed
qed simp

lemma v6_loop_join:
  assumes "s = pre @ join CHR '':'' (map hex_string ks)" "ks \<noteq> []" "list_all (\<lambda>k. k \<le> 65535) ks"
    "CHR ''-'' \<notin> set s" "index + length ks = 8" "p < length s"
  shows "v6_loop s (length s) False p (length pre) index None rs = Inr (Some (8, None, set_groups index ks rs))"
  using assms
proof (induction ks arbitrary: pre index p rs)
  case (Cons k ks)
  let ?rest = "if ks = [] then [] else CHR '':'' # join CHR '':'' (map hex_string ks)"
  have s: "s = pre @ hex_string k @ ?rest" using Cons.prems(1) by (simp add: join_Cons)
  have nul: "NUL \<notin> set ?rest" by auto
  have pk: "peek (join CHR '':'' (map hex_string ks)) \<noteq> CHR '':''" if "ks \<noteq> []"
  proof
    assume a: "peek (join CHR '':'' (map hex_string ks)) = CHR '':''"
    have "isxdigit (peek (join CHR '':'' (map hex_string ks)))"
      using that by (cases ks) (auto simp: join_Cons peek_append)
    then show False unfolding a by simp
  qed
  have rest: "?rest = [] \<or> (\<exists>c post. ?rest = CHR '':'' # c # post \<and> c \<noteq> CHR '':'')"
  proof (cases ks)
    case Nil
    then show ?thesis by simp
  next
    case (Cons x xs)
    then have "join CHR '':'' (map hex_string ks) \<noteq> []" by (simp add: join_Cons)
    with pk Cons show ?thesis by (cases "join CHR '':'' (map hex_string ks)") auto
  qed
  have step: "v6_loop s (length s) False p (length pre) index None rs
    = v6_loop s (length s) False (length pre + length (hex_string k))
        (length pre + length (hex_string k) + 1) (index + 1) None (rs[index := single k])"
    by (rule v6_loop_group [OF s _ nul _ rest]) (use Cons.prems in auto)
  show ?case
  proof (cases "ks = []")
    case True
    with Cons.prems(5) s step show ?thesis by (subst (asm) (2) v6_loop.simps) simp
  next
    case False
    have "v6_loop s (length s) False (length pre + length (hex_string k))
        (length (pre @ hex_string k @ '':'')) (index + 1) None (rs[index := single k])
      = Inr (Some (8, None, set_groups (index + 1) ks (rs[index := single k])))"
      by (rule Cons.IH) (use Cons.prems s False in \<open>auto simp: join_Cons\<close>)
    with step show ?thesis by simp
  qed
qed simp

lemma print_parse:
  assumes "t = ZBX_IPRANGE_V4 \<longrightarrow> length ks = 4 \<and> list_all (\<lambda>k. k \<le> 255) ks \<and> s = join CHR ''.'' (map dec_string ks)"
    "t = ZBX_IPRANGE_V6 \<longrightarrow> length ks = 8 \<and> list_all (\<lambda>k. k \<le> 65535) ks \<and> s = join CHR '':'' (map hex_string ks)"
  shows "zbx_iprange_parse r s
    = Inr (Some (r\<lparr>iptype := t, has_mask := False, groups := set_groups 0 ks (groups r)\<rparr>))"
proof -
  have ks: "ks \<noteq> []" using assms by (cases t) auto
  have "CHR ''-'' \<notin> set s \<and> CHR ''/'' \<notin> set s"
    using assms by (cases t) (auto)
  then have nd: "CHR ''-'' \<notin> set s" "CHR ''/'' \<notin> set s" by simp_all
  have "s \<noteq> [] \<and> isxdigit (peek s)"
    using assms ks by (cases t; cases ks) (simp_all add: join_Cons peek_append)
  moreover have "isxdigit (last s)"
    using assms ks last_dec_string last_hex_string
    by (cases t) (simp_all add: last_join last_map isxdigit_def)
  ultimately have ends: "s \<noteq> []" "isxdigit (peek s)" "isxdigit (last s)" by simp_all
  have e: "iprange_end s m = Some (length s, None)" for m
    by (rule iprange_end_plain [OF nd(2) ends(1) xdigit_not_whitespace [OF ends(3)]])
  note w = whitespace_prefix [OF ends(2)]
  show ?thesis
  proof (cases t)
    case ZBX_IPRANGE_V4
    then obtain k ks' where k: "ks = k # ks'" "ks' \<noteq> []"
      using assms by (cases ks; cases "tl ks") auto
    have c: "strchr s CHR ''.'' \<noteq> None"
      using assms k ZBX_IPRANGE_V4 strchr_found [of "CHR ''.''" "dec_string k"] by (simp add: join_Cons)
    have "v4_loop s (length s) False 0 0 0 (groups r) = Some (4, set_groups 0 ks (groups r))"
      using v4_loop_join [of s "[]" ks 0 0 "groups r"] assms ZBX_IPRANGE_V4 nd ks ends(1) by simp
    with c ZBX_IPRANGE_V4 show ?thesis
      by (simp add: e zbx_iprange_parse_def w iprangev4_parse_def Let_def)
  next
    case ZBX_IPRANGE_V6
    then have c: "strchr s CHR ''.'' = None"
      using assms by (auto intro!: strchr_absent)
    have "v6_loop s (length s) False 0 0 0 None (groups r) = Inr (Some (8, None, set_groups 0 ks (groups r)))"
      using v6_loop_join [of s "[]" ks 0 0 "groups r"] assms ZBX_IPRANGE_V6 nd ks ends(1) by simp
    with c ZBX_IPRANGE_V6 show ?thesis
      by (simp add: e zbx_iprange_parse_def w iprangev6_parse_def Let_def)
  qed
qed


section \<open>Dotted decimal addresses\<close>

definition octet :: "string \<Rightarrow> bool" where
  "octet x \<longleftrightarrow> x \<noteq> [] \<and> length x \<le> 3 \<and> list_all isdigit x \<and> dec_value x \<le> 255"

definition ip4_accepts :: "nat \<times> nat \<times> nat \<Rightarrow> bool" where
  "ip4_accepts = (\<lambda>(digits, dots, octet). dots = 3 \<and> 1 \<le> digits \<and> digits \<le> 3 \<and> octet \<le> 255)"

lemma ip4_loop_digits:
  "list_all isdigit g \<Longrightarrow> ip4_loop (g @ rest) d k v
    = ip4_loop rest (d + length g) k (foldl (\<lambda>v c. v * 10 + digit_val c) v g)"
  by (induction g arbitrary: d v) (auto simp: isdigit_not_NUL)

lemma ip4_loop_dots: "ip4_loop p d k v = (d', k', v') \<Longrightarrow> k \<le> k'"
  by (induction p d k v rule: ip4_loop.induct) (auto split: if_splits)

lemma ip4_loop_join:
  assumes "xs \<noteq> []" "list_all octet xs" "k + length xs = 4"
  shows "ip4_loop (join CHR ''.'' xs) 0 k 0 = (length (last xs), 3, dec_value (last xs))"
  using assms
proof (induction xs arbitrary: k)
  case (Cons x xs)
  then have x: "list_all isdigit x" "x \<noteq> []" "length x \<le> 3" "dec_value x \<le> 255" by (auto simp: octet_def)
  show ?case
    using Cons x ip4_loop_digits [of x "[]" 0 k 0]
    by (cases "xs = []") (auto simp: join_Cons ip4_loop_digits dec_value_def)
qed simp

lemma ip4_accepts_split:
  assumes "ip4_accepts (ip4_loop ip 0 k 0)" "NUL \<notin> set ip" "k \<le> 3"
  shows "\<exists>xs. k + length xs = 4 \<and> list_all octet xs \<and> ip = join CHR ''.'' xs"
  using assms
proof (induction "length ip" arbitrary: ip k rule: less_induct)
  case less
  let ?g = "takeWhile isdigit ip"
  let ?v = "dec_value ?g"
  have g: "list_all isdigit ?g" by (metis list_all_iff set_takeWhileD)
  have run: "ip4_loop ip 0 k 0 = ip4_loop (dropWhile isdigit ip) (length ?g) k ?v"
    using ip4_loop_digits [OF g, of "dropWhile isdigit ip" 0 k 0] by (simp add: dec_value_def)
  show ?case
  proof (cases "dropWhile isdigit ip")
    case Nil
    then have "ip = ?g" by (metis append_Nil2 takeWhile_dropWhile_id)
    moreover have "k = 3 \<and> octet ?g"
      using less.prems(1) run Nil g by (auto simp: ip4_accepts_def octet_def)
    ultimately show ?thesis by (intro exI [of _ "[ip]"]) simp
  next
    case (Cons c r)
    have ip: "ip = ?g @ c # r" using Cons by (metis takeWhile_dropWhile_id)
    have c: "\<not> isdigit c" using Cons by (metis hd_dropWhile list.distinct(1) list.sel(1))
    have "set ip = set ?g \<union> insert c (set r)" by (subst ip) simp
    then have n: "c \<noteq> NUL" "NUL \<notin> set r" using less.prems(2) by blast+
    have dot: "c = CHR ''.''" and ok: "octet ?g" and rest: "ip4_accepts (ip4_loop r 0 (k + 1) 0)"
      using less.prems(1) run Cons c n g by (auto simp: ip4_accepts_def octet_def split: if_splits)
    have "k + 1 \<le> 3"
      using rest ip4_loop_dots [of r 0 "k + 1" 0] by (auto simp: ip4_accepts_def split: prod.splits)
    then obtain xs where xs: "k + 1 + length xs = 4" "list_all octet xs" "r = join CHR ''.'' xs"
      using less.hyps [OF _ rest n(2)] ip by (metis length_append length_Cons less_add_Suc2 add_Suc_right)
    have "xs \<noteq> []" using xs(1) \<open>k + 1 \<le> 3\<close> by auto
    then have "ip = join CHR ''.'' (?g # xs)" using ip dot xs(3) by (simp add: join_Cons)
    with xs ok show ?thesis by (intro exI [of _ "?g # xs"]) simp
  qed
qed

text \<open>
  C35: \<^verbatim>\<open>zbx_is_ip4\<close> accepts a string exactly if it is four decimal numbers of one to three digits, none
  above 255, with dots between them.
\<close>

theorem is_ip4_iff:
  assumes "NUL \<notin> set ip"
  shows "zbx_is_ip4 ip \<longleftrightarrow> (\<exists>xs. length xs = 4 \<and> list_all octet xs \<and> ip = join CHR ''.'' xs)"
proof
  have eq: "zbx_is_ip4 ip = ip4_accepts (ip4_loop ip 0 0 0)"
    by (simp add: zbx_is_ip4_def ip4_accepts_def)
  {
    assume "zbx_is_ip4 ip"
    then show "\<exists>xs. length xs = 4 \<and> list_all octet xs \<and> ip = join CHR ''.'' xs"
      using ip4_accepts_split [of ip 0] assms eq by simp
  }
  assume "\<exists>xs. length xs = 4 \<and> list_all octet xs \<and> ip = join CHR ''.'' xs"
  then obtain xs where xs: "length xs = 4" "list_all octet xs" "ip = join CHR ''.'' xs" by blast
  then have "xs \<noteq> []" by auto
  with xs(2) have "octet (last xs)" by (simp add: list_all_iff)
  with \<open>xs \<noteq> []\<close> xs(1,2) ip4_loop_join [of xs 0] have "ip4_accepts (ip4_loop ip 0 0 0)"
    unfolding xs(3) by (auto simp: ip4_accepts_def octet_def Suc_le_eq)
  then show "zbx_is_ip4 ip" by (simp add: eq)
qed

theorem is_ip4_iff_witness:
  "\<exists>xs. length xs = 4 \<and> list_all octet xs \<and> ''192.168.0.1'' = join CHR ''.'' xs"
  by (rule is_ip4_iff [THEN iffD1])
    (simp_all add: zbx_is_ip4_def isdigit_def digit_val_def)

section \<open>Properties of ranges\<close>

text \<open>
  C30: an address printed by \<^verbatim>\<open>zbx_iprange_ip2str\<close> is parsed back by \<^verbatim>\<open>zbx_iprange_parse\<close>, without a fault,
  to the range of the same type that holds this address alone.
\<close>

theorem iprange_print_parse:
  assumes "length ks = iprange_groups t" "list_all (\<lambda>k. k < 2 ^ iprange_group_bits t) ks"
    "length (groups r) = 8" "40 \<le> len"
  shows "\<exists>r'. zbx_iprange_parse r (zbx_iprange_ip2str t (map int ks @ tail) len) = Inr (Some r')
    \<and> iprange_ok r' \<and> iptype r' = t \<and> iprange_addresses r' = [map int ks]"
proof -
  let ?s = "zbx_iprange_ip2str t (map int ks @ tail) len"
  let ?r = "r\<lparr>iptype := t, has_mask := False, groups := set_groups 0 ks (groups r)\<rparr>"
  have nat: "nat (take_bit 32 (int k)) = k" if "k \<le> 65535" for k
    using that by (simp add: take_bit_int_eq_self)
  have parse: "zbx_iprange_parse r ?s = Inr (Some ?r)"
  proof (rule print_parse)
    show "t = ZBX_IPRANGE_V4 \<longrightarrow> length ks = 4 \<and> list_all (\<lambda>k. k \<le> 255) ks \<and> ?s = join CHR ''.'' (map dec_string ks)"
    proof
      assume t: "t = ZBX_IPRANGE_V4"
      then obtain a b c d where ks: "ks = [a, b, c, d]"
        using assms(1) by (auto simp: iprange_groups_def length_Suc_conv eval_nat_numeral)
      then have le: "a \<le> 255" "b \<le> 255" "c \<le> 255" "d \<le> 255"
        using assms(2) t by (auto simp: iprange_group_bits_def)
      have "length (dec_string a) \<le> 3" "length (dec_string b) \<le> 3" "length (dec_string c) \<le> 3"
        "length (dec_string d) \<le> 3" using le by (auto intro: dec_string_small)
      then show "length ks = 4 \<and> list_all (\<lambda>k. k \<le> 255) ks \<and> ?s = join CHR ''.'' (map dec_string ks)"
        using t ks le assms(4) by (simp add: zbx_iprange_ip2str_def nat)
    qed
    show "t = ZBX_IPRANGE_V6 \<longrightarrow> length ks = 8 \<and> list_all (\<lambda>k. k \<le> 65535) ks \<and> ?s = join CHR '':'' (map hex_string ks)"
    proof
      assume t: "t = ZBX_IPRANGE_V6"
      then obtain a b c d e f g h where ks: "ks = [a, b, c, d, e, f, g, h]"
        using assms(1) by (auto simp: iprange_groups_def elim: len8)
      then have le: "a \<le> 65535" "b \<le> 65535" "c \<le> 65535" "d \<le> 65535" "e \<le> 65535" "f \<le> 65535"
        "g \<le> 65535" "h \<le> 65535" using assms(2) t by (auto simp: iprange_group_bits_def)
      have "length (hex_string a) \<le> 4" "length (hex_string b) \<le> 4" "length (hex_string c) \<le> 4"
        "length (hex_string d) \<le> 4" "length (hex_string e) \<le> 4" "length (hex_string f) \<le> 4"
        "length (hex_string g) \<le> 4" "length (hex_string h) \<le> 4"
        using le by (auto intro: hex_string_small)
      then show "length ks = 8 \<and> list_all (\<lambda>k. k \<le> 65535) ks \<and> ?s = join CHR '':'' (map hex_string ks)"
        using t ks le assms(4) by (simp add: zbx_iprange_ip2str_def nat)
    qed
  qed
  have n: "length ks \<le> 8" using assms(1) by (simp add: iprange_groups_def)
  then have gs: "set_groups 0 ks (groups r) = map single ks @ drop (length ks) (groups r)"
    using assms(3) by (simp add: set_groups_eq)
  have "list_all (\<lambda>k. int k < 2 ^ iprange_group_bits t) ks"
    using assms(2) by (simp add: list_all_iff)
  then have "iprange_ok ?r"
    using assms(1,3) n by (simp add: iprange_ok_def gs list_all_iff)
  moreover have "product_lists (map (\<lambda>k. [int k..int k]) ks) = [map int ks]"
    by (induction ks) simp_all
  then have "iprange_addresses ?r = [map int ks]"
    using assms(1) by (simp add: iprange_addresses_def gs group_addresses_def comp_def)
  ultimately show ?thesis using parse by auto
qed


theorem iprange_print_parse_witness:
  "\<exists>r'. zbx_iprange_parse \<lparr>groups = replicate 8 (single 7), iptype = ZBX_IPRANGE_V4, has_mask = True\<rparr>
      (zbx_iprange_ip2str ZBX_IPRANGE_V6 (map int [65152, 0, 0, 0, 1, 2, 3, 255] @ []) 65) = Inr (Some r')
    \<and> iprange_ok r' \<and> iptype r' = ZBX_IPRANGE_V6 \<and> iprange_addresses r' = [map int [65152, 0, 0, 0, 1, 2, 3, 255]]"
  by (rule iprange_print_parse) (simp_all add: iprange_groups_def iprange_group_bits_def)

lemma volume_loop_eq:
  assumes "groups_ordered gs" "v \<le> max_uint64"
  shows "volume_loop gs v
    = (if v * length (group_addresses gs) \<le> max_uint64 then Some (v * length (group_addresses gs)) else None)"
  using assms
proof (induction gs arbitrary: v)
  case Nil
  then show ?case by (simp add: group_addresses_def)
next
  case (Cons g gs)
  let ?n = "nat (r_to g - r_from g + 1)"
  have l: "length (group_addresses (g # gs)) = ?n * length (group_addresses gs)"
    by (simp add: group_addresses_def length_concat comp_def sum_list_triv)
  have n: "0 < ?n" using Cons.prems by simp
  have p: "0 < length (group_addresses gs)" using Cons.prems group_addresses_nonempty by simp
  have guard: "max_uint64 div ?n < v \<longleftrightarrow> max_uint64 < v * ?n" using n by (rule div_less_iff_less_mult)
  show ?case
  proof (cases "v * ?n \<le> max_uint64")
    case True
    then show ?thesis using Cons.IH [of "v * ?n"] Cons.prems guard l by (simp add: mult.assoc Let_def)
  next
    case False
    have "?n \<le> ?n * length (group_addresses gs)" using p by (cases "length (group_addresses gs)") auto
    then have "v * ?n \<le> v * length (group_addresses (g # gs))" unfolding l by (rule mult_le_mono2)
    with False have "max_uint64 < v * length (group_addresses (g # gs))" by linarith
    with False guard show ?thesis by (simp add: Let_def)
  qed
qed

lemma lex_Cons_sorted:
  assumes "sorted_wrt (\<lambda>a b. (a, b) \<in> lexord {(u, v). u < (v::int)}) ps" "sorted_wrt (<) xs"
  shows "sorted_wrt (\<lambda>a b. (a, b) \<in> lexord {(u, v). u < v}) (concat (map (\<lambda>x. map ((#) x) ps) xs))"
  using assms(2) by (induction xs) (auto simp: sorted_wrt_append sorted_wrt_map assms(1))

lemma group_addresses_sorted: "sorted_wrt (\<lambda>a b. (a, b) \<in> lexord {(u, v). u < v}) (group_addresses gs)"
  by (induction gs) (simp_all add: group_addresses_def lex_Cons_sorted sorted_wrt_upto)

lemma addresses_sorted: "sorted_wrt (\<lambda>a b. (a, b) \<in> lexord {(u, v). u < v}) (iprange_addresses r)"
  using group_addresses_sorted
  by (simp add: iprange_addresses_def Let_def butlast_conv_take sorted_wrt_take flip: drop_Suc
      add: sorted_wrt_drop [of _ _ "Suc 0", unfolded drop_Suc drop_0])

lemma volume_addresses:
  assumes "iprange_ok r"
  shows "zbx_iprange_volume r
    = (let n = length (group_addresses (take (iprange_groups (iptype r)) (groups r)))
       in if max_uint64 < n then max_uint64 else length (iprange_addresses r))"
proof -
  have "length (iprange_addresses r) = length (group_addresses (take 4 (groups r))) - 2" if "masked4 r"
    using that by (simp add: iprange_addresses_def iprange_groups_def)
  then show ?thesis
    using volume_loop_eq [OF iprange_ok_groups(1) [OF assms refl], of 1]
    by (auto simp: zbx_iprange_volume_def Let_def iprange_groups_def iprange_addresses_def)
qed

lemma addresses_split:
  "k < length xs \<Longrightarrow> xs = take k xs @ xs ! k # drop (Suc k) xs"
  by (simp add: id_take_nth_drop [symmetric])

text \<open>
  C26: the first and the next addresses of a range run through its addresses in increasing order, the last
  has no next one, the groups past those of the type keep the caller's values, and the volume is the number
  of addresses, or the maximum if the combinations of the groups exceed 64 bits.
\<close>

theorem iprange_enumeration:
  assumes "iprange_ok r"
  defines "as \<equiv> iprange_addresses r"
  shows "zbx_iprange_first r x = as ! 0 @ drop (iprange_groups (iptype r)) x
    \<and> (\<forall>k < length as.
         if Suc k < length as then zbx_iprange_next r (as ! k @ tail) = (True, as ! Suc k @ tail)
         else \<not> fst (zbx_iprange_next r (as ! k @ tail)))
    \<and> sorted_wrt (\<lambda>a b. (a, b) \<in> lexord {(u, v). u < v}) as
    \<and> (length as + 2 \<le> max_uint64 \<longrightarrow> zbx_iprange_volume r = length as)"
proof (intro conjI allI impI)
  note ne = addresses_nonempty [OF assms(1)]
  show "zbx_iprange_first r x = as ! 0 @ drop (iprange_groups (iptype r)) x"
    unfolding as_def using first_address [OF assms(1)] ne by (simp add: hd_conv_nth)
  show "sorted_wrt (\<lambda>a b. (a, b) \<in> lexord {(u, v). u < v}) as"
    unfolding as_def by (rule addresses_sorted)
  show "zbx_iprange_volume r = length as" if "length as + 2 \<le> max_uint64"
    using that volume_addresses [OF assms(1)] unfolding as_def
    by (auto simp: Let_def iprange_addresses_def split: if_splits)
  fix k
  assume k: "k < length as"
  show "if Suc k < length as then zbx_iprange_next r (as ! k @ tail) = (True, as ! Suc k @ tail)
      else \<not> fst (zbx_iprange_next r (as ! k @ tail))"
  proof (cases "Suc k < length as")
    case True
    then have "as = take k as @ as ! k # as ! Suc k # drop (Suc (Suc k)) as"
      using addresses_split [OF k] Cons_nth_drop_Suc [OF True] by simp
    with True next_address_mid [OF assms(1)] show ?thesis unfolding as_def by metis
  next
    case False
    then have "as = take k as @ [as ! k]" using addresses_split [OF k] by simp
    with False next_address_last [OF assms(1)] show ?thesis unfolding as_def by (metis fst_conv)
  qed
qed

theorem iprange_enumeration_witness:
  "let r = \<lparr>groups = [\<lparr>r_from = 10, r_to = 10\<rparr>, single 0, single 1, \<lparr>r_from = 8, r_to = 11\<rparr>, single 9, single 9, single 9, single 9],
      iptype = ZBX_IPRANGE_V4, has_mask = True\<rparr>; as = iprange_addresses r
   in zbx_iprange_first r (replicate 8 0) = as ! 0 @ drop (iprange_groups (iptype r)) (replicate 8 0)
    \<and> (\<forall>k < length as.
         if Suc k < length as then zbx_iprange_next r (as ! k @ [0, 0, 0, 0]) = (True, as ! Suc k @ [0, 0, 0, 0])
         else \<not> fst (zbx_iprange_next r (as ! k @ [0, 0, 0, 0])))
    \<and> sorted_wrt (\<lambda>a b. (a, b) \<in> lexord {(u, v). u < v}) as
    \<and> (length as + 2 \<le> max_uint64 \<longrightarrow> zbx_iprange_volume r = length as)"
  unfolding Let_def
  by (rule iprange_enumeration) (simp add: iprange_ok_def iprange_groups_def iprange_group_bits_def)

lemma fresh_from_length: "length (fresh_from elems cover rs idx) \<le> (\<Sum>r\<leftarrow>drop idx rs. length (elems r))"
proof (induction "length rs - idx" arbitrary: idx)
  case (Suc k)
  then have l: "idx < length rs" by simp
  have "length (fresh_from elems cover rs (Suc idx)) \<le> (\<Sum>r\<leftarrow>drop (Suc idx) rs. length (elems r))"
    using Suc by simp
  then show ?case
    using l by (simp add: fresh_from_unfold add_mono flip: Cons_nth_drop_Suc)
qed simp

text \<open>
  C25: calling the port iterator until it fails returns every port of the union of the ranges exactly once,
  however the ranges overlap, and the iteration ends.
\<close>

theorem port_walk:
  assumes "list_all port_ok rs" "rs \<noteq> []" "(\<Sum>r\<leftarrow>rs. nat (r_to r - r_from r + 1)) < n"
  shows "\<exists>ports. walk (zbx_portrange_uniq_iter rs) n idx (-1) = Some ports
    \<and> distinct ports \<and> set ports = (\<Union>r \<in> set rs. {r_from r..r_to r})"
proof -
  let ?ps = "fresh_from port_elems port_in rs 0"
  have "length ?ps \<le> (\<Sum>r\<leftarrow>rs. nat (r_to r - r_from r + 1))"
    using fresh_from_length [of port_elems port_in rs 0] by (simp add: port_elems_def)
  then have w: "walk (zbx_portrange_uniq_iter rs) n idx (-1) = Some ?ps"
    using assms by (intro port.walk_all) auto
  have "set ?ps = (\<Union>r \<in> set rs. {r_from r..r_to r})"
  proof (intro equalityI subsetI)
    fix p
    assume "p \<in> set ?ps"
    then show "p \<in> (\<Union>r \<in> set rs. {r_from r..r_to r})"
      by (auto simp: fresh_from_set port_elems_def)
  next
    fix p
    assume "p \<in> (\<Union>r \<in> set rs. {r_from r..r_to r})"
    then have "\<exists>i. i < length rs \<and> port_in (rs ! i) p" by (auto simp: in_set_conv_nth port_in_def)
    then obtain i where "i < length rs \<and> port_in (rs ! i) p"
        "\<And>j. j < i \<Longrightarrow> \<not> (j < length rs \<and> port_in (rs ! j) p)"
      using exists_least_iff [of "\<lambda>i. i < length rs \<and> port_in (rs ! i) p"] by blast
    then show "p \<in> set ?ps"
      by (auto simp: fresh_from_set fresh_def list_ex_iff port_elems_def port_in_def intro!: exI [of _ i])
  qed
  with w port.fresh_distinct [OF assms(1)] show ?thesis by blast
qed

theorem port_walk_witness:
  "\<exists>ports. walk (zbx_portrange_uniq_iter [\<lparr>r_from = 80, r_to = 90\<rparr>, \<lparr>r_from = 85, r_to = 95\<rparr>]) 23 0 (-1) = Some ports
    \<and> distinct ports \<and> set ports = (\<Union>r \<in> set [\<lparr>r_from = 80, r_to = 90\<rparr>, \<lparr>r_from = 85, r_to = 95\<rparr>]. {r_from r..r_to r})"
  by (rule port_walk) (simp_all add: port_ok_def)

text \<open>
  C24: calling the address iterator from the zero address until it fails, for ranges of one type that do not
  hold the zero address, ends and returns once each address of a range that no earlier range covers.
\<close>

theorem address_walk:
  assumes "list_all (address_ok t) rs" "rs \<noteq> []"
    "(\<Sum>r\<leftarrow>rs. length (iprange_addresses r)) < n"
  shows "\<exists>as. walk (zbx_iprange_uniq_iter rs) n idx (replicate (iprange_groups t) 0 @ tail)
      = Some (map (\<lambda>a. a @ tail) as)
    \<and> distinct as
    \<and> set as = {a. \<exists>i < length rs. a \<in> set (iprange_addresses (rs ! i))
        \<and> (\<forall>j < i. \<not> zbx_iprange_validate (rs ! j) (a @ tail))}"
proof -
  let ?xs = "fresh_from (address_elems tail) zbx_iprange_validate rs 0"
  have "length ?xs \<le> (\<Sum>r\<leftarrow>rs. length (iprange_addresses r))"
    using fresh_from_length [of "address_elems tail" zbx_iprange_validate rs 0]
    by (simp add: address_elems_def)
  then have w: "walk (zbx_iprange_uniq_iter rs) n idx (replicate (iprange_groups t) 0 @ tail) = Some ?xs"
    using assms by (intro address.walk_all [where t = t]) (auto simp: address_start_def)
  have d: "distinct ?xs" by (rule address.fresh_distinct [where t = t, OF assms(1)])
  have "\<forall>x \<in> set ?xs. \<exists>a. x = a @ tail" by (auto simp: fresh_from_set address_elems_def)
  then obtain as where as: "?xs = map (\<lambda>a. a @ tail) as"
    by (metis ex_map_conv)
  have "distinct as" using d unfolding as by (simp add: distinct_map)
  have "a \<in> set as \<longleftrightarrow> a @ tail \<in> set ?xs" for a unfolding as by auto
  moreover have "a @ tail \<in> set (address_elems tail r) \<longleftrightarrow> a \<in> set (iprange_addresses r)" for a r
    by (auto simp: address_elems_def)
  ultimately have "set as = {a. \<exists>i < length rs. a \<in> set (iprange_addresses (rs ! i))
      \<and> (\<forall>j < i. \<not> zbx_iprange_validate (rs ! j) (a @ tail))}"
    by (intro set_eqI) (simp add: fresh_from_set fresh_def list_ex_iff Ball_def)
  with \<open>distinct as\<close> show ?thesis using w as by auto
qed

theorem address_walk_witness:
  "let r = \<lambda>a b. \<lparr>groups = [single 10, single 0, single 1, \<lparr>r_from = a, r_to = b\<rparr>, single 9, single 9, single 9, single 9],
       iptype = ZBX_IPRANGE_V4, has_mask = False\<rparr>;
     rs = [r 1 3, r 2 5]
   in \<exists>as. walk (zbx_iprange_uniq_iter rs) 9 0 (replicate (iprange_groups ZBX_IPRANGE_V4) 0 @ [0, 0, 0, 0])
      = Some (map (\<lambda>a. a @ [0, 0, 0, 0]) as)
    \<and> distinct as
    \<and> set as = {a. \<exists>i < length rs. a \<in> set (iprange_addresses (rs ! i))
        \<and> (\<forall>j < i. \<not> zbx_iprange_validate (rs ! j) (a @ [0, 0, 0, 0]))}"
  unfolding Let_def
  by (rule address_walk)
    (simp_all add: address_ok_def iprange_ok_def iprange_groups_def iprange_group_bits_def
      iprange_addresses_def group_addresses_def upto_rec1 eval_nat_numeral)

end
