(* ===== verification/ZbxIpWf.thy ===== *)
theory ZbxIpWf
  imports ZbxIpProps
begin

text \<open>
  What the range parsers of \<^verbatim>\<open>src/libs/zbxip/iprange.c\<close> accept is a well-formed range: the bounds of each
  group are ordered and fit the group, and a network mask leaves room between network and broadcast address.
\<close>

unbundle bit_operations_syntax

definition group_ok :: "nat \<Rightarrow> zbx_range \<Rightarrow> bool" where
  "group_ok b g \<longleftrightarrow> 0 \<le> r_from g \<and> r_from g \<le> r_to g \<and> r_to g < 2 ^ b"

definition groups_ok :: "nat \<Rightarrow> nat \<Rightarrow> zbx_range list \<Rightarrow> bool" where
  "groups_ok b n rs \<longleftrightarrow> length rs = 8 \<and> (\<forall>i < n. group_ok b (rs ! i))"

lemma uint_n_range_le: "zbx_is_uint_n_range s n value vsize lo hi = Some v \<Longrightarrow> v \<le> hi"
  by (auto simp: zbx_is_uint_n_range_def split: if_splits option.splits intro: order_trans [OF mod_less_eq_dividend])

lemma hex_n_range_le: "zbx_is_hex_n_range s n value vsize lo hi = Some v \<Longrightarrow> v \<le> hi"
  by (auto simp: zbx_is_hex_n_range_def split: if_splits option.splits intro: order_trans [OF mod_less_eq_dividend])

lemma group_value_ok:
  assumes "group_value num s address p dash = Some r" "\<And>s n v. num s n = Some v \<Longrightarrow> int v < 2 ^ b"
  shows "group_ok b r"
  using assms by (auto simp: group_value_def group_ok_def split: option.splits if_splits)

lemma dec_group_less: "dec_group s n = Some v \<Longrightarrow> int v < 2 ^ 8"
  unfolding dec_group_def by (drule uint_n_range_le) simp

lemma hex_group_less: "hex_group s n = Some v \<Longrightarrow> int v < 2 ^ 16"
  unfolding hex_group_def by (drule hex_n_range_le) simp

lemma groups_ok_update:
  "groups_ok b n rs \<Longrightarrow> n < 8 \<Longrightarrow> group_ok b r \<Longrightarrow> groups_ok b (Suc n) (rs[n := r])"
  by (auto simp: groups_ok_def nth_list_update less_Suc_eq)

lemma v4_loop_ok:
  "v4_loop s e masked p address index rs = Some (index', rs') \<Longrightarrow> groups_ok 8 index rs \<Longrightarrow> groups_ok 8 index' rs'"
proof (induction s e masked p address index rs rule: v4_loop.induct)
  case (1 s e masked p address index rs)
  show ?case
  proof (cases "p < e \<and> index < 4")
    case False
    with 1(2,3) show ?thesis by (subst (asm) v4_loop.simps) auto
  next
    case True
    let ?p = "case find_from s address CHR ''.'' of None \<Rightarrow> e | Some q \<Rightarrow> q"
    obtain dash r where r: "group_dash s address ?p masked = Some dash"
      "group_value dec_group s address ?p dash = Some r"
      "v4_loop s e masked ?p (?p + 1) (index + 1) (rs[index := r]) = Some (index', rs')"
      using 1(2) True by (subst (asm) v4_loop.simps) (auto simp: Let_def split: option.splits)
    have "group_ok 8 r" using r(2) dec_group_less by (rule group_value_ok)
    then have "groups_ok 8 (index + 1) (rs[index := r])" using groups_ok_update [OF 1(3)] True by simp
    with 1(1) [OF True refl r(1,2)] r(3) show ?thesis by simp
  qed
qed

lemma v6_check_fill_ok:
  assumes "v6_check_fill s e p index fill rs = Inr (Some (brk, p', index', fill', rs'))"
    "groups_ok 16 index rs" "\<forall>f. fill = Some f \<longrightarrow> f < index" "index \<le> 8"
  shows "groups_ok 16 index' rs' \<and> (\<forall>f. fill' = Some f \<longrightarrow> f < index') \<and> index' \<le> 8"
proof -
  have "group_ok 16 \<lparr>r_from = 0, r_to = 0\<rparr>" by (simp add: group_ok_def)
  with groups_ok_update [OF assms(2)] assms show ?thesis
    by (auto simp: v6_check_fill_def split: if_splits)
qed

lemma v6_group_ok:
  assumes "v6_group s e masked address index fill rs = Inr (Some (brk, p', index', fill', rs'))"
    "groups_ok 16 index rs" "\<forall>f. fill = Some f \<longrightarrow> f < index" "index < 8"
  shows "groups_ok 16 index' rs' \<and> (\<forall>f. fill' = Some f \<longrightarrow> f < index') \<and> index' \<le> 8"
proof -
  let ?p = "case find_from s address CHR '':'' of None \<Rightarrow> e | Some q \<Rightarrow> q"
  show ?thesis
  proof (cases "?p = address")
    case True
    then have "v6_check_fill s e ?p index fill rs = Inr (Some (brk, p', index', fill', rs'))"
      using assms(1) by (auto simp: v6_group_def Let_def split: if_splits)
    from v6_check_fill_ok [OF this assms(2,3)] assms(4) show ?thesis by simp
  next
    case False
    then obtain dash r where r: "group_value hex_group s address ?p dash = Some r"
      "v6_check_fill s e ?p (index + 1) fill (rs[index := r]) = Inr (Some (brk, p', index', fill', rs'))"
      using assms(1) by (auto simp: v6_group_def Let_def split: option.splits)
    have "group_ok 16 r" using r(1) hex_group_less by (rule group_value_ok)
    then have "groups_ok 16 (index + 1) (rs[index := r])" using groups_ok_update [OF assms(2,4)] by simp
    from v6_check_fill_ok [OF r(2) this] assms(3,4) show ?thesis by (simp add: less_Suc_eq)
  qed
qed

lemma v6_loop_ok:
  "v6_loop s e masked p address index fill rs = Inr (Some (index', fill', rs')) \<Longrightarrow> groups_ok 16 index rs
    \<Longrightarrow> \<forall>f. fill = Some f \<longrightarrow> f < index \<Longrightarrow> index \<le> 8
    \<Longrightarrow> groups_ok 16 index' rs' \<and> (\<forall>f. fill' = Some f \<longrightarrow> f < index') \<and> index' \<le> 8"
proof (induction s e masked p address index fill rs rule: v6_loop.induct)
  case (1 s e masked p address index fill rs)
  show ?case
  proof (cases "p < e \<and> index < 8")
    case False
    with 1(2-5) show ?thesis by (subst (asm) v6_loop.simps) auto
  next
    case True
    obtain brk q i f xs where g: "v6_group s e masked address index fill rs = Inr (Some (brk, q, i, f, xs))"
      "if brk then (index', fill', rs') = (i, f, xs)
       else v6_loop s e masked q (q + 1) i f xs = Inr (Some (index', fill', rs'))"
      using 1(2) True by (subst (asm) v6_loop.simps) (auto split: sum.splits option.splits if_splits)
    from v6_group_ok [OF g(1) 1(3,4)] True
    have ok: "groups_ok 16 i xs" "\<forall>n. f = Some n \<longrightarrow> n < i" "i \<le> 8" by auto
    show ?thesis
    proof (cases brk)
      case True
      with g(2) ok show ?thesis by simp
    next
      case False
      with 1(1) [OF True g(1) refl refl refl refl refl] g(2) ok show ?thesis by simp
    qed
  qed
qed


lemma v6_shift_ok:
  assumes "v6_shift index fill target rs = (target', rs')" "length rs = 8" "fill < index" "index \<le> target + 1"
    "target < 8" "\<forall>i < index. group_ok 16 (rs ! i)" "\<forall>i. target < i \<and> i < 8 \<longrightarrow> group_ok 16 (rs ! i)"
  shows "length rs' = 8 \<and> target' < 8 \<and> (\<forall>i \<le> fill. group_ok 16 (rs' ! i))
    \<and> (\<forall>i. target' < i \<and> i < 8 \<longrightarrow> group_ok 16 (rs' ! i))"
  using assms
proof (induction index fill target rs rule: v6_shift.induct)
  case (1 index fill target rs)
  show ?case
  proof (cases "index - 1 > fill")
    case True
    have s: "v6_shift (index - 1) fill (target - 1) (rs[target := rs ! (index - 1)]) = (target', rs')"
      using 1(2) True by (subst (asm) v6_shift.simps) simp
    show ?thesis
      by (rule 1(1) [OF True s]) (use True 1(3-8) in \<open>auto simp: nth_list_update\<close>)
  next
    case False
    with 1(2) have "target' = target" "rs' = rs" by (subst (asm) v6_shift.simps; simp)+
    with 1(3-8) False show ?thesis by auto
  qed
qed

lemma v6_zero_ok:
  assumes "length rs = 8" "\<forall>i \<le> fill. group_ok 16 (rs ! i)"
    "\<forall>i. target < i \<and> i < 8 \<longrightarrow> group_ok 16 (rs ! i)" "target < 8"
  shows "groups_ok 16 8 (v6_zero target fill rs)"
  using assms
proof (induction target fill rs rule: v6_zero.induct)
  case (1 target fill rs)
  show ?case
  proof (cases "target > fill")
    case True
    have "groups_ok 16 8 (v6_zero (target - 1) fill (rs[target := \<lparr>r_from = 0, r_to = 0\<rparr>]))"
      by (rule 1(1) [OF True])
        (use True 1(2-5) in \<open>auto simp: nth_list_update group_ok_def [of 16 "\<lparr>r_from = 0, r_to = 0\<rparr>"]\<close>)
    with True show ?thesis by (subst v6_zero.simps) simp
  next
    case False
    with 1(2-5) have "groups_ok 16 8 rs" unfolding groups_ok_def by (metis linorder_not_le not_less_iff_gr_or_eq order.strict_trans1)
    with False show ?thesis by (subst v6_zero.simps) simp
  qed
qed

text \<open>The network mask.\<close>

lemma mask_range_ok:
  assumes "group_ok b g" "m \<le> b" "b \<le> 16"
  shows "group_ok b (mask_range m g)"
proof -
  have d: "drop_bit (32 - m) (0xffffffff :: int) = mask m"
    using assms(2,3) drop_bit_mask_eq [where 'a = int, of "32 - m" 32] by (simp add: mask_eq_exp_minus_1)
  have "(mask m :: int) < 2 ^ m" by (simp add: mask_eq_exp_minus_1)
  also have "(2 :: int) ^ m \<le> 2 ^ b" using assms(2) by (rule power_increasing) simp
  finally have "(mask m :: int) < 2 ^ b" .
  moreover have "r_from g AND take_bit 32 (push_bit m 0xffffffff) \<le> r_from g"
    using assms(1) by (simp add: group_ok_def AND_upper1)
  moreover have "r_to g \<le> r_to g OR mask m" by (simp add: or_greater_eq)
  moreover have "0 \<le> r_from g AND take_bit 32 (push_bit m 0xffffffff)"
    using assms(1) by (simp add: group_ok_def)
  moreover have "r_to g OR mask m < 2 ^ b"
    using assms(1) calculation(1) by (intro OR_upper) (auto simp: group_ok_def)
  ultimately show ?thesis using assms(1) unfolding group_ok_def mask_range_def d by simp
qed

lemma mask_range_room:
  assumes "group_ok 8 g" "2 \<le> m" "m \<le> 8"
  shows "r_from (mask_range m g) + 3 \<le> r_to (mask_range m g)"
proof -
  have d: "drop_bit (32 - m) (0xffffffff :: int) = mask m"
    using assms(2,3) drop_bit_mask_eq [where 'a = int, of "32 - m" 32] by (simp add: mask_eq_exp_minus_1)
  have "take_bit 2 (r_from (mask_range m g)) = 0"
    using assms(2) by (auto simp: mask_range_def bit_eq_iff bit_simps)
  moreover have "take_bit 2 (r_to (mask_range m g)) = mask 2"
    using assms(2) by (auto simp: mask_range_def d bit_eq_iff bit_simps)
  ultimately have "r_from (mask_range m g) mod 4 = 0" "r_to (mask_range m g) mod 4 = 3"
    by (simp_all add: take_bit_eq_mod mask_eq_exp_minus_1)
  moreover have "r_from (mask_range m g) \<le> r_to (mask_range m g)"
    using mask_range_ok [OF assms(1,3)] by (simp add: group_ok_def)
  ultimately show ?thesis by presburger
qed

lemma apply_mask_loop_ok:
  assumes "groups_ok b k rs" "b \<le> 16" "n \<le> k" "k \<le> 8"
  shows "groups_ok b k (apply_mask_loop n b bits rs)"
  using assms
proof (induction n arbitrary: bits rs)
  case (Suc i)
  show ?case
  proof (cases "0 < bits")
    case True
    have "group_ok b (mask_range (if bits > b then b else bits) (rs ! i))"
      using Suc.prems by (intro mask_range_ok) (auto simp: groups_ok_def)
    then have "groups_ok b k (rs[i := mask_range (if bits > b then b else bits) (rs ! i)])"
      using Suc.prems by (auto simp: groups_ok_def nth_list_update)
    with Suc True show ?thesis by simp
  qed (use Suc in simp)
qed simp

lemma apply_mask_loop_above:
  "n \<le> i \<Longrightarrow> apply_mask_loop n b bits rs ! i = rs ! i"
  by (induction n arbitrary: bits rs) auto

lemma iprange_ok_groups_ok:
  "groups_ok (iprange_group_bits (iptype r)) (iprange_groups (iptype r)) (groups r)
    \<Longrightarrow> (iptype r = ZBX_IPRANGE_V4 \<and> has_mask r \<longrightarrow> r_from (groups r ! 3) + 3 \<le> r_to (groups r ! 3))
    \<Longrightarrow> iprange_ok r"
  by (auto simp: iprange_ok_def groups_ok_def group_ok_def list_all_length)

lemma iprange_end_bits: "iprange_end s m = Some (e, Some b) \<Longrightarrow> b \<le> m"
  by (auto simp: iprange_end_def Let_def uint_n_range_le split: option.splits)

lemma iprangev4_parse_ok:
  assumes "iprangev4_parse r s = Some r'" "length (groups r) = 8"
  shows "iprange_ok r' \<and> iptype r' = ZBX_IPRANGE_V4"
proof -
  obtain e bits rs where p: "iprange_end s 30 = Some (e, bits)"
    "v4_loop s e (bits \<noteq> None) 0 0 0 (groups r) = Some (4, rs)"
    "r' = (case bits of None \<Rightarrow> r\<lparr>iptype := ZBX_IPRANGE_V4, has_mask := (bits \<noteq> None), groups := rs\<rparr>
      | Some b \<Rightarrow> iprange_apply_mask (r\<lparr>iptype := ZBX_IPRANGE_V4, has_mask := (bits \<noteq> None), groups := rs\<rparr>) b)"
    using assms(1) by (auto simp: iprangev4_parse_def Let_def split: option.splits if_splits)
  have g: "groups_ok 8 4 rs" by (rule v4_loop_ok [OF p(2)]) (simp add: groups_ok_def assms(2))
  show ?thesis
  proof (cases bits)
    case None
    with g p(3) show ?thesis
      by (auto simp: iprange_groups_def iprange_group_bits_def intro!: iprange_ok_groups_ok)
  next
    case (Some b)
    then have "b \<le> 30" using iprange_end_bits p(1) by simp
    let ?h = "32 - b"
    have h: "2 \<le> ?h" using \<open>b \<le> 30\<close> by simp
    let ?m = "if ?h > 8 then 8 else ?h"
    have l3: "apply_mask_loop 4 8 ?h rs = apply_mask_loop 3 8 (?h - 8) (rs[3 := mask_range ?m (rs ! 3)])"
      using \<open>b \<le> 30\<close> apply_mask_loop.simps(2) [of 3 8 ?h rs] by simp
    have "apply_mask_loop 4 8 ?h rs ! 3 = mask_range ?m (rs ! 3)"
      unfolding l3 apply_mask_loop_above [of 3 3, simplified] using g by (simp add: groups_ok_def)
    moreover have "r_from (mask_range ?m (rs ! 3)) + 3 \<le> r_to (mask_range ?m (rs ! 3))"
      using g h by (intro mask_range_room) (auto simp: groups_ok_def)
    ultimately show ?thesis
      using apply_mask_loop_ok [OF g, of 4 ?h] p(3) Some
      by (auto simp: iprange_apply_mask_def iprange_groups_def iprange_group_bits_def Let_def
          intro!: iprange_ok_groups_ok)
  qed
qed

lemma iprangev6_parse_ok:
  assumes "iprangev6_parse r s = Inr (Some r')" "length (groups r) = 8"
  shows "iprange_ok r' \<and> iptype r' = ZBX_IPRANGE_V6"
proof -
  obtain e bits index fill rs where p: "iprange_end s 128 = Some (e, bits)"
    "v6_loop s e (bits \<noteq> None) 0 0 0 None (groups r) = Inr (Some (index, fill, rs))"
    "\<not> 8 < index" "\<not> (index < 8 \<and> fill = None)"
    "let rs = (if index < 8 then let (target, rs) = v6_shift index (the fill) 7 rs
                             in v6_zero target (the fill) rs
                           else rs);
         r = r\<lparr>iptype := ZBX_IPRANGE_V6, has_mask := (bits \<noteq> None), groups := rs\<rparr>
     in r' = (case bits of None \<Rightarrow> r | Some b \<Rightarrow> iprange_apply_mask r b)"
    using assms(1)
    by (auto simp: iprangev6_parse_def Let_def split: option.splits sum.splits if_splits)
  have "groups_ok 16 index rs \<and> (\<forall>f. fill = Some f \<longrightarrow> f < index) \<and> index \<le> 8"
    by (rule v6_loop_ok [OF p(2)]) (simp_all add: groups_ok_def assms(2))
  then have g: "groups_ok 16 index rs" "\<forall>f. fill = Some f \<longrightarrow> f < index" "index \<le> 8" by auto
  define rs' where "rs' = (if index < 8 then let (target, rs) = v6_shift index (the fill) 7 rs
                             in v6_zero target (the fill) rs else rs)"
  have "groups_ok 16 8 rs'"
  proof (cases "index < 8")
    case True
    then obtain f where f: "fill = Some f" "f < index" using p(4) g(2) by auto
    obtain t xs where t: "v6_shift index f 7 rs = (t, xs)" by fastforce
    have "length xs = 8 \<and> t < 8 \<and> (\<forall>i \<le> f. group_ok 16 (xs ! i)) \<and> (\<forall>i. t < i \<and> i < 8 \<longrightarrow> group_ok 16 (xs ! i))"
      by (rule v6_shift_ok [OF t]) (use g f True in \<open>auto simp: groups_ok_def\<close>)
    then have "groups_ok 16 8 (v6_zero t f xs)" by (intro v6_zero_ok) auto
    with True f t show ?thesis by (simp add: rs'_def)
  next
    case False
    with g show ?thesis by (simp add: rs'_def)
  qed
  moreover have "r' = (let r = r\<lparr>iptype := ZBX_IPRANGE_V6, has_mask := (bits \<noteq> None), groups := rs'\<rparr>
      in case bits of None \<Rightarrow> r | Some b \<Rightarrow> iprange_apply_mask r b)"
    using p(5) by (simp only: rs'_def Let_def)
  ultimately show ?thesis
    using apply_mask_loop_ok [of 16 8 rs' 8]
    by (cases bits) (auto simp: Let_def iprange_apply_mask_def iprange_groups_def iprange_group_bits_def
        intro!: iprange_ok_groups_ok)
qed

text \<open>
  C28: whatever string is parsed, a range that \<^verbatim>\<open>zbx_iprange_parse\<close> accepts is well-formed: the bounds of each
  group are ordered and fit 8 or 16 bits, and a masked IPv4 range has room for its network and broadcast
  addresses, so that the iteration over it has a first address.
\<close>

theorem iprange_parse_ok:
  assumes "zbx_iprange_parse r s = Inr (Some r')" "length (groups r) = 8"
  shows "iprange_ok r' \<and> iprange_addresses r' \<noteq> []"
  using assms iprangev4_parse_ok [of r] iprangev6_parse_ok [of r] addresses_nonempty [of r']
  by (auto simp: zbx_iprange_parse_def Let_def split: if_splits)


theorem iprange_parse_ok_witness:
  "let r = \<lparr>groups = replicate 8 (single 7), iptype = ZBX_IPRANGE_V6, has_mask = True\<rparr>;
       r' = \<lparr>groups = [single 10, single 0, single 0, single 1, single 7, single 7, single 7, single 7],
         iptype = ZBX_IPRANGE_V4, has_mask = False\<rparr>
   in zbx_iprange_parse r ''10.0.0.1'' = Inr (Some r') \<and> iprange_ok r' \<and> iprange_addresses r' \<noteq> []"
proof -
  let ?r = "\<lparr>groups = replicate 8 (single 7), iptype = ZBX_IPRANGE_V6, has_mask = True\<rparr>"
  have p: "zbx_iprange_parse ?r ''10.0.0.1'' = Inr (Some (?r\<lparr>iptype := ZBX_IPRANGE_V4, has_mask := False,
      groups := set_groups 0 [10, 0, 0, 1] (groups ?r)\<rparr>))"
    by (rule print_parse) (simp_all add: dec_string.simps dec_digit_def char_of_def bit_Suc_0_iff)
  show ?thesis
    unfolding Let_def using p iprange_parse_ok [OF p] by (simp add: eval_nat_numeral)
qed

end
