(* ===== verification/ZbxHost.thy ===== *)
theory ZbxHost
  imports ZbxIpProps
begin

text \<open>Host and port: what \<^verbatim>\<open>zbx_join_hostport\<close> builds, \<^verbatim>\<open>zbx_parse_serveractive_element\<close> takes apart again.\<close>

lemma dec_string_small5: "n < 100000 \<Longrightarrow> length (dec_string n) \<le> 5"
proof (cases "n < 10")
  case True
  then show ?thesis by (subst dec_string.simps) simp
next
  case False
  assume "n < 100000"
  then have "n div 10 < 10000" by (simp add: div_less_iff_less_mult)
  then have "n div 10 div 10 < 1000" by (simp add: div_less_iff_less_mult)
  then have "length (dec_string (n div 10 div 10)) \<le> 3" by (rule dec_string_small)
  then have "length (dec_string (n div 10)) \<le> 4" by (subst dec_string.simps) simp
  then show ?thesis by (subst dec_string.simps) simp
qed

lemma is_ushort_dec_string: "port \<le> 65535 \<Longrightarrow> zbx_is_ushort (dec_string port) = Some port"
  using dec_string_small5 [of port]
  by (simp add: zbx_is_ushort_def is_uint_n_range_eq dec_string_digits Let_def)

lemma ip6_loop_colons:
  "ip6_loop p s = (q, s') \<Longrightarrow> colons s' \<le> colons s + length (filter ((=) CHR '':'') p)"
proof (induction p s rule: ip6_loop.induct)
  case (2 c p s)
  then show ?case by (fastforce simp: Let_def split: if_splits)
qed simp

lemma is_ip6_colons: "zbx_is_ip6 ip \<Longrightarrow> 2 \<le> length (filter ((=) CHR '':'') ip)"
proof -
  obtain q s where l: "ip6_loop ip \<lparr>xdigits = 0, only_xdigits = False, colons = 0, dbl_colons = 0\<rparr> = (q, s)"
    by fastforce
  moreover assume "zbx_is_ip6 ip"
  ultimately have "2 \<le> colons s" by (auto simp: zbx_is_ip6_def split: if_splits)
  with ip6_loop_colons [OF l] show ?thesis by simp
qed

lemma filter_absent: "c \<notin> set xs \<Longrightarrow> filter ((=) c) xs = []"
  by (auto simp: filter_empty_conv)

lemma serveractive_join_host:
  assumes "NUL \<notin> set host" "CHR '':'' \<notin> set host" "peek host \<noteq> CHR ''[''" "port \<le> 65535"
  shows "zbx_parse_serveractive_element (host @ '':'' @ dec_string port) port0 = Some (host, port)"
proof -
  have "\<not> zbx_is_ip6 (host @ '':'' @ dec_string port)"
    using is_ip6_colons [of "host @ '':'' @ dec_string port"] assms(2) by (auto simp: filter_absent)
  moreover have "peek (host @ '':'' @ dec_string port) \<noteq> CHR ''[''" using assms(3) by (simp add: peek_append)
  ultimately show ?thesis
    using assms strchr_found [of "CHR '':''" host "dec_string port"]
    by (simp add: zbx_parse_serveractive_element_def is_ushort_dec_string)
qed

lemma serveractive_join_ip6:
  assumes "NUL \<notin> set host" "CHR '']'' \<notin> set host" "zbx_is_ip6 host" "port \<le> 65535"
  shows "zbx_parse_serveractive_element (''['' @ host @ '']:'' @ dec_string port) port0 = Some (host, port)"
  using assms strchr_found [of "CHR '']''" host "'':'' @ dec_string port"]
  by (simp add: zbx_parse_serveractive_element_def peek_at_def is_ushort_dec_string Let_def)

text \<open>
  C33: a host and port joined by \<^verbatim>\<open>zbx_join_hostport\<close> in a buffer that holds them are parsed back by
  \<^verbatim>\<open>zbx_parse_serveractive_element\<close>, for host names and IPv4 addresses as well as for IPv6 addresses, which
  are put into brackets.
\<close>

theorem hostport_roundtrip:
  assumes "NUL \<notin> set host" "CHR '']'' \<notin> set host" "peek host \<noteq> CHR ''[''" "port \<le> 65535"
    "CHR '':'' \<in> set host \<longrightarrow> zbx_is_ip6 host" "length host + 9 \<le> sz"
  shows "zbx_parse_serveractive_element (zbx_join_hostport sz host port) port0 = Some (host, port)"
proof -
  have l: "length (dec_string port) \<le> 5" by (rule dec_string_small5) (use assms(4) in simp)
  show ?thesis
  proof (cases "CHR '':'' \<in> set host")
    case True
    then have "strchr host CHR '':'' \<noteq> None"
      using assms(1) by (induction host) auto
    then have "zbx_join_hostport sz host port = ''['' @ host @ '']:'' @ dec_string port"
      using l assms(6) by (simp add: zbx_join_hostport_def)
    then show ?thesis using serveractive_join_ip6 [of host port port0] assms True by simp
  next
    case False
    then have "strchr host CHR '':'' = None" by (rule strchr_absent)
    then have "zbx_join_hostport sz host port = host @ '':'' @ dec_string port"
      using l assms(6) by (simp add: zbx_join_hostport_def)
    then show ?thesis using serveractive_join_host [of host port port0] assms False by simp
  qed
qed

theorem hostport_roundtrip_witness:
  "zbx_parse_serveractive_element (zbx_join_hostport 64 ''fe80::1'' 10051) 10050 = Some (''fe80::1'', 10051)"
  by (rule hostport_roundtrip)
    (simp_all add: zbx_is_ip6_def isxdigit_def isdigit_def)

end
