(* ===== verification/ZbxAlgo.thy ===== *)
theory ZbxAlgo
  imports Prelude
begin

text \<open>
  \<^verbatim>\<open>src/libs/zbxalgo/algodefs.c\<close>: the hash functions on 32-bit and 64-bit words, the comparison functions
  with the order contract the containers rely on, prime numbers for table sizes, and the integer square
  root. A byte array is an \<open>8 word list\<close>; integers and pointers are hashed in little-endian order.
\<close>

unbundle bit_operations_syntax

section \<open>Hash functions\<close>

definition hash_byte :: "8 word \<Rightarrow> 32 word \<Rightarrow> 32 word" where
  "hash_byte p hash = (hash XOR ucast p) * 16777619"

definition zbx_hash_modfnv :: "8 word list \<Rightarrow> 32 word \<Rightarrow> 32 word" where
  "zbx_hash_modfnv data seed =
     (let hash = fold hash_byte data (2166136261 XOR seed);
          hash = hash + push_bit 13 hash;
          hash = hash XOR drop_bit 7 hash;
          hash = hash + push_bit 3 hash;
          hash = hash XOR drop_bit 17 hash;
          hash = hash + push_bit 5 hash
      in hash)"

definition zbx_hash_splittable64 :: "64 word \<Rightarrow> 32 word" where
  "zbx_hash_splittable64 value =
     (let value = value XOR drop_bit 30 value;
          value = value * 0xbf58476d1ce4e5b9;
          value = value XOR drop_bit 27 value;
          value = value * 0x94d049bb133111eb;
          value = value XOR drop_bit 31 value
      in ucast (ucast (ucast value :: 32 word) XOR drop_bit 32 value :: 64 word))"

definition bytes64 :: "64 word \<Rightarrow> 8 word list" where
  "bytes64 w = map (\<lambda>i. ucast (drop_bit (8 * i) w)) [0..<8]"

definition zbx_default_ptr_hash_func :: "64 word \<Rightarrow> 32 word" where
  "zbx_default_ptr_hash_func p = zbx_hash_modfnv (bytes64 p) 0"

definition zbx_default_string_hash_func :: "string \<Rightarrow> 32 word" where
  "zbx_default_string_hash_func s = zbx_hash_modfnv (map of_char (takeWhile (\<lambda>c. c \<noteq> NUL) s)) 0"

record zbx_uint64_pair =
  first :: "64 word"
  second :: "64 word"

definition zbx_default_uint64_pair_hash_func :: "zbx_uint64_pair \<Rightarrow> 32 word" where
  "zbx_default_uint64_pair_hash_func pair =
     (let hash = zbx_hash_splittable64 (first pair) in zbx_hash_modfnv (bytes64 (second pair)) hash)"

section \<open>Comparison functions\<close>

definition return_if_not_equal :: "'a :: linorder \<Rightarrow> 'a \<Rightarrow> int \<Rightarrow> int" where
  "return_if_not_equal a b rest = (if a < b then -1 else if a > b then 1 else rest)"

definition zbx_default_int_compare_func :: "int \<Rightarrow> int \<Rightarrow> int" where
  "zbx_default_int_compare_func i1 i2 = return_if_not_equal i1 i2 0"

definition zbx_default_uint64_compare_func :: "64 word \<Rightarrow> 64 word \<Rightarrow> int" where
  "zbx_default_uint64_compare_func i1 i2 = return_if_not_equal i1 i2 0"

definition zbx_default_ptr_compare_func :: "64 word \<Rightarrow> 64 word \<Rightarrow> int" where
  "zbx_default_ptr_compare_func p1 p2 = return_if_not_equal p1 p2 0"

definition zbx_default_uint64_pair_compare_func :: "zbx_uint64_pair \<Rightarrow> zbx_uint64_pair \<Rightarrow> int" where
  "zbx_default_uint64_pair_compare_func p1 p2 =
     return_if_not_equal (first p1) (first p2) (return_if_not_equal (second p1) (second p2) 0)"

text \<open>\<^verbatim>\<open>strcmp\<close> compares unsigned characters; only the sign of its result is defined.\<close>

function strcmp :: "string \<Rightarrow> string \<Rightarrow> int" where
  "strcmp s t =
     (let a = (of_char (peek s) :: nat); b = of_char (peek t)
      in if a < b then -1 else if a > b then 1 else if a = 0 then 0 else strcmp (tl s) (tl t))"
  by pat_completeness auto
termination strcmp
proof (relation "measure (\<lambda>(s, t). length s)")
  fix s t :: string and a b :: nat
  assume "a = of_char (peek s)" "a \<noteq> 0"
  then show "((tl s, tl t), s, t) \<in> measure (\<lambda>(s, t). length s)" by (cases s) auto
qed simp

declare strcmp.simps [simp del]

definition zbx_default_str_compare_func :: "string \<Rightarrow> string \<Rightarrow> int" where
  "zbx_default_str_compare_func s1 s2 = strcmp s1 s2"

text \<open>The contract of a comparison function: its sign is a total preorder.\<close>

locale comparator =
  fixes cmp :: "'a \<Rightarrow> 'a \<Rightarrow> int"
  assumes cmp_sym: "cmp a b \<le> 0 \<longleftrightarrow> 0 \<le> cmp b a"
    and cmp_trans: "cmp a b \<le> 0 \<Longrightarrow> cmp b c \<le> 0 \<Longrightarrow> cmp a c \<le> 0"
begin

lemma cmp_total: "0 < cmp a b \<Longrightarrow> cmp b a \<le> 0"
  using cmp_sym [of b a] by simp

lemma cmp_refl: "cmp a a \<le> 0"
  using cmp_sym [of a a] by linarith

lemma cmp_less_trans: "0 < cmp a b \<Longrightarrow> cmp a c \<le> 0 \<Longrightarrow> cmp b c \<le> 0"
  by (rule cmp_trans [OF cmp_total])

end

text \<open>One that tells unequal values apart.\<close>

locale eq_comparator = comparator +
  assumes cmp_eq: "cmp a b = 0 \<longleftrightarrow> a = b"

lemma return_if_not_equal_iff:
  "return_if_not_equal a b r \<le> 0 \<longleftrightarrow> a < b \<or> a = b \<and> r \<le> 0"
  "0 \<le> return_if_not_equal a b r \<longleftrightarrow> b < a \<or> a = b \<and> 0 \<le> r"
  "return_if_not_equal a b r = 0 \<longleftrightarrow> a = b \<and> r = 0"
  by (auto simp: return_if_not_equal_def)

interpretation int_compare: eq_comparator zbx_default_int_compare_func
  by unfold_locales (auto simp: zbx_default_int_compare_func_def return_if_not_equal_iff)

interpretation uint64_compare: eq_comparator zbx_default_uint64_compare_func
  by unfold_locales (auto simp: zbx_default_uint64_compare_func_def return_if_not_equal_iff)

interpretation ptr_compare: eq_comparator zbx_default_ptr_compare_func
  by unfold_locales (auto simp: zbx_default_ptr_compare_func_def return_if_not_equal_iff)

interpretation pair_compare: eq_comparator zbx_default_uint64_pair_compare_func
  by unfold_locales (auto simp: zbx_default_uint64_pair_compare_func_def return_if_not_equal_iff)

lemma strcmp_sym: "strcmp s t \<le> 0 \<longleftrightarrow> 0 \<le> strcmp t s"
proof (induction s t rule: strcmp.induct)
  case (1 s t)
  show ?case
    by (subst (1 2) strcmp.simps) (use 1 in \<open>auto simp: Let_def\<close>)
qed

lemma strcmp_trans: "strcmp s t \<le> 0 \<Longrightarrow> strcmp t u \<le> 0 \<Longrightarrow> strcmp s u \<le> 0"
proof (induction s t arbitrary: u rule: strcmp.induct)
  case (1 s t)
  from 1(2) have st: "of_char (peek s) < (of_char (peek t) :: nat)
      \<or> of_char (peek s) = (of_char (peek t) :: nat) \<and> (of_char (peek s) = (0 :: nat) \<or> strcmp (tl s) (tl t) \<le> 0)"
    by (subst (asm) strcmp.simps) (auto simp: Let_def split: if_splits)
  from 1(3) have tu: "of_char (peek t) < (of_char (peek u) :: nat)
      \<or> of_char (peek t) = (of_char (peek u) :: nat) \<and> (of_char (peek t) = (0 :: nat) \<or> strcmp (tl t) (tl u) \<le> 0)"
    by (subst (asm) strcmp.simps) (auto simp: Let_def split: if_splits)
  have head: "of_char (peek s) \<le> (of_char (peek u) :: nat)" using st tu by linarith
  show ?case
  proof (cases "of_char (peek s) < (of_char (peek u) :: nat) \<or> of_char (peek s) = (0 :: nat)")
    case True
    with head show ?thesis by (subst strcmp.simps) (auto simp: Let_def)
  next
    case False
    with head st tu have eq: "of_char (peek s) = (of_char (peek t) :: nat)"
      "of_char (peek t) = (of_char (peek u) :: nat)" "of_char (peek s) \<noteq> (0 :: nat)" by linarith+
    have "strcmp (tl s) (tl u) \<le> 0"
      by (rule 1(1) [OF refl refl]) (use st tu eq in auto)
    with eq show ?thesis by (subst strcmp.simps) (simp add: Let_def)
  qed
qed

interpretation str_compare: comparator zbx_default_str_compare_func
  unfolding zbx_default_str_compare_func_def [abs_def]
  by unfold_locales (fact strcmp_sym, fact strcmp_trans)

section \<open>Prime numbers\<close>

text \<open>On ints: \<open>None\<close> is an overflow, which C leaves undefined.\<close>

function prime_loop :: "int \<Rightarrow> int \<Rightarrow> bool option" where
  "prime_loop n i =
     (if INT_MAX < i * i then None
      else if i * i \<le> n then if cmod n i = 0 then Some False else prime_loop n (i + 2)
      else Some True)"
  by pat_completeness auto

lemma square_int: "\<not> INT_MAX < i * i \<Longrightarrow> i \<le> 46340" for i :: int
proof (rule ccontr)
  assume a: "\<not> INT_MAX < i * i" and "\<not> i \<le> 46340"
  then have "46341 * 46341 \<le> i * i" by (intro mult_mono) simp_all
  then show False using a by simp
qed

termination prime_loop
proof (relation "measure (\<lambda>(n, i). nat (46342 - i))")
  fix n i :: int
  assume "\<not> INT_MAX < i * i"
  then show "((n, i + 2), n, i) \<in> measure (\<lambda>(n, i). nat (46342 - i))" using square_int [of i] by simp
qed simp

declare prime_loop.simps [simp del]

definition is_prime :: "int \<Rightarrow> bool option" where
  "is_prime n =
     (if n \<le> 1 then Some False
      else if n = 2 then Some True
      else if cmod n 2 = 0 then Some False
      else prime_loop n 3)"

function next_prime :: "int \<Rightarrow> int option" where
  "next_prime n =
     (case is_prime n of
        None \<Rightarrow> None
      | Some p \<Rightarrow> if \<not> p then if INT_MAX < n + 1 then None else next_prime (n + 1) else Some n)"
  by pat_completeness auto
termination next_prime
  by (relation "measure (\<lambda>n. nat (INT_MAX - n))") simp_all

declare next_prime.simps [simp del]

definition prime_number :: "int \<Rightarrow> bool" where
  "prime_number p \<longleftrightarrow> 1 < p \<and> (\<forall>d. 0 < d \<and> d dvd p \<longrightarrow> d = 1 \<or> d = p)"

text \<open>
  The loop looks at the odd numbers from \<open>i\<close> on up to the square root. A number without a divisor there makes it go on
  to 46341, whose square overflows, if it is not below the square of 46339.
\<close>

abbreviation (input) last_square :: int where "last_square \<equiv> 46339 * 46339"

lemma prime_loop_eq:
  assumes "odd i" "0 < i" "0 < n" "n \<le> INT_MAX" "i = 3 \<or> (i - 2) * (i - 2) \<le> n"
  shows "prime_loop n i = (if \<exists>j. odd j \<and> i \<le> j \<and> j * j \<le> n \<and> j dvd n then Some False
    else if n < last_square then Some True else None)"
  using assms
proof (induction n i rule: prime_loop.induct)
  case (1 n i)
  have none: "\<not> (\<exists>j. odd j \<and> i \<le> j \<and> j * j \<le> n \<and> j dvd n)" if "n < i * i"
  proof
    assume "\<exists>j. odd j \<and> i \<le> j \<and> j * j \<le> n \<and> j dvd n"
    then obtain j where j: "i \<le> j" "j * j \<le> n" by blast
    have "i * i \<le> j * j" using j(1) 1(3) by (intro mult_mono) simp_all
    then show False using j(2) that by linarith
  qed
  consider "INT_MAX < i * i" | "i * i \<le> INT_MAX" "n < i * i" | "i * i \<le> n" "cmod n i = 0" | "i * i \<le> n" "cmod n i \<noteq> 0"
    using 1(5) by linarith
  then show ?case
  proof cases
    case 1
    have "46339 \<le> i - 2"
    proof (rule ccontr)
      assume "\<not> 46339 \<le> i - 2"
      then have "i \<le> 46340" by simp
      then have "i * i \<le> 46340 * 46340" using \<open>0 < i\<close> by (intro mult_mono) simp_all
      then show False using 1 by simp
    qed
    then have "last_square \<le> (i - 2) * (i - 2)" by (intro mult_mono) simp_all
    moreover have "i \<noteq> 3" using 1 by auto
    ultimately have "last_square \<le> n" using "1.prems"(5) by linarith
    then show ?thesis using 1 none "1.prems"(4) by (subst prime_loop.simps) simp
  next
    case 2
    have "i \<le> 46340" using square_int [of i] 2 by simp
    moreover have "i \<noteq> 46340" using \<open>odd i\<close> by auto
    ultimately have "i * i \<le> last_square" using \<open>0 < i\<close> by (intro mult_mono) simp_all
    then show ?thesis using 2 none by (subst prime_loop.simps) simp
  next
    case 3
    then have "i dvd n" using "1.prems"(2,3) by (simp add: cmod_nonneg dvd_eq_mod_eq_0)
    then have "\<exists>j. odd j \<and> i \<le> j \<and> j * j \<le> n \<and> j dvd n" using 3 \<open>odd i\<close> by blast
    then show ?thesis using 3 "1.prems"(4) by (subst prime_loop.simps) simp
  next
    case 4
    then have nd: "\<not> i dvd n" using "1.prems"(2,3) by (simp add: cmod_nonneg dvd_eq_mod_eq_0)
    have "(\<exists>j. odd j \<and> i \<le> j \<and> j * j \<le> n \<and> j dvd n) \<longleftrightarrow> (\<exists>j. odd j \<and> i + 2 \<le> j \<and> j * j \<le> n \<and> j dvd n)"
    proof
      assume "\<exists>j. odd j \<and> i \<le> j \<and> j * j \<le> n \<and> j dvd n"
      then obtain j where j: "odd j" "i \<le> j" "j * j \<le> n" "j dvd n" by blast
      have "j \<noteq> i" using nd j(4) by auto
      moreover have "j \<noteq> i + 1" using j(1) \<open>odd i\<close> by auto
      ultimately show "\<exists>j. odd j \<and> i + 2 \<le> j \<and> j * j \<le> n \<and> j dvd n" using j by (intro exI [of _ j]) auto
    next
      assume "\<exists>j. odd j \<and> i + 2 \<le> j \<and> j * j \<le> n \<and> j dvd n"
      then show "\<exists>j. odd j \<and> i \<le> j \<and> j * j \<le> n \<and> j dvd n" by (metis add_increasing2 order_trans zero_le_numeral le_add_same_cancel1)
    qed
    moreover have "prime_loop n i = prime_loop n (i + 2)" using 4 "1.prems"(4) by (subst prime_loop.simps) simp
    moreover have "prime_loop n (i + 2) = (if \<exists>j. odd j \<and> i + 2 \<le> j \<and> j * j \<le> n \<and> j dvd n then Some False
        else if n < last_square then Some True else None)"
      using "1.IH" 4 "1.prems" by simp
    ultimately show ?thesis by simp
  qed
qed

lemma odd_divisor:
  assumes "2 < n" "odd n"
  shows "(\<exists>j. odd j \<and> 3 \<le> j \<and> j * j \<le> n \<and> j dvd n) \<longleftrightarrow> \<not> prime_number n"
proof
  assume "\<exists>j. odd j \<and> 3 \<le> j \<and> j * j \<le> n \<and> j dvd n"
  then obtain j where j: "3 \<le> j" "j * j \<le> n" "j dvd n" by blast
  have "j \<noteq> n"
  proof
    assume "j = n"
    then have "3 * n \<le> n" using j(1,2) assms(1) mult_right_mono [of 3 n n] by simp
    then show False using assms(1) by simp
  qed
  then have "0 < j \<and> j dvd n \<and> j \<noteq> 1 \<and> j \<noteq> n" using j by simp
  then show "\<not> prime_number n" unfolding prime_number_def by blast
next
  assume "\<not> prime_number n"
  then obtain d where d: "0 < d" "d dvd n" "d \<noteq> 1" "d \<noteq> n" using assms(1) by (auto simp: prime_number_def)
  then obtain e where e: "n = d * e" by blast
  have "0 < e" using e d(1) assms(1) by (metis less_trans zero_less_mult_pos zero_less_numeral)
  moreover have "e \<noteq> 1" using e d(4) by auto
  ultimately have de: "2 \<le> d" "2 \<le> e" using d(1,3) by simp_all
  have o: "odd d" "odd e" using assms(2) unfolding e by simp_all
  then have "3 \<le> d" "3 \<le> e" using de by presburger+
  moreover have "d * d \<le> n \<or> e * e \<le> n"
  proof (cases "d \<le> e")
    case True
    then have "d * d \<le> d * e" using d(1) by (intro mult_left_mono) simp_all
    then show ?thesis using e by simp
  next
    case False
    then have "e * e \<le> d * e" using \<open>0 < e\<close> by (intro mult_right_mono) simp_all
    then show ?thesis using e by simp
  qed
  moreover have "d dvd n" "e dvd n" using e by simp_all
  ultimately show "\<exists>j. odd j \<and> 3 \<le> j \<and> j * j \<le> n \<and> j dvd n" using o by blast
qed

lemma is_prime_eq:
  assumes "n \<le> INT_MAX"
  shows "is_prime n = (if \<not> prime_number n then Some False else if n < last_square then Some True else None)"
proof -
  consider "n \<le> 1" | "n = 2" | "2 < n" "even n" | "2 < n" "odd n" by linarith
  then show ?thesis
  proof cases
    case 1
    then show ?thesis by (simp add: is_prime_def prime_number_def)
  next
    case 2
    have "d = 1 \<or> d = 2" if "0 < d" "d dvd 2" for d :: int using zdvd_imp_le [OF that(2)] that(1) by auto
    then show ?thesis using 2 by (auto simp: is_prime_def prime_number_def)
  next
    case 3
    then have "cmod n 2 = 0" by (simp add: cmod_nonneg)
    moreover have "(0 :: int) < 2 \<and> 2 dvd n \<and> 2 \<noteq> (1 :: int) \<and> 2 \<noteq> n" using 3 by simp
    then have "\<not> prime_number n" unfolding prime_number_def by blast
    ultimately show ?thesis using 3 by (simp add: is_prime_def)
  next
    case 4
    then have "cmod n 2 \<noteq> 0" by (simp add: cmod_nonneg odd_iff_mod_2_eq_one)
    then have "is_prime n = prime_loop n 3" using 4 by (simp add: is_prime_def)
    then show ?thesis using prime_loop_eq [of 3 n] odd_divisor [OF 4] 4 assms by simp
  qed
qed

lemma next_prime_eq:
  assumes "n \<le> INT_MAX"
  shows "case next_prime n of
      Some p \<Rightarrow> prime_number p \<and> n \<le> p \<and> p < last_square \<and> \<not> (\<exists>m. n \<le> m \<and> m < p \<and> prime_number m)
    | None \<Rightarrow> \<not> (\<exists>p. n \<le> p \<and> p < last_square \<and> prime_number p)"
  using assms
proof (induction n rule: next_prime.induct)
  case (1 n)
  note q = is_prime_eq [OF 1(2)]
  show ?case
  proof (cases "prime_number n")
    case True
    show ?thesis
    proof (cases "n < last_square")
      case True
      then have "next_prime n = Some n" using q \<open>prime_number n\<close> by (subst next_prime.simps) simp
      then show ?thesis using True \<open>prime_number n\<close> by auto
    next
      case False
      then have "next_prime n = None" using q \<open>prime_number n\<close> by (subst next_prime.simps) simp
      then show ?thesis using False by auto
    qed
  next
    case False
    then have f: "is_prime n = Some False" using q by simp
    have skip: "n \<le> m \<and> prime_number m \<longleftrightarrow> n + 1 \<le> m \<and> prime_number m" for m
      using False by (cases "m = n") auto
    show ?thesis
    proof (cases "INT_MAX < n + 1")
      case True
      then have "next_prime n = None" using f by (subst next_prime.simps) simp
      then show ?thesis using True skip by auto
    next
      case False
      then have "next_prime n = next_prime (n + 1)" using f by (subst next_prime.simps) simp
      moreover note 1(1) [OF f _ False]
      ultimately show ?thesis using False skip by (cases "next_prime (n + 1)") (force+)
    qed
  qed
qed

text \<open>
  C39: for every int, \<^verbatim>\<open>next_prime\<close> ends, and returns the least prime number that is not below its argument if there is
  one below the square of 46339. If there is none, a square overflows in the loop of \<^verbatim>\<open>is_prime\<close>, or the argument
  itself.
\<close>

theorem next_prime_least:
  assumes "n \<le> INT_MAX"
  shows "case next_prime n of
      Some p \<Rightarrow> prime_number p \<and> n \<le> p \<and> p < 46339 * 46339 \<and> \<not> (\<exists>m. n \<le> m \<and> m < p \<and> prime_number m)
    | None \<Rightarrow> \<not> (\<exists>p. n \<le> p \<and> p < 46339 * 46339 \<and> prime_number p)"
  using assms by (rule next_prime_eq)

lemma next_prime_24: "next_prime 24 = Some 29"
  by code_simp

theorem next_prime_least_witness:
  "next_prime 24 = Some 29 \<and> prime_number 29 \<and> \<not> (\<exists>m. 24 \<le> m \<and> m < 29 \<and> prime_number m)"
  using next_prime_least [of 24] by (simp add: next_prime_24)

section \<open>Square root\<close>

definition isqrt_step :: "32 word \<times> 32 word \<times> 32 word \<Rightarrow> 32 word \<times> 32 word \<times> 32 word" where
  "isqrt_step = (\<lambda>(value, remainder, result).
     let result = push_bit 1 result;
         remainder = push_bit 2 remainder + drop_bit 30 value;
         value = push_bit 2 value;
         p = push_bit 1 result OR 1
     in if p \<le> remainder then (value, remainder - p, result OR 1) else (value, remainder, result))"

definition zbx_isqrt32 :: "32 word \<Rightarrow> 32 word" where
  "zbx_isqrt32 value = snd (snd ((isqrt_step ^^ 16) (value, 0, 0)))"


text \<open>
  After \<open>i\<close> rounds the result is the root of the top \<open>2 * i\<close> bits of the value and the remainder what is left
  of them.
\<close>

definition isqrt_inv :: "32 word \<Rightarrow> nat \<Rightarrow> 32 word \<times> 32 word \<times> 32 word \<Rightarrow> bool" where
  "isqrt_inv v i = (\<lambda>(value, remainder, result).
     value = push_bit (2 * i) v
     \<and> unat result * unat result + unat remainder = unat v div 4 ^ (16 - i)
     \<and> unat remainder \<le> 2 * unat result \<and> unat result < 2 ^ i)"

lemma top_bits:
  assumes "i < 16"
  shows "unat (drop_bit 30 (push_bit (2 * i) v :: 32 word)) = unat v div 4 ^ (15 - i) mod 4"
proof -
  have "unat (drop_bit 30 (push_bit (2 * i) v)) = (unat v * 4 ^ i) mod 4 ^ 16 div 4 ^ 15"
    unfolding unat_drop_bit_eq unsigned_push_bit_eq
    by (simp add: take_bit_eq_mod push_bit_eq_mult drop_bit_eq_div power_mult)
  also have "\<dots> = (unat v * 4 ^ i) div 4 ^ 15 mod 4"
    using mod_mult2_eq [of "unat v * 4 ^ i" "4 ^ 15" 4] by simp
  also have "(4::nat) ^ 15 = 4 ^ (15 - i) * 4 ^ i"
    using assms by (simp flip: power_add)
  finally show ?thesis by (simp add: div_mult2_eq [symmetric])
qed


lemma unat_push_bit_small: "unat w * 2 ^ n < 2 ^ 32 \<Longrightarrow> unat (push_bit n (w :: 32 word)) = unat w * 2 ^ n"
  unfolding unsigned_push_bit_eq by (simp add: take_bit_nat_eq_self push_bit_eq_mult)

lemma isqrt_step_inv:
  assumes "isqrt_inv v i s" "i < 16"
  shows "isqrt_inv v (Suc i) (isqrt_step s)"
proof -
  obtain x rem res where s: "s = (x, rem, res)" by (cases s)
  let ?q = "unat v div 4 ^ (16 - i)"
  define t where "t = unat v div 4 ^ (15 - i) mod 4"
  from assms(1) s have inv: "x = push_bit (2 * i) v" "unat res * unat res + unat rem = ?q"
    "unat rem \<le> 2 * unat res" "unat res < 2 ^ i" by (auto simp: isqrt_inv_def)
  have r: "unat res < 2 ^ 15"
    using inv(4) power_increasing [of i 15 "2::nat"] assms(2) by linarith
  have q: "unat v div 4 ^ (15 - i) = 4 * ?q + t"
  proof -
    have "16 - i = Suc (15 - i)" using assms(2) by simp
    then have "(4::nat) ^ (16 - i) = 4 ^ (15 - i) * 4" by simp
    then have "unat v div 4 ^ (16 - i) = unat v div 4 ^ (15 - i) div 4" by (simp only: div_mult2_eq)
    then show ?thesis by (simp add: t_def)
  qed
  let ?r = "unat res" and ?m = "unat rem"
  have m: "?m < 2 ^ 16" using inv(3) r by simp
  have u1: "unat (push_bit 1 res) = 2 * ?r"
    using r unat_push_bit_small [of res 1] by simp
  have or1: "push_bit 1 a OR 1 = push_bit 1 a + (1 :: 32 word)" for a
    by (rule disjunctive_add [symmetric]) (auto simp: bit_push_bit_iff bit_1_iff simp del: push_bit_Suc)
  have u11: "unat (push_bit 1 (push_bit 1 res)) = 4 * ?r"
    using unat_push_bit_small [of "push_bit 1 res" 1, unfolded u1] r by (simp del: push_bit_of_1)
  have u2: "unat (push_bit 1 (push_bit 1 res) OR 1) = 4 * ?r + 1"
    unfolding or1 unat_word_ariths u11 using r by simp
  have u3: "unat (push_bit 1 res OR 1) = 2 * ?r + 1"
    unfolding or1 unat_word_ariths u1 using r by simp
  have t: "unat (drop_bit 30 x) = t" unfolding inv(1) t_def by (rule top_bits [OF assms(2)])
  have "t < 4" by (simp add: t_def)
  then have u4: "unat (push_bit 2 rem + drop_bit 30 x) = 4 * ?m + t"
    unfolding unat_word_ariths t using m unat_push_bit_small [of rem 2] by simp
  have x': "push_bit 2 x = push_bit (2 * Suc i) v" by (simp add: inv(1))
  have sq: "4 * ?q + t = 4 * (?r * ?r) + (4 * ?m + t)" unfolding inv(2) [symmetric] by simp
  note fit = q [unfolded sq]
  show ?thesis
  proof (cases "push_bit 1 (push_bit 1 res) OR 1 \<le> push_bit 2 rem + drop_bit 30 x")
    case True
    then have le: "4 * ?r + 1 \<le> 4 * ?m + t" by (simp only: word_le_nat_alt u2 u4)
    have u5: "unat (push_bit 2 rem + drop_bit 30 x - (push_bit 1 (push_bit 1 res) OR 1)) = 4 * ?m + t - (4 * ?r + 1)"
      using True by (simp only: unat_sub u2 u4)
    have "isqrt_step s = (push_bit 2 x, push_bit 2 rem + drop_bit 30 x - (push_bit 1 (push_bit 1 res) OR 1),
        push_bit 1 res OR 1)"
      using True by (simp add: s isqrt_step_def Let_def)
    moreover have "(2 * ?r + 1) * (2 * ?r + 1) + (4 * ?m + t - (4 * ?r + 1)) = unat v div 4 ^ (15 - i)"
      unfolding fit using le by (simp add: algebra_simps)
    moreover have "4 * ?m + t - (4 * ?r + 1) \<le> 2 * (2 * ?r + 1)" using inv(3) \<open>t < 4\<close> by (simp add: le_diff_conv)
    moreover have "2 * ?r + 1 < 2 ^ Suc i" using inv(4) by simp
    moreover have "16 - Suc i = 15 - i" by simp
    ultimately show ?thesis unfolding isqrt_inv_def by (simp only: prod.case u3 u5 x')
  next
    case False
    then have le: "4 * ?m + t < 4 * ?r + 1" by (simp only: word_le_nat_alt u2 u4)
    have "isqrt_step s = (push_bit 2 x, push_bit 2 rem + drop_bit 30 x, push_bit 1 res)"
      using False by (simp add: s isqrt_step_def Let_def)
    moreover have "2 * ?r * (2 * ?r) + (4 * ?m + t) = unat v div 4 ^ (15 - i)" unfolding fit by simp
    moreover have "4 * ?m + t \<le> 2 * (2 * ?r)" using le by simp
    moreover have "2 * ?r < 2 ^ Suc i" using inv(4) by simp
    moreover have "16 - Suc i = 15 - i" by simp
    ultimately show ?thesis unfolding isqrt_inv_def by (simp only: prod.case u1 u4 x')
  qed
qed

lemma isqrt_steps_inv: "i \<le> 16 \<Longrightarrow> isqrt_inv v i ((isqrt_step ^^ i) (v, 0, 0))"
proof (induction i)
  case 0
  have "unat v < 2 ^ 32" by (rule order_less_le_trans [OF unsigned_less]) simp
  then show ?case by (simp add: isqrt_inv_def)
next
  case (Suc i)
  then show ?case using isqrt_step_inv [of v i] by simp
qed

text \<open>
  \<^verbatim>\<open>zbx_isqrt32\<close> returns the integer part of the square root of every 32-bit number.
\<close>

theorem isqrt32_correct:
  "unat (zbx_isqrt32 v) ^ 2 \<le> unat v \<and> unat v < (unat (zbx_isqrt32 v) + 1) ^ 2"
proof -
  obtain x rem res where s: "(isqrt_step ^^ 16) (v, 0, 0) = (x, rem, res)" by (cases "(isqrt_step ^^ 16) (v, 0, 0)")
  have "isqrt_inv v 16 (x, rem, res)" using isqrt_steps_inv [of 16 v] s by simp
  then have "unat res * unat res + unat rem = unat v" "unat rem \<le> 2 * unat res"
    by (simp_all add: isqrt_inv_def)
  moreover have "zbx_isqrt32 v = res" by (simp add: zbx_isqrt32_def s)
  ultimately show ?thesis by (simp add: power2_eq_square algebra_simps)
qed

end
