(* ===== verification/ZbxHashmap.thy ===== *)
theory ZbxHashmap
  imports ZbxAlgo
begin

text \<open>
  The hash map of \<^verbatim>\<open>src/libs/zbxalgo/hashmap.c\<close> from 64-bit keys to non-negative numbers. A slot is the list
  of its live entries and the allocated size of its array, 0 for a NULL array; the table is the list of its
  slots, so \<^verbatim>\<open>num_slots\<close> is the length of that list. Allocations succeed: the functions passed in do not
  return on failure. A moved or removed entry is replaced by the last one of its slot.
\<close>

section \<open>State and operations\<close>

type_synonym hm_entry = "64 word \<times> int"

record hm_slot =
  entries :: "hm_entry list"
  entries_alloc :: nat

abbreviation (input) entries_num :: "hm_slot \<Rightarrow> nat" where
  "entries_num s \<equiv> length (entries s)"

abbreviation (input) empty_slot :: hm_slot where
  "empty_slot \<equiv> \<lparr>entries = [], entries_alloc = 0\<rparr>"

record zbx_hashmap =
  slots :: "hm_slot list"
  num_data :: nat
  hash_func :: "64 word \<Rightarrow> 32 word"
  compare_func :: "64 word \<Rightarrow> 64 word \<Rightarrow> int"

abbreviation (input) num_slots :: "zbx_hashmap \<Rightarrow> nat" where
  "num_slots hm \<equiv> length (slots hm)"

abbreviation (input) HM_FAIL :: int where
  "HM_FAIL \<equiv> -1"

definition hashmap_ensure_free_entry :: "hm_slot \<Rightarrow> hm_slot" where
  "hashmap_ensure_free_entry slot =
     (if entries_alloc slot = 0 then slot\<lparr>entries := [], entries_alloc := 6\<rparr>
      else if entries_num slot = entries_alloc slot then slot\<lparr>entries_alloc := entries_alloc slot * 2\<rparr>
      else slot)"

text \<open>
  The size of a table: a prime number. Where the ints of the code overflow, in \<^verbatim>\<open>next_prime\<close> near 2147302921 and in the growth from
  715827883 slots on, which take 17 gigabytes, its behaviour is undefined; here the table gets the number of slots asked for.
\<close>

definition table_size :: "nat \<Rightarrow> nat" where
  "table_size n = (case next_prime (int n) of Some p \<Rightarrow> nat p | None \<Rightarrow> n)"

lemma table_size_ge: "n \<le> table_size n"
proof (cases "int n \<le> INT_MAX")
  case True
  then show ?thesis using next_prime_eq [of "int n"] by (auto simp: table_size_def split: option.splits)
next
  case False
  then have "int n \<le> p" if "next_prime (int n) = Some p" for p using that by (subst (asm) next_prime.simps) (auto split: option.splits if_splits)
  then show ?thesis by (auto simp: table_size_def split: option.splits)
qed

definition zbx_hashmap_init_slots :: "zbx_hashmap \<Rightarrow> nat \<Rightarrow> zbx_hashmap" where
  "zbx_hashmap_init_slots hm init_size =
     hm\<lparr>num_data := 0,
        slots := (if 0 < init_size then replicate (table_size init_size) empty_slot else [])\<rparr>"

definition zbx_hashmap_create_ext ::
  "zbx_hashmap \<Rightarrow> nat \<Rightarrow> (64 word \<Rightarrow> 32 word) \<Rightarrow> (64 word \<Rightarrow> 64 word \<Rightarrow> int) \<Rightarrow> zbx_hashmap" where
  "zbx_hashmap_create_ext hm init_size hashf compare =
     zbx_hashmap_init_slots (hm\<lparr>hash_func := hashf, compare_func := compare\<rparr>) init_size"

definition zbx_hashmap_create :: "zbx_hashmap \<Rightarrow> nat \<Rightarrow> zbx_hashmap" where
  "zbx_hashmap_create hm init_size =
     zbx_hashmap_create_ext hm init_size zbx_hash_splittable64 zbx_default_uint64_compare_func"

definition slot_index :: "(64 word \<Rightarrow> 32 word) \<Rightarrow> 64 word \<Rightarrow> nat \<Rightarrow> nat" where
  "slot_index hashf key n = unat (hashf key) mod n"

text \<open>The loops that look for a key in a slot: the position of its entry.\<close>

fun find_entry :: "(64 word \<Rightarrow> 64 word \<Rightarrow> int) \<Rightarrow> 64 word \<Rightarrow> hm_entry list \<Rightarrow> nat option" where
  "find_entry compare key [] = None"
| "find_entry compare key (e # es) =
     (if compare (fst e) key = 0 then Some 0 else map_option Suc (find_entry compare key es))"

definition zbx_hashmap_get :: "zbx_hashmap \<Rightarrow> 64 word \<Rightarrow> int" where
  "zbx_hashmap_get hm key =
     (if num_slots hm = 0 then HM_FAIL
      else let slot = slots hm ! slot_index (hash_func hm) key (num_slots hm) in
        case find_entry (compare_func hm) key (entries slot) of
          None \<Rightarrow> HM_FAIL
        | Some i \<Rightarrow> snd (entries slot ! i))"

definition push_entry :: "hm_slot \<Rightarrow> hm_entry \<Rightarrow> hm_slot" where
  "push_entry slot e =
     (let slot = hashmap_ensure_free_entry slot in slot\<lparr>entries := entries slot @ [e]\<rparr>)"

text \<open>Overwriting an entry with the last one of the slot and dropping that.\<close>

definition drop_entry :: "hm_slot \<Rightarrow> nat \<Rightarrow> hm_slot" where
  "drop_entry slot i =
     slot\<lparr>entries := butlast ((entries slot)[i := entries slot ! (entries_num slot - 1)])\<rparr>"

lemma drop_entry_num: "i < entries_num slot \<Longrightarrow> entries_num (drop_entry slot i) = entries_num slot - 1"
  by (simp add: drop_entry_def)

text \<open>The inner loop of the growth of the table, over the entries of slot \<open>s\<close>.\<close>

function rehash_slot :: "(64 word \<Rightarrow> 32 word) \<Rightarrow> nat \<Rightarrow> nat \<Rightarrow> hm_slot list \<Rightarrow> hm_slot list" where
  "rehash_slot hashf s i sl =
     (if s < length sl \<and> i < entries_num (sl ! s) then
        let e = entries (sl ! s) ! i;
            d = slot_index hashf (fst e) (length sl)
        in if d \<noteq> s then
             rehash_slot hashf s i (let sl = sl[d := push_entry (sl ! d) e] in sl[s := drop_entry (sl ! s) i])
           else rehash_slot hashf s (i + 1) sl
      else sl)"
  by pat_completeness auto
termination rehash_slot
  by (relation "measure (\<lambda>(h, s, i, sl). entries_num (sl ! s) - i)")
    (auto simp: Let_def drop_entry_def nth_list_update)

declare rehash_slot.simps [simp del]

definition hashmap_grow :: "zbx_hashmap \<Rightarrow> zbx_hashmap" where
  "hashmap_grow hm =
     (let inc_slots = table_size (num_slots hm * 3 div 2);
          sl = slots hm @ replicate (inc_slots - num_slots hm) empty_slot
      in hm\<lparr>slots := fold (\<lambda>s. rehash_slot (hash_func hm) s 0) [0..<num_slots hm] sl\<rparr>)"

definition zbx_hashmap_set :: "zbx_hashmap \<Rightarrow> 64 word \<Rightarrow> int \<Rightarrow> zbx_hashmap" where
  "zbx_hashmap_set hm key value =
     (let hm = (if num_slots hm = 0 then zbx_hashmap_init_slots hm 10 else hm);
          d = slot_index (hash_func hm) key (num_slots hm);
          slot = slots hm ! d
      in case find_entry (compare_func hm) key (entries slot) of
          Some i \<Rightarrow>
            hm\<lparr>slots := (slots hm)[d := slot\<lparr>entries := (entries slot)[i := (fst (entries slot ! i), value)]\<rparr>]\<rparr>
        | None \<Rightarrow>
            let hm = hm\<lparr>slots := (slots hm)[d := push_entry slot (key, value)], num_data := num_data hm + 1\<rparr>
            in if num_data hm \<ge> num_slots hm * 5 then hashmap_grow hm else hm)"

definition zbx_hashmap_remove :: "zbx_hashmap \<Rightarrow> 64 word \<Rightarrow> zbx_hashmap" where
  "zbx_hashmap_remove hm key =
     (if num_slots hm = 0 then hm
      else let d = slot_index (hash_func hm) key (num_slots hm); slot = slots hm ! d in
        case find_entry (compare_func hm) key (entries slot) of
          None \<Rightarrow> hm
        | Some i \<Rightarrow> hm\<lparr>slots := (slots hm)[d := drop_entry slot i], num_data := num_data hm - 1\<rparr>)"

definition zbx_hashmap_clear :: "zbx_hashmap \<Rightarrow> zbx_hashmap" where
  "zbx_hashmap_clear hm = hm\<lparr>slots := map (\<lambda>s. s\<lparr>entries := []\<rparr>) (slots hm), num_data := 0\<rparr>"

section \<open>Contents and invariant\<close>

definition slot_entries :: "hm_slot list \<Rightarrow> hm_entry list" where
  "slot_entries sl = concat (map entries sl)"

definition hashmap_entries :: "zbx_hashmap \<Rightarrow> hm_entry list" where
  "hashmap_entries hm = slot_entries (slots hm)"

text \<open>The map from keys to values the table stands for.\<close>

definition hashmap_abs :: "zbx_hashmap \<Rightarrow> 64 word \<rightharpoonup> int" where
  "hashmap_abs hm = map_of (hashmap_entries hm)"

definition slot_ok :: "hm_slot \<Rightarrow> bool" where
  "slot_ok s \<longleftrightarrow> entries_num s \<le> entries_alloc s"

definition hashmap_inv :: "zbx_hashmap \<Rightarrow> bool" where
  "hashmap_inv hm \<longleftrightarrow>
     (\<forall>a b. compare_func hm a b = 0 \<longleftrightarrow> a = b)
     \<and> (\<forall>i < num_slots hm. \<forall>e \<in> set (entries (slots hm ! i)).
          slot_index (hash_func hm) (fst e) (num_slots hm) = i)
     \<and> distinct (map fst (hashmap_entries hm))
     \<and> num_data hm = length (hashmap_entries hm)
     \<and> list_all slot_ok (slots hm)"

lemma push_entry_entries: "slot_ok s \<Longrightarrow> entries (push_entry s e) = entries s @ [e]"
  by (auto simp: push_entry_def hashmap_ensure_free_entry_def slot_ok_def)

lemma push_entry_ok: "slot_ok s \<Longrightarrow> slot_ok (push_entry s e)"
  by (auto simp: push_entry_def hashmap_ensure_free_entry_def slot_ok_def Let_def)

lemma drop_entry_ok: "slot_ok s \<Longrightarrow> slot_ok (drop_entry s i)"
  by (simp add: drop_entry_def slot_ok_def)

lemma drop_entry_mset:
  assumes "i < entries_num s"
  shows "add_mset (entries s ! i) (mset (entries (drop_entry s i))) = mset (entries s)"
proof (cases "i = entries_num s - 1")
  case True
  with assms have "entries s = butlast (entries s) @ [entries s ! i]"
    by (metis append_butlast_last_id last_conv_nth length_0_conv less_nat_zero_code)
  then have "mset (entries s) = mset (butlast (entries s) @ [entries s ! i])" by metis
  moreover have "entries (drop_entry s i) = butlast (entries s)"
    using True assms by (simp add: drop_entry_def)
  ultimately show ?thesis by simp
next
  case False
  obtain bs l where bs: "entries s = bs @ [l]" using assms by (metis less_nat_zero_code list.size(3) rev_exhaust)
  with False assms have i: "i < length bs" by simp
  have "entries (drop_entry s i) = bs[i := l]" using bs i by (simp add: drop_entry_def list_update_append)
  moreover have "mset (bs[i := l]) = add_mset l (mset bs - {#bs ! i#})" using i by (simp add: mset_update)
  moreover have "bs ! i \<in># mset bs" using i by simp
  ultimately show ?thesis using bs i by (simp add: nth_append)
qed


lemma slot_entries_update:
  "d < length sl \<Longrightarrow>
    mset (slot_entries (sl[d := x])) + mset (entries (sl ! d)) = mset (slot_entries sl) + mset (entries x)"
proof (induction sl arbitrary: d)
  case (Cons a sl)
  then show ?case by (cases d) (auto simp: slot_entries_def ac_simps)
qed simp

lemma slot_entries_set: "set (slot_entries sl) = (\<Union>i < length sl. set (entries (sl ! i)))"
  by (auto simp: slot_entries_def set_conv_nth [of sl])

lemma slot_entries_mem:
  assumes "d < length sl" "e \<in> set (entries x) \<longleftrightarrow> e \<in> set (entries (sl ! d))"
  shows "e \<in> set (slot_entries (sl[d := x])) \<longleftrightarrow> e \<in> set (slot_entries sl)"
proof -
  have "e \<in> set (entries (sl[d := x] ! i)) \<longleftrightarrow> e \<in> set (entries (sl ! i))" for i
    using assms by (cases "i = d") auto
  then show ?thesis by (simp add: slot_entries_set)
qed

lemma slot_index_less: "0 < n \<Longrightarrow> slot_index h k n < n"
  by (simp add: slot_index_def)

lemma map_of_mset:
  assumes "distinct (map fst xs)" "mset xs = mset ys"
  shows "map_of xs = map_of ys"
proof -
  have "mset (map fst xs) = mset (map fst ys)" using assms(2) by (metis mset_map)
  then have "distinct (map fst ys)" using assms(1) by (metis mset_eq_imp_distinct_iff)
  moreover have "set xs = set ys" using assms(2) by (metis set_mset_mset)
  ultimately show ?thesis using assms(1) by (metis map_of_inject_set)
qed

section \<open>Growing the table\<close>

abbreviation (input) home :: "(64 word \<Rightarrow> 32 word) \<Rightarrow> nat \<Rightarrow> nat \<Rightarrow> hm_entry \<Rightarrow> bool" where
  "home h n j e \<equiv> slot_index h (fst e) n = j"

lemma rehash_slot_props:
  assumes "list_all slot_ok sl" "s < length sl" "\<forall>k < i. home h (length sl) s (entries (sl ! s) ! k)"
    "i \<le> entries_num (sl ! s)"
  shows "length (rehash_slot h s i sl) = length sl \<and> list_all slot_ok (rehash_slot h s i sl)
    \<and> mset (slot_entries (rehash_slot h s i sl)) = mset (slot_entries sl)
    \<and> list_all (home h (length sl) s) (entries (rehash_slot h s i sl ! s))
    \<and> (\<forall>j < length sl. j \<noteq> s \<longrightarrow> list_all (home h (length sl) j) (entries (sl ! j))
         \<longrightarrow> list_all (home h (length sl) j) (entries (rehash_slot h s i sl ! j)))"
  using assms
proof (induction h s i sl rule: rehash_slot.induct)
  case (1 h s i sl)
  show ?case
  proof (cases "i < entries_num (sl ! s)")
    case False
    then have "rehash_slot h s i sl = sl" by (subst rehash_slot.simps) simp
    moreover have "i = entries_num (sl ! s)" using False 1(6) by simp
    ultimately show ?thesis using 1(3,5) by (simp add: list_all_length)
  next
    case True
    let ?e = "entries (sl ! s) ! i"
    let ?d = "slot_index h (fst ?e) (length sl)"
    have c: "s < length sl \<and> i < entries_num (sl ! s)" using True 1(4) by simp
    show ?thesis
    proof (cases "?d = s")
      case d: True
      have "rehash_slot h s i sl = rehash_slot h s (i + 1) sl"
        using c d by (subst rehash_slot.simps) (simp add: Let_def)
      with 1(2) [OF c refl refl] d 1(3-6) True show ?thesis by (simp add: less_Suc_eq)
    next
      case d: False
      let ?sl = "sl[?d := push_entry (sl ! ?d) ?e]"
      let ?sl' = "?sl[s := drop_entry (sl ! s) i]"
      have dl: "?d < length sl" using 1(4) by (intro slot_index_less) linarith
      have rec: "rehash_slot h s i sl = rehash_slot h s i ?sl'"
        using c d by (subst rehash_slot.simps) (simp add: Let_def)
      have ss: "slot_ok (sl ! s)" "slot_ok (sl ! ?d)" using 1(3) c dl by (simp_all add: list_all_length)
      have ok: "list_all slot_ok ?sl'"
        using 1(3) ss c dl by (auto simp: list_all_length nth_list_update push_entry_ok drop_entry_ok)
      have s': "?sl' ! s = drop_entry (sl ! s) i" using c by simp
      have other: "entries (?sl' ! j) = (if j = ?d then entries (sl ! j) @ [?e] else entries (sl ! j))"
        if "j \<noteq> s" "j < length sl" for j
        using that ss dl by (simp add: nth_list_update push_entry_entries)
      have m1: "mset (slot_entries ?sl) + mset (entries (sl ! ?d))
          = mset (slot_entries sl) + (mset (entries (sl ! ?d)) + {#?e#})"
        using slot_entries_update [OF dl, of "push_entry (sl ! ?d) ?e"] ss(2) by (simp add: push_entry_entries)
      have m2: "mset (slot_entries ?sl') + mset (entries (sl ! s))
          = mset (slot_entries ?sl) + mset (entries (drop_entry (sl ! s) i))"
        using slot_entries_update [of s ?sl "drop_entry (sl ! s) i"] c d by simp
      have A: "mset (slot_entries ?sl) = add_mset ?e (mset (slot_entries sl))" using m1 by simp
      have "mset (slot_entries ?sl') + mset (entries (sl ! s)) = mset (slot_entries sl) + mset (entries (sl ! s))"
        unfolding m2 A using drop_entry_mset [of i "sl ! s", symmetric] c by simp
      then have mset: "mset (slot_entries ?sl') = mset (slot_entries sl)" by simp
      have bef: "\<forall>k < i. home h (length ?sl') s (entries (?sl' ! s) ! k)"
      proof (intro allI impI)
        fix k assume k: "k < i"
        then have "k < entries_num (sl ! s) - 1" using True by linarith
        with k 1(5) show "home h (length ?sl') s (entries (?sl' ! s) ! k)"
          unfolding s' by (simp add: drop_entry_def nth_butlast)
      qed
      have le: "i \<le> entries_num (?sl' ! s)" unfolding s' using True by (simp add: drop_entry_num)
      have sl': "s < length ?sl'" using c by simp
      have ssl: "?sl ! s = sl ! s" using d by simp
      note IH = 1(1) [OF c refl refl d, unfolded Let_def ssl, OF ok sl' bef le]
      have "\<forall>j < length sl. j \<noteq> s \<longrightarrow> list_all (home h (length sl) j) (entries (sl ! j))
          \<longrightarrow> list_all (home h (length sl) j) (entries (?sl' ! j))"
        using other by auto
      with IH c mset show ?thesis unfolding rec by simp
    qed
  qed
qed


lemma rehash_fold:
  assumes "list_all slot_ok sl" "n0 \<le> length sl" "m \<le> n0"
    "\<forall>j < length sl. n0 \<le> j \<longrightarrow> list_all (home h (length sl) j) (entries (sl ! j))"
  shows "let sl' = fold (\<lambda>s. rehash_slot h s 0) [0..<m] sl in
    length sl' = length sl \<and> list_all slot_ok sl' \<and> mset (slot_entries sl') = mset (slot_entries sl)
    \<and> (\<forall>j < length sl. j < m \<or> n0 \<le> j \<longrightarrow> list_all (home h (length sl) j) (entries (sl' ! j)))"
  using assms
proof (induction m)
  case (Suc m)
  let ?f = "fold (\<lambda>s. rehash_slot h s 0) [0..<m] sl"
  from Suc have IH: "length ?f = length sl" "list_all slot_ok ?f" "mset (slot_entries ?f) = mset (slot_entries sl)"
    "\<forall>j < length sl. j < m \<or> n0 \<le> j \<longrightarrow> list_all (home h (length sl) j) (entries (?f ! j))"
    by (simp_all add: Let_def)
  have "m < length ?f" using Suc.prems IH(1) by simp
  from rehash_slot_props [OF IH(2) this, of 0 h] IH show ?case
    by (auto simp: Let_def less_Suc_eq)
qed simp

lemma table_size_grow: "n \<le> table_size (n * 3 div 2)"
  using table_size_ge [of "n * 3 div 2"] by linarith

lemma hashmap_grow_inv:
  assumes "hashmap_inv hm"
  shows "hashmap_inv (hashmap_grow hm) \<and> hashmap_abs (hashmap_grow hm) = hashmap_abs hm"
proof -
  let ?n = "table_size (num_slots hm * 3 div 2)"
  let ?sl = "slots hm @ replicate (?n - num_slots hm) empty_slot"
  have n: "length ?sl = ?n" using table_size_grow [of "num_slots hm"] by simp
  have ok: "list_all slot_ok ?sl" using assms by (auto simp: hashmap_inv_def slot_ok_def list_all_iff)
  have m0: "slot_entries ?sl = hashmap_entries hm"
    by (simp add: slot_entries_def hashmap_entries_def)
  have new: "\<forall>j < length ?sl. num_slots hm \<le> j \<longrightarrow> list_all (home (hash_func hm) (length ?sl) j) (entries (?sl ! j))"
    by (simp add: nth_append)
  define sl' where "sl' = fold (\<lambda>s. rehash_slot (hash_func hm) s 0) [0..<num_slots hm] ?sl"
  have r: "length sl' = ?n" "list_all slot_ok sl'" "mset (slot_entries sl') = mset (hashmap_entries hm)"
    "\<forall>j < ?n. list_all (home (hash_func hm) ?n j) (entries (sl' ! j))"
    using rehash_fold [OF ok _ order_refl new] n m0 unfolding sl'_def
    by (auto simp: Let_def linorder_not_less)
  have g: "hashmap_grow hm = hm\<lparr>slots := sl'\<rparr>"
    by (simp add: hashmap_grow_def sl'_def Let_def)
  have d: "distinct (map fst (hashmap_entries hm))" using assms by (simp add: hashmap_inv_def)
  have "distinct (map fst (slot_entries sl'))"
    using d r(3) by (metis mset_eq_imp_distinct_iff mset_map)
  moreover have "length (slot_entries sl') = num_data hm"
    using r(3) assms by (metis hashmap_inv_def mset_eq_length)
  ultimately have "hashmap_inv (hashmap_grow hm)"
    using assms r unfolding g hashmap_inv_def by (simp add: hashmap_entries_def list_all_iff)
  moreover have "hashmap_abs (hashmap_grow hm) = hashmap_abs hm"
    using map_of_mset [OF d r(3) [symmetric]] unfolding g by (simp add: hashmap_abs_def hashmap_entries_def)
  ultimately show ?thesis by blast
qed

section \<open>The operations on the contents\<close>

lemma find_entry_eq:
  assumes "\<forall>a b. cmp a b = 0 \<longleftrightarrow> a = b"
  shows "case find_entry cmp key es of
      None \<Rightarrow> key \<notin> fst ` set es
    | Some i \<Rightarrow> i < length es \<and> fst (es ! i) = key"
  using assms
  by (induction es) (auto split: option.splits)

lemma hashmap_slot_lookup:
  assumes "hashmap_inv hm" "0 < num_slots hm" "d = slot_index (hash_func hm) key (num_slots hm)"
  shows "hashmap_abs hm key = map_of (entries (slots hm ! d)) key"
proof -
  have d: "d < num_slots hm" using assms(2,3) by (simp add: slot_index_less)
  have dis: "distinct (map fst (hashmap_entries hm))" using assms(1) by (simp add: hashmap_inv_def)
  have "(key, v) \<in> set (hashmap_entries hm) \<longleftrightarrow> (key, v) \<in> set (entries (slots hm ! d))" for v
    using assms(1,3) d by (fastforce simp: hashmap_entries_def slot_entries_set hashmap_inv_def)
  moreover have "distinct (map fst (entries (slots hm ! d)))"
  proof -
    have "slots hm = take d (slots hm) @ slots hm ! d # drop (Suc d) (slots hm)"
      using d by (rule id_take_nth_drop)
    then have "hashmap_entries hm = slot_entries (take d (slots hm)) @ entries (slots hm ! d) @ slot_entries (drop (Suc d) (slots hm))"
      unfolding hashmap_entries_def slot_entries_def by (metis concat.simps(2) concat_append list.simps(9) map_append)
    with dis show ?thesis by simp
  qed
  ultimately show ?thesis
    using dis unfolding hashmap_abs_def by (metis map_of_eq_Some_iff not_None_eq)
qed

lemma hashmap_get_abs:
  assumes "hashmap_inv hm"
  shows "zbx_hashmap_get hm key = (case hashmap_abs hm key of None \<Rightarrow> HM_FAIL | Some v \<Rightarrow> v)"
proof (cases "num_slots hm = 0")
  case True
  then show ?thesis by (simp add: zbx_hashmap_get_def hashmap_abs_def hashmap_entries_def slot_entries_def)
next
  case False
  let ?d = "slot_index (hash_func hm) key (num_slots hm)"
  let ?es = "entries (slots hm ! ?d)"
  have l: "hashmap_abs hm key = map_of ?es key" using hashmap_slot_lookup [OF assms _ refl] False by simp
  have dis: "distinct (map fst (hashmap_entries hm))" using assms by (simp add: hashmap_inv_def)
  have f: "case find_entry (compare_func hm) key ?es of None \<Rightarrow> key \<notin> fst ` set ?es
      | Some i \<Rightarrow> i < length ?es \<and> fst (?es ! i) = key"
    using assms by (intro find_entry_eq) (simp add: hashmap_inv_def)
  show ?thesis
  proof (cases "find_entry (compare_func hm) key ?es")
    case None
    with f l False show ?thesis
      by (simp add: zbx_hashmap_get_def Let_def map_of_eq_None_iff [symmetric])
  next
    case (Some i)
    with f have i: "i < length ?es" "fst (?es ! i) = key" by auto
    have "?d < num_slots hm" using False by (simp add: slot_index_less)
    moreover have "(key, snd (?es ! i)) \<in> set ?es" using i by (metis nth_mem prod.collapse)
    ultimately have "(key, snd (?es ! i)) \<in> set (hashmap_entries hm)"
      by (auto simp: hashmap_entries_def slot_entries_set)
    then have "hashmap_abs hm key = Some (snd (?es ! i))"
      using dis by (simp add: hashmap_abs_def)
    with Some False show ?thesis by (simp add: zbx_hashmap_get_def Let_def)
  qed
qed


lemma update_slot_inv:
  assumes "hashmap_inv hm" "d < num_slots hm" "slot_ok x"
    "\<forall>e \<in> set (entries x). slot_index (hash_func hm) (fst e) (num_slots hm) = d"
    "distinct (map fst (slot_entries ((slots hm)[d := x])))"
    "n = length (slot_entries ((slots hm)[d := x]))"
  shows "hashmap_inv (hm\<lparr>slots := (slots hm)[d := x], num_data := n\<rparr>)"
  using assms by (auto simp: hashmap_inv_def hashmap_entries_def nth_list_update list_all_length)

lemma update_value_mem:
  assumes "i < length es" "fst (es ! i) = key" "k \<noteq> key"
  shows "(k, w) \<in> set (es[i := (fst (es ! i), v)]) \<longleftrightarrow> (k, w) \<in> set es"
proof
  assume "(k, w) \<in> set (es[i := (fst (es ! i), v)])"
  then have "(k, w) \<in> insert (fst (es ! i), v) (set es)" using set_update_subset_insert by fast
  with assms show "(k, w) \<in> set es" by auto
next
  assume "(k, w) \<in> set es"
  then obtain j where j: "j < length es" "es ! j = (k, w)" by (auto simp: in_set_conv_nth)
  then have "i \<noteq> j" using assms by auto
  with j have "es[i := (fst (es ! i), v)] ! j = (k, w)" by simp
  with j(1) show "(k, w) \<in> set (es[i := (fst (es ! i), v)])" by (metis length_list_update nth_mem)
qed

lemma hashmap_set_inv:
  assumes "hashmap_inv hm"
  shows "hashmap_inv (zbx_hashmap_set hm key v) \<and> hashmap_abs (zbx_hashmap_set hm key v) = (hashmap_abs hm)(key \<mapsto> v)"
proof -
  define hm0 where "hm0 = (if num_slots hm = 0 then zbx_hashmap_init_slots hm 10 else hm)"
  have inv: "hashmap_inv hm0" "hashmap_abs hm0 = hashmap_abs hm" "0 < num_slots hm0"
    using assms table_size_ge [of 10]
    by (auto simp: hm0_def hashmap_inv_def zbx_hashmap_init_slots_def hashmap_abs_def hashmap_entries_def
        slot_entries_def slot_ok_def list_all_iff)
  let ?d = "slot_index (hash_func hm0) key (num_slots hm0)"
  let ?s = "slots hm0 ! ?d"
  have d: "?d < num_slots hm0" using inv(3) by (rule slot_index_less)
  have ok: "slot_ok ?s" using inv(1) d by (simp add: hashmap_inv_def list_all_length)
  have hm: "\<forall>e \<in> set (entries ?s). slot_index (hash_func hm0) (fst e) (num_slots hm0) = ?d"
    using inv(1) d by (simp add: hashmap_inv_def)
  have dis: "distinct (map fst (hashmap_entries hm0))" "num_data hm0 = length (hashmap_entries hm0)"
    using inv(1) by (simp_all add: hashmap_inv_def)
  have f: "case find_entry (compare_func hm0) key (entries ?s) of None \<Rightarrow> key \<notin> fst ` set (entries ?s)
      | Some i \<Rightarrow> i < entries_num ?s \<and> fst (entries ?s ! i) = key"
    using inv(1) by (intro find_entry_eq) (simp add: hashmap_inv_def)
  show ?thesis
  proof (cases "find_entry (compare_func hm0) key (entries ?s)")
    case None
    let ?x = "push_entry ?s (key, v)"
    let ?hm = "hm0\<lparr>slots := (slots hm0)[?d := ?x], num_data := num_data hm0 + 1\<rparr>"
    have m: "mset (slot_entries ((slots hm0)[?d := ?x])) = add_mset (key, v) (mset (hashmap_entries hm0))"
      using slot_entries_update [OF d, of ?x] ok by (simp add: push_entry_entries hashmap_entries_def)
    have new: "hashmap_abs hm0 key = None"
      using f None hashmap_slot_lookup [OF inv(1,3) refl] by (simp add: map_of_eq_None_iff)
    then have kd: "key \<notin> fst ` set (hashmap_entries hm0)" by (simp add: hashmap_abs_def map_of_eq_None_iff)
    have "mset (map fst (slot_entries ((slots hm0)[?d := ?x]))) = mset (map fst ((key, v) # hashmap_entries hm0))"
      using m by (metis mset.simps(2) mset_map)
    then have d': "distinct (map fst (slot_entries ((slots hm0)[?d := ?x])))"
      using dis(1) kd by (metis distinct.simps(2) list.set_map list.simps(9) mset_eq_imp_distinct_iff fst_conv)
    have i': "hashmap_inv ?hm"
    proof (rule update_slot_inv [OF inv(1) d push_entry_ok [OF ok] _ d'])
      show "\<forall>e \<in> set (entries ?x). slot_index (hash_func hm0) (fst e) (num_slots hm0) = ?d"
        using hm ok by (simp add: push_entry_entries)
      show "num_data hm0 + 1 = length (slot_entries ((slots hm0)[?d := ?x]))"
        using dis(2) m by (metis Suc_eq_plus1 size_add_mset size_mset)
    qed
    have "mset (hashmap_entries ?hm) = mset ((key, v) # hashmap_entries hm0)"
      using m by (simp add: hashmap_entries_def)
    then have a': "hashmap_abs ?hm = (hashmap_abs hm)(key \<mapsto> v)"
      using map_of_mset [of "hashmap_entries ?hm" "(key, v) # hashmap_entries hm0"] d' inv(2)
      by (simp add: hashmap_abs_def hashmap_entries_def)
    have "zbx_hashmap_set hm key v
        = (if num_data ?hm \<ge> num_slots ?hm * 5 then hashmap_grow ?hm else ?hm)"
      unfolding zbx_hashmap_set_def hm0_def [symmetric] using None by (simp add: Let_def)
    with i' a' hashmap_grow_inv [OF i'] show ?thesis by simp
  next
    case (Some i)
    with f have i: "i < entries_num ?s" "fst (entries ?s ! i) = key" by auto
    let ?x = "?s\<lparr>entries := (entries ?s)[i := (fst (entries ?s ! i), v)]\<rparr>"
    let ?hm = "hm0\<lparr>slots := (slots hm0)[?d := ?x], num_data := num_data hm0\<rparr>"
    have mf: "map fst (entries ?x) = map fst (entries ?s)"
      using i(1) by (simp add: map_update list_update_same_conv)
    have fl: "map fst (slot_entries ((slots hm0)[?d := ?x])) = map fst (hashmap_entries hm0)"
    proof -
      have "map (map fst \<circ> entries) ((slots hm0)[?d := ?x]) = map (map fst \<circ> entries) (slots hm0)"
        unfolding map_update using mf d by (simp add: list_update_same_conv)
      then show ?thesis by (simp add: slot_entries_def hashmap_entries_def map_concat comp_def)
    qed
    have i': "hashmap_inv ?hm"
    proof (rule update_slot_inv [OF inv(1) d])
      show "slot_ok ?x" using ok by (simp add: slot_ok_def)
      show "\<forall>e \<in> set (entries ?x). slot_index (hash_func hm0) (fst e) (num_slots hm0) = ?d"
      proof
        fix e assume "e \<in> set (entries ?x)"
        then have "fst e \<in> set (map fst (entries ?x))" by simp
        then have "fst e \<in> set (map fst (entries ?s))" unfolding mf .
        then show "slot_index (hash_func hm0) (fst e) (num_slots hm0) = ?d" using hm by auto
      qed
      show "distinct (map fst (slot_entries ((slots hm0)[?d := ?x])))" using dis(1) fl by simp
      show "num_data hm0 = length (slot_entries ((slots hm0)[?d := ?x]))"
        using dis(2) fl by (metis length_map)
    qed
    have a': "hashmap_abs ?hm = (hashmap_abs hm)(key \<mapsto> v)"
    proof
      fix k
      show "hashmap_abs ?hm k = ((hashmap_abs hm)(key \<mapsto> v)) k"
      proof (cases "k = key")
        case True
        have "(key, v) \<in> set (entries ?x)" using i by (simp add: set_update_memI)
        then have "(key, v) \<in> set (hashmap_entries ?hm)"
          using d by (auto simp: hashmap_entries_def slot_entries_set intro!: bexI [of _ ?d])
        moreover have "distinct (map fst (hashmap_entries ?hm))" using i' unfolding hashmap_inv_def by blast
        ultimately have "hashmap_abs ?hm key = Some v"
          unfolding hashmap_abs_def by (metis map_of_is_SomeI)
        then show ?thesis using True by simp
      next
        case False
        have "(k, w) \<in> set (entries ?x) \<longleftrightarrow> (k, w) \<in> set (entries ?s)" for w
          using update_value_mem [OF i False] by simp
        then have "(k, w) \<in> set (hashmap_entries ?hm) \<longleftrightarrow> (k, w) \<in> set (hashmap_entries hm0)" for w
          unfolding hashmap_entries_def using slot_entries_mem [OF d, of "(k, w)" ?x] by simp
        then have "hashmap_abs ?hm k = hashmap_abs hm0 k"
          using i' inv(1) unfolding hashmap_abs_def hashmap_inv_def by (metis map_of_eq_Some_iff not_None_eq)
        with False inv(2) show ?thesis by simp
      qed
    qed
    have "zbx_hashmap_set hm key v = ?hm"
      unfolding zbx_hashmap_set_def hm0_def [symmetric] using Some by (simp add: Let_def)
    with i' a' show ?thesis by simp
  qed
qed


lemma hashmap_remove_inv:
  assumes "hashmap_inv hm"
  shows "hashmap_inv (zbx_hashmap_remove hm key)
    \<and> hashmap_abs (zbx_hashmap_remove hm key) = (hashmap_abs hm)(key := None)"
proof (cases "num_slots hm = 0")
  case True
  then show ?thesis
    using assms by (auto simp: zbx_hashmap_remove_def hashmap_abs_def hashmap_entries_def slot_entries_def)
next
  case False
  let ?d = "slot_index (hash_func hm) key (num_slots hm)"
  let ?s = "slots hm ! ?d"
  have d: "?d < num_slots hm" using False by (simp add: slot_index_less)
  have ok: "slot_ok ?s" using assms d by (simp add: hashmap_inv_def list_all_length)
  have hm: "\<forall>e \<in> set (entries ?s). slot_index (hash_func hm) (fst e) (num_slots hm) = ?d"
    using assms d by (simp add: hashmap_inv_def)
  have dis: "distinct (map fst (hashmap_entries hm))" "num_data hm = length (hashmap_entries hm)"
    using assms by (simp_all add: hashmap_inv_def)
  have f: "case find_entry (compare_func hm) key (entries ?s) of None \<Rightarrow> key \<notin> fst ` set (entries ?s)
      | Some i \<Rightarrow> i < entries_num ?s \<and> fst (entries ?s ! i) = key"
    using assms by (intro find_entry_eq) (simp add: hashmap_inv_def)
  have look: "hashmap_abs hm key = map_of (entries ?s) key"
    using hashmap_slot_lookup [OF assms _ refl] False by simp
  show ?thesis
  proof (cases "find_entry (compare_func hm) key (entries ?s)")
    case None
    then have "hashmap_abs hm key = None" using f look by (simp add: map_of_eq_None_iff)
    then have "(hashmap_abs hm)(key := None) = hashmap_abs hm" by auto
    with None assms False show ?thesis by (simp add: zbx_hashmap_remove_def Let_def)
  next
    case (Some i)
    with f have i: "i < entries_num ?s" "fst (entries ?s ! i) = key" by auto
    let ?x = "drop_entry ?s i"
    let ?hm = "hm\<lparr>slots := (slots hm)[?d := ?x], num_data := num_data hm - 1\<rparr>"
    obtain v where e: "entries ?s ! i = (key, v)" using i(2) by (metis prod.collapse)
    have m: "add_mset (key, v) (mset (slot_entries ((slots hm)[?d := ?x]))) = mset (hashmap_entries hm)"
      using slot_entries_update [OF d, of ?x] drop_entry_mset [OF i(1), symmetric] e
      by (simp add: hashmap_entries_def)
    then have m': "mset ((key, v) # slot_entries ((slots hm)[?d := ?x])) = mset (hashmap_entries hm)" by simp
    then have dd: "distinct (map fst ((key, v) # slot_entries ((slots hm)[?d := ?x])))"
      using dis(1) by (metis mset_eq_imp_distinct_iff mset_map)
    have i': "hashmap_inv ?hm"
    proof (rule update_slot_inv [OF assms d drop_entry_ok [OF ok]])
      have "set_mset (mset (entries ?x)) \<subseteq> set_mset (mset (entries ?s))"
        unfolding drop_entry_mset [OF i(1), symmetric] by auto
      then show "\<forall>e \<in> set (entries ?x). slot_index (hash_func hm) (fst e) (num_slots hm) = ?d"
        using hm by auto
      show "distinct (map fst (slot_entries ((slots hm)[?d := ?x])))" using dd by simp
      show "num_data hm - 1 = length (slot_entries ((slots hm)[?d := ?x]))"
        using dis(2) mset_eq_length [OF m'] by simp
    qed
    have mo: "map_of ((key, v) # slot_entries ((slots hm)[?d := ?x])) = hashmap_abs hm"
      using map_of_mset [OF dd m'] by (simp add: hashmap_abs_def)
    have "(hashmap_abs hm)(key := None) = (map_of (slot_entries ((slots hm)[?d := ?x])))(key := None)"
      unfolding mo [symmetric] by simp
    moreover have "map_of (slot_entries ((slots hm)[?d := ?x])) key = None"
      using dd by (simp add: map_of_eq_None_iff)
    then have "(map_of (slot_entries ((slots hm)[?d := ?x])))(key := None) = hashmap_abs ?hm"
      by (auto simp: hashmap_abs_def hashmap_entries_def)
    ultimately have "hashmap_abs ?hm = (hashmap_abs hm)(key := None)" by simp
    with i' Some False show ?thesis by (simp add: zbx_hashmap_remove_def Let_def)
  qed
qed

lemma hashmap_clear_inv:
  assumes "hashmap_inv hm"
  shows "hashmap_inv (zbx_hashmap_clear hm) \<and> hashmap_abs (zbx_hashmap_clear hm) = Map.empty"
proof -
  have "slot_entries (map (\<lambda>s. s\<lparr>entries := []\<rparr>) (slots hm)) = []"
    by (simp add: slot_entries_def comp_def)
  with assms show ?thesis
    by (auto simp: zbx_hashmap_clear_def hashmap_inv_def hashmap_abs_def hashmap_entries_def slot_ok_def
        list_all_iff)
qed

lemma hashmap_create_inv:
  assumes "\<forall>a b. cmp a b = 0 \<longleftrightarrow> a = b"
  shows "hashmap_inv (zbx_hashmap_create_ext hm n h cmp) \<and> hashmap_abs (zbx_hashmap_create_ext hm n h cmp) = Map.empty"
proof -
  have "slot_entries (replicate k empty_slot) = []" for k
    by (simp add: slot_entries_def)
  then show ?thesis using assms
    by (auto simp: zbx_hashmap_create_ext_def zbx_hashmap_init_slots_def hashmap_inv_def hashmap_abs_def
        hashmap_entries_def slot_entries_def slot_ok_def list_all_iff)
qed

section \<open>The interface\<close>

text \<open>What a client of a map from keys to numbers may rely on.\<close>

locale int_map =
  fixes get :: "'m \<Rightarrow> 'k \<Rightarrow> int" and set :: "'m \<Rightarrow> 'k \<Rightarrow> int \<Rightarrow> 'm" and remove :: "'m \<Rightarrow> 'k \<Rightarrow> 'm"
    and clear :: "'m \<Rightarrow> 'm" and inv :: "'m \<Rightarrow> bool" and abs :: "'m \<Rightarrow> 'k \<rightharpoonup> int"
  assumes get_abs: "inv m \<Longrightarrow> get m k = (case abs m k of None \<Rightarrow> -1 | Some v \<Rightarrow> v)"
    and set_inv: "inv m \<Longrightarrow> inv (set m k v)"
    and set_abs: "inv m \<Longrightarrow> abs (set m k v) = (abs m)(k \<mapsto> v)"
    and remove_inv: "inv m \<Longrightarrow> inv (remove m k)"
    and remove_abs: "inv m \<Longrightarrow> abs (remove m k) = (abs m)(k := None)"
    and clear_inv: "inv m \<Longrightarrow> inv (clear m)"
    and clear_abs: "inv m \<Longrightarrow> abs (clear m) = Map.empty"
begin

lemma get_set: "inv m \<Longrightarrow> get (set m k v) k' = (if k' = k then v else get m k')"
  by (simp add: get_abs set_inv set_abs)

lemma get_remove: "inv m \<Longrightarrow> get (remove m k) k' = (if k' = k then -1 else get m k')"
  by (simp add: get_abs remove_inv remove_abs)

lemma get_clear: "inv m \<Longrightarrow> get (clear m) k = -1"
  by (simp add: get_abs clear_inv clear_abs)

lemmas laws = set_inv set_abs remove_inv remove_abs clear_inv clear_abs

end

interpretation hashmap: int_map zbx_hashmap_get zbx_hashmap_set zbx_hashmap_remove zbx_hashmap_clear
  hashmap_inv hashmap_abs
  by unfold_locales (simp_all add: hashmap_get_abs hashmap_set_inv hashmap_remove_inv hashmap_clear_inv)


section \<open>Runs\<close>

datatype hm_op = HM_set "64 word" int | HM_remove "64 word" | HM_clear

fun hm_apply :: "hm_op \<Rightarrow> zbx_hashmap \<Rightarrow> zbx_hashmap" where
  "hm_apply (HM_set k v) hm = zbx_hashmap_set hm k v"
| "hm_apply (HM_remove k) hm = zbx_hashmap_remove hm k"
| "hm_apply HM_clear hm = zbx_hashmap_clear hm"

fun hm_spec :: "hm_op \<Rightarrow> (64 word \<rightharpoonup> int) \<Rightarrow> 64 word \<rightharpoonup> int" where
  "hm_spec (HM_set k v) m = m(k \<mapsto> v)"
| "hm_spec (HM_remove k) m = m(k := None)"
| "hm_spec HM_clear m = Map.empty"

lemma hm_run:
  "hashmap_inv hm \<Longrightarrow> hashmap_inv (fold hm_apply ops hm)
    \<and> hashmap_abs (fold hm_apply ops hm) = fold hm_spec ops (hashmap_abs hm)"
proof (induction ops arbitrary: hm)
  case (Cons op ops)
  then show ?case by (cases op) (simp_all add: hashmap.laws fun_upd_def)
qed simp



end
