(* ===== verification/ZbxHeap.thy ===== *)
theory ZbxHeap
  imports ZbxHashmap
begin

text \<open>
  The binary heap of \<^verbatim>\<open>src/libs/zbxalgo/binaryheap.c\<close>, a priority queue of keys with data. The state holds the
  live elements as a list, so \<^verbatim>\<open>elems_num\<close> is its length, and the allocated size, 0 for a NULL array. With
  the direct option a hash map from keys to positions is kept, by which elements are updated and removed;
  without it the map is not used. \<open>realloc_ok\<close> says for which sizes the heap's reallocation function
  succeeds. A comparison function is arbitrary; the lemmas need it to be a total preorder
  (\<^verbatim>\<open>comparator\<close>).
\<close>

section \<open>State and operations\<close>

record heap_elem =
  key :: "64 word"
  data :: ptr

record zbx_binary_heap =
  elems :: "heap_elem list"
  elems_alloc :: nat
  options :: nat
  heap_compare :: "heap_elem \<Rightarrow> heap_elem \<Rightarrow> int"
  key_index :: zbx_hashmap
  realloc_ok :: "nat \<Rightarrow> bool"

abbreviation (input) elems_num :: "zbx_binary_heap \<Rightarrow> nat" where
  "elems_num heap \<equiv> length (elems heap)"

abbreviation (input) HAS_DIRECT_OPTION :: "zbx_binary_heap \<Rightarrow> bool" where
  "HAS_DIRECT_OPTION heap \<equiv> odd (options heap)"

definition heap_swap :: "zbx_binary_heap \<Rightarrow> nat \<Rightarrow> nat \<Rightarrow> zbx_binary_heap" where
  "heap_swap heap index_1 index_2 =
     (let tmp = elems heap ! index_1;
          es = (elems heap)[index_1 := elems heap ! index_2, index_2 := tmp];
          heap = heap\<lparr>elems := es\<rparr>
      in if HAS_DIRECT_OPTION heap then
           heap\<lparr>key_index := zbx_hashmap_set (zbx_hashmap_set (key_index heap) (key (es ! index_1)) (int index_1))
                  (key (es ! index_2)) (int index_2)\<rparr>
         else heap)"

definition binary_heap_ensure_free_space :: "zbx_binary_heap \<Rightarrow> c_fault + zbx_binary_heap" where
  "binary_heap_ensure_free_space heap =
     (let heap' = (if elems_alloc heap = 0 then heap\<lparr>elems := []\<rparr> else heap);
          tmp_elems_alloc =
            (if elems_alloc heap = 0 then 32
             else if elems_num heap = elems_alloc heap
             then max (elems_alloc heap + 1) (elems_alloc heap * 3 div 2)
             else elems_alloc heap)
      in if elems_alloc heap \<noteq> tmp_elems_alloc then
           if \<not> realloc_ok heap tmp_elems_alloc then Inl (EXIT_FAILURE '''')
           else Inr (heap'\<lparr>elems_alloc := tmp_elems_alloc\<rparr>)
         else Inr heap')"

function binary_heap_bubble_up :: "zbx_binary_heap \<Rightarrow> nat \<Rightarrow> zbx_binary_heap \<times> nat" where
  "binary_heap_bubble_up heap index =
     (if index \<noteq> 0 then
        if heap_compare heap (elems heap ! ((index - 1) div 2)) (elems heap ! index) \<le> 0 then (heap, index)
        else binary_heap_bubble_up (heap_swap heap ((index - 1) div 2) index) ((index - 1) div 2)
      else (heap, index))"
  by pat_completeness auto
termination binary_heap_bubble_up
  by (relation "measure snd") auto

declare binary_heap_bubble_up.simps [simp del]

lemma heap_swap_num [simp]: "length (elems (heap_swap heap i j)) = length (elems heap)"
  by (simp add: heap_swap_def Let_def)

function binary_heap_bubble_down :: "zbx_binary_heap \<Rightarrow> nat \<Rightarrow> zbx_binary_heap \<times> nat" where
  "binary_heap_bubble_down heap index =
     (let left = 2 * index + 1; right = 2 * index + 2 in
      if left \<ge> elems_num heap then (heap, index)
      else if right \<ge> elems_num heap then
        if heap_compare heap (elems heap ! index) (elems heap ! left) > 0
        then (heap_swap heap index left, left) else (heap, index)
      else if heap_compare heap (elems heap ! left) (elems heap ! right) \<le> 0 then
        if heap_compare heap (elems heap ! index) (elems heap ! left) > 0
        then binary_heap_bubble_down (heap_swap heap index left) left
        else (heap, index)
      else
        if heap_compare heap (elems heap ! index) (elems heap ! right) > 0
        then binary_heap_bubble_down (heap_swap heap index right) right
        else (heap, index))"
  by pat_completeness auto
termination binary_heap_bubble_down
  by (relation "measure (\<lambda>(heap, index). length (elems heap) - index)") auto

declare binary_heap_bubble_down.simps [simp del]

definition zbx_binary_heap_create_ext ::
  "(heap_elem \<Rightarrow> heap_elem \<Rightarrow> int) \<Rightarrow> nat \<Rightarrow> (nat \<Rightarrow> bool) \<Rightarrow> zbx_hashmap \<Rightarrow> zbx_binary_heap" where
  "zbx_binary_heap_create_ext compare opts realloc hm =
     \<lparr>elems = [], elems_alloc = 0, options = opts, heap_compare = compare,
      key_index = (if odd opts
        then zbx_hashmap_create_ext hm 512 zbx_hash_splittable64 zbx_default_uint64_compare_func else hm),
      realloc_ok = realloc\<rparr>"

definition zbx_binary_heap_create ::
  "(heap_elem \<Rightarrow> heap_elem \<Rightarrow> int) \<Rightarrow> nat \<Rightarrow> zbx_hashmap \<Rightarrow> zbx_binary_heap" where
  "zbx_binary_heap_create compare opts hm = zbx_binary_heap_create_ext compare opts (\<lambda>_. True) hm"

definition zbx_binary_heap_empty :: "zbx_binary_heap \<Rightarrow> bool" where
  "zbx_binary_heap_empty heap \<longleftrightarrow> elems_num heap = 0"

definition zbx_binary_heap_find_min :: "zbx_binary_heap \<Rightarrow> c_fault + heap_elem" where
  "zbx_binary_heap_find_min heap =
     (if elems_num heap = 0 then Inl (EXIT_FAILURE ''asking for a minimum in an empty heap'')
      else Inr (elems heap ! 0))"

definition zbx_binary_heap_insert :: "zbx_binary_heap \<Rightarrow> heap_elem \<Rightarrow> c_fault + zbx_binary_heap" where
  "zbx_binary_heap_insert heap elem =
     (if HAS_DIRECT_OPTION heap \<and> zbx_hashmap_get (key_index heap) (key elem) \<noteq> HM_FAIL
      then Inl (EXIT_FAILURE ''inserting a duplicate key into a heap with direct option'')
      else case binary_heap_ensure_free_space heap of
        Inl f \<Rightarrow> Inl f
      | Inr heap \<Rightarrow>
          let index = elems_num heap;
              (heap, index) = binary_heap_bubble_up (heap\<lparr>elems := elems heap @ [elem]\<rparr>) index
          in Inr (if HAS_DIRECT_OPTION heap \<and> index = elems_num heap - 1
               then heap\<lparr>key_index := zbx_hashmap_set (key_index heap) (key elem) (int index)\<rparr> else heap))"

definition zbx_binary_heap_update_direct :: "zbx_binary_heap \<Rightarrow> heap_elem \<Rightarrow> c_fault + zbx_binary_heap" where
  "zbx_binary_heap_update_direct heap elem =
     (if \<not> HAS_DIRECT_OPTION heap
      then Inl (EXIT_FAILURE ''direct update operation is not supported for this heap'')
      else let i = zbx_hashmap_get (key_index heap) (key elem) in
        if i \<noteq> HM_FAIL then
          let index = nat i; heap = heap\<lparr>elems := (elems heap)[index := elem]\<rparr>;
              (heap, index') = binary_heap_bubble_up heap index
          in Inr (if index = index' then fst (binary_heap_bubble_down heap index) else heap)
        else Inl (EXIT_FAILURE ''element with key not found in heap for update''))"

definition zbx_binary_heap_remove_min :: "zbx_binary_heap \<Rightarrow> c_fault + zbx_binary_heap" where
  "zbx_binary_heap_remove_min heap =
     (if elems_num heap = 0 then Inl (EXIT_FAILURE ''removing a minimum from an empty heap'')
      else
        let heap = (if HAS_DIRECT_OPTION heap
                    then heap\<lparr>key_index := zbx_hashmap_remove (key_index heap) (key (elems heap ! 0))\<rparr> else heap);
            last_elem = last (elems heap);
            heap = heap\<lparr>elems := butlast (elems heap)\<rparr>
        in Inr (if elems_num heap \<noteq> 0 then
             let (heap, index) = binary_heap_bubble_down (heap\<lparr>elems := (elems heap)[0 := last_elem]\<rparr>) 0
             in if HAS_DIRECT_OPTION heap \<and> index = 0
                then heap\<lparr>key_index := zbx_hashmap_set (key_index heap) (key (elems heap ! index)) (int index)\<rparr>
                else heap
           else heap))"

definition zbx_binary_heap_remove_direct :: "zbx_binary_heap \<Rightarrow> 64 word \<Rightarrow> c_fault + zbx_binary_heap" where
  "zbx_binary_heap_remove_direct heap k =
     (if \<not> HAS_DIRECT_OPTION heap
      then Inl (EXIT_FAILURE ''direct remove operation is not supported for this heap'')
      else let i = zbx_hashmap_get (key_index heap) k in
        if i \<noteq> HM_FAIL then
          let index = nat i;
              heap = heap\<lparr>key_index := zbx_hashmap_remove (key_index heap) k\<rparr>;
              last_elem = last (elems heap);
              heap = heap\<lparr>elems := butlast (elems heap)\<rparr>
          in Inr (if index \<noteq> elems_num heap then
               let (heap, index') = binary_heap_bubble_up (heap\<lparr>elems := (elems heap)[index := last_elem]\<rparr>) index
               in if index = index' then
                    let (heap, index') = binary_heap_bubble_down heap index
                    in if index = index'
                       then heap\<lparr>key_index := zbx_hashmap_set (key_index heap) (key (elems heap ! index)) (int index)\<rparr>
                       else heap
                  else heap
             else heap)
        else Inl (EXIT_FAILURE ''element with key not found in heap for remove''))"

definition zbx_binary_heap_clear :: "zbx_binary_heap \<Rightarrow> zbx_binary_heap" where
  "zbx_binary_heap_clear heap =
     (let heap = heap\<lparr>elems := []\<rparr>
      in if HAS_DIRECT_OPTION heap then heap\<lparr>key_index := zbx_hashmap_clear (key_index heap)\<rparr> else heap)"

section \<open>The order of the elements\<close>

abbreviation (input) parent :: "nat \<Rightarrow> nat" where
  "parent i \<equiv> (i - 1) div 2"

context comparator
begin

text \<open>
  The heap order; the order but at the edges of one position \<open>i\<close>, with the position's parent below its
  children; and the order but above \<open>i\<close>, or but below it.
\<close>

definition heap_order :: "'a list \<Rightarrow> bool" where
  "heap_order xs \<longleftrightarrow> (\<forall>j < length xs. 0 < j \<longrightarrow> cmp (xs ! parent j) (xs ! j) \<le> 0)"

definition skips :: "nat \<Rightarrow> 'a list \<Rightarrow> bool" where
  "skips i xs \<longleftrightarrow> (\<forall>j < length xs. 0 < j \<and> 0 < i \<and> parent j = i \<longrightarrow> cmp (xs ! parent i) (xs ! j) \<le> 0)"

definition order_except :: "nat \<Rightarrow> 'a list \<Rightarrow> bool" where
  "order_except i xs \<longleftrightarrow> skips i xs
     \<and> (\<forall>j < length xs. 0 < j \<and> j \<noteq> i \<and> parent j \<noteq> i \<longrightarrow> cmp (xs ! parent j) (xs ! j) \<le> 0)"

definition order_above :: "nat \<Rightarrow> 'a list \<Rightarrow> bool" where
  "order_above i xs \<longleftrightarrow> skips i xs
     \<and> (\<forall>j < length xs. 0 < j \<and> j \<noteq> i \<longrightarrow> cmp (xs ! parent j) (xs ! j) \<le> 0)"

definition order_below :: "nat \<Rightarrow> 'a list \<Rightarrow> bool" where
  "order_below i xs \<longleftrightarrow> skips i xs
     \<and> (\<forall>j < length xs. 0 < j \<and> parent j \<noteq> i \<longrightarrow> cmp (xs ! parent j) (xs ! j) \<le> 0)"

lemma heap_order_skips: "heap_order xs \<Longrightarrow> skips i xs"
  unfolding skips_def
proof (intro allI impI, elim conjE)
  fix j assume h: "heap_order xs" and j: "j < length xs" "0 < j" "0 < i" "parent j = i"
  then have "i < length xs" by linarith
  with h j have "cmp (xs ! parent i) (xs ! i) \<le> 0" "cmp (xs ! i) (xs ! j) \<le> 0"
    by (auto simp: heap_order_def)
  then show "cmp (xs ! parent i) (xs ! j) \<le> 0" by (rule cmp_trans)
qed

lemma update_order_except:
  assumes "heap_order xs" "i < length xs"
  shows "order_except i (xs[i := x])"
  unfolding order_except_def skips_def
proof (intro conjI allI impI; elim conjE)
  fix j assume j: "j < length (xs[i := x])" "0 < j" "0 < i" "parent j = i"
  then have "parent i \<noteq> i" "j \<noteq> i" by linarith+
  with heap_order_skips [OF assms(1), of i] j show "cmp (xs[i := x] ! parent i) (xs[i := x] ! j) \<le> 0"
    by (simp add: skips_def)
next
  fix j assume "j < length (xs[i := x])" "0 < j" "j \<noteq> i" "parent j \<noteq> i"
  with assms(1) show "cmp (xs[i := x] ! parent j) (xs[i := x] ! j) \<le> 0"
    by (simp add: heap_order_def)
qed

lemma append_order_except:
  assumes "heap_order xs"
  shows "order_except (length xs) (xs @ [x])"
  unfolding order_except_def skips_def
proof (intro conjI allI impI; elim conjE)
  fix j assume "j < length (xs @ [x])" "0 < j" "0 < length xs" "parent j = length xs"
  then have False by simp
  then show "cmp ((xs @ [x]) ! parent (length xs)) ((xs @ [x]) ! j) \<le> 0" ..
next
  fix j assume "j < length (xs @ [x])" "0 < j" "j \<noteq> length xs" "parent j \<noteq> length xs"
  then have "j < length xs" "parent j < length xs" by simp_all
  with assms \<open>0 < j\<close> show "cmp ((xs @ [x]) ! parent j) ((xs @ [x]) ! j) \<le> 0"
    by (simp add: heap_order_def nth_append)
qed

lemma butlast_heap_order: "heap_order xs \<Longrightarrow> heap_order (butlast xs)"
  by (auto simp: heap_order_def nth_butlast)

text \<open>One step up and one step down.\<close>

lemma step_up:
  assumes "order_except i xs \<or> order_above i xs" "i < length xs" "0 < i" "0 < cmp (xs ! parent i) (xs ! i)"
  shows "order_above (parent i) (xs[parent i := xs ! i, i := xs ! parent i])"
proof -
  let ?p = "parent i"
  let ?ys = "xs[?p := xs ! i, i := xs ! ?p]"
  have p: "?p < i" "?p < length xs" using assms(2,3) by linarith+
  have sk: "skips i xs" using assms(1) by (auto simp: order_except_def order_above_def)
  have ord: "cmp (xs ! parent j) (xs ! j) \<le> 0" if "j < length xs" "0 < j" "j \<noteq> i" "parent j \<noteq> i" for j
    using assms(1) that by (auto simp: order_except_def order_above_def)
  have less: "cmp (xs ! i) (xs ! ?p) \<le> 0" using assms(4) by (rule cmp_total)
  have sib: "cmp (xs ! ?p) (xs ! j) \<le> 0" if "j < length xs" "0 < j" "j \<noteq> i" "parent j = ?p" for j
    using ord [OF that(1-3)] that(4) p by simp
  have y: "?ys ! ?p = xs ! i" "?ys ! i = xs ! ?p" "\<And>j. j \<noteq> i \<Longrightarrow> j \<noteq> ?p \<Longrightarrow> ?ys ! j = xs ! j"
    using p assms(2) by simp_all
  show ?thesis
    unfolding order_above_def skips_def
  proof (intro conjI allI impI; elim conjE)
    fix j assume j: "j < length ?ys" "0 < j" "0 < ?p" "parent j = ?p"
    have pp: "parent ?p < ?p" using j(3) by linarith
    then have op: "cmp (xs ! parent ?p) (xs ! ?p) \<le> 0" using ord [of ?p] p j(3) by simp
    have yp: "?ys ! parent ?p = xs ! parent ?p" using y(3) [of "parent ?p"] pp p by simp
    show "cmp (?ys ! parent ?p) (?ys ! j) \<le> 0"
    proof (cases "j = i")
      case True
      then show ?thesis using op yp y(2) by simp
    next
      case False
      moreover have "j \<noteq> ?p" using j(2,4) by linarith
      ultimately have "?ys ! j = xs ! j" by (rule y(3))
      moreover have "cmp (xs ! ?p) (xs ! j) \<le> 0" using sib j False by simp
      ultimately show ?thesis using op yp cmp_trans by metis
    qed
  next
    fix j assume j: "j < length ?ys" "0 < j" "j \<noteq> ?p"
    show "cmp (?ys ! parent j) (?ys ! j) \<le> 0"
    proof (cases "j = i")
      case True
      then show ?thesis using less y(1,2) by simp
    next
      case ji: False
      then have yj: "?ys ! j = xs ! j" using j(3) by (rule y(3))
      show ?thesis
      proof (cases "parent j = ?p")
        case True
        have "cmp (xs ! ?p) (xs ! j) \<le> 0" using sib j ji True by simp
        with less have "cmp (xs ! i) (xs ! j) \<le> 0" by (rule cmp_trans)
        then show ?thesis using True y(1) yj by simp
      next
        case jp: False
        show ?thesis
        proof (cases "parent j = i")
          case True
          then have "cmp (xs ! ?p) (xs ! j) \<le> 0" using sk j(1,2) assms(3) by (simp add: skips_def)
          then show ?thesis using True y(2) yj by simp
        next
          case False
          then have "?ys ! parent j = xs ! parent j" using jp by (intro y(3)) auto
          then show ?thesis using ord [of j] j ji False yj by simp
        qed
      qed
    qed
  qed
qed

lemma step_down:
  assumes "order_below i xs" "c < length xs" "0 < c" "parent c = i" "0 < cmp (xs ! i) (xs ! c)"
    "\<And>j. j < length xs \<Longrightarrow> 0 < j \<Longrightarrow> parent j = i \<Longrightarrow> cmp (xs ! c) (xs ! j) \<le> 0"
  shows "order_below c (xs[i := xs ! c, c := xs ! i])"
proof -
  let ?ys = "xs[i := xs ! c, c := xs ! i]"
  have i: "i < c" "i < length xs" using assms(2-4) by linarith+
  have sk: "skips i xs" using assms(1) by (simp add: order_below_def)
  have ord: "cmp (xs ! parent j) (xs ! j) \<le> 0" if "j < length xs" "0 < j" "parent j \<noteq> i" for j
    using assms(1) that by (simp add: order_below_def)
  have y: "?ys ! i = xs ! c" "?ys ! c = xs ! i" "\<And>j. j \<noteq> i \<Longrightarrow> j \<noteq> c \<Longrightarrow> ?ys ! j = xs ! j"
    using i assms(2) by simp_all
  show ?thesis
    unfolding order_below_def skips_def
  proof (intro conjI allI impI; elim conjE)
    fix j assume j: "j < length ?ys" "0 < j" "0 < c" "parent j = c"
    then have "j \<noteq> c" "j \<noteq> i" using i by linarith+
    moreover have "cmp (xs ! c) (xs ! j) \<le> 0" using ord [of j] j i by simp
    ultimately show "cmp (?ys ! parent c) (?ys ! j) \<le> 0" using assms(4) y by simp
  next
    fix j assume j: "j < length ?ys" "0 < j" "parent j \<noteq> c"
    show "cmp (?ys ! parent j) (?ys ! j) \<le> 0"
    proof (cases "j = c")
      case True
      then show ?thesis using cmp_total [OF assms(5)] assms(4) y by simp
    next
      case jc: False
      show ?thesis
      proof (cases "parent j = i")
        case True
        then have "j \<noteq> i" using j(2) by linarith
        then show ?thesis using assms(6) [of j] j True jc y by simp
      next
        case pi: False
        then have yp: "?ys ! parent j = xs ! parent j" using j(3) by (intro y(3)) auto
        show ?thesis
        proof (cases "j = i")
          case True
          have "cmp (xs ! parent i) (xs ! c) \<le> 0" using sk assms(2-4) j(2) True by (simp add: skips_def)
          then show ?thesis using yp True y(1) by simp
        next
          case False
          then show ?thesis using ord [of j] j pi jc yp y(3) by simp
        qed
      qed
    qed
  qed
qed

lemma above_done:
  "order_above i xs \<Longrightarrow> i = 0 \<or> cmp (xs ! parent i) (xs ! i) \<le> 0 \<Longrightarrow> heap_order xs"
  by (auto simp: order_above_def heap_order_def)

lemma below_done:
  "order_below i xs \<Longrightarrow> (\<And>j. j < length xs \<Longrightarrow> 0 < j \<Longrightarrow> parent j = i \<Longrightarrow> cmp (xs ! i) (xs ! j) \<le> 0)
    \<Longrightarrow> heap_order xs"
  by (auto simp: order_below_def heap_order_def)

lemma except_below:
  "order_except i xs \<Longrightarrow> i = 0 \<or> cmp (xs ! parent i) (xs ! i) \<le> 0 \<Longrightarrow> order_below i xs"
  by (auto simp: order_except_def order_below_def)

lemma heap_order_min:
  assumes "heap_order xs" "i < length xs"
  shows "cmp (xs ! 0) (xs ! i) \<le> 0"
  using assms(2)
proof (induction i rule: less_induct)
  case (less i)
  show ?case
  proof (cases "i = 0")
    case True
    then show ?thesis by (simp add: cmp_refl)
  next
    case False
    then have "parent i < i" "parent i < length xs" using less.prems by linarith+
    then have "cmp (xs ! 0) (xs ! parent i) \<le> 0" by (rule less.IH)
    moreover have "cmp (xs ! parent i) (xs ! i) \<le> 0" using assms(1) less.prems False by (simp add: heap_order_def)
    ultimately show ?thesis by (rule cmp_trans)
  qed
qed

end


section \<open>The index of the keys\<close>

text \<open>
  Distinct keys, and each is mapped to its position, but for the element at position \<open>p\<close>, whose entry may be
  missing or old. A position past the end makes no exception.
\<close>

definition index_except :: "nat \<Rightarrow> heap_elem list \<Rightarrow> (64 word \<rightharpoonup> int) \<Rightarrow> bool" where
  "index_except p xs m \<longleftrightarrow> distinct (map key xs) \<and> dom m \<subseteq> key ` set xs
     \<and> (\<forall>i < length xs. i \<noteq> p \<longrightarrow> m (key (xs ! i)) = Some (int i))"

definition index_at :: "nat \<Rightarrow> zbx_binary_heap \<Rightarrow> bool" where
  "index_at p h \<longleftrightarrow> (HAS_DIRECT_OPTION h \<longrightarrow>
     hashmap_inv (key_index h) \<and> index_except p (elems h) (hashmap_abs (key_index h)))"

abbreviation index_ok :: "zbx_binary_heap \<Rightarrow> bool" where
  "index_ok h \<equiv> index_at (length (elems h)) h"

definition same_heap :: "zbx_binary_heap \<Rightarrow> zbx_binary_heap \<Rightarrow> bool" where
  "same_heap h h' \<longleftrightarrow> options h' = options h \<and> elems_alloc h' = elems_alloc h
     \<and> heap_compare h' = heap_compare h \<and> realloc_ok h' = realloc_ok h \<and> mset (elems h') = mset (elems h)"

lemma same_heap_refl [simp]: "same_heap h h"
  by (simp add: same_heap_def)

lemma same_heap_trans: "same_heap a b \<Longrightarrow> same_heap b c \<Longrightarrow> same_heap a c"
  by (simp add: same_heap_def)

lemma same_heap_num: "same_heap h h' \<Longrightarrow> length (elems h') = length (elems h)"
  unfolding same_heap_def by (metis mset_eq_length)

lemma heap_swap_same:
  "i < length (elems h) \<Longrightarrow> j < length (elems h) \<Longrightarrow> same_heap h (heap_swap h i j)"
  by (simp add: heap_swap_def same_heap_def Let_def mset_swap)

lemma heap_swap_elems:
  "elems (heap_swap h i j) = (elems h)[i := elems h ! j, j := elems h ! i]"
  by (simp add: heap_swap_def Let_def)

lemma key_nth_eq_iff:
  "distinct (map key xs) \<Longrightarrow> a < length xs \<Longrightarrow> b < length xs \<Longrightarrow> key (xs ! a) = key (xs ! b) \<longleftrightarrow> a = b"
  using nth_eq_iff_index_eq [of "map key xs" a b] by simp

lemma index_swap:
  assumes "index_except p xs m" "i < length xs" "j < length xs" "i \<noteq> j" "p = i \<or> p = j \<or> length xs \<le> p"
    "ys = xs[i := xs ! j, j := xs ! i]"
  shows "index_except (length ys) ys (m(key (ys ! i) \<mapsto> int i, key (ys ! j) \<mapsto> int j))"
proof -
  have d: "distinct (map key xs)" using assms(1) by (simp add: index_except_def)
  have ms: "mset ys = mset xs" using assms(2,3,6) by (simp add: mset_swap)
  have d': "distinct (map key ys)" using d ms by (metis mset_eq_imp_distinct_iff mset_map)
  have st: "set ys = set xs" using ms by (metis set_mset_mset)
  have y: "ys ! i = xs ! j" "ys ! j = xs ! i" "length ys = length xs" using assms(2,3,4,6) by simp_all
  have kinj: "key (xs ! a) = key (xs ! b) \<longleftrightarrow> a = b" if "a < length xs" "b < length xs" for a b
    by (rule key_nth_eq_iff [OF d that])
  have "(m(key (ys ! i) \<mapsto> int i, key (ys ! j) \<mapsto> int j)) (key (ys ! k)) = Some (int k)" if k: "k < length ys" for k
  proof (cases "k = i \<or> k = j")
    case True
    then show ?thesis using y kinj [OF assms(2,3)] assms(4) by auto
  next
    case False
    then have yk: "ys ! k = xs ! k" using assms(6) by simp
    have "k \<noteq> p" using False assms(5) k y(3) by auto
    then have "m (key (xs ! k)) = Some (int k)" using assms(1) k y(3) by (simp add: index_except_def)
    moreover have "key (xs ! k) \<noteq> key (xs ! i)" "key (xs ! k) \<noteq> key (xs ! j)"
      using kinj [of k i] kinj [of k j] False k y(3) assms(2,3) by auto
    ultimately show ?thesis using y yk by simp
  qed
  moreover have "dom (m(key (ys ! i) \<mapsto> int i, key (ys ! j) \<mapsto> int j)) \<subseteq> key ` set ys"
    using assms(1-3) y unfolding st by (auto simp: index_except_def)
  ultimately show ?thesis using d' by (simp add: index_except_def)
qed

lemma heap_swap_index:
  assumes "index_at p h" "i < length (elems h)" "j < length (elems h)" "i \<noteq> j"
    "p = i \<or> p = j \<or> length (elems h) \<le> p"
  shows "index_ok (heap_swap h i j)"
  using assms index_swap [OF _ assms(2-5) refl, of "hashmap_abs (key_index h)"]
  by (auto simp: index_at_def heap_swap_def Let_def hashmap.laws)

lemma bubble_up_index:
  assumes "index_at p h" "p = i \<or> length (elems h) \<le> p" "i < length (elems h)"
    "binary_heap_bubble_up h i = (h', i')"
  shows "same_heap h h' \<and> i' \<le> i \<and> (if i' = i then h' = h else index_ok h')"
  using assms
proof (induction h i arbitrary: p rule: binary_heap_bubble_up.induct)
  case (1 h i)
  show ?case
  proof (cases "i \<noteq> 0 \<and> \<not> heap_compare h (elems h ! parent i) (elems h ! i) \<le> 0")
    case False
    with 1(5) have "h' = h" "i' = i"
      by (subst (asm) binary_heap_bubble_up.simps, auto split: if_splits)+
    then show ?thesis by simp
  next
    case True
    let ?h = "heap_swap h (parent i) i"
    have up: "binary_heap_bubble_up ?h (parent i) = (h', i')"
      using 1(5) True by (subst (asm) binary_heap_bubble_up.simps) simp
    have lt: "parent i < i" "parent i < length (elems h)" using True 1(4) by linarith+
    have same: "same_heap h ?h" using lt 1(4) by (intro heap_swap_same)
    have idx: "index_ok ?h" using 1(2,3,4) lt by (intro heap_swap_index) auto
    have "same_heap ?h h' \<and> i' \<le> parent i \<and> (if i' = parent i then h' = ?h else index_ok h')"
      by (rule 1(1) [of "length (elems ?h)"]) (use True idx lt up in auto)
    with same same_heap_trans lt(1) idx show ?thesis by (auto split: if_splits)
  qed
qed

lemma bubble_down_index:
  assumes "index_at p h" "p = i \<or> length (elems h) \<le> p" "i < length (elems h)"
    "binary_heap_bubble_down h i = (h', i')"
  shows "same_heap h h' \<and> i \<le> i' \<and> (if i' = i then h' = h else index_ok h')"
  using assms
proof (induction h i arbitrary: p rule: binary_heap_bubble_down.induct)
  case (1 h i)
  let ?l = "2 * i + 1" and ?r = "2 * i + 2"
  have swap: "same_heap h (heap_swap h i c) \<and> index_ok (heap_swap h i c)" if "c < length (elems h)" "i < c" for c
    using that 1(4) heap_swap_same [OF 1(5) that(1)] heap_swap_index [OF 1(3,5) that(1)] by auto
  have fin: ?case if c: "c < length (elems h)" "i < c"
    and r: "same_heap (heap_swap h i c) h' \<and> c \<le> i' \<and> (if i' = c then h' = heap_swap h i c else index_ok h')" for c
    using r swap [OF c] c same_heap_trans by (auto split: if_splits)
  show ?case
  proof (cases "?l \<ge> length (elems h)")
    case True
    with 1(6) show ?thesis by (simp add: binary_heap_bubble_down.simps [of h i])
  next
    case l: False
    show ?thesis
    proof (cases "?r \<ge> length (elems h)")
      case r: True
      show ?thesis
      proof (cases "heap_compare h (elems h ! i) (elems h ! ?l) > 0")
        case True
        have "binary_heap_bubble_down h i = (heap_swap h i ?l, ?l)"
          using l r True by (simp add: binary_heap_bubble_down.simps [of h i])
        then have "h' = heap_swap h i ?l \<and> i' = ?l" unfolding 1(6) by simp
        then show ?thesis using fin [of ?l] l by simp
      next
        case False
        with 1(6) l r show ?thesis by (simp add: binary_heap_bubble_down.simps [of h i])
      qed
    next
      case r: False
      show ?thesis
      proof (cases "heap_compare h (elems h ! ?l) (elems h ! ?r) \<le> 0")
        case lr: True
        show ?thesis
        proof (cases "heap_compare h (elems h ! i) (elems h ! ?l) > 0")
          case True
          with 1(6) l r lr have rec: "binary_heap_bubble_down (heap_swap h i ?l) ?l = (h', i')"
            by (simp add: binary_heap_bubble_down.simps [of h i])
          show ?thesis
            by (rule fin [of ?l], use l in simp, simp,
                rule 1(1) [OF refl refl l r lr True _ _ _ rec], use swap [of ?l] l in auto)
        next
          case False
          with 1(6) l r lr show ?thesis by (simp add: binary_heap_bubble_down.simps [of h i])
        qed
      next
        case lr: False
        show ?thesis
        proof (cases "heap_compare h (elems h ! i) (elems h ! ?r) > 0")
          case True
          with 1(6) l r lr have rec: "binary_heap_bubble_down (heap_swap h i ?r) ?r = (h', i')"
            by (simp add: binary_heap_bubble_down.simps [of h i])
          show ?thesis
            by (rule fin [of ?r], use r in simp, simp,
                rule 1(2) [OF refl refl l r lr True _ _ _ rec], use swap [of ?r] r in auto)
        next
          case False
          with 1(6) l r lr show ?thesis by (simp add: binary_heap_bubble_down.simps [of h i])
        qed
      qed
    qed
  qed
qed


text \<open>Heaps whose comparison function is a total preorder, such as the order of the keys.\<close>

locale heap_comparator = comparator cmp for cmp :: "heap_elem \<Rightarrow> heap_elem \<Rightarrow> int"
begin

lemma bubble_up_above:
  assumes "heap_compare h = cmp" "order_above i (elems h)" "i < length (elems h)"
    "binary_heap_bubble_up h i = (h', i')"
  shows "heap_order (elems h')"
  using assms
proof (induction h i rule: binary_heap_bubble_up.induct)
  case (1 h i)
  show ?case
  proof (cases "i \<noteq> 0 \<and> \<not> heap_compare h (elems h ! parent i) (elems h ! i) \<le> 0")
    case False
    then have "binary_heap_bubble_up h i = (h, i)" by (auto simp: binary_heap_bubble_up.simps [of h i])
    then have "h' = h" unfolding 1(5) by simp
    with above_done [OF 1(3)] False 1(2) show ?thesis by auto
  next
    case True
    let ?h = "heap_swap h (parent i) i"
    have up: "binary_heap_bubble_up ?h (parent i) = (h', i')"
      using 1(5) True by (simp add: binary_heap_bubble_up.simps [of h i])
    have "order_above (parent i) (elems ?h)"
      unfolding heap_swap_elems using step_up [of i "elems h"] 1(2-4) True by auto
    moreover have "parent i < length (elems ?h)" using 1(4) by simp
    moreover have "heap_compare ?h = cmp" using 1(2) by (simp add: heap_swap_def Let_def)
    ultimately show ?thesis using 1(1) True up by blast
  qed
qed

lemma bubble_up_except:
  assumes "heap_compare h = cmp" "order_except i (elems h)" "i < length (elems h)"
    "binary_heap_bubble_up h i = (h', i')"
  shows "if i' = i then order_below i (elems h) else heap_order (elems h')"
proof (cases "i \<noteq> 0 \<and> \<not> heap_compare h (elems h ! parent i) (elems h ! i) \<le> 0")
  case False
  then have "binary_heap_bubble_up h i = (h, i)" by (auto simp: binary_heap_bubble_up.simps [of h i])
  then have "i' = i" unfolding assms(4) by simp
  with except_below [OF assms(2)] False assms(1) show ?thesis by auto
next
  case True
  let ?h = "heap_swap h (parent i) i"
  have up: "binary_heap_bubble_up ?h (parent i) = (h', i')"
    using assms(4) True by (simp add: binary_heap_bubble_up.simps [of h i])
  have "order_above (parent i) (elems ?h)"
    unfolding heap_swap_elems using step_up [of i "elems h"] assms(1-3) True by auto
  moreover have p: "parent i < length (elems ?h)" using assms(3) by simp
  moreover have "heap_compare ?h = cmp" using assms(1) by (simp add: heap_swap_def Let_def)
  ultimately have "heap_order (elems h')" using bubble_up_above up by blast
  moreover have "j' \<le> j" if "binary_heap_bubble_up g j = (g', j')" for g j g' j'
    using that
  proof (induction g j rule: binary_heap_bubble_up.induct)
    case (1 g j)
    then show ?case by (fastforce simp: binary_heap_bubble_up.simps [of g j] split: if_splits)
  qed
  then have "i' \<noteq> i" using up True by (metis div_less_dividend less_le_not_le diff_less le_trans
      bot_nat_0.not_eq_extremum div_le_dividend less_numeral_extra(1))
  ultimately show ?thesis by simp
qed

lemma child_cases: "0 < j \<Longrightarrow> parent j = i \<Longrightarrow> j = 2 * i + 1 \<or> j = 2 * i + (2::nat)"
  by linarith

lemma bubble_down_below:
  assumes "heap_compare h = cmp" "order_below i (elems h)" "i < length (elems h)"
    "binary_heap_bubble_down h i = (h', i')"
  shows "heap_order (elems h')"
  using assms
proof (induction h i rule: binary_heap_bubble_down.induct)
  case (1 h i)
  let ?l = "2 * i + 1" and ?r = "2 * i + 2"
  have par: "parent ?l = i" "parent ?r = i" by simp_all
  have cs: "heap_compare (heap_swap h i c) = cmp" for c using 1(3) by (simp add: heap_swap_def Let_def)
  have down: "order_below c (elems (heap_swap h i c))"
    if "c < length (elems h)" "c = ?l \<or> c = ?r" "0 < cmp (elems h ! i) (elems h ! c)"
      "?l < length (elems h) \<Longrightarrow> cmp (elems h ! c) (elems h ! ?l) \<le> 0"
      "?r < length (elems h) \<Longrightarrow> cmp (elems h ! c) (elems h ! ?r) \<le> 0" for c
    unfolding heap_swap_elems
  proof (rule step_down [OF 1(4) that(1) _ _ that(3)])
    show "0 < c" "parent c = i" using that(2) by auto
    fix j assume "j < length (elems h)" "0 < j" "parent j = i"
    then show "cmp (elems h ! c) (elems h ! j) \<le> 0" using child_cases [of j i] that(4,5) by auto
  qed
  have stop: "heap_order (elems h)" if
    "?l < length (elems h) \<Longrightarrow> cmp (elems h ! i) (elems h ! ?l) \<le> 0"
    "?r < length (elems h) \<Longrightarrow> cmp (elems h ! i) (elems h ! ?r) \<le> 0"
  proof (rule below_done [OF 1(4)])
    fix j assume j: "j < length (elems h)" "0 < j" "parent j = i"
    from child_cases [OF j(2,3)] show "cmp (elems h ! i) (elems h ! j) \<le> 0"
    proof
      assume "j = ?l"
      with that(1) j(1) show ?thesis by simp
    next
      assume "j = ?r"
      with that(2) j(1) show ?thesis by simp
    qed
  qed
  show ?case
  proof (cases "?l \<ge> length (elems h)")
    case True
    then have "binary_heap_bubble_down h i = (h, i)" by (simp add: binary_heap_bubble_down.simps [of h i])
    then have "h' = h" unfolding 1(6) by simp
    then show ?thesis using stop True by simp
  next
    case l: False
    show ?thesis
    proof (cases "?r \<ge> length (elems h)")
      case r: True
      show ?thesis
      proof (cases "cmp (elems h ! i) (elems h ! ?l) > 0")
        case True
        have "binary_heap_bubble_down h i = (heap_swap h i ?l, ?l)"
          using l r True 1(3) by (simp add: binary_heap_bubble_down.simps [of h i])
        then have h': "h' = heap_swap h i ?l" unfolding 1(6) by simp
        have "order_below ?l (elems h')"
          unfolding h' by (rule down) (use l r True in \<open>auto simp: cmp_refl\<close>)
        then show ?thesis
          by (rule below_done) (use r h' in \<open>auto dest: child_cases\<close>)
      next
        case False
        then have "binary_heap_bubble_down h i = (h, i)"
          using l r 1(3) by (simp add: binary_heap_bubble_down.simps [of h i])
        then have "h' = h" unfolding 1(6) by simp
        then show ?thesis using stop r False by simp
      qed
    next
      case r: False
      show ?thesis
      proof (cases "cmp (elems h ! ?l) (elems h ! ?r) \<le> 0")
        case lr: True
        show ?thesis
        proof (cases "cmp (elems h ! i) (elems h ! ?l) > 0")
          case True
          with 1(6) l r lr 1(3) have rec: "binary_heap_bubble_down (heap_swap h i ?l) ?l = (h', i')"
            by (simp add: binary_heap_bubble_down.simps [of h i])
          have ob: "order_below ?l (elems (heap_swap h i ?l))"
            by (rule down) (use l r lr True in \<open>auto simp: cmp_refl\<close>)
          show ?thesis
            by (rule 1(1) [OF refl refl l r _ _ cs ob _ rec]) (use lr True 1(3) l in auto)
        next
          case False
          then have "binary_heap_bubble_down h i = (h, i)"
            using l r lr 1(3) by (simp add: binary_heap_bubble_down.simps [of h i])
          then have "h' = h" unfolding 1(6) by simp
          moreover have "cmp (elems h ! i) (elems h ! ?r) \<le> 0"
            by (rule cmp_trans [OF _ lr]) (use False in simp)
          ultimately show ?thesis using stop False by simp
        qed
      next
        case lr: False
        then have rl: "cmp (elems h ! ?r) (elems h ! ?l) \<le> 0" by (intro cmp_total) simp
        show ?thesis
        proof (cases "cmp (elems h ! i) (elems h ! ?r) > 0")
          case True
          with 1(6) l r lr 1(3) have rec: "binary_heap_bubble_down (heap_swap h i ?r) ?r = (h', i')"
            by (simp add: binary_heap_bubble_down.simps [of h i])
          have ob: "order_below ?r (elems (heap_swap h i ?r))"
            by (rule down) (use l r rl True in \<open>auto simp: cmp_refl\<close>)
          show ?thesis
            by (rule 1(2) [OF refl refl l r _ _ cs ob _ rec]) (use lr True 1(3) r in auto)
        next
          case False
          then have "binary_heap_bubble_down h i = (h, i)"
            using l r lr 1(3) by (simp add: binary_heap_bubble_down.simps [of h i])
          then have "h' = h" unfolding 1(6) by simp
          moreover have "cmp (elems h ! i) (elems h ! ?l) \<le> 0"
            by (rule cmp_trans [OF _ rl]) (use False in simp)
          ultimately show ?thesis using stop False by simp
        qed
      qed
    qed
  qed
qed

end


interpretation key_order: heap_comparator "\<lambda>a b. zbx_default_uint64_compare_func (key a) (key b)"
  by unfold_locales (rule uint64_compare.cmp_sym, rule uint64_compare.cmp_trans)


section \<open>The operations keep the invariant\<close>

definition heap_inv :: "zbx_binary_heap \<Rightarrow> bool" where
  "heap_inv h \<longleftrightarrow> comparator (heap_compare h) \<and> comparator.heap_order (heap_compare h) (elems h)
     \<and> index_ok h \<and> length (elems h) \<le> elems_alloc h"

abbreviation (input) heap_keys :: "zbx_binary_heap \<Rightarrow> 64 word set" where
  "heap_keys h \<equiv> key ` set (elems h)"

definition set_position :: "zbx_binary_heap \<Rightarrow> nat \<Rightarrow> zbx_binary_heap" where
  "set_position h i =
     (if HAS_DIRECT_OPTION h
      then h\<lparr>key_index := zbx_hashmap_set (key_index h) (key (elems h ! i)) (int i)\<rparr> else h)"

lemma set_position_same [simp]: "same_heap h (set_position h i)" "elems (set_position h i) = elems h"
  by (simp_all add: set_position_def same_heap_def)

lemma set_position_index:
  assumes "index_at i h" "i < length (elems h)"
  shows "index_ok (set_position h i)"
proof -
  have "index_except (length xs) xs (m(key (xs ! i) \<mapsto> int i))"
    if "index_except i xs m" "i < length xs" for xs m
  proof -
    have d: "distinct (map key xs)" using that(1) by (simp add: index_except_def)
    have "(m(key (xs ! i) \<mapsto> int i)) (key (xs ! k)) = Some (int k)" if "k < length xs" for k
    proof (cases "k = i")
      case False
      then have "key (xs ! k) \<noteq> key (xs ! i)"
        using key_nth_eq_iff [OF d] that \<open>i < length xs\<close> by blast
      then show ?thesis using \<open>index_except i xs m\<close> False that by (simp add: index_except_def)
    qed simp
    then show ?thesis using that by (auto simp: index_except_def)
  qed
  then show ?thesis using assms by (simp add: index_at_def set_position_def hashmap.laws)
qed

lemma index_get:
  assumes "index_ok h" "HAS_DIRECT_OPTION h"
  shows "zbx_hashmap_get (key_index h) k \<noteq> HM_FAIL \<longleftrightarrow> k \<in> heap_keys h"
    "i < length (elems h) \<Longrightarrow> zbx_hashmap_get (key_index h) (key (elems h ! i)) = int i"
proof -
  have inv: "hashmap_inv (key_index h)" and ix: "index_except (length (elems h)) (elems h) (hashmap_abs (key_index h))"
    using assms by (simp_all add: index_at_def)
  show at: "zbx_hashmap_get (key_index h) (key (elems h ! i)) = int i" if "i < length (elems h)" for i
    using ix that by (simp add: hashmap.get_abs [OF inv] index_except_def)
  show "zbx_hashmap_get (key_index h) k \<noteq> HM_FAIL \<longleftrightarrow> k \<in> heap_keys h"
  proof
    assume "zbx_hashmap_get (key_index h) k \<noteq> HM_FAIL"
    then have "k \<in> dom (hashmap_abs (key_index h))"
      by (auto simp: hashmap.get_abs [OF inv] split: option.splits)
    then show "k \<in> heap_keys h" using ix by (auto simp: index_except_def)
  next
    assume "k \<in> heap_keys h"
    then obtain i where "i < length (elems h)" "k = key (elems h ! i)" by (auto simp: in_set_conv_nth)
    then show "zbx_hashmap_get (key_index h) k \<noteq> HM_FAIL" using at by simp
  qed
qed

text \<open>Leaving out position \<open>p\<close> by moving the last element there.\<close>

definition leave_out :: "nat \<Rightarrow> 'a list \<Rightarrow> 'a list" where
  "leave_out p xs = (butlast xs)[p := last xs]"

lemma leave_out_mset: "p < length xs \<Longrightarrow> add_mset (xs ! p) (mset (leave_out p xs)) = mset xs"
proof -
  assume p: "p < length xs"
  then obtain bs l where xs: "xs = bs @ [l]" by (cases xs rule: rev_cases) auto
  show ?thesis
  proof (cases "p < length bs")
    case True
    then show ?thesis by (simp add: leave_out_def xs nth_append mset_update)
  next
    case False
    then have "p = length bs" using p xs by simp
    then show ?thesis by (simp add: leave_out_def xs list_update_beyond)
  qed
qed

lemma leave_out_index:
  assumes "index_except (length xs) xs m" "p < length xs"
  shows "index_except p (leave_out p xs) (m(key (xs ! p) := None))"
proof -
  have d: "distinct (map key xs)" using assms(1) by (simp add: index_except_def)
  let ?ys = "leave_out p xs"
  have ms: "mset (xs ! p # ?ys) = mset xs" using leave_out_mset [OF assms(2)] by simp
  have dy: "distinct (map key (xs ! p # ?ys))" using d ms by (metis mset_eq_imp_distinct_iff mset_map)
  have st: "set xs = insert (xs ! p) (set ?ys)" using ms by (metis list.simps(15) set_mset_mset)
  have dom: "dom (m(key (xs ! p) := None)) \<subseteq> key ` set ?ys"
    using assms(1) unfolding st index_except_def by auto
  have "(m(key (xs ! p) := None)) (key (?ys ! i)) = Some (int i)" if i: "i < length ?ys" "i \<noteq> p" for i
  proof -
    have yi: "?ys ! i = xs ! i" "i < length xs" using i by (simp_all add: leave_out_def nth_butlast)
    have "?ys ! i \<in> set ?ys" using i(1) by simp
    then have "key (?ys ! i) \<noteq> key (xs ! p)" using dy by (metis distinct.simps(2) image_eqI list.set_map list.simps(9))
    then show ?thesis using assms(1) yi by (simp add: index_except_def)
  qed
  with dy dom show ?thesis by (simp add: index_except_def)
qed

context heap_comparator
begin

lemma settle:
  assumes "heap_compare h = cmp" "order_except i (elems h)" "index_at p h" "p = i \<or> length (elems h) \<le> p"
    "i < length (elems h)" "binary_heap_bubble_up h i = (h1, i1)" "binary_heap_bubble_down h i = (h2, i2)"
  shows "if i1 = i then h1 = h \<and> heap_order (elems h2) \<and> same_heap h h2 \<and> (if i2 = i then h2 = h else index_ok h2)
    else heap_order (elems h1) \<and> same_heap h h1 \<and> index_ok h1"
proof (cases "i1 = i")
  case True
  have up: "h1 = h" using bubble_up_index [OF assms(3-6)] True by simp
  have "order_below i (elems h)" using bubble_up_except [OF assms(1,2,5,6)] True by simp
  then have "heap_order (elems h2)" using bubble_down_below [OF assms(1) _ assms(5,7)] by blast
  with True up bubble_down_index [OF assms(3-5,7)] show ?thesis by simp
next
  case False
  with bubble_up_index [OF assms(3-6)] bubble_up_except [OF assms(1,2,5,6)] show ?thesis by simp
qed

end

lemma heap_invI:
  assumes "heap_comparator (heap_compare h)" "same_heap h h'" "comparator.heap_order (heap_compare h) (elems h')"
    "index_ok h'" "length (elems h) \<le> elems_alloc h"
  shows "heap_inv h'"
  using assms same_heap_num [OF assms(2)]
  by (simp add: heap_inv_def same_heap_def heap_comparator_def)

lemma ensure_free_space_ok:
  assumes "length (elems h) \<le> elems_alloc h" "binary_heap_ensure_free_space h = Inr h'"
  shows "\<exists>a. h' = h\<lparr>elems_alloc := a\<rparr> \<and> length (elems h) < a"
proof (cases "elems_alloc h = 0")
  case True
  then have e: "h\<lparr>elems := [], elems_alloc := 32\<rparr> = h\<lparr>elems_alloc := 32\<rparr>" using assms(1) by (cases h) simp
  have "h' = h\<lparr>elems := [], elems_alloc := 32\<rparr>"
    using True assms(2) by (auto simp: binary_heap_ensure_free_space_def Let_def split: if_splits)
  then show ?thesis unfolding e using True assms(1) by (intro exI [of _ 32]) simp
next
  case False
  show ?thesis
  proof (cases "length (elems h) = elems_alloc h")
    case True
    let ?a = "max (elems_alloc h + 1) (elems_alloc h * 3 div 2)"
    have "elems_alloc h < ?a" by simp
    then show ?thesis using True False assms(2)
      by (intro exI [of _ ?a]) (simp add: binary_heap_ensure_free_space_def Let_def split: if_splits)
  next
    case full: False
    then have "h' = h" using False assms(2) by (simp add: binary_heap_ensure_free_space_def Let_def)
    then show ?thesis using full assms(1) by (intro exI [of _ "elems_alloc h"]) simp
  qed
qed

abbreviation (input) sample_map :: zbx_hashmap where
  "sample_map \<equiv> zbx_hashmap_create \<lparr>slots = [], num_data = 0, hash_func = zbx_hash_splittable64,
    compare_func = zbx_default_uint64_compare_func\<rparr> 512"

definition sample_heap :: zbx_binary_heap where
  "sample_heap = \<lparr>elems = [\<lparr>key = 3, data = 1\<rparr>, \<lparr>key = 7, data = 2\<rparr>], elems_alloc = 32, options = 1,
     heap_compare = (\<lambda>a b. zbx_default_uint64_compare_func (key a) (key b)),
     key_index = zbx_hashmap_set (zbx_hashmap_set sample_map 3 0) 7 1, realloc_ok = (\<lambda>_. True)\<rparr>"

lemma sample_map_inv: "hashmap_inv sample_map \<and> hashmap_abs sample_map = Map.empty"
  unfolding zbx_hashmap_create_def by (rule hashmap_create_inv) (simp add: uint64_compare.cmp_eq)

lemma sample_heap_inv: "heap_inv sample_heap"
proof -
  have "index_except 2 [\<lparr>key = 3, data = 1\<rparr>, \<lparr>key = 7, data = 2\<rparr>] ([3 \<mapsto> 0, 7 \<mapsto> 1])"
    by (auto simp: index_except_def less_Suc_eq split: if_splits)
  then have "index_ok sample_heap"
    using sample_map_inv by (simp add: index_at_def sample_heap_def hashmap.laws eval_nat_numeral)
  moreover have "comparator (heap_compare sample_heap)"
    using key_order.comparator_axioms by (simp add: sample_heap_def)
  moreover have "comparator.heap_order (heap_compare sample_heap) (elems sample_heap)"
    unfolding sample_heap_def zbx_binary_heap.select_convs key_order.heap_order_def
    by (simp add: zbx_default_uint64_compare_func_def return_if_not_equal_def less_Suc_eq)
  ultimately show ?thesis by (simp add: heap_inv_def sample_heap_def)
qed

lemma sample_heap_simps:
  "elems sample_heap = [\<lparr>key = 3, data = 1\<rparr>, \<lparr>key = 7, data = 2\<rparr>]" "options sample_heap = 1"
  "elems_alloc sample_heap = 32" "realloc_ok sample_heap = (\<lambda>_. True)"
  by (simp_all add: sample_heap_def)

text \<open>
  C13: inserting into a heap keeps its order, its key index and the bounds of its array and adds exactly the
  element; it ends the process only for a key that a heap with direct option already holds, or when the
  array is full and cannot be reallocated.
\<close>

theorem heap_insert_ok:
  assumes "heap_inv h"
  shows "case zbx_binary_heap_insert h e of
      Inl f \<Rightarrow> HAS_DIRECT_OPTION h \<and> key e \<in> heap_keys h
        \<or> length (elems h) = elems_alloc h \<and> (\<exists>n > elems_alloc h. \<not> realloc_ok h n)
    | Inr h' \<Rightarrow> heap_inv h' \<and> mset (elems h') = add_mset e (mset (elems h))
        \<and> (HAS_DIRECT_OPTION h \<longrightarrow> key e \<notin> heap_keys h)"
proof -
  have inv: "comparator (heap_compare h)" "comparator.heap_order (heap_compare h) (elems h)" "index_ok h"
    "length (elems h) \<le> elems_alloc h" using assms by (simp_all add: heap_inv_def)
  have hc: "heap_comparator (heap_compare h)" using inv(1) by (simp add: heap_comparator_def)
  show ?thesis
  proof (cases "HAS_DIRECT_OPTION h \<and> zbx_hashmap_get (key_index h) (key e) \<noteq> HM_FAIL")
    case True
    then show ?thesis using index_get(1) [OF inv(3)] by (simp add: zbx_binary_heap_insert_def)
  next
    case fresh: False
    show ?thesis
    proof (cases "binary_heap_ensure_free_space h")
      case (Inl f)
      with fresh inv(4) show ?thesis
        by (auto simp: zbx_binary_heap_insert_def binary_heap_ensure_free_space_def Let_def
            split: if_splits intro: exI [of _ 32] exI [of _ "max (Suc (elems_alloc h)) (elems_alloc h * 3 div 2)"])
    next
      case (Inr h0)
      obtain a where h0: "h0 = h\<lparr>elems_alloc := a\<rparr>" "length (elems h) < a"
        using ensure_free_space_ok [OF inv(4) Inr] by metis
      let ?n = "length (elems h)"
      let ?g = "h\<lparr>elems_alloc := a, elems := elems h @ [e]\<rparr>"
      obtain h1 i1 where up: "binary_heap_bubble_up ?g ?n = (h1, i1)" by fastforce
      obtain h2 i2 where down: "binary_heap_bubble_down ?g ?n = (h2, i2)" by fastforce
      have kf: "key e \<notin> heap_keys h" if "HAS_DIRECT_OPTION h"
        using fresh that index_get(1) [OF inv(3) that] by blast
      have ix: "index_at ?n ?g"
      proof -
        have "index_except ?n (elems h @ [e]) m"
          if "index_except ?n (elems h) m" "key e \<notin> heap_keys h" for m
          using that by (auto simp: index_except_def nth_append)
        then show ?thesis using inv(3) kf by (simp add: index_at_def)
      qed
      have oe: "comparator.order_except (heap_compare h) ?n (elems ?g)"
        using comparator.append_order_except [OF inv(1,2), of e] by simp
      have "heap_compare ?g = heap_compare h" by simp
      note st = heap_comparator.settle [OF hc this oe ix _ _ up down]
      let ?h' = "if i1 = ?n then set_position ?g ?n else h1"
      have ins: "zbx_binary_heap_insert h e = Inr ?h'"
      proof (cases "i1 = ?n")
        case True
        then have "h1 = ?g" using st by simp
        then show ?thesis using fresh Inr h0(1) up True
          by (simp add: zbx_binary_heap_insert_def set_position_def)
      next
        case False
        then have "length (elems h1) = Suc ?n" using st same_heap_num [of ?g h1] by simp
        then show ?thesis using fresh Inr h0(1) up False by (simp add: zbx_binary_heap_insert_def)
      qed
      have "heap_inv ?h' \<and> same_heap ?g ?h'"
      proof (cases "i1 = ?n")
        case True
        have "h2 = ?g"
        proof -
          have "binary_heap_bubble_down ?g ?n = (?g, ?n)" by (simp add: binary_heap_bubble_down.simps [of ?g ?n])
          then show ?thesis using down by simp
        qed
        then have ho: "comparator.heap_order (heap_compare h) (elems ?g)" using st True by simp
        have "index_ok (set_position ?g ?n)" by (rule set_position_index [OF ix]) simp
        with True ho show ?thesis
          using heap_invI [of ?g "set_position ?g ?n"] hc h0(2) by simp
      next
        case False
        then show ?thesis using st heap_invI [of ?g h1] hc h0(2) by simp
      qed
      then show ?thesis using kf unfolding ins by (auto simp: same_heap_def)
    qed
  qed
qed


theorem heap_insert_ok_witness:
  "case zbx_binary_heap_insert sample_heap \<lparr>key = 1, data = 9\<rparr> of
      Inl f \<Rightarrow> HAS_DIRECT_OPTION sample_heap \<and> key \<lparr>key = 1, data = 9\<rparr> \<in> heap_keys sample_heap
        \<or> length (elems sample_heap) = elems_alloc sample_heap \<and> (\<exists>n > elems_alloc sample_heap. \<not> realloc_ok sample_heap n)
    | Inr h' \<Rightarrow> heap_inv h' \<and> mset (elems h') = add_mset \<lparr>key = 1, data = 9\<rparr> (mset (elems sample_heap))
        \<and> (HAS_DIRECT_OPTION sample_heap \<longrightarrow> key \<lparr>key = 1, data = 9\<rparr> \<notin> heap_keys sample_heap)"
  by (rule heap_insert_ok [OF sample_heap_inv])

text \<open>The state after the element at position \<open>p\<close> is left out, before the order is restored.\<close>

definition without :: "nat \<Rightarrow> zbx_binary_heap \<Rightarrow> zbx_binary_heap" where
  "without p h =
     (if HAS_DIRECT_OPTION h
      then h\<lparr>key_index := zbx_hashmap_remove (key_index h) (key (elems h ! p)), elems := leave_out p (elems h)\<rparr>
      else h\<lparr>elems := leave_out p (elems h)\<rparr>)"

lemma without_simps [simp]:
  "elems (without p h) = leave_out p (elems h)" "options (without p h) = options h"
  "heap_compare (without p h) = heap_compare h" "elems_alloc (without p h) = elems_alloc h"
  by (simp_all add: without_def)

lemma leave_out_length [simp]: "length (leave_out p xs) = length xs - 1"
  by (simp add: leave_out_def)

lemma without_index: "index_ok h \<Longrightarrow> p < length (elems h) \<Longrightarrow> index_at p (without p h)"
  using leave_out_index [of "elems h"] by (simp add: index_at_def without_def hashmap.laws)

context comparator
begin

lemma leave_out_order:
  "heap_order xs \<Longrightarrow> p < length xs - 1 \<Longrightarrow> order_except p (leave_out p xs)"
  unfolding leave_out_def by (rule update_order_except [OF butlast_heap_order]) simp_all

lemma leave_out_last:
  "heap_order xs \<Longrightarrow> p = length xs - 1 \<Longrightarrow> heap_order (leave_out p xs)"
  unfolding leave_out_def by (simp add: list_update_beyond butlast_heap_order)

end

lemma without_settle:
  assumes "heap_inv h" "p < length (elems h) - 1"
    "binary_heap_bubble_up (without p h) p = (h1, i1)" "binary_heap_bubble_down (without p h) p = (h2, i2)"
  shows "if i1 = p then h1 = without p h \<and> (if i2 = p then h2 = h1 \<and> heap_inv (set_position h2 p) else heap_inv h2)
      \<and> mset (elems h2) = mset (leave_out p (elems h))
    else heap_inv h1 \<and> mset (elems h1) = mset (leave_out p (elems h))"
proof -
  have inv: "comparator (heap_compare h)" "comparator.heap_order (heap_compare h) (elems h)" "index_ok h"
    "length (elems h) \<le> elems_alloc h" using assms(1) by (simp_all add: heap_inv_def)
  have hc: "heap_comparator (heap_compare h)" using inv(1) by (simp add: heap_comparator_def)
  have oe: "comparator.order_except (heap_compare h) p (elems (without p h))"
    using comparator.leave_out_order [OF inv(1,2) assms(2)] by simp
  have ix: "index_at p (without p h)" using without_index [OF inv(3)] assms(2) by simp
  have pl: "p < length (elems (without p h))" using assms(2) by simp
  have al: "length (elems (without p h)) \<le> elems_alloc (without p h)" using inv(4) by simp
  have hc': "heap_comparator (heap_compare (without p h))" using hc by simp
  note st = heap_comparator.settle [OF hc _ oe ix _ pl assms(3,4)]
  note hI = heap_invI [OF hc' _ _ _ al]
  show ?thesis
  proof (cases "i1 = p")
    case False
    with st hI [of h1] show ?thesis by (simp add: same_heap_def)
  next
    case True
    with st have a: "h1 = without p h" "comparator.heap_order (heap_compare h) (elems h2)"
      "same_heap (without p h) h2" "if i2 = p then h2 = without p h else index_ok h2" by simp_all
    show ?thesis
    proof (cases "i2 = p")
      case i2: True
      then have h2: "h2 = without p h" using a(4) by simp
      have "index_ok (set_position h2 p)" unfolding h2 by (rule set_position_index [OF ix pl])
      then have "heap_inv (set_position h2 p)" using hI [of "set_position h2 p"] a(2) h2 by simp
      with True i2 a show ?thesis by (simp add: h2)
    next
      case False
      with a hI [of h2] True show ?thesis by (simp add: same_heap_def)
    qed
  qed
qed

lemma without_last:
  assumes "heap_inv h" "p = length (elems h) - 1" "elems h \<noteq> []"
  shows "heap_inv (without p h)"
proof -
  have inv: "comparator (heap_compare h)" "comparator.heap_order (heap_compare h) (elems h)" "index_ok h"
    "length (elems h) \<le> elems_alloc h" using assms(1) by (simp_all add: heap_inv_def)
  have "index_at p (without p h)" using without_index [OF inv(3)] assms(2,3) by simp
  then show ?thesis
    using comparator.leave_out_last [OF inv(1,2) assms(2)] inv assms(2)
    by (simp add: heap_inv_def)
qed

text \<open>
  C14: in a heap that is not empty \<^verbatim>\<open>zbx_binary_heap_find_min\<close> returns an element that is not above any other,
  and \<^verbatim>\<open>zbx_binary_heap_remove_min\<close> removes just this one and keeps the order and the key index; on an empty
  heap both end the process.
\<close>

theorem heap_min_ok:
  assumes "heap_inv h"
  shows "if elems h = [] then isl (zbx_binary_heap_find_min h) \<and> isl (zbx_binary_heap_remove_min h)
    else \<exists>m h'. zbx_binary_heap_find_min h = Inr m \<and> (\<forall>x \<in> set (elems h). heap_compare h m x \<le> 0)
      \<and> zbx_binary_heap_remove_min h = Inr h' \<and> heap_inv h'
      \<and> mset (elems h) = add_mset m (mset (elems h'))"
proof (cases "elems h = []")
  case True
  then show ?thesis by (simp add: zbx_binary_heap_find_min_def zbx_binary_heap_remove_min_def)
next
  case False
  let ?m = "elems h ! 0"
  have inv: "comparator (heap_compare h)" "comparator.heap_order (heap_compare h) (elems h)"
    using assms by (simp_all add: heap_inv_def)
  have l: "0 < length (elems h)" using False by simp
  have least: "\<forall>x \<in> set (elems h). heap_compare h ?m x \<le> 0"
    using comparator.heap_order_min [OF inv] by (auto simp: in_set_conv_nth)
  have ms: "add_mset ?m (mset (leave_out 0 (elems h))) = mset (elems h)" by (rule leave_out_mset [OF l])
  have "\<exists>h'. zbx_binary_heap_remove_min h = Inr h' \<and> heap_inv h' \<and> mset (elems h') = mset (leave_out 0 (elems h))"
  proof (cases "length (elems h) = 1")
    case True
    then obtain x where x: "elems h = [x]" by (auto simp: length_Suc_conv)
    then have "zbx_binary_heap_remove_min h = Inr (without 0 h)"
      by (simp add: zbx_binary_heap_remove_min_def without_def leave_out_def Let_def)
    moreover have "heap_inv (without 0 h)" by (rule without_last [OF assms _ False]) (simp add: x)
    ultimately show ?thesis by simp
  next
    case many: False
    then have p: "0 < length (elems h) - 1" using l by linarith
    obtain h1 i1 where up: "binary_heap_bubble_up (without 0 h) 0 = (h1, i1)" by fastforce
    obtain h2 i2 where down: "binary_heap_bubble_down (without 0 h) 0 = (h2, i2)" by fastforce
    have i1: "i1 = 0" using up by (simp add: binary_heap_bubble_up.simps [of _ 0])
    note st = without_settle [OF assms p up down]
    have ne: "butlast (elems h) \<noteq> []" using p by (metis length_butlast less_nat_zero_code list.size(3))
    have "zbx_binary_heap_remove_min h = Inr (case binary_heap_bubble_down (without 0 h) 0 of (g, i) \<Rightarrow>
        if HAS_DIRECT_OPTION g \<and> i = 0
        then g\<lparr>key_index := zbx_hashmap_set (key_index g) (key (elems g ! i)) (int i)\<rparr> else g)"
      using False ne
      by (cases "HAS_DIRECT_OPTION h")
        (simp_all add: zbx_binary_heap_remove_min_def without_def leave_out_def Let_def)
    also have "\<dots> = Inr (if i2 = 0 then set_position h2 0 else h2)"
      unfolding down by (simp add: set_position_def)
    finally have "zbx_binary_heap_remove_min h = Inr (if i2 = 0 then set_position h2 0 else h2)" .
    with st i1 show ?thesis by (cases "i2 = 0") auto
  qed
  then obtain h' where "zbx_binary_heap_remove_min h = Inr h'" "heap_inv h'"
    "mset (elems h') = mset (leave_out 0 (elems h))" by blast
  with False least ms show ?thesis by (simp add: zbx_binary_heap_find_min_def)
qed

theorem heap_min_ok_witness:
  "\<exists>m h'. zbx_binary_heap_find_min sample_heap = Inr m \<and> zbx_binary_heap_remove_min sample_heap = Inr h' \<and> heap_inv h'"
  using heap_min_ok [OF sample_heap_inv] by (auto simp: sample_heap_simps)

text \<open>
  C12: in a heap with direct option \<^verbatim>\<open>zbx_binary_heap_remove_direct\<close> removes just the element with the key and
  \<^verbatim>\<open>zbx_binary_heap_update_direct\<close> replaces just the one with the new element's key; both keep the order and
  the key index, wherever the element has to move, and end the process if no element has the key.
\<close>

theorem heap_direct_ok:
  assumes "heap_inv h" "HAS_DIRECT_OPTION h"
  shows "(if key e \<in> heap_keys h then \<exists>old h'. zbx_binary_heap_update_direct h e = Inr h' \<and> heap_inv h'
        \<and> key old = key e \<and> add_mset old (mset (elems h')) = add_mset e (mset (elems h))
      else isl (zbx_binary_heap_update_direct h e))
    \<and> (if k \<in> heap_keys h then \<exists>old h'. zbx_binary_heap_remove_direct h k = Inr h' \<and> heap_inv h'
        \<and> key old = k \<and> add_mset old (mset (elems h')) = mset (elems h)
      else isl (zbx_binary_heap_remove_direct h k))"
proof
  have inv: "comparator (heap_compare h)" "comparator.heap_order (heap_compare h) (elems h)" "index_ok h"
    "length (elems h) \<le> elems_alloc h" using assms(1) by (simp_all add: heap_inv_def)
  have hc: "heap_comparator (heap_compare h)" using inv(1) by (simp add: heap_comparator_def)
  note get = index_get [OF inv(3) assms(2)]
  show "if k \<in> heap_keys h then \<exists>old h'. zbx_binary_heap_remove_direct h k = Inr h' \<and> heap_inv h'
        \<and> key old = k \<and> add_mset old (mset (elems h')) = mset (elems h)
      else isl (zbx_binary_heap_remove_direct h k)"
  proof (cases "k \<in> heap_keys h")
    case False
    then show ?thesis using get(1) [of k] assms(2) by (simp add: zbx_binary_heap_remove_direct_def)
  next
    case True
    then obtain p where p: "p < length (elems h)" "k = key (elems h ! p)" by (auto simp: in_set_conv_nth)
    have ne: "elems h \<noteq> []" using p(1) by auto
    have g: "zbx_hashmap_get (key_index h) k = int p" using get(2) [OF p(1)] p(2) by simp
    have "\<exists>h'. zbx_binary_heap_remove_direct h k = Inr h' \<and> heap_inv h' \<and> mset (elems h') = mset (leave_out p (elems h))"
    proof (cases "p = length (elems h) - 1")
      case True
      have "zbx_binary_heap_remove_direct h k = Inr (without p h)"
        using g assms(2) p(2) True by (simp add: zbx_binary_heap_remove_direct_def without_def leave_out_def Let_def
            list_update_beyond)
      then show ?thesis using without_last [OF assms(1) True ne] by simp
    next
      case False
      with p(1) have pl: "p < length (elems h) - 1" by linarith
      obtain h1 i1 where up: "binary_heap_bubble_up (without p h) p = (h1, i1)" by fastforce
      obtain h2 i2 where down: "binary_heap_bubble_down (without p h) p = (h2, i2)" by fastforce
      note st = without_settle [OF assms(1) pl up down]
      have w: "without p h = h\<lparr>key_index := zbx_hashmap_remove (key_index h) k, elems := leave_out p (elems h)\<rparr>"
        using assms(2) p(2) by (simp add: without_def)
      have "zbx_binary_heap_remove_direct h k
          = Inr (if p = i1 then case binary_heap_bubble_down h1 p of (h2, i2) \<Rightarrow>
              if p = i2 then h2\<lparr>key_index := zbx_hashmap_set (key_index h2) (key (elems h2 ! p)) (int p)\<rparr> else h2
            else h1)"
        using g assms(2) pl up w
        by (simp add: zbx_binary_heap_remove_direct_def leave_out_def Let_def)
      also have "\<dots> = Inr (if p = i1 then if p = i2 then set_position h2 p else h2 else h1)"
      proof (cases "p = i1")
        case True
        then have h1: "h1 = without p h" using st by simp
        have "odd (options h2)" if "p = i2" using st True that h1 assms(2) by simp
        then show ?thesis using True h1 down by (auto simp: set_position_def)
      qed simp
      finally show ?thesis using st by (auto split: if_splits)
    qed
    then show ?thesis using True leave_out_mset [OF p(1)] p(2) by metis
  qed
  show "if key e \<in> heap_keys h then \<exists>old h'. zbx_binary_heap_update_direct h e = Inr h' \<and> heap_inv h'
        \<and> key old = key e \<and> add_mset old (mset (elems h')) = add_mset e (mset (elems h))
      else isl (zbx_binary_heap_update_direct h e)"
  proof (cases "key e \<in> heap_keys h")
    case False
    then show ?thesis using get(1) [of "key e"] assms(2) by (simp add: zbx_binary_heap_update_direct_def)
  next
    case True
    then obtain p where p: "p < length (elems h)" "key e = key (elems h ! p)" by (auto simp: in_set_conv_nth)
    have g: "zbx_hashmap_get (key_index h) (key e) = int p" using get(2) [OF p(1)] p(2) by simp
    let ?g = "h\<lparr>elems := (elems h)[p := e]\<rparr>"
    obtain h1 i1 where up: "binary_heap_bubble_up ?g p = (h1, i1)" by fastforce
    obtain h2 i2 where down: "binary_heap_bubble_down ?g p = (h2, i2)" by fastforce
    have keys: "map key ((elems h)[p := e]) = map key (elems h)"
      using p by (simp add: map_update list_update_same_conv)
    have "index_except (length (elems h)) (elems h) m
        \<Longrightarrow> index_except (length (elems h)) ((elems h)[p := e]) m" for m
      unfolding index_except_def keys using p keys by (metis length_list_update length_map list.set_map nth_map)
    then have ix: "index_ok ?g" using inv(3) by (simp add: index_at_def)
    have oe: "comparator.order_except (heap_compare h) p (elems ?g)"
      using comparator.update_order_except [OF inv(1,2) p(1)] by simp
    have pl: "p < length (elems ?g)" using p(1) by simp
    note st = heap_comparator.settle [OF hc _ oe ix _ pl up down]
    let ?h' = "if p = i1 then h2 else h1"
    have "zbx_binary_heap_update_direct h e = Inr ?h'"
    proof -
      have "zbx_binary_heap_update_direct h e = Inr (if p = i1 then fst (binary_heap_bubble_down h1 p) else h1)"
        using g assms(2) up by (simp add: zbx_binary_heap_update_direct_def)
      then show ?thesis using st down by auto
    qed
    moreover have "same_heap ?g ?h' \<and> heap_inv ?h'"
    proof (cases "i1 = p")
      case True
      have "index_ok h2" using st True ix by (auto split: if_splits)
      then show ?thesis using st True heap_invI [of ?g h2] hc inv(4) by simp
    next
      case False
      then show ?thesis using st heap_invI [of ?g h1] hc inv(4) by auto
    qed
    moreover have "add_mset (elems h ! p) (mset ((elems h)[p := e])) = add_mset e (mset (elems h))"
      using p(1) by (simp add: mset_update)
    ultimately have "zbx_binary_heap_update_direct h e = Inr ?h' \<and> heap_inv ?h' \<and> key (elems h ! p) = key e
        \<and> add_mset (elems h ! p) (mset (elems ?h')) = add_mset e (mset (elems h))"
      using p(2) by (simp add: same_heap_def)
    with True show ?thesis by auto
  qed
qed


theorem heap_direct_ok_witness:
  "\<exists>old h'. zbx_binary_heap_update_direct sample_heap \<lparr>key = 3, data = 5\<rparr> = Inr h' \<and> heap_inv h'
    \<and> key old = 3 \<and> add_mset old (mset (elems h')) = add_mset \<lparr>key = 3, data = 5\<rparr> (mset (elems sample_heap))"
  using heap_direct_ok [OF sample_heap_inv, of "\<lparr>key = 3, data = 5\<rparr>" 7] by (simp add: sample_heap_simps)

text \<open>New and cleared heaps.\<close>

lemma heap_create_inv:
  assumes "comparator cmp"
  shows "heap_inv (zbx_binary_heap_create_ext cmp opts realloc hm) \<and> elems (zbx_binary_heap_create_ext cmp opts realloc hm) = []"
  using assms hashmap_create_inv [of zbx_default_uint64_compare_func hm 512 zbx_hash_splittable64]
  by (simp add: heap_inv_def zbx_binary_heap_create_ext_def comparator.heap_order_def index_at_def
      index_except_def uint64_compare.cmp_eq)

lemma heap_clear_inv: "heap_inv h \<Longrightarrow> heap_inv (zbx_binary_heap_clear h) \<and> elems (zbx_binary_heap_clear h) = []"
  by (auto simp: heap_inv_def zbx_binary_heap_clear_def comparator.heap_order_def index_at_def
      index_except_def hashmap.laws Let_def)

end
