(* ===== verification/ZbxQueue.thy ===== *)
theory ZbxQueue
  imports Prelude
begin

text \<open>
  The ring buffer queue of pointers of \<^verbatim>\<open>src/libs/zbxalgo/queue.c\<close>. The array is a list, so \<^verbatim>\<open>alloc_num\<close> is its
  length; values are stored from \<^verbatim>\<open>tail_pos\<close> up to before \<^verbatim>\<open>head_pos\<close>, around the end of the array. One cell
  always stays free. Cells a reallocation adds have no defined content; here they are NULL.
\<close>

section \<open>State and operations\<close>

record zbx_queue_ptr =
  cells :: "ptr list"
  head_pos :: nat
  tail_pos :: nat

abbreviation (input) alloc_num :: "zbx_queue_ptr \<Rightarrow> nat" where
  "alloc_num q \<equiv> length (cells q)"

definition memmove :: "'a list \<Rightarrow> nat \<Rightarrow> nat \<Rightarrow> nat \<Rightarrow> 'a list" where
  "memmove xs dst src n = take dst xs @ take n (drop src xs) @ drop (dst + n) xs"

definition realloc_cells :: "ptr list \<Rightarrow> nat \<Rightarrow> ptr list" where
  "realloc_cells xs n = take n xs @ replicate (n - length xs) NULL"

definition zbx_queue_ptr_empty :: "zbx_queue_ptr \<Rightarrow> bool" where
  "zbx_queue_ptr_empty q \<longleftrightarrow> head_pos q = tail_pos q"

definition zbx_queue_ptr_values_num :: "zbx_queue_ptr \<Rightarrow> nat" where
  "zbx_queue_ptr_values_num q =
     (let values_num = int (head_pos q) - int (tail_pos q);
          values_num = (if 0 > values_num then values_num + int (alloc_num q) else values_num)
      in nat values_num)"

definition zbx_queue_ptr_reserve :: "zbx_queue_ptr \<Rightarrow> nat \<Rightarrow> zbx_queue_ptr" where
  "zbx_queue_ptr_reserve q num =
     (if zbx_queue_ptr_values_num q + num + 1 \<le> alloc_num q then q
      else
        let alloc = alloc_num q + max (num + 1) (alloc_num q div 2);
            xs = realloc_cells (cells q) alloc
        in if tail_pos q > head_pos q then
             let resize_num = alloc - alloc_num q
             in q\<lparr>cells := memmove xs (tail_pos q + resize_num) (tail_pos q) (alloc_num q - tail_pos q),
                  tail_pos := tail_pos q + resize_num\<rparr>
           else q\<lparr>cells := xs\<rparr>)"

definition zbx_queue_ptr_compact :: "zbx_queue_ptr \<Rightarrow> zbx_queue_ptr" where
  "zbx_queue_ptr_compact q =
     (let values_num = zbx_queue_ptr_values_num q; alloc = values_num + 1 in
      if alloc = alloc_num q then q
      else
        let q' = (if tail_pos q \<noteq> 0 then
              if tail_pos q > head_pos q
              then q\<lparr>cells := memmove (cells q) (head_pos q + 1) (tail_pos q) (alloc_num q - tail_pos q),
                     tail_pos := head_pos q + 1\<rparr>
              else q\<lparr>cells := memmove (cells q) 0 (tail_pos q) values_num, tail_pos := 0, head_pos := values_num\<rparr>
            else q)
        in q'\<lparr>cells := realloc_cells (cells q') alloc\<rparr>)"

definition zbx_queue_ptr_create :: zbx_queue_ptr where
  "zbx_queue_ptr_create = \<lparr>cells = [], head_pos = 0, tail_pos = 0\<rparr>"

definition zbx_queue_ptr_push :: "zbx_queue_ptr \<Rightarrow> ptr \<Rightarrow> zbx_queue_ptr" where
  "zbx_queue_ptr_push q v =
     (let q = zbx_queue_ptr_reserve q 1;
          q = q\<lparr>cells := (cells q)[head_pos q := v], head_pos := head_pos q + 1\<rparr>
      in if head_pos q = alloc_num q then q\<lparr>head_pos := 0\<rparr> else q)"

definition zbx_queue_ptr_pop :: "zbx_queue_ptr \<Rightarrow> ptr \<times> zbx_queue_ptr" where
  "zbx_queue_ptr_pop q =
     (if tail_pos q \<noteq> head_pos q then
        let v = cells q ! tail_pos q;
            q = q\<lparr>tail_pos := tail_pos q + 1\<rparr>;
            q = (if tail_pos q = alloc_num q then q\<lparr>tail_pos := 0\<rparr> else q);
            q = (if head_pos q = alloc_num q then q\<lparr>head_pos := 0\<rparr> else q)
        in (v, q)
      else (NULL, q))"

text \<open>The loops of \<^verbatim>\<open>zbx_queue_ptr_remove_value\<close>: looking upwards and downwards, closing the gap.\<close>

function find_up :: "ptr list \<Rightarrow> ptr \<Rightarrow> nat \<Rightarrow> nat \<Rightarrow> nat option" where
  "find_up xs v i h = (if i < h then if xs ! i = v then Some i else find_up xs v (i + 1) h else None)"
  by pat_completeness auto
termination find_up
  by (relation "measure (\<lambda>(xs, v, i, h). h - i)") auto

fun find_down :: "ptr list \<Rightarrow> ptr \<Rightarrow> nat \<Rightarrow> nat \<Rightarrow> nat option" where
  "find_down xs v 0 t = None"
| "find_down xs v (Suc i) t =
     (if i \<ge> t then if xs ! i = v then Some i else find_down xs v i t else None)"

function shift_left :: "'a list \<Rightarrow> nat \<Rightarrow> nat \<Rightarrow> 'a list" where
  "shift_left xs i h = (if i < h - 1 then shift_left (xs[i := xs ! (i + 1)]) (i + 1) h else xs)"
  by pat_completeness auto
termination shift_left
  by (relation "measure (\<lambda>(xs, i, h). h - i)") auto

fun shift_right :: "'a list \<Rightarrow> nat \<Rightarrow> nat \<Rightarrow> 'a list" where
  "shift_right xs 0 t = xs"
| "shift_right xs (Suc i) t = (if Suc i > t then shift_right (xs[Suc i := xs ! i]) i t else xs)"

declare find_up.simps [simp del] shift_left.simps [simp del]

definition zbx_queue_ptr_remove_value :: "zbx_queue_ptr \<Rightarrow> ptr \<Rightarrow> zbx_queue_ptr" where
  "zbx_queue_ptr_remove_value q v =
     (if tail_pos q = head_pos q then q
      else
        let start_pos = (if tail_pos q < head_pos q then tail_pos q else 0) in
        case find_up (cells q) v start_pos (head_pos q) of
          Some i \<Rightarrow> q\<lparr>cells := shift_left (cells q) i (head_pos q), head_pos := head_pos q - 1\<rparr>
        | None \<Rightarrow>
            if tail_pos q \<le> head_pos q then q
            else case find_down (cells q) v (alloc_num q) (tail_pos q) of
              None \<Rightarrow> q
            | Some i \<Rightarrow>
                let q = q\<lparr>cells := shift_right (cells q) i (tail_pos q), tail_pos := tail_pos q + 1\<rparr>
                in if tail_pos q = alloc_num q then q\<lparr>tail_pos := 0\<rparr> else q)"

section \<open>Contents\<close>

definition queue_inv :: "zbx_queue_ptr \<Rightarrow> bool" where
  "queue_inv q \<longleftrightarrow> (if cells q = [] then head_pos q = 0 \<and> tail_pos q = 0
     else head_pos q < alloc_num q \<and> tail_pos q < alloc_num q)"

definition queue_abs :: "zbx_queue_ptr \<Rightarrow> ptr list" where
  "queue_abs q =
     (if tail_pos q \<le> head_pos q then drop (tail_pos q) (take (head_pos q) (cells q))
      else drop (tail_pos q) (cells q) @ take (head_pos q) (cells q))"

lemma values_num_eq: "queue_inv q \<Longrightarrow> zbx_queue_ptr_values_num q = length (queue_abs q)"
  by (auto simp: zbx_queue_ptr_values_num_def queue_abs_def queue_inv_def Let_def split: if_splits)

lemma queue_abs_length: "queue_inv q \<Longrightarrow> length (queue_abs q) \<le> alloc_num q - 1"
  by (auto simp: queue_abs_def queue_inv_def split: if_splits)

lemma memmove_grow:
  assumes "t < length xs"
  shows "memmove (xs @ replicate k z) (t + k) t (length xs - t)
    = take t xs @ take k (drop t xs @ replicate k z) @ drop t xs"
proof -
  have 1: "take (t + k) (xs @ replicate k z) = take t xs @ take k (drop t xs @ replicate k z)"
    using assms unfolding take_add by simp
  have 2: "take (length xs - t) (drop t (xs @ replicate k z)) = drop t xs" using assms by simp
  have 3: "drop (t + k + (length xs - t)) (xs @ replicate k z) = []" using assms by simp
  show ?thesis unfolding memmove_def 1 2 3 by simp
qed

lemma reserve_ok:
  assumes "queue_inv q"
  shows "queue_inv (zbx_queue_ptr_reserve q num) \<and> queue_abs (zbx_queue_ptr_reserve q num) = queue_abs q
    \<and> length (queue_abs q) + num + 1 \<le> alloc_num (zbx_queue_ptr_reserve q num)"
proof (cases "zbx_queue_ptr_values_num q + num + 1 \<le> alloc_num q")
  case True
  then show ?thesis using assms values_num_eq by (simp add: zbx_queue_ptr_reserve_def)
next
  case False
  let ?n = "alloc_num q + max (num + 1) (alloc_num q div 2)"
  have len: "length (queue_abs q) + num + 1 \<le> ?n"
    using queue_abs_length [OF assms] by linarith
  show ?thesis
  proof (cases "tail_pos q > head_pos q")
    case True
    define xs where "xs = cells q"
    define k where "k = max (Suc num) (length xs div 2)"
    define t where "t = tail_pos q"
    have t: "t < length xs" "head_pos q < t"
      using True assms by (auto simp: queue_inv_def xs_def t_def split: if_splits)
    define zs where "zs = take t xs @ take k (drop t xs @ replicate k NULL)"
    have lz: "length zs = t + k" using t by (simp add: zs_def)
    have ys: "memmove (xs @ replicate k NULL) (t + k) t (length xs - t) = zs @ drop t xs"
      unfolding zs_def append_assoc by (rule memmove_grow [OF t(1)])
    have q: "zbx_queue_ptr_reserve q num = q\<lparr>cells := zs @ drop t xs, tail_pos := t + k\<rparr>"
      using False True ys
      by (simp add: zbx_queue_ptr_reserve_def Let_def realloc_cells_def flip: xs_def k_def t_def)
    have h: "take (head_pos q) zs = take (head_pos q) xs" using t by (simp add: zs_def)
    have "queue_abs (zbx_queue_ptr_reserve q num) = queue_abs q"
      using t lz h True unfolding q by (simp add: queue_abs_def flip: xs_def t_def)
    moreover have "queue_inv (zbx_queue_ptr_reserve q num)"
      using t lz unfolding q by (simp add: queue_inv_def)
    moreover have "alloc_num (zbx_queue_ptr_reserve q num) = ?n"
      using t lz unfolding q by (simp add: k_def xs_def)
    ultimately show ?thesis using len by simp
  next
    case nw: False
    with assms False len show ?thesis
      by (auto simp: zbx_queue_ptr_reserve_def Let_def realloc_cells_def queue_inv_def queue_abs_def
          split: if_splits)
  qed
qed


lemma compact_ok:
  assumes "queue_inv q"
  shows "queue_inv (zbx_queue_ptr_compact q) \<and> queue_abs (zbx_queue_ptr_compact q) = queue_abs q
    \<and> alloc_num (zbx_queue_ptr_compact q) = length (queue_abs q) + 1"
proof (cases "zbx_queue_ptr_values_num q + 1 = alloc_num q")
  case True
  then show ?thesis using assms values_num_eq by (simp add: zbx_queue_ptr_compact_def Let_def)
next
  case False
  note vn = values_num_eq [OF assms]
  define xs where "xs = cells q"
  define t where "t = tail_pos q"
  define h where "h = head_pos q"
  note defs = xs_def [symmetric] t_def [symmetric] h_def [symmetric]
  consider (wrap) "h < t" "t < length xs" | (shift) "0 < t" "t \<le> h" "h < length xs" | (start) "t = 0" "h < length xs \<or> xs = [] \<and> h = 0"
    using assms unfolding queue_inv_def defs by (cases "xs = []") (auto, linarith)
  then show ?thesis
  proof cases
    case wrap
    let ?ys = "take (Suc h) xs @ drop t xs"
    have a: "length (queue_abs q) = length xs - t + h" using wrap unfolding queue_abs_def defs by simp
    have "memmove xs (h + 1) t (length xs - t) = ?ys @ drop (Suc h + (length xs - t)) xs"
      using wrap by (simp add: memmove_def)
    moreover have "take (Suc (length xs - t + h)) (?ys @ zs) = ?ys" for zs using wrap by simp
    ultimately have q: "zbx_queue_ptr_compact q = q\<lparr>cells := ?ys, tail_pos := Suc h\<rparr>"
      using wrap False vn a unfolding zbx_queue_ptr_compact_def defs
      by (simp add: Let_def realloc_cells_def)
    have "take h ?ys = take h xs" "length ?ys = Suc (length xs - t + h)" using wrap by simp_all
    then show ?thesis using wrap a unfolding q queue_inv_def queue_abs_def by (simp add: defs) linarith
  next
    case shift
    have a: "queue_abs q = drop t (take h xs)" using shift unfolding queue_abs_def defs by simp
    have "memmove xs 0 t (h - t) = drop t (take h xs) @ drop (h - t) xs"
      using shift by (simp add: memmove_def take_drop)
    moreover have "zbx_queue_ptr_values_num q = h - t" using vn a shift by simp
    ultimately have q: "zbx_queue_ptr_compact q = q\<lparr>cells := drop t (take h xs) @ take 1 (drop (h - t) xs),
        tail_pos := 0, head_pos := h - t\<rparr>"
      using shift False unfolding zbx_queue_ptr_compact_def defs
      by (simp add: Let_def realloc_cells_def)
    show ?thesis using shift a unfolding q queue_inv_def queue_abs_def by simp
  next
    case start
    have a: "queue_abs q = take h xs" using start unfolding queue_abs_def defs by simp
    have v: "zbx_queue_ptr_values_num q = h" using vn a start by auto
    have q: "zbx_queue_ptr_compact q = q\<lparr>cells := realloc_cells xs (h + 1)\<rparr>"
      using start False v unfolding zbx_queue_ptr_compact_def defs by (simp add: Let_def defs)
    show ?thesis using start a unfolding q queue_inv_def queue_abs_def defs
      by (auto simp: realloc_cells_def defs)
  qed
qed

lemma push_ok:
  assumes "queue_inv q"
  shows "queue_inv (zbx_queue_ptr_push q v) \<and> queue_abs (zbx_queue_ptr_push q v) = queue_abs q @ [v]"
proof -
  define r where "r = zbx_queue_ptr_reserve q 1"
  have r: "queue_inv r" "queue_abs r = queue_abs q" "length (queue_abs r) + 2 \<le> alloc_num r"
    using reserve_ok [OF assms, of 1] unfolding r_def by simp_all
  define xs where "xs = cells r"
  define t where "t = tail_pos r"
  define h where "h = head_pos r"
  note defs = xs_def [symmetric] t_def [symmetric] h_def [symmetric]
  have b: "h < length xs" "t < length xs" using r(1,3) unfolding queue_inv_def defs by (auto split: if_splits)
  have p: "zbx_queue_ptr_push q v
      = (let r' = r\<lparr>cells := xs[h := v], head_pos := h + 1\<rparr> in if h + 1 = length xs then r'\<lparr>head_pos := 0\<rparr> else r')"
    unfolding zbx_queue_ptr_push_def r_def [symmetric] defs by (simp add: Let_def defs)
  show ?thesis
  proof (cases "t \<le> h")
    case True
    have a: "queue_abs r = drop t (take h xs)" using True unfolding queue_abs_def defs by simp
    have tk: "take (Suc h) (xs[h := v]) = take h xs @ [v]" using b by (simp add: take_Suc_conv_app_nth)
    show ?thesis
    proof (cases "h + 1 = length xs")
      case e: True
      then have "0 < t" using r(3) a True unfolding defs by auto
      moreover have "xs[h := v] = take h xs @ [v]" using tk e by simp
      ultimately show ?thesis using True e b a r(2) unfolding p
        by (auto simp: Let_def queue_inv_def queue_abs_def defs)
    next
      case False
      then show ?thesis using True b a r(2) tk unfolding p
        by (auto simp: Let_def queue_inv_def queue_abs_def defs)
    qed
  next
    case False
    have a: "queue_abs r = drop t xs @ take h xs" using False unfolding queue_abs_def defs by simp
    have "h + 1 < t" using r(3) a b False unfolding defs by simp
    moreover have "take (Suc h) (xs[h := v]) = take h xs @ [v]" using b by (simp add: take_Suc_conv_app_nth)
    ultimately show ?thesis using b a r(2) unfolding p
      by (auto simp: Let_def queue_inv_def queue_abs_def defs)
  qed
qed

lemma pop_ok:
  assumes "queue_inv q"
  shows "case queue_abs q of
      [] \<Rightarrow> zbx_queue_ptr_pop q = (NULL, q)
    | v # vs \<Rightarrow> \<exists>q'. zbx_queue_ptr_pop q = (v, q') \<and> queue_inv q' \<and> queue_abs q' = vs"
proof -
  define xs where "xs = cells q"
  define t where "t = tail_pos q"
  define h where "h = head_pos q"
  note defs = xs_def [symmetric] t_def [symmetric] h_def [symmetric]
  show ?thesis
  proof (cases "t = h")
    case True
    then show ?thesis by (simp add: queue_abs_def zbx_queue_ptr_pop_def defs)
  next
    case False
    then have b: "h < length xs" "t < length xs"
      using assms unfolding queue_inv_def defs by (auto split: if_splits)
    have abs: "queue_abs q = xs ! t # (if t \<le> h then drop (Suc t) (take h xs) else drop (Suc t) xs @ take h xs)"
      using b False unfolding queue_abs_def defs by (auto simp flip: Cons_nth_drop_Suc)
    define q' where "q' = (if t + 1 = length xs then q\<lparr>tail_pos := 0\<rparr> else q\<lparr>tail_pos := t + 1\<rparr>)"
    have p: "zbx_queue_ptr_pop q = (xs ! t, q')"
      using False b unfolding zbx_queue_ptr_pop_def defs q'_def by (simp add: Let_def defs)
    have "queue_inv q' \<and> queue_abs q' = (if t \<le> h then drop (Suc t) (take h xs) else drop (Suc t) xs @ take h xs)"
      using b False by (auto simp: q'_def queue_inv_def queue_abs_def defs)
    then show ?thesis unfolding abs p by simp
  qed
qed


section \<open>Removing a value\<close>

lemma find_up_eq:
  "case find_up xs v i h of
      None \<Rightarrow> \<forall>k. i \<le> k \<and> k < h \<longrightarrow> xs ! k \<noteq> v
    | Some k \<Rightarrow> i \<le> k \<and> k < h \<and> xs ! k = v"
proof (induction xs v i h rule: find_up.induct)
  case (1 xs v i h)
  show ?case
  proof (cases "i < h \<and> xs ! i \<noteq> v")
    case True
    then have "find_up xs v i h = find_up xs v (i + 1) h" by (subst find_up.simps) simp
    moreover have "k = i \<or> i + 1 \<le> k" if "i \<le> k" for k using that by linarith
    ultimately show ?thesis using 1 True by (fastforce split: option.splits)
  next
    case False
    then show ?thesis by (subst find_up.simps) auto
  qed
qed

lemma find_down_eq:
  "case find_down xs v n t of
      None \<Rightarrow> \<forall>k. t \<le> k \<and> k < n \<longrightarrow> xs ! k \<noteq> v
    | Some k \<Rightarrow> t \<le> k \<and> k < n \<and> xs ! k = v"
  by (induction xs v n t rule: find_down.induct) (auto simp: less_Suc_eq split: option.splits)

lemma shift_left_eq:
  "i < h \<Longrightarrow> h \<le> length xs \<Longrightarrow>
    shift_left xs i h = take i xs @ drop (Suc i) (take h xs) @ drop (h - 1) xs"
proof (induction xs i h rule: shift_left.induct)
  case (1 xs i h)
  show ?case
  proof (cases "i < h - 1")
    case True
    let ?ys = "xs[i := xs ! (i + 1)]"
    have s: "shift_left xs i h = shift_left ?ys (i + 1) h" using True by (subst shift_left.simps) simp
    have "shift_left ?ys (i + 1) h = take (Suc i) ?ys @ drop (Suc (Suc i)) (take h ?ys) @ drop (h - 1) ?ys"
      using 1(1) [OF True] True 1(3) by simp
    moreover have "take (Suc i) ?ys = take i xs @ [xs ! Suc i]" using True 1(3) by (simp add: take_Suc_conv_app_nth)
    moreover have "drop (Suc (Suc i)) (take h ?ys) = drop (Suc (Suc i)) (take h xs)" by (simp add: take_update_swap)
    moreover have "drop (h - 1) ?ys = drop (h - 1) xs" using True by simp
    moreover have "drop (Suc i) (take h xs) = xs ! Suc i # drop (Suc (Suc i)) (take h xs)"
      using True 1(3) by (subst Cons_nth_drop_Suc [symmetric]) simp_all
    ultimately show ?thesis unfolding s by simp
  next
    case False
    then have h: "h = Suc i" using 1(2) by linarith
    then have "shift_left xs i h = xs" by (subst shift_left.simps) simp
    then show ?thesis using h by simp
  qed
qed

lemma shift_right_eq:
  "t \<le> i \<Longrightarrow> i < length xs \<Longrightarrow>
    drop (Suc t) (shift_right xs i t) = drop t (take i xs) @ drop (Suc i) xs
    \<and> take t (shift_right xs i t) = take t xs \<and> length (shift_right xs i t) = length xs"
proof (induction xs i t rule: shift_right.induct)
  case (1 xs t)
  then show ?case by simp
next
  case (2 xs i t)
  show ?case
  proof (cases "t < Suc i")
    case True
    let ?ys = "xs[Suc i := xs ! i]"
    have "drop t (take i ?ys) @ drop (Suc i) ?ys = drop t (take (Suc i) xs) @ drop (Suc (Suc i)) xs"
    proof -
      have "drop (Suc i) ?ys = xs ! i # drop (Suc (Suc i)) xs"
        using 2(3) by (subst Cons_nth_drop_Suc [symmetric]) simp_all
      moreover have "take (Suc i) xs = take i xs @ [xs ! i]" using 2(3) by (simp add: take_Suc_conv_app_nth)
      ultimately show ?thesis using True 2(3) by simp
    qed
    with 2 True show ?thesis by simp
  next
    case False
    with 2 show ?thesis by simp
  qed
qed

lemma remove_value_ok:
  assumes "queue_inv q"
  shows "queue_inv (zbx_queue_ptr_remove_value q v)
    \<and> (if v \<in> set (queue_abs q)
        then \<exists>xs ys. queue_abs q = xs @ v # ys \<and> queue_abs (zbx_queue_ptr_remove_value q v) = xs @ ys
        else zbx_queue_ptr_remove_value q v = q)"
proof -
  define xs where "xs = cells q"
  define t where "t = tail_pos q"
  define h where "h = head_pos q"
  note defs = xs_def [symmetric] t_def [symmetric] h_def [symmetric]
  show ?thesis
  proof (cases "t = h")
    case True
    then show ?thesis using assms by (simp add: zbx_queue_ptr_remove_value_def queue_abs_def defs)
  next
    case ne: False
    then have b: "h < length xs" "t < length xs"
      using assms unfolding queue_inv_def defs by (auto split: if_splits)
    let ?s = "if t < h then t else 0"
    have abs: "queue_abs q = (if t < h then [] else drop t xs) @ drop ?s (take h xs)"
      using ne unfolding queue_abs_def defs by auto
    show ?thesis
    proof (cases "find_up xs v ?s h")
      case (Some i)
      then have i: "?s \<le> i" "i < h" "xs ! i = v" using find_up_eq [where xs = xs and v = v and i = ?s and h = h] by simp_all
      have sl: "shift_left xs i h = take i xs @ drop (Suc i) (take h xs) @ drop (h - 1) xs"
        using i(2) b(1) by (intro shift_left_eq) simp_all
      have q: "zbx_queue_ptr_remove_value q v = q\<lparr>cells := shift_left xs i h, head_pos := h - 1\<rparr>"
        using ne Some unfolding zbx_queue_ptr_remove_value_def defs by (auto simp: Let_def)
      have tk: "take (h - 1) (shift_left xs i h) = take i xs @ drop (Suc i) (take h xs)"
        unfolding sl using i(2) b(1) by simp
      have old: "take h xs = take i xs @ v # drop (Suc i) (take h xs)"
        using id_take_nth_drop [of i "take h xs"] i(2,3) b(1) by simp
      have len: "length (shift_left xs i h) = length xs" unfolding sl using i(2) b(1) by simp
      have inv: "queue_inv (zbx_queue_ptr_remove_value q v)"
        using b len unfolding q by (auto simp: queue_inv_def defs)
      have oldq: "queue_abs q = ((if t < h then [] else drop t xs) @ drop ?s (take i xs)) @ v # drop (Suc i) (take h xs)"
        unfolding abs by (subst old) (use i(1,2) b in simp)
      have newq: "queue_abs (zbx_queue_ptr_remove_value q v)
          = ((if t < h then [] else drop t xs) @ drop ?s (take i xs)) @ drop (Suc i) (take h xs)"
      proof (cases "t < h")
        case True
        then have "t \<le> h - 1" by linarith
        then show ?thesis using True i b tk unfolding q by (simp add: queue_abs_def defs)
      next
        case False
        then have "\<not> t \<le> h - 1" using ne i(2) by linarith
        moreover have "drop t (shift_left xs i h) = drop t xs"
          unfolding sl using False ne i(2) b by simp
        ultimately show ?thesis using False tk unfolding q by (simp add: queue_abs_def defs)
      qed
      have "v \<in> set (queue_abs q)" unfolding oldq by simp
      with inv oldq newq show ?thesis by (metis append.assoc)
    next
      case None
      then have no: "v \<notin> set (drop ?s (take h xs))"
        using find_up_eq [where xs = xs and v = v and i = ?s and h = h] b(1) by (auto simp: in_set_conv_nth)
      show ?thesis
      proof (cases "t < h")
        case True
        then have "zbx_queue_ptr_remove_value q v = q"
          using None unfolding zbx_queue_ptr_remove_value_def defs by (auto simp: Let_def)
        moreover have "v \<notin> set (queue_abs q)" using no True unfolding abs by simp
        ultimately show ?thesis using assms by simp
      next
        case False
        then have ht: "h < t" using ne by linarith
        show ?thesis
        proof (cases "find_down xs v (length xs) t")
          case None2: None
          then have "v \<notin> set (drop t xs)" using find_down_eq [where xs = xs and v = v and n = "length xs" and t = t] by (auto simp: in_set_conv_nth)
          moreover have "zbx_queue_ptr_remove_value q v = q"
            using None None2 ht unfolding zbx_queue_ptr_remove_value_def defs by (auto simp: Let_def)
          ultimately show ?thesis using assms no False unfolding abs by simp
        next
          case (Some i)
          then have i: "t \<le> i" "i < length xs" "xs ! i = v" using find_down_eq [where xs = xs and v = v and n = "length xs" and t = t] by simp_all
          let ?ys = "shift_right xs i t"
          note sr = shift_right_eq [OF i(1,2)]
          have q: "zbx_queue_ptr_remove_value q v = q\<lparr>cells := ?ys,
              tail_pos := if t + 1 = length xs then 0 else t + 1\<rparr>"
            using None Some ht sr unfolding zbx_queue_ptr_remove_value_def defs by (auto simp: Let_def)
          have inv: "queue_inv (zbx_queue_ptr_remove_value q v)"
            using b sr unfolding q by (auto simp: queue_inv_def defs)
          have old: "drop t xs = drop t (take i xs) @ v # drop (Suc i) xs"
          proof -
            have "drop t xs = drop t (take i xs @ xs ! i # drop (Suc i) xs)"
              using id_take_nth_drop [OF i(2)] by simp
            then show ?thesis using i by simp
          qed
          have oldq: "queue_abs q = drop t (take i xs) @ v # (drop (Suc i) xs @ take h xs)"
            using False unfolding abs by (subst old) simp
          have tk: "take h ?ys = take h xs"
            using sr ht by (metis less_imp_le min.absorb1 take_take)
          have newq: "queue_abs (zbx_queue_ptr_remove_value q v) = drop t (take i xs) @ (drop (Suc i) xs @ take h xs)"
          proof (cases "t + 1 = length xs")
            case True
            then have "i = t" using i by linarith
            then show ?thesis using True tk unfolding q by (simp add: queue_abs_def defs)
          next
            case last: False
            then show ?thesis using ht tk sr unfolding q by (simp add: queue_abs_def defs)
          qed
          have "v \<in> set (queue_abs q)" unfolding oldq by simp
          with inv oldq newq show ?thesis by metis
        qed
      qed
    qed
  qed
qed

section \<open>First in, first out\<close>

locale fifo =
  fixes inv :: "'q \<Rightarrow> bool" and abs :: "'q \<Rightarrow> 'v list" and empty :: 'q
    and push :: "'q \<Rightarrow> 'v \<Rightarrow> 'q" and pop :: "'q \<Rightarrow> 'v \<times> 'q" and none :: 'v
  assumes empty: "inv empty \<and> abs empty = []"
    and push: "inv q \<Longrightarrow> inv (push q v) \<and> abs (push q v) = abs q @ [v]"
    and pop: "inv q \<Longrightarrow> case abs q of
        [] \<Rightarrow> pop q = (none, q)
      | v # vs \<Rightarrow> \<exists>q'. pop q = (v, q') \<and> inv q' \<and> abs q' = vs"
begin

lemma push_all: "inv q \<Longrightarrow> inv (foldl push q vs) \<and> abs (foldl push q vs) = abs q @ vs"
  by (induction vs arbitrary: q) (simp_all add: push)

lemma pop_cases:
  assumes "inv q"
  obtains (nothing) "abs q = []" "pop q = (none, q)"
    | (first) v vs q' where "abs q = v # vs" "pop q = (v, q')" "inv q'" "abs q' = vs"
  using pop [OF assms] by (cases "abs q") auto

end

lemma create_ok: "queue_inv zbx_queue_ptr_create \<and> queue_abs zbx_queue_ptr_create = []"
  by (simp add: queue_inv_def queue_abs_def zbx_queue_ptr_create_def)

interpretation queue: fifo queue_inv queue_abs zbx_queue_ptr_create zbx_queue_ptr_push zbx_queue_ptr_pop NULL
  by unfold_locales (fact create_ok push_ok pop_ok)+

text \<open>
  The specification: a plain list of pointers. Which one of several equal pointers is removed depends on where the
  buffer wraps around, so the specification leaves it open.
\<close>

datatype queue_op = Push ptr | Pop | Remove ptr | Reserve nat | Compact

inductive list_step :: "ptr list \<Rightarrow> queue_op \<Rightarrow> ptr list \<Rightarrow> ptr list \<Rightarrow> bool" where
  push: "list_step vs (Push v) [] (vs @ [v])"
| pop_empty: "list_step [] Pop [NULL] []"
| pop: "list_step (v # vs) Pop [v] vs"
| remove: "list_step (xs @ v # ys) (Remove v) [] (xs @ ys)"
| remove_absent: "v \<notin> set vs \<Longrightarrow> list_step vs (Remove v) [] vs"
| reserve: "list_step vs (Reserve n) [] vs"
| compact: "list_step vs Compact [] vs"

inductive list_run :: "ptr list \<Rightarrow> queue_op list \<Rightarrow> ptr list \<Rightarrow> ptr list \<Rightarrow> bool" where
  finish: "list_run vs [] [] vs"
| step: "list_step vs a out vs' \<Longrightarrow> list_run vs' as outs ws \<Longrightarrow> list_run vs (a # as) (out @ outs) ws"

fun queue_step :: "zbx_queue_ptr \<Rightarrow> queue_op \<Rightarrow> ptr list \<times> zbx_queue_ptr" where
  "queue_step q (Push v) = ([], zbx_queue_ptr_push q v)"
| "queue_step q Pop = (let (v, q') = zbx_queue_ptr_pop q in ([v], q'))"
| "queue_step q (Remove v) = ([], zbx_queue_ptr_remove_value q v)"
| "queue_step q (Reserve n) = ([], zbx_queue_ptr_reserve q n)"
| "queue_step q Compact = ([], zbx_queue_ptr_compact q)"

fun queue_run :: "zbx_queue_ptr \<Rightarrow> queue_op list \<Rightarrow> ptr list \<times> zbx_queue_ptr" where
  "queue_run q [] = ([], q)"
| "queue_run q (a # as) =
     (let (out, q') = queue_step q a; (outs, q'') = queue_run q' as in (out @ outs, q''))"

lemma queue_step_refines:
  assumes "queue_inv q" "queue_step q a = (out, q')"
  shows "queue_inv q' \<and> list_step (queue_abs q) a out (queue_abs q')"
proof (cases a)
  case (Push v)
  then show ?thesis using assms queue.push [OF assms(1), of v] by (auto intro: list_step.push)
next
  case Pop
  show ?thesis
  proof (rule queue.pop_cases [OF assms(1)])
    assume "queue_abs q = []" "zbx_queue_ptr_pop q = (NULL, q)"
    then show ?thesis using assms Pop by (auto intro: list_step.pop_empty)
  next
    fix v vs r
    assume "queue_abs q = v # vs" "zbx_queue_ptr_pop q = (v, r)" "queue_inv r" "queue_abs r = vs"
    then show ?thesis using assms Pop by (auto intro: list_step.pop)
  qed
next
  case (Remove v)
  then show ?thesis using assms remove_value_ok [OF assms(1), of v]
    by (auto split: if_splits intro: list_step.remove list_step.remove_absent)
next
  case (Reserve n)
  then show ?thesis using assms reserve_ok [OF assms(1), of n] by (auto intro: list_step.reserve)
next
  case Compact
  then show ?thesis using assms compact_ok [OF assms(1)] by (auto intro: list_step.compact)
qed

lemma queue_run_refines:
  "queue_inv q \<Longrightarrow> queue_run q as = (outs, q') \<Longrightarrow>
    queue_inv q' \<and> list_run (queue_abs q) as outs (queue_abs q')"
proof (induction q as arbitrary: outs q' rule: queue_run.induct)
  case (1 q)
  then show ?case by (auto intro: list_run.finish)
next
  case (2 q a as)
  then show ?case by (fastforce dest: queue_step_refines intro: list_run.step split: prod.splits)
qed

text \<open>
  C15: The ring buffer is a first in, first out list under every sequence of pushes, pops, removals of a value,
  reservations and compactions: from the empty queue, the pointers popped (NULL from an empty queue) and the contents
  left are those of a plain list; the number of values reported is the list's length, and at least one cell of the
  array is free whenever it holds a value.
\<close>
theorem queue_refines_list:
  "case queue_run zbx_queue_ptr_create as of (outs, q) \<Rightarrow>
     list_run [] as outs (queue_abs q) \<and> zbx_queue_ptr_values_num q = length (queue_abs q)
     \<and> (zbx_queue_ptr_empty q \<longleftrightarrow> queue_abs q = [])
     \<and> length (queue_abs q) \<le> alloc_num q - 1"
proof -
  obtain outs q where r: "queue_run zbx_queue_ptr_create as = (outs, q)" by fastforce
  then have "queue_inv q" "list_run [] as outs (queue_abs q)"
    using queue_run_refines create_ok by fastforce+
  moreover from this have "zbx_queue_ptr_empty q \<longleftrightarrow> queue_abs q = []"
    by (auto simp: zbx_queue_ptr_empty_def queue_abs_def queue_inv_def split: if_splits)
  ultimately show ?thesis using r values_num_eq queue_abs_length by simp
qed

text \<open>
  Growing and compacting keep the contents in order wherever the buffer wraps: after a reservation the values and
  the reserved number of further ones fit beside the free cell, and compacting leaves exactly one free cell.
\<close>
theorem queue_capacity:
  assumes "queue_inv q"
  shows "queue_abs (zbx_queue_ptr_reserve q n) = queue_abs q
    \<and> length (queue_abs q) + n + 1 \<le> alloc_num (zbx_queue_ptr_reserve q n)
    \<and> queue_abs (zbx_queue_ptr_compact q) = queue_abs q
    \<and> alloc_num (zbx_queue_ptr_compact q) = length (queue_abs q) + 1"
  using reserve_ok [OF assms] compact_ok [OF assms] by simp

lemma queue_capacity_witness:
  "let q = \<lparr>cells = [7, 8, 0, 5, 6], head_pos = 2, tail_pos = 3\<rparr> in
     queue_abs (zbx_queue_ptr_reserve q 4) = [5, 6, 7, 8] \<and> queue_abs (zbx_queue_ptr_compact q) = [5, 6, 7, 8]"
  using queue_capacity [of "\<lparr>cells = [7, 8, 0, 5, 6], head_pos = 2, tail_pos = 3\<rparr>" 4]
  by (simp add: queue_inv_def queue_abs_def)

end
