(* ===== verification/ZbxInt128.thy ===== *)
theory ZbxInt128
  imports Prelude
begin

text \<open>
  The 128-bit unsigned arithmetic of \<^verbatim>\<open>src/libs/zbxalgo/int128.c\<close>. The two halves are \<open>64 word\<close>s, so that every
  carry, borrow and lost bit of the code is one of the model. A division by zero has no value in C: \<open>None\<close>.
\<close>

unbundle bit_operations_syntax

section \<open>Operations\<close>

record zbx_uint128 =
  lo :: "64 word"
  hi :: "64 word"

definition udec128_128 :: "zbx_uint128 \<Rightarrow> zbx_uint128 \<Rightarrow> zbx_uint128" where
  "udec128_128 base v =
     (let low = lo base;
          base = base\<lparr>lo := lo base - lo v\<rparr>;
          base = (if low < lo base then base\<lparr>hi := hi base - 1\<rparr> else base)
      in base\<lparr>hi := hi base - hi v\<rparr>)"

definition ushiftr128 :: "zbx_uint128 \<Rightarrow> nat \<Rightarrow> zbx_uint128" where
  "ushiftr128 base bits =
     (if bits = 0 then base
      else if 64 \<le> bits then \<lparr>lo = drop_bit (bits - 64) (hi base), hi = 0\<rparr>
      else \<lparr>lo = drop_bit bits (lo base) OR push_bit (64 - bits) (hi base), hi = drop_bit bits (hi base)\<rparr>)"

definition ushiftl128 :: "zbx_uint128 \<Rightarrow> nat \<Rightarrow> zbx_uint128" where
  "ushiftl128 base bits =
     (if bits = 0 then base
      else if 64 \<le> bits then \<lparr>lo = 0, hi = push_bit (bits - 64) (lo base)\<rparr>
      else \<lparr>lo = push_bit bits (lo base), hi = push_bit bits (hi base) OR drop_bit (64 - bits) (lo base)\<rparr>)"

definition ucmp128_128 :: "zbx_uint128 \<Rightarrow> zbx_uint128 \<Rightarrow> int" where
  "ucmp128_128 v1 v2 =
     (if hi v1 \<noteq> hi v2 then if hi v1 < hi v2 then -1 else 1
      else if lo v1 = lo v2 then 0
      else if lo v1 < lo v2 then -1 else 1)"

definition zbx_uinc128_64 :: "zbx_uint128 \<Rightarrow> 64 word \<Rightarrow> zbx_uint128" where
  "zbx_uinc128_64 base v =
     (let low = lo base; base = base\<lparr>lo := lo base + v\<rparr>
      in if low > lo base then base\<lparr>hi := hi base + 1\<rparr> else base)"

definition zbx_uinc128_128 :: "zbx_uint128 \<Rightarrow> zbx_uint128 \<Rightarrow> zbx_uint128" where
  "zbx_uinc128_128 base v =
     (let low = lo base;
          base = base\<lparr>lo := lo base + lo v\<rparr>;
          base = (if low > lo base then base\<lparr>hi := hi base + 1\<rparr> else base)
      in base\<lparr>hi := hi base + hi v\<rparr>)"

abbreviation (input) UINT32_BIT_MASK :: "64 word" where
  "UINT32_BIT_MASK \<equiv> NOT (push_bit 32 (NOT 0))"

definition umul64_32_shift :: "zbx_uint128 \<Rightarrow> 64 word \<Rightarrow> 64 word \<Rightarrow> nat \<Rightarrow> zbx_uint128" where
  "umul64_32_shift base v factor shift =
     (let base = zbx_uinc128_128 base (ushiftl128 \<lparr>lo = (v AND UINT32_BIT_MASK) * factor, hi = 0\<rparr> shift)
      in zbx_uinc128_128 base (ushiftl128 \<lparr>lo = drop_bit 32 v * factor, hi = 0\<rparr> (32 + shift)))"

definition zbx_umul64_64 :: "64 word \<Rightarrow> 64 word \<Rightarrow> zbx_uint128" where
  "zbx_umul64_64 v factor =
     (let result = umul64_32_shift \<lparr>lo = 0, hi = 0\<rparr> v (factor AND UINT32_BIT_MASK) 0
      in umul64_32_shift result v (drop_bit 32 factor) 32)"

section \<open>Values\<close>

lemma ucmp_less_iff: "ucmp128_128 r d < 0 \<longleftrightarrow> hi r < hi d \<or> hi r = hi d \<and> lo r < lo d"
  by (auto simp: ucmp128_128_def)

definition val128 :: "zbx_uint128 \<Rightarrow> nat" where
  "val128 x = unat (hi x) * 2 ^ 64 + unat (lo x)"

lemma val128_parts:
  "val128 x mod 2 ^ 64 = unat (lo x)" "val128 x div 2 ^ 64 = unat (hi x)" "val128 x < 2 ^ 128"
proof -
  have l: "unat (lo x) < 2 ^ 64" and h: "unat (hi x) < 2 ^ 64"
    using unsigned_less [where w = "lo x"] unsigned_less [where w = "hi x"] by simp_all
  then show "val128 x mod 2 ^ 64 = unat (lo x)" "val128 x div 2 ^ 64 = unat (hi x)"
    by (simp_all add: val128_def)
  have "val128 x < (unat (hi x) + 1) * 2 ^ 64" using l by (simp add: val128_def)
  also have "\<dots> \<le> 2 ^ 64 * 2 ^ 64" using h by (intro mult_right_mono) simp_all
  finally show "val128 x < 2 ^ 128" by simp
qed

lemma val128_bit: "bit (val128 x) n \<longleftrightarrow> (if n < 64 then bit (lo x) n else bit (hi x) (n - 64))"
proof -
  have "val128 x = push_bit 64 (unat (hi x)) + unat (lo x)" by (simp add: val128_def push_bit_eq_mult)
  also have "\<dots> = push_bit 64 (unat (hi x)) OR unat (lo x)"
    by (rule disjunctive_add_eq_or) (auto simp: bit_eq_iff bit_simps dest: bit_imp_le_length)
  finally show ?thesis by (auto simp: bit_simps dest: bit_imp_le_length)
qed

lemma val128_eqI: "val128 x = val128 y \<Longrightarrow> x = y"
  using val128_parts(1,2) [of x] val128_parts(1,2) [of y] by (cases x; cases y) (simp add: word_unat_eq_iff)

lemma ushiftr_val: "val128 (ushiftr128 x n) = val128 x div 2 ^ n"
proof -
  have "val128 (ushiftr128 x n) = drop_bit n (val128 x)"
    by (rule bit_eqI) (auto simp: val128_bit bit_simps ushiftr128_def add.commute dest: bit_imp_le_length)
  then show ?thesis by (simp add: drop_bit_eq_div)
qed

lemma ushiftl_val: "val128 (ushiftl128 x n) = val128 x * 2 ^ n mod 2 ^ 128"
proof -
  have "val128 (ushiftl128 x n) = take_bit 128 (push_bit n (val128 x))"
    by (rule bit_eqI)
      (auto simp: val128_bit bit_simps ushiftl128_def dest: bit_imp_le_length, simp_all add: add.commute)
  then show ?thesis by (simp add: push_bit_eq_mult take_bit_eq_mod)
qed


lemma mod_join: "l < 2 ^ 64 \<Longrightarrow> (h mod 2 ^ 64) * 2 ^ 64 + l = (h * 2 ^ 64 + l) mod 2 ^ 128" for l h :: nat
  using mod_mult2_eq [of "h * 2 ^ 64 + l" "2 ^ 64" "2 ^ 64"] by simp

lemma carry_iff: "a > a + b \<longleftrightarrow> 2 ^ 64 \<le> unat a + unat b" for a b :: "64 word"
proof -
  have "unat a < 2 ^ 64" "unat b < 2 ^ 64" using unsigned_less [where w = a] unsigned_less [where w = b] by simp_all
  then show ?thesis by (auto simp: word_less_nat_alt unat_word_ariths mod_if)
qed

lemma carry_sum:
  "unat a + unat b = unat (a + b) + (if a > a + b then 2 ^ 64 else 0)" for a b :: "64 word"
proof -
  have "unat a < 2 ^ 64" "unat b < 2 ^ 64" using unsigned_less [where w = a] unsigned_less [where w = b] by simp_all
  then show ?thesis unfolding carry_iff by (auto simp: unat_word_ariths mod_if)
qed

lemma uinc128_val: "val128 (zbx_uinc128_128 a b) = (val128 a + val128 b) mod 2 ^ 128"
proof -
  define c :: nat where "c = (if lo a > lo a + lo b then 1 else 0)"
  let ?l = "lo a + lo b"
  have "unat (lo a) + unat (lo b) = unat ?l + c * 2 ^ 64"
    unfolding c_def by (subst carry_sum) simp
  then have s: "val128 a + val128 b = (unat (hi a) + unat (hi b) + c) * 2 ^ 64 + unat ?l"
    by (simp add: val128_def algebra_simps)
  have "hi (zbx_uinc128_128 a b) = of_nat (unat (hi a) + unat (hi b) + c)"
    by (simp add: zbx_uinc128_128_def Let_def c_def)
  then have "unat (hi (zbx_uinc128_128 a b)) = (unat (hi a) + unat (hi b) + c) mod 2 ^ 64"
    by (simp add: unat_of_nat take_bit_eq_mod del: of_nat_add)
  moreover have "lo (zbx_uinc128_128 a b) = ?l" by (simp add: zbx_uinc128_128_def Let_def)
  ultimately have "val128 (zbx_uinc128_128 a b) = ((unat (hi a) + unat (hi b) + c) mod 2 ^ 64) * 2 ^ 64 + unat ?l"
    unfolding val128_def by simp
  also have "\<dots> = (val128 a + val128 b) mod 2 ^ 128"
    unfolding s by (rule mod_join) (use unsigned_less [where w = ?l] in simp)
  finally show ?thesis .
qed

lemma uinc64_eq: "zbx_uinc128_64 a v = zbx_uinc128_128 a \<lparr>lo = v, hi = 0\<rparr>"
  by (simp add: zbx_uinc128_64_def zbx_uinc128_128_def Let_def)

lemma udec128_val:
  assumes "val128 b \<le> val128 a"
  shows "val128 (udec128_128 a b) = val128 a - val128 b"
proof -
  define d where "d = udec128_128 a b"
  have "zbx_uinc128_128 d b = a"
    by (cases a; cases b) (auto simp: d_def udec128_128_def zbx_uinc128_128_def Let_def word_less_nat_alt)
  then have "(val128 d + val128 b) mod 2 ^ 128 = val128 a" using uinc128_val [of d b] by simp
  then show ?thesis
    using assms val128_parts(3) [of d] val128_parts(3) [of a] unfolding d_def by (auto simp: mod_if split: if_splits)
qed

lemma ucmp_less: "ucmp128_128 r d < 0 \<longleftrightarrow> val128 r < val128 d"
proof -
  have l: "unat (lo r) < 2 ^ 64" "unat (lo d) < 2 ^ 64"
    using unsigned_less [where w = "lo r"] unsigned_less [where w = "lo d"] by simp_all
  show ?thesis unfolding ucmp_less_iff val128_def word_less_nat_alt word_unat_eq_iff using l by auto
qed


section \<open>Division\<close>

text \<open>
  The loops of \<^verbatim>\<open>zbx_udiv128_64\<close>: the inner one moves the divisor below the remainder, the outer one subtracts it
  and sets the quotient's bit. With a divisor of zero the outer loop would not end, which the option type allows for.
\<close>

function divisor_loop :: "zbx_uint128 \<Rightarrow> zbx_uint128 \<Rightarrow> 64 word \<Rightarrow> zbx_uint128 \<times> 64 word" where
  "divisor_loop reminder divisor result_mask =
     (if ucmp128_128 reminder divisor < 0
      then divisor_loop reminder (ushiftr128 divisor 1) (drop_bit 1 result_mask)
      else (divisor, result_mask))"
  by pat_completeness auto
termination divisor_loop
  by (relation "measure (\<lambda>(r, d, m). val128 d)") (simp_all add: ucmp_less ushiftr_val)

declare divisor_loop.simps [simp del]

partial_function (option) reminder_loop ::
  "zbx_uint128 \<Rightarrow> zbx_uint128 \<Rightarrow> 64 word \<Rightarrow> 64 word \<Rightarrow> (zbx_uint128 \<times> 64 word) option" where
  "reminder_loop reminder divisor result_mask result_lo =
     (if hi reminder \<noteq> 0 then
        let (divisor, result_mask) = divisor_loop reminder divisor result_mask
        in reminder_loop (udec128_128 reminder divisor) divisor result_mask (result_lo OR result_mask)
      else Some (reminder, result_lo))"

definition zbx_udiv128_64 :: "zbx_uint128 \<Rightarrow> 64 word \<Rightarrow> zbx_uint128 option" where
  "zbx_udiv128_64 dividend v =
     (if v = 0 then None
      else if hi dividend = 0 then Some \<lparr>lo = lo dividend div v, hi = 0\<rparr>
      else
        let result_hi = (if hi dividend \<ge> v then hi dividend div v else 0);
            reminder = (if hi dividend \<ge> v then dividend\<lparr>hi := hi dividend - result_hi * v\<rparr> else dividend);
            divisor = ushiftr128 \<lparr>lo = 0, hi = v\<rparr> 1
        in case reminder_loop reminder divisor (push_bit 63 1) 0 of
             None \<Rightarrow> None
           | Some (reminder, result_lo) \<Rightarrow> Some \<lparr>lo = result_lo OR lo reminder div v, hi = result_hi\<rparr>)"

lemma or_eq_add:
  fixes a b :: nat
  assumes "2 ^ i dvd a" "b < 2 ^ i"
  shows "a OR b = a + b"
proof -
  obtain c where "a = push_bit i c" using assms(1) by (auto simp: push_bit_eq_mult mult.commute elim: dvdE)
  moreover have "b = take_bit i b" using assms(2) by (simp add: take_bit_nat_eq_self)
  ultimately have "a + b = a OR b"
    by (intro disjunctive_add_eq_or) (metis bit_eqI bit_and_iff bit_push_bit_iff bit_take_bit_iff bit_0_eq bot_apply bot_bool_def linorder_not_le)
  then show ?thesis by simp
qed

lemma divisor_loop_ok:
  assumes "val128 d = v * 2 ^ k" "k < 64" "v \<le> val128 r" "0 < v"
  shows "\<exists>d' k'. divisor_loop r d (2 ^ k) = (d', 2 ^ k') \<and> k' \<le> k \<and> val128 d' = v * 2 ^ k'
    \<and> v * 2 ^ k' \<le> val128 r \<and> (k' < k \<longrightarrow> val128 r < v * 2 ^ (k' + 1))"
  using assms
proof (induction k arbitrary: d)
  case 0
  then show ?case by (subst divisor_loop.simps) (auto simp: ucmp_less)
next
  case (Suc k)
  show ?case
  proof (cases "val128 r < v * 2 ^ Suc k")
    case True
    have "val128 (ushiftr128 d 1) = v * 2 ^ k" using Suc.prems(1) by (simp add: ushiftr_val)
    from Suc.IH [OF this] Suc.prems obtain d' k' where *: "divisor_loop r (ushiftr128 d 1) (2 ^ k) = (d', 2 ^ k')"
      "k' \<le> k" "val128 d' = v * 2 ^ k'" "v * 2 ^ k' \<le> val128 r" "k' < k \<longrightarrow> val128 r < v * 2 ^ (k' + 1)" by auto
    have "drop_bit 1 (2 ^ Suc k :: 64 word) = 2 ^ k"
      using Suc.prems(2) by (intro bit_word_eqI) (auto simp: bit_simps)
    then have "divisor_loop r d (2 ^ Suc k) = (d', 2 ^ k')"
      using True Suc.prems(1) *(1) by (subst divisor_loop.simps) (simp add: ucmp_less)
    moreover have "val128 r < v * 2 ^ (k' + 1)" if "k' \<le> k" using * True that by (cases "k' = k") auto
    ultimately show ?thesis using * by (intro exI [of _ d'] exI [of _ k']) auto
  next
    case False
    then have "divisor_loop r d (2 ^ Suc k) = (d, 2 ^ Suc k)"
      using Suc.prems(1) by (subst divisor_loop.simps) (simp add: ucmp_less)
    then show ?thesis using False Suc.prems(1) by (intro exI [of _ d] exI [of _ "Suc k"]) auto
  qed
qed


lemma unat_exp:
  assumes "k < 64"
  shows "unat (2 ^ k :: 64 word) = 2 ^ k"
proof -
  have "(2 :: nat) ^ k < 2 ^ 64" using assms by (intro power_strict_increasing) simp_all
  then have "unat (of_nat (2 ^ k) :: 64 word) = 2 ^ k"
    using assms by (simp only: unsigned_of_nat) (simp add: take_bit_nat_eq_self)
  then show ?thesis by simp
qed

lemma reminder_loop_ok:
  assumes "val128 d = v * 2 ^ k" "k < 64" "0 < v" "v < 2 ^ 64" "val128 r < v * 2 ^ j" "j = k \<or> j = k + 1"
    "2 ^ j dvd unat q"
  shows "\<exists>r' q' i. reminder_loop r d (2 ^ k) q = Some (r', q') \<and> hi r' = 0
    \<and> unat q' * v + val128 r' = unat q * v + val128 r \<and> 2 ^ i dvd unat q' \<and> val128 r' < v * 2 ^ i"
  using assms
proof (induction "val128 r" arbitrary: r d k j q rule: less_induct)
  case less
  show ?case
  proof (cases "hi r = 0")
    case True
    then show ?thesis using less.prems by (subst reminder_loop.simps) auto
  next
    case False
    then have "0 < unat (hi r)" by (simp add: unat_gt_0)
    then have big: "2 ^ 64 \<le> val128 r" by (simp add: val128_def trans_le_add1)
    then have "v \<le> val128 r" using less.prems(4) by linarith
    from divisor_loop_ok [OF less.prems(1,2) this less.prems(3)] obtain d' k' where
      dl: "divisor_loop r d (2 ^ k) = (d', 2 ^ k')" "k' \<le> k" "val128 d' = v * 2 ^ k'"
        "v * 2 ^ k' \<le> val128 r" "k' < k \<Longrightarrow> val128 r < v * 2 ^ (k' + 1)" by blast
    have kj: "k' < j" using less.prems(5,6) dl(2,4) by (cases "j = k'") auto
    have top: "val128 r < v * 2 ^ (k' + 1)"
      using dl(2,5) less.prems(5,6) kj by (cases "k' = k") auto
    let ?r = "udec128_128 r d'" and ?q = "q OR 2 ^ k'"
    have r: "val128 ?r = val128 r - v * 2 ^ k'" using dl(3,4) by (simp add: udec128_val)
    have "2 ^ (k' + 1) dvd unat q" using kj by (intro dvd_trans [OF le_imp_power_dvd less.prems(7)]) simp
    moreover have u: "unat (2 ^ k' :: 64 word) = 2 ^ k'" using dl(2) less.prems(2) by (intro unat_exp) simp
    ultimately have q: "unat ?q = unat q + 2 ^ k'"
      by (simp only: unsigned_or_eq u) (rule or_eq_add [where i = "k' + 1"], simp_all)
    have "2 ^ k' dvd unat q" using kj by (intro dvd_trans [OF le_imp_power_dvd less.prems(7)]) simp
    then have dvd: "2 ^ k' dvd unat ?q" unfolding q by simp
    have lt: "val128 ?r < v * 2 ^ k'" using top dl(4) unfolding r by (simp add: algebra_simps)
    have less': "val128 ?r < val128 r" 
      using less.prems(3) big unfolding r by (intro diff_less) simp_all
    from less.hyps [OF less' dl(3) _ less.prems(3,4) lt _ dvd] dl(2) less.prems(2) obtain r' q' i where
      *: "reminder_loop ?r d' (2 ^ k') ?q = Some (r', q')" "hi r' = 0"
        "unat q' * v + val128 r' = unat ?q * v + val128 ?r" "2 ^ i dvd unat q'" "val128 r' < v * 2 ^ i" by auto
    have "unat q' * v + val128 r' = unat q * v + val128 r"
      using *(3) dl(4) unfolding q r by (simp add: algebra_simps)
    moreover have "reminder_loop r d (2 ^ k) q = Some (r', q')"
      using False dl(1) *(1) by (subst reminder_loop.simps) simp
    ultimately show ?thesis using * by blast
  qed
qed

lemma prod_less: "a < m \<Longrightarrow> b < n \<Longrightarrow> a * b < m * n" for a b m n :: nat
  by (simp add: mult_strict_mono')

lemma unat_halves:
  "unat (v AND UINT32_BIT_MASK) = unat v mod 2 ^ 32" "unat (drop_bit 32 v) = unat v div 2 ^ 32" for v :: "64 word"
proof -
  have "v AND UINT32_BIT_MASK = take_bit 32 v" by (simp add: take_bit_eq_mask mask_eq_exp_minus_1)
  then have "unat (v AND UINT32_BIT_MASK) = take_bit 32 (unat v)" by (simp only: unsigned_take_bit_eq)
  then show "unat (v AND UINT32_BIT_MASK) = unat v mod 2 ^ 32" by (simp only: take_bit_eq_mod)
  have "unat (drop_bit 32 v) = drop_bit 32 (unat v)" 
    by (simp only: unsigned_drop_bit_eq take_bit_nat_eq_self unsigned_less)
  then show "unat (drop_bit 32 v) = unat v div 2 ^ 32" by (simp only: drop_bit_eq_div)
qed

lemma unat_low: "unat (v AND mask 32) = unat v mod 2 ^ 32" for v :: "64 word"
  using unat_halves(1) [of v] by (simp add: mask_eq_exp_minus_1)

lemma umul32_val:
  assumes "unat f < 2 ^ 32" "s \<le> 32"
  shows "val128 (umul64_32_shift b v f s) = (val128 b + unat v * unat f * 2 ^ s) mod 2 ^ 128"
proof -
  define l where "l = unat v mod 2 ^ 32"
  define h where "h = unat v div 2 ^ 32"
  have ul: "unat (v AND UINT32_BIT_MASK) = l" and uh: "unat (drop_bit 32 v) = h"
    unfolding l_def h_def by (rule unat_halves)+
  have "unat v < 2 ^ 64" using unsigned_less [where w = v] by simp
  then have "l < 2 ^ 32" "h < 2 ^ 32" by (simp_all add: l_def h_def less_mult_imp_div_less)
  then have "l * unat f < 2 ^ 32 * 2 ^ 32" "h * unat f < 2 ^ 32 * 2 ^ 32"
    using assms(1) by (blast intro: prod_less)+
  then have p: "unat ((v AND UINT32_BIT_MASK) * f) = l * unat f" "unat (drop_bit 32 v * f) = h * unat f"
    by (simp_all add: unat_word_ariths uh unat_low l_def)
  have "val128 (umul64_32_shift b v f s) = (val128 b + l * unat f * 2 ^ s + h * unat f * 2 ^ (32 + s)) mod 2 ^ 128"
    unfolding umul64_32_shift_def Let_def uinc128_val ushiftl_val
    by (simp only: val128_def [of "\<lparr>lo = _, hi = 0\<rparr>"] select_convs p unat_0 mult_zero_left add_0 mod_simps add.assoc)
  moreover have "l * unat f * 2 ^ s + h * unat f * 2 ^ (32 + s) = (l + h * 2 ^ 32) * unat f * 2 ^ s"
    by (simp add: algebra_simps power_add)
  moreover have "l + h * 2 ^ 32 = unat v" by (simp add: l_def h_def)
  ultimately show ?thesis by (simp only: add.assoc)
qed


section \<open>Exactness\<close>

text \<open>
  C17: The product of two 64-bit values, put together from four 32-bit products with carries and shifts, is exact.
\<close>
theorem umul64_64_exact: "val128 (zbx_umul64_64 a b) = unat a * unat b"
proof -
  have "unat a < 2 ^ 64" "unat b < 2 ^ 64" using unsigned_less [where w = a] unsigned_less [where w = b] by simp_all
  then have "unat a * unat b < 2 ^ 64 * 2 ^ 64" and "unat b div 2 ^ 32 < 2 ^ 32"
    by (rule prod_less, simp_all add: less_mult_imp_div_less)
  moreover have "val128 (zbx_umul64_64 a b)
      = (unat a * (unat b mod 2 ^ 32) + unat a * (unat b div 2 ^ 32) * 2 ^ 32) mod 2 ^ 128"
    using calculation(2) unfolding zbx_umul64_64_def Let_def
    by (simp add: umul32_val unat_halves(2) unat_low mod_simps) (simp add: val128_def mod_simps)
  moreover have "unat a * (unat b mod 2 ^ 32) + unat a * (unat b div 2 ^ 32) * 2 ^ 32 = unat a * unat b"
    unfolding mult.assoc distrib_left [symmetric] mod_div_mult_eq ..
  ultimately show ?thesis by simp
qed

lemma udiv_high:
  assumes "v \<noteq> 0"
  shows "val128 (if hi x \<ge> v then x\<lparr>hi := hi x - hi x div v * v\<rparr> else x) = (unat (hi x) mod unat v) * 2 ^ 64 + unat (lo x)"
    "unat (if hi x \<ge> v then hi x div v else 0) = unat (hi x) div unat v"
proof -
  have "hi x - hi x div v * v = hi x mod v" by (simp add: minus_div_mult_eq_mod)
  then show "val128 (if hi x \<ge> v then x\<lparr>hi := hi x - hi x div v * v\<rparr> else x) = (unat (hi x) mod unat v) * 2 ^ 64 + unat (lo x)"
    by (auto simp: val128_def unat_mod_distrib word_le_nat_alt)
  show "unat (if hi x \<ge> v then hi x div v else 0) = unat (hi x) div unat v"
    by (auto simp: unat_div_distrib word_le_nat_alt)
qed

text \<open>
  C16: Division of a 128-bit by a 64-bit value ends and is exact for every divisor but zero, both quotient halves
  included: no quotient bit is set twice, and the last 64-bit division does not overlap with the bits set before.
\<close>
theorem udiv128_64_exact:
  assumes "v \<noteq> 0"
  shows "\<exists>q. zbx_udiv128_64 x v = Some q \<and> val128 q = val128 x div unat v"
proof (cases "hi x = 0")
  case True
  then show ?thesis using assms by (simp add: zbx_udiv128_64_def val128_def unat_div_distrib)
next
  case False
  define w where "w = unat v"
  define r where "r = (if hi x \<ge> v then x\<lparr>hi := hi x - hi x div v * v\<rparr> else x)"
  define d where "d = ushiftr128 \<lparr>lo = 0, hi = v\<rparr> 1"
  have w: "0 < w" "w < 2 ^ 64" using assms unsigned_less [where w = v] by (simp_all add: w_def unat_gt_0)
  have lo: "unat (lo x) < 2 ^ 64" using unsigned_less [where w = "lo x"] by simp
  have r: "val128 r = (unat (hi x) mod w) * 2 ^ 64 + unat (lo x)"
    unfolding r_def w_def by (rule udiv_high(1) [OF assms])
  have d: "val128 d = w * 2 ^ 63" unfolding d_def ushiftr_val by (simp add: val128_def w_def)
  have "val128 r < (unat (hi x) mod w + 1) * 2 ^ 64" using lo unfolding r by simp
  also have "\<dots> \<le> w * 2 ^ 64" using w(1) by (intro mult_right_mono) (simp_all add: Suc_le_eq)
  finally have "val128 r < w * 2 ^ 64" .
  from reminder_loop_ok [OF d _ w this, of 0] obtain r' q' i where
    *: "reminder_loop r d (2 ^ 63) 0 = Some (r', q')" "hi r' = 0" "unat q' * w + val128 r' = val128 r"
      "2 ^ i dvd unat q'" "val128 r' < w * 2 ^ i" by auto
  let ?h = "if hi x \<ge> v then hi x div v else 0"
  have lr: "val128 r' = unat (lo r')" using *(2) by (simp add: val128_def)
  have "zbx_udiv128_64 x v = Some \<lparr>lo = q' OR lo r' div v, hi = ?h\<rparr>"
    using False assms *(1) unfolding zbx_udiv128_64_def r_def d_def by (auto simp: Let_def push_bit_eq_mult)
  moreover have "unat (q' OR lo r' div v) = unat q' + unat (lo r') div w"
    unfolding unsigned_or_eq unat_div_distrib w_def [symmetric]
    by (rule or_eq_add [OF *(4)]) (use *(5) lr w in \<open>simp add: less_mult_imp_div_less mult.commute\<close>)
  moreover have "unat q' + unat (lo r') div w = val128 r div w"
    using w(1) unfolding *(3) [symmetric] lr by simp
  moreover have "val128 x div w = unat (hi x) div w * 2 ^ 64 + val128 r div w"
  proof -
    have "(w * (unat (hi x) div w) + unat (hi x) mod w) * 2 ^ 64
        = w * (unat (hi x) div w * 2 ^ 64) + unat (hi x) mod w * 2 ^ 64"
      by (simp only: distrib_right mult.assoc)
    then have "val128 x = w * (unat (hi x) div w * 2 ^ 64) + val128 r"
      unfolding r val128_def [of x] mult_div_mod_eq by (simp only: add.assoc)
    then show ?thesis using w(1) by simp
  qed
  ultimately show ?thesis
    using udiv_high(2) [OF assms, of x] by (simp add: val128_def w_def)
qed

theorem udiv128_64_exact_witness:
  "\<exists>q. zbx_udiv128_64 \<lparr>lo = 5, hi = 7\<rparr> 3 = Some q \<and> val128 q = (7 * 2 ^ 64 + 5) div 3"
  using udiv128_64_exact [of 3 "\<lparr>lo = 5, hi = 7\<rparr>"] by (simp add: val128_def)

text \<open>
  Adding wraps around at 128 bits with every carry, subtracting a value that is not larger is exact, shifts lose
  exactly the bits that leave the 128, and the comparison is the numeric order.
\<close>
theorem uint128_arith:
  "val128 (zbx_uinc128_128 a b) = (val128 a + val128 b) mod 2 ^ 128
   \<and> val128 (zbx_uinc128_64 a v) = (val128 a + unat v) mod 2 ^ 128
   \<and> val128 (udec128_128 (if ucmp128_128 a b < 0 then b else a) (if ucmp128_128 a b < 0 then a else b))
       = nat \<bar>int (val128 a) - int (val128 b)\<bar>
   \<and> val128 (ushiftr128 a n) = val128 a div 2 ^ n
   \<and> val128 (ushiftl128 a n) = val128 a * 2 ^ n mod 2 ^ 128"
proof -
  have "val128 (zbx_uinc128_64 a v) = (val128 a + unat v) mod 2 ^ 128"
    unfolding uinc64_eq uinc128_val by (simp add: val128_def)
  moreover have "val128 (udec128_128 (if ucmp128_128 a b < 0 then b else a) (if ucmp128_128 a b < 0 then a else b))
      = nat \<bar>int (val128 a) - int (val128 b)\<bar>"
  proof (cases "val128 a < val128 b")
    case True
    then show ?thesis unfolding ucmp_less by (simp add: udec128_val)
  next
    case False
    then show ?thesis unfolding ucmp_less by (simp add: udec128_val)
  qed
  ultimately show ?thesis using uinc128_val ushiftr_val ushiftl_val by blast
qed

end
