(* ===== verification/ZbxBase64.thy ===== *)
theory ZbxBase64
  imports Prelude
begin

text \<open>
  Base64, \<^verbatim>\<open>src/libs/zbxcrypto/base64.c\<close>: the validation of a text, encoding into a buffer of its own in blocks, and
  decoding into a buffer of a given size.

  \<^item> What the encoder writes is the list of the characters from its output pointer on, with the terminating NUL; the
    data that is encoded may contain NULs. The buffer that \<^verbatim>\<open>zbx_base64_encode_dyn\<close> allocates has any content at first.
  \<^item> An unsigned \<^verbatim>\<open>char\<close> is an \<open>8 word\<close>. The range tests on a signed \<^verbatim>\<open>char\<close> have ASCII bounds, so that the
    order of the unsigned values decides them alike.
  \<^item> Sizes of the type \<^verbatim>\<open>int\<close> are naturals here: the data is short enough for the size of its encoding to be an \<^verbatim>\<open>int\<close>.
\<close>

unbundle bit_operations_syntax

abbreviation (input) ZBX_MAX_B64_LEN :: nat where "ZBX_MAX_B64_LEN \<equiv> 16 * 1024"

section \<open>Characters\<close>

definition in_range :: "char \<Rightarrow> char \<Rightarrow> char \<Rightarrow> bool" where
  "in_range lo hi c \<longleftrightarrow> (of_char lo :: nat) \<le> of_char c \<and> (of_char c :: nat) \<le> of_char hi"

definition is_valid_base64_char :: "char \<Rightarrow> bool" where
  "is_valid_base64_char c \<longleftrightarrow>
     in_range CHR ''A'' CHR ''Z'' c \<or> in_range CHR ''a'' CHR ''z'' c \<or> in_range CHR ''/'' CHR ''9'' c \<or> CHR ''+'' = c"

definition is_base64 :: "char \<Rightarrow> bool" where
  "is_base64 c \<longleftrightarrow>
     in_range CHR ''A'' CHR ''Z'' c \<or> in_range CHR ''a'' CHR ''z'' c \<or> in_range CHR ''0'' CHR ''9'' c
     \<or> c = CHR ''+'' \<or> c = CHR ''/'' \<or> c = CHR ''=''"

definition base64_set :: string where
  "base64_set = ''ABCDEFGHIJKLMNOPQRSTUVWXYZabcdefghijklmnopqrstuvwxyz0123456789+/''"

definition char_base64_encode :: "8 word \<Rightarrow> char" where
  "char_base64_encode uc = base64_set ! unat uc"

definition char_base64_decode :: "char \<Rightarrow> 8 word" where
  "char_base64_decode c =
     (if in_range CHR ''A'' CHR ''Z'' c then of_char c - of_char CHR ''A''
      else if in_range CHR ''a'' CHR ''z'' c then of_char c - of_char CHR ''a'' + 26
      else if in_range CHR ''0'' CHR ''9'' c then of_char c - of_char CHR ''0'' + 52
      else if c = CHR ''+'' then 62
      else 63)"

section \<open>Validation\<close>

definition valid_block :: "string \<Rightarrow> nat \<Rightarrow> bool" where
  "valid_block p_str i \<longleftrightarrow> is_valid_base64_char (peek_at p_str (i - 4)) \<and> is_valid_base64_char (peek_at p_str (i - 3))
     \<and> is_valid_base64_char (peek_at p_str (i - 2)) \<and> is_valid_base64_char (peek_at p_str (i - 1))"

definition final_block :: "string \<Rightarrow> nat \<Rightarrow> bool" where
  "final_block p_str i \<longleftrightarrow>
     is_valid_base64_char (peek_at p_str (i - 4)) \<and> is_valid_base64_char (peek_at p_str (i - 3))
       \<and> CHR ''='' = peek_at p_str (i - 2) \<and> CHR ''='' = peek_at p_str (i - 1)
     \<or> is_valid_base64_char (peek_at p_str (i - 4)) \<and> is_valid_base64_char (peek_at p_str (i - 3))
       \<and> is_valid_base64_char (peek_at p_str (i - 2)) \<and> CHR ''='' = peek_at p_str (i - 1)
     \<or> valid_block p_str i"

lemma peek_at_end: "length s \<le> i \<Longrightarrow> peek_at s i = NUL"
  by (simp add: peek_at_def)

function validate_loop :: "string \<Rightarrow> nat \<Rightarrow> bool" where
  "validate_loop p_str i =
     (if peek_at p_str i \<noteq> NUL \<or> i mod 4 = 0 then
        (if i mod 4 \<noteq> 0 then validate_loop p_str (i + 1)
         else if valid_block p_str i then (if peek_at p_str i = NUL then True else validate_loop p_str (i + 1))
         else if peek_at p_str i = NUL then final_block p_str i
         else False)
      else False)"
  by pat_completeness auto
termination validate_loop
proof (relation "measure (\<lambda>(p_str, i). length p_str - i)", goal_cases)
  case (2 p_str i)
  then show ?case using peek_at_end [of p_str i] by fastforce
next
  case (3 p_str i)
  then show ?case using peek_at_end [of p_str i] by fastforce
qed simp

declare validate_loop.simps [simp del]

definition zbx_base64_validate :: "string \<Rightarrow> bool" where
  "zbx_base64_validate p_str \<longleftrightarrow> peek p_str = NUL \<or> validate_loop p_str 1"

section \<open>Encoding\<close>

definition encode_block :: "8 word \<Rightarrow> 8 word \<Rightarrow> 8 word \<Rightarrow> bool \<Rightarrow> bool \<Rightarrow> string" where
  "encode_block from1 from2 from3 has2 has3 =
     (let to1 = drop_bit 2 from1 AND 0x3f;
          to2 = push_bit 4 (from1 AND 0x3) OR drop_bit 4 from2;
          to3 = push_bit 2 (from2 AND 0xf) OR drop_bit 6 from3;
          to4 = from3 AND 0x3f
      in [char_base64_encode to1, char_base64_encode to2,
          if has2 then char_base64_encode to3 else CHR ''='',
          if has3 then char_base64_encode to4 else CHR ''=''])"

definition byte_or_0 :: "string \<Rightarrow> 8 word" where
  "byte_or_0 s = (case s of [] \<Rightarrow> 0 | c # _ \<Rightarrow> of_char c)"

text \<open>\<open>written\<close> is how far the output pointer has moved.\<close>

function encode_loop :: "nat \<Rightarrow> string \<Rightarrow> string" where
  "encode_loop written [] = []"
| "encode_loop written (c # s) =
     (if ZBX_MAX_B64_LEN - 5 < written then []
      else encode_block (of_char c) (byte_or_0 s) (byte_or_0 (drop 1 s)) (s \<noteq> []) (drop 1 s \<noteq> [])
        @ encode_loop (written + 4) (drop 2 s))"
  by pat_completeness auto
termination by (relation "measure (\<lambda>(written, s). length s)") auto

definition zbx_base64_encode :: "string \<Rightarrow> string" where
  "zbx_base64_encode s = (if s = [] then [] else encode_loop 0 s @ [NUL])"

text \<open>Writing into the buffer from an offset on.\<close>

definition put_at :: "string \<Rightarrow> nat \<Rightarrow> string \<Rightarrow> c_fault + string" where
  "put_at buf off data =
     (if off + length data \<le> length buf then Inr (take off buf @ data @ drop (off + length data) buf) else Inl OOB_WRITE)"

abbreviation (input) c_per_block :: nat where "c_per_block \<equiv> (ZBX_MAX_B64_LEN - 1) div 4 * 3"
abbreviation (input) b_per_block :: nat where "b_per_block \<equiv> c_per_block div 3 * 4"

fun full_blocks :: "nat \<Rightarrow> string \<Rightarrow> nat \<Rightarrow> string \<Rightarrow> c_fault + string \<times> string \<times> nat" where
  "full_blocks 0 pc pc_r buf = Inr (buf, pc, pc_r)"
| "full_blocks (Suc n) pc pc_r buf =
     (case put_at buf pc_r (zbx_base64_encode (take c_per_block pc)) of
        Inl e \<Rightarrow> Inl e
      | Inr buf \<Rightarrow> full_blocks n (drop c_per_block pc) (pc_r + b_per_block) buf)"

text \<open>\<open>garbage\<close> is what the allocated memory holds at first.\<close>

definition zbx_base64_encode_dyn :: "(nat \<Rightarrow> char) \<Rightarrow> string \<Rightarrow> c_fault + string" where
  "zbx_base64_encode_dyn garbage s =
     (let buf = map garbage [0..<(length s + 2) div 3 * 4 + 1];
          bytes_left = length s mod c_per_block
      in case full_blocks (length s div c_per_block) s 0 buf of
           Inl e \<Rightarrow> Inl e
         | Inr (buf, pc, pc_r) \<Rightarrow>
             if bytes_left \<noteq> 0 then
               (case put_at buf pc_r (zbx_base64_encode (take bytes_left pc)) of
                  Inl e \<Rightarrow> Inl e
                | Inr buf \<Rightarrow> put_at buf (pc_r + (bytes_left + 2) div 3 * 4) [NUL])
             else put_at buf pc_r [NUL])"

section \<open>Decoding\<close>

text \<open>Up to four characters of the alphabet, what follows them, and whether the text has ended.\<close>

fun collect :: "string \<Rightarrow> string \<Rightarrow> string \<times> string \<times> bool" where
  "collect from4 [] = (from4, [], True)"
| "collect from4 (c # p) =
     (if c = NUL then (from4, c # p, True)
      else if \<not> is_base64 c then collect from4 p
      else if length from4 < 3 then collect (from4 @ [c]) p
      else (from4 @ [c], p, False))"

text \<open>The bytes of a block; characters that are missing count as \<^verbatim>\<open>A\<close>.\<close>

definition decode_block :: "string \<Rightarrow> string" where
  "decode_block from4 =
     (let to4 = map char_base64_decode (from4 @ replicate (4 - length from4) CHR ''A'') in
      (if 2 \<le> length from4 then [char_of (unat (push_bit 2 (to4 ! 0) OR drop_bit 4 (to4 ! 1)))] else [])
      @ (if 3 \<le> length from4 \<and> CHR ''='' \<noteq> from4 ! 2
         then [char_of (unat (push_bit 4 (to4 ! 1 AND 0xf) OR drop_bit 2 (to4 ! 2)))] else [])
      @ (if 4 \<le> length from4 \<and> CHR ''='' \<noteq> from4 ! 3
         then [char_of (unat (push_bit 6 (to4 ! 2 AND 0x3) OR to4 ! 3))] else []))"

text \<open>Writing stops when the buffer is full.\<close>

fun emit :: "nat \<Rightarrow> string \<Rightarrow> string \<Rightarrow> string \<times> bool" where
  "emit maxsize out [] = (out, False)"
| "emit maxsize out (c # cs) =
     (let out = out @ [c] in if length out = maxsize then (out, True) else emit maxsize out cs)"

lemma collect_shorter: "collect from4 p = (from4', p', False) \<Longrightarrow> length p' < length p"
  by (induction from4 p rule: collect.induct) (auto split: if_splits)

function decode_loop :: "nat \<Rightarrow> string \<Rightarrow> string \<Rightarrow> string" where
  "decode_loop maxsize p out =
     (let (from4, p, finished) = collect [] p;
          (out, full) = (if from4 = [] then (out, False) else emit maxsize out (decode_block from4))
      in if full \<or> finished then out else decode_loop maxsize p out)"
  by pat_completeness auto
termination
  by (relation "measure (\<lambda>(maxsize, p, out). length p)") (auto dest: collect_shorter [OF sym])

declare decode_loop.simps [simp del]

definition zbx_base64_decode :: "string \<Rightarrow> nat \<Rightarrow> string" where
  "zbx_base64_decode p_b64str maxsize = decode_loop maxsize p_b64str []"

end
