(* ===== verification/ZbxBase64Props.thy ===== *)
theory ZbxBase64Props
  imports ZbxBase64
begin

text \<open>
  Base64: decoding a block gives back the bytes it was made of, the blocks that \<^verbatim>\<open>zbx_base64_encode_dyn\<close> writes
  one after the other make up the encoding of the whole, the texts that are accepted as a grammar, and how much is
  decoded.
\<close>

section \<open>Sextets\<close>

lemma set_chars: "list_all (\<lambda>c. is_valid_base64_char c \<and> is_base64 c \<and> c \<noteq> NUL \<and> c \<noteq> CHR ''='') base64_set"
  by (simp add: base64_set_def is_valid_base64_char_def is_base64_def in_range_def)

lemma set_decoded: "map char_base64_decode base64_set = map word_of_nat [0..<64]"
  by (simp add: base64_set_def char_base64_decode_def in_range_def upt_rec)

lemma sextet:
  assumes "uc < 64"
  shows "is_valid_base64_char (char_base64_encode uc)" "is_base64 (char_base64_encode uc)" "char_base64_decode (char_base64_encode uc) = uc"
    "char_base64_encode uc \<noteq> NUL" "char_base64_encode uc \<noteq> CHR ''=''"
proof -
  have n: "unat uc < 64" using assms by (simp add: word_less_nat_alt)
  have len: "length base64_set = 64" by (simp add: base64_set_def)
  then have "char_base64_encode uc \<in> set base64_set" using n by (simp add: char_base64_encode_def)
  with set_chars show "is_valid_base64_char (char_base64_encode uc)" "is_base64 (char_base64_encode uc)"
    "char_base64_encode uc \<noteq> NUL" "char_base64_encode uc \<noteq> CHR ''=''" unfolding list_all_iff by auto
  show "char_base64_decode (char_base64_encode uc) = uc"
    using arg_cong [OF set_decoded, of "\<lambda>xs. xs ! unat uc"] n len by (simp add: char_base64_encode_def)
qed

lemma numeral_mask: "(0x3f :: 8 word) = mask 6" "(0x3 :: 8 word) = mask 2" "(0xf :: 8 word) = mask 4"
  by (simp_all add: mask_eq_exp_minus_1)

lemma bit_8: "n < 8 \<Longrightarrow> n = 0 \<or> n = 1 \<or> n = 2 \<or> n = 3 \<or> n = 4 \<or> n = 5 \<or> n = 6 \<or> n = (7 :: nat)"
  by linarith

lemma bit_8_out: "8 \<le> n \<Longrightarrow> \<not> bit (w :: 8 word) n"
  using bit_imp_le_length [of w n] by fastforce

lemma eq_8I:
  fixes v w :: "8 word"
  assumes "bit v 0 = bit w 0" "bit v 1 = bit w 1" "bit v 2 = bit w 2" "bit v 3 = bit w 3"
    "bit v 4 = bit w 4" "bit v 5 = bit w 5" "bit v 6 = bit w 6" "bit v 7 = bit w 7"
  shows "v = w"
proof (rule bit_word_eqI)
  fix n assume "n < LENGTH(8)"
  then have "n < 8" by simp
  from bit_8 [OF this] show "bit v n = bit w n" using assms by (elim disjE) (simp_all only:)
qed

lemmas bits_8 = bit_or_iff bit_and_iff bit_push_bit_iff possible_bit_word bit_drop_bit_eq bit_mask_iff comp_def bit_8_out
  numeral_2_eq_2 [symmetric] numeral_3_eq_3 [symmetric]

lemma sextet_bounds:
  fixes a b c :: "8 word"
  shows "drop_bit 2 a AND 0x3f < 64" "push_bit 4 (a AND 0x3) OR drop_bit 4 b < 64" "push_bit 2 (b AND 0xf) OR drop_bit 6 c < 64"
    "c AND 0x3f < 64"
proof -
  have lt: "w < 64" if "w = w AND mask 6" for w :: "8 word"
    using that and_mask_less_size [of 6 w] by (simp add: word_size)
  show "drop_bit 2 a AND 0x3f < 64" "c AND 0x3f < 64"
    by (rule lt, simp add: numeral_mask ac_simps)+
  show "push_bit 4 (a AND 0x3) OR drop_bit 4 b < 64" "push_bit 2 (b AND 0xf) OR drop_bit 6 c < 64"
    unfolding numeral_mask by (rule lt, rule eq_8I; simp add: bits_8 del: push_bit_and push_bit_or)+
qed

lemma sextets_bytes:
  fixes a b c :: "8 word"
  shows "push_bit 2 (drop_bit 2 a AND 0x3f) OR drop_bit 4 (push_bit 4 (a AND 0x3) OR drop_bit 4 b) = a"
    "push_bit 4 ((push_bit 4 (a AND 0x3) OR drop_bit 4 b) AND 0xf) OR drop_bit 2 (push_bit 2 (b AND 0xf) OR drop_bit 6 c) = b"
    "push_bit 6 ((push_bit 2 (b AND 0xf) OR drop_bit 6 c) AND 0x3) OR (c AND 0x3f) = c"
  unfolding numeral_mask by (rule eq_8I; simp add: bits_8 del: push_bit_and push_bit_or)+

section \<open>Encoding\<close>

text \<open>The encoding as a whole, without blocks.\<close>

fun base64_text :: "string \<Rightarrow> string" where
  "base64_text [] = []"
| "base64_text (c # s) =
     encode_block (of_char c) (byte_or_0 s) (byte_or_0 (drop 1 s)) (s \<noteq> []) (drop 1 s \<noteq> []) @ base64_text (drop 2 s)"

lemma encode_block_length [simp]: "length (encode_block a b c p q) = 4"
  by (simp add: encode_block_def Let_def)

lemma base64_text_length: "length (base64_text s) = (length s + 2) div 3 * 4"
proof (induction s rule: base64_text.induct)
  case (2 c s)
  show ?case
  proof (cases "length s < 2")
    case True
    then have "length s = 0 \<or> length s = 1" by linarith
    then show ?thesis by auto
  next
    case False
    then have "(length (c # s) + 2) div 3 = Suc ((length (drop 2 s) + 2) div 3)" by simp
    then show ?thesis using 2 by (simp del: length_drop)
  qed
qed simp

lemma encode_loop_text: "written + (length s + 2) div 3 * 4 \<le> 16380 \<Longrightarrow> encode_loop written s = base64_text s"
proof (induction written s rule: encode_loop.induct)
  case (2 written c s)
  have one: "1 \<le> (length (c # s) + 2) div 3" by simp
  then have "\<not> 16379 < written" using 2(2) by linarith
  moreover have "written + 4 + (length (drop 2 s) + 2) div 3 * 4 \<le> 16380"
  proof (cases "length s < 2")
    case True
    then have "(length (drop 2 s) + 2) div 3 = 0" by simp
    then show ?thesis using 2(2) one by linarith
  next
    case False
    then have "(length (c # s) + 2) div 3 = Suc ((length (drop 2 s) + 2) div 3)" by simp
    then show ?thesis using 2(2) by simp
  qed
  ultimately show ?case using 2(1) by simp
qed simp

lemma base64_text_append: "length s mod 3 = 0 \<Longrightarrow> base64_text (s @ t) = base64_text s @ base64_text t"
proof (induction s rule: base64_text.induct)
  case (2 c s)
  from 2(2) obtain d e r where "s = d # e # r" by (cases s; cases "tl s") auto
  with 2 show ?case by (simp add: byte_or_0_def)
qed simp

lemma put_at_ok:
  assumes "off + length data \<le> length buf"
  shows "\<exists>buf'. put_at buf off data = Inr buf' \<and> length buf' = length buf \<and> take (off + length data) buf' = take off buf @ data"
  using assms by (auto simp: put_at_def)

lemma full_blocks_ok:
  "n * 12285 \<le> length pc \<Longrightarrow> pc_r + n * 16380 < length buf \<Longrightarrow>
   \<exists>buf'. full_blocks n pc pc_r buf = Inr (buf', drop (n * 12285) pc, pc_r + n * 16380) \<and> length buf' = length buf
     \<and> take (pc_r + n * 16380) buf' = take pc_r buf @ base64_text (take (n * 12285) pc)"
proof (induction n arbitrary: pc pc_r buf)
  case (Suc n)
  let ?block = "take 12285 pc"
  have len: "length ?block = 12285" using Suc.prems(1) by simp
  have out: "zbx_base64_encode ?block = base64_text ?block @ [NUL]" "length (base64_text ?block) = 16380"
    using encode_loop_text [of 0 ?block] len by (auto simp: zbx_base64_encode_def base64_text_length)
  from put_at_ok [of pc_r "zbx_base64_encode ?block" buf] Suc.prems(2) out obtain buf1 where b:
    "put_at buf pc_r (zbx_base64_encode ?block) = Inr buf1" "length buf1 = length buf"
    "take (pc_r + 16381) buf1 = take pc_r buf @ base64_text ?block @ [NUL]" by auto
  have "take (pc_r + 16380) buf1 = take (pc_r + 16380) (take (pc_r + 16381) buf1)" by simp
  then have t: "take (pc_r + 16380) buf1 = take pc_r buf @ base64_text ?block"
    unfolding b(3) using out(2) Suc.prems(2) by simp
  have "n * 12285 \<le> length (drop 12285 pc)" "pc_r + 16380 + n * 16380 < length buf1"
    using Suc.prems b(2) unfolding length_drop mult_Suc by linarith+
  then obtain buf' where r: "full_blocks n (drop 12285 pc) (pc_r + 16380) buf1 = Inr (buf', drop (n * 12285) (drop 12285 pc), pc_r + 16380 + n * 16380)"
    "length buf' = length buf1"
    "take (pc_r + 16380 + n * 16380) buf' = take (pc_r + 16380) buf1 @ base64_text (take (n * 12285) (drop 12285 pc))"
    using Suc.IH [of "drop 12285 pc" "pc_r + 16380" buf1] by blast
  have "base64_text (take (Suc n * 12285) pc) = base64_text ?block @ base64_text (take (n * 12285) (drop 12285 pc))"
    using base64_text_append [of ?block "take (n * 12285) (drop 12285 pc)"] len by (simp add: take_add)
  then have whole: "base64_text (take (Suc n * 12285) pc) = base64_text ?block @ base64_text (take (n * 12285) (drop 12285 pc))" .
  have d: "drop (n * 12285) (drop 12285 pc) = drop (Suc n * 12285) pc" unfolding drop_drop mult_Suc by (rule arg_cong2 [of _ _ _ _ drop]) simp_all
  have p: "pc_r + 16380 + n * 16380 = pc_r + Suc n * 16380" by simp
  have "full_blocks (Suc n) pc pc_r buf = full_blocks n (drop 12285 pc) (pc_r + 16380) buf1" using b(1) by simp
  then show ?case using r(2,3) b(2) unfolding r(1) d p t whole append_assoc by (intro exI [of _ buf']) simp
qed simp

lemma block_size: "(16 * 1024 - 1) div 4 * 3 = (12285 :: nat)"
  by simp

lemma encode_dyn_ok: "zbx_base64_encode_dyn garbage s = Inr (base64_text s @ [NUL])"
proof -
  define n where "n = length s div 12285"
  define m where "m = length s mod 12285"
  define buf where "buf = map garbage [0..<(length s + 2) div 3 * 4 + 1]"
  have len: "length s = n * 12285 + m" "m < 12285" by (simp_all add: n_def m_def)
  have size: "length buf = n * 16380 + (m + 2) div 3 * 4 + 1"
  proof -
    have "length s + 2 = (m + 2) + 3 * (n * 4095)" using len(1) by simp
    then show ?thesis unfolding buf_def by (simp only: length_map length_upt div_mult_self2) simp
  qed
  from full_blocks_ok [of n s 0 buf] len(1) size obtain buf1 where b: "full_blocks n s 0 buf = Inr (buf1, drop (n * 12285) s, n * 16380)"
    "length buf1 = length buf" "take (n * 16380) buf1 = base64_text (take (n * 12285) s)" by auto
  let ?rest = "drop (n * 12285) s"
  have rest: "length ?rest = m" "take m ?rest = ?rest" by (simp_all add: len(1))
  have split: "base64_text s = base64_text (take (n * 12285) s) @ base64_text ?rest"
    using base64_text_append [of "take (n * 12285) s" ?rest] len(1) by simp
  show ?thesis
  proof (cases "m = 0")
    case True
    then have "?rest = []" "length buf1 = n * 16380 + 1" using rest(1) b(2) size by simp_all
    moreover from this have "take (n * 16380) buf1 = base64_text s" using b(3) split by (simp only: base64_text.simps append_Nil2)
    ultimately have "put_at buf1 (n * 16380) [NUL] = Inr (base64_text s @ [NUL])" by (simp add: put_at_def)
    then show ?thesis unfolding zbx_base64_encode_dyn_def Let_def block_size n_def [symmetric] m_def [symmetric] buf_def [symmetric] b(1)
      using True by simp
  next
    case False
    then have out: "zbx_base64_encode ?rest = base64_text ?rest @ [NUL]" "length (base64_text ?rest) = (m + 2) div 3 * 4"
      using encode_loop_text [of 0 ?rest] rest(1) len(2) by (auto simp: zbx_base64_encode_def base64_text_length)
    define off where "off = n * 16380 + (m + 2) div 3 * 4"
    have full: "put_at buf1 (n * 16380) (base64_text ?rest @ [NUL]) = Inr (base64_text s @ [NUL])"
      using b(2,3) size out(2) split by (simp add: put_at_def)
    have "length (base64_text s) = off" using b(2,3) size out(2) unfolding split by (simp add: off_def base64_text_length len(1))
    then have "put_at (base64_text s @ [NUL]) off [NUL] = Inr (base64_text s @ [NUL])" by (simp add: put_at_def)
    then show ?thesis unfolding zbx_base64_encode_dyn_def Let_def block_size n_def [symmetric] m_def [symmetric] buf_def [symmetric]
      using b(1) full False rest(2) out(1) by (simp add: off_def)
  qed
qed

section \<open>Decoding what was encoded\<close>

lemma emit_take:
  "length out < maxsize \<Longrightarrow> emit maxsize out cs = (take maxsize (out @ cs), maxsize \<le> length (out @ cs))"
proof (induction maxsize out cs rule: emit.induct)
  case (2 maxsize out c cs)
  then show ?case by (cases "length out + 1 = maxsize") auto
qed simp

lemma of_char_back: "char_of (unat (of_char c :: 8 word)) = c"
proof -
  have "(of_char c :: nat) < 256" by simp
  moreover have "(of_char c :: 8 word) = word_of_nat (of_char c)" by (rule of_nat_of_char [symmetric])
  ultimately have "unat (of_char c :: 8 word) = of_char c" by (simp only: unat_of_nat take_bit_nat_eq_self) (simp add: take_bit_nat_eq_self)
  then show ?thesis by simp
qed

lemma collect4:
  assumes "list_all (\<lambda>c. c \<noteq> NUL \<and> is_base64 c) [c1, c2, c3, c4]"
  shows "collect [] (c1 # c2 # c3 # c4 # p) = ([c1, c2, c3, c4], p, False)"
  using assms by simp

lemma pad_ok: "is_base64 CHR ''=''" "CHR ''='' \<noteq> NUL"
  by (simp_all add: is_base64_def)

lemma encode_block_collect: "collect [] (encode_block a b c p q @ t) = (encode_block a b c p q, t, False)"
  using sextet [OF sextet_bounds(1) [of a]] sextet [OF sextet_bounds(2) [of a b]] sextet [OF sextet_bounds(3) [of b c]]
    sextet [OF sextet_bounds(4) [of c]] pad_ok
  by (auto simp: encode_block_def Let_def)

lemma decode_encoded_block:
  assumes "q \<longrightarrow> p"
  shows "decode_block (encode_block a b c p q)
    = char_of (unat a) # (if p then char_of (unat b) # (if q then [char_of (unat c)] else []) else [])"
  using assms sextet [OF sextet_bounds(1) [of a]] sextet [OF sextet_bounds(2) [of a b]] sextet [OF sextet_bounds(3) [of b c]]
    sextet [OF sextet_bounds(4) [of c]] sextets_bytes(1) [of a b] sextets_bytes(2) [of a b c] sextets_bytes(3) [of b c]
  by (cases p; cases q) (simp_all add: encode_block_def decode_block_def Let_def eq_commute [of "CHR ''=''"])

lemma decode_encoded: "length out < maxsize \<Longrightarrow> decode_loop maxsize (base64_text s @ [NUL]) out = take maxsize (out @ s)"
proof (induction s arbitrary: out rule: base64_text.induct)
  case 1
  then show ?case by (simp add: decode_loop.simps)
next
  case (2 c s)
  define b where "b = encode_block (of_char c) (byte_or_0 s) (byte_or_0 (drop 1 s)) (s \<noteq> []) (drop 1 s \<noteq> [])"
  have col: "collect [] (b @ base64_text (drop 2 s) @ [NUL]) = (b, base64_text (drop 2 s) @ [NUL], False)" "b \<noteq> []"
    unfolding b_def by (rule encode_block_collect) (simp add: encode_block_def Let_def)
  have dec: "decode_block b = take 3 (c # s)"
    using decode_encoded_block [of "drop 1 s \<noteq> []" "s \<noteq> []" "of_char c" "byte_or_0 s" "byte_or_0 (drop 1 s)"] of_char_back
    by (cases s; cases "tl s") (auto simp: b_def byte_or_0_def)
  have joined: "base64_text (c # s) @ [NUL] = b @ base64_text (drop 2 s) @ [NUL]" by (simp add: b_def)
  have rest: "take 3 (c # s) @ drop 2 s = c # s" using append_take_drop_id [of 3 "c # s"] by simp
  have "decode_loop maxsize (base64_text (c # s) @ [NUL]) out
    = (if maxsize \<le> length (out @ take 3 (c # s)) then take maxsize (out @ take 3 (c # s))
       else decode_loop maxsize (base64_text (drop 2 s) @ [NUL]) (out @ take 3 (c # s)))"
    unfolding joined decode_loop.simps [of maxsize "b @ base64_text (drop 2 s) @ [NUL]"] Let_def col(1) prod.case dec emit_take [OF 2(2)]
    using col(2) by simp
  also have "\<dots> = take maxsize (out @ c # s)"
  proof (cases "maxsize \<le> length (out @ take 3 (c # s))")
    case True
    then have "take maxsize ((out @ take 3 (c # s)) @ drop 2 s) = take maxsize (out @ take 3 (c # s))" by (subst take_append) simp
    then show ?thesis using True rest by simp
  next
    case False
    then show ?thesis using 2(1) [of "out @ take 3 (c # s)"] rest by (simp del: take_append)
  qed
  finally show ?case .
qed

section \<open>The texts that are accepted\<close>

text \<open>
  The grammar of the comment: blocks of four characters of the alphabet, the last one with up to two characters of
  padding. The alphabet of RFC 4648 is written out.
\<close>

definition base64_alphabet :: string where
  "base64_alphabet = ''ABCDEFGHIJKLMNOPQRSTUVWXYZ'' @ ''abcdefghijklmnopqrstuvwxyz'' @ ''0123456789'' @ ''+/''"

abbreviation (input) in_alphabet :: "char \<Rightarrow> bool" where "in_alphabet c \<equiv> c \<in> set base64_alphabet"

inductive base64_form :: "string \<Rightarrow> bool" where
  none: "base64_form []"
| two_pads: "list_all in_alphabet [a, b] \<Longrightarrow> base64_form [a, b, CHR ''='', CHR ''='']"
| one_pad: "list_all in_alphabet [a, b, c] \<Longrightarrow> base64_form [a, b, c, CHR ''='']"
| block: "list_all in_alphabet [a, b, c, d] \<Longrightarrow> base64_form s \<Longrightarrow> base64_form (a # b # c # d # s)"

lemma alphabet_codes: "map of_char base64_alphabet = [65..<91] @ [97..<123] @ [48..<58] @ [43, 47 :: nat]"
  by (simp add: base64_alphabet_def upt_rec)

lemma char_codes: "(of_char c :: nat) = of_char d \<longleftrightarrow> c = d"
  by (metis char_of_char)

lemma valid_in_alphabet: "is_valid_base64_char c \<longleftrightarrow> in_alphabet c"
proof -
  have "in_alphabet c \<longleftrightarrow> (of_char c :: nat) \<in> set (map of_char base64_alphabet)" by (auto simp: char_codes)
  moreover have "CHR ''+'' = c \<longleftrightarrow> (of_char c :: nat) = 43" using char_codes [of "CHR ''+''" c] by auto
  ultimately show ?thesis unfolding alphabet_codes set_append set_upt Un_iff atLeastLessThan_iff is_valid_base64_char_def in_range_def
    by auto
qed

lemma alphabet_valid: "in_alphabet = is_valid_base64_char"
  by (rule ext) (simp add: valid_in_alphabet)

lemmas base64_form_intros = base64_form.intros [unfolded alphabet_valid]

inductive_simps base64_form_blocks: "base64_form (a # b # c # d # s)"

lemmas base64_form_block = base64_form_blocks [folded valid_in_alphabet]

lemma four_chars: "3 < length x \<Longrightarrow> \<exists>a b c d t. x = a # b # c # d # t"
proof -
  assume "3 < length x"
  then have "Suc (Suc (Suc (Suc 0))) \<le> length x" by simp
  then show ?thesis unfolding Suc_le_length_iff by blast
qed

lemma form_length: "base64_form s \<Longrightarrow> length s mod 4 = 0"
  by (induction rule: base64_form.induct) simp_all

lemma valid_char: "is_valid_base64_char c \<Longrightarrow> c \<noteq> NUL \<and> c \<noteq> CHR ''=''"
  by (auto simp: is_valid_base64_char_def in_range_def)

lemma peek_at_drop: "peek_at s (k + i) = peek_at (drop k s) i"
  by (simp add: peek_at_def add.commute)

definition last_block :: "char \<Rightarrow> char \<Rightarrow> char \<Rightarrow> char \<Rightarrow> bool" where
  "last_block a b c d \<longleftrightarrow> list_all is_valid_base64_char [a, b] \<and> c = CHR ''='' \<and> d = CHR ''=''
     \<or> list_all is_valid_base64_char [a, b, c] \<and> d = CHR ''='' \<or> list_all is_valid_base64_char [a, b, c, d]"

lemma form_last_block:
  "base64_form (a # b # c # d # t) \<longleftrightarrow> (if list_all is_valid_base64_char [a, b, c, d] then t = [] \<or> base64_form t
     else t = [] \<and> last_block a b c d)"
proof (cases "list_all is_valid_base64_char [a, b, c, d]")
  case True
  then have "d \<noteq> CHR ''=''" using valid_char by auto
  with True show ?thesis unfolding base64_form_block last_block_def using base64_form.none by auto
next
  case False
  then show ?thesis unfolding base64_form_block last_block_def by auto
qed

lemma validate_skip:
  assumes "i mod 4 \<noteq> 0"
  shows "validate_loop s i \<longleftrightarrow> peek_at s i \<noteq> NUL \<and> validate_loop s (Suc i)"
  using assms by (subst validate_loop.simps) auto

lemma validate_at_block:
  assumes "i mod 4 = 0"
  shows "validate_loop s i \<longleftrightarrow>
    (if valid_block s i then peek_at s i = NUL \<or> validate_loop s (i + 1) else peek_at s i = NUL \<and> final_block s i)"
  using assms unfolding validate_loop.simps [of s i] by simp

lemma validate_form:
  assumes "NUL \<notin> set s" "k mod 4 = 0" "k < length s"
  shows "validate_loop s (k + 1) \<longleftrightarrow> base64_form (drop k s)"
  using assms
proof (induction "length s - k" arbitrary: k rule: less_induct)
  case less
  have at: "peek_at s (k + i) = NUL \<longleftrightarrow> length (drop k s) \<le> i" for i
    using less.prems(1) by (cases "i < length (drop k s)")
      (auto simp: peek_at_drop peek_at_end, auto simp: peek_at_def peek_drop_eq_nth in_set_conv_nth add.commute)
  have skip: "validate_loop s (k + 1) \<longleftrightarrow> 3 < length (drop k s) \<and> validate_loop s (k + 4)"
  proof -
    have m: "(k + 1) mod 4 \<noteq> 0" "(k + 2) mod 4 \<noteq> 0" "(k + 3) mod 4 \<noteq> 0" using less.prems(2) by presburger+
    have n: "Suc (k + 1) = k + 2" "Suc (k + 2) = k + 3" "Suc (k + 3) = k + 4" by simp_all
    show ?thesis unfolding validate_skip [OF m(1)] n(1) validate_skip [OF m(2)] n(2) validate_skip [OF m(3)] n(3) at by linarith
  qed
  show ?case
  proof (cases "3 < length (drop k s)")
    case False
    then have "length (drop k s) = 1 \<or> length (drop k s) = 2 \<or> length (drop k s) = 3" using less.prems(3) by auto
    then have "length (drop k s) mod 4 \<noteq> 0" by auto
    then have "\<not> base64_form (drop k s)" using form_length [of "drop k s"] by argo
    then show ?thesis using skip False by simp
  next
    case True
    then obtain a b c d t where d: "drop k s = a # b # c # d # t"
      using four_chars [OF True] by (elim exE)
    have t: "drop (k + 4) s = t" using arg_cong [OF d, of "drop 4"] by (simp add: add.commute)
    have p: "peek_at s (k + 4 - 4) = a" "peek_at s (k + 4 - 3) = b" "peek_at s (k + 4 - 2) = c" "peek_at s (k + 4 - 1) = d"
      using peek_at_drop [of s k 0] peek_at_drop [of s k 1] peek_at_drop [of s k 2] peek_at_drop [of s k 3] d
      by (simp_all add: peek_at_def numeral_eq_Suc)
    have e: "peek_at s (k + 4) = NUL \<longleftrightarrow> t = []" using at [of 4] d by (cases t) auto
    have "validate_loop s (k + 4) \<longleftrightarrow> (if list_all is_valid_base64_char [a, b, c, d] then t = [] \<or> validate_loop s (k + 4 + 1)
        else t = [] \<and> final_block s (k + 4))"
    proof -
      have m: "(k + 4) mod 4 = 0" using less.prems(2) by presburger
      have v: "valid_block s (k + 4) \<longleftrightarrow> list_all is_valid_base64_char [a, b, c, d]" unfolding valid_block_def p by simp
      show ?thesis unfolding validate_at_block [OF m] e v ..
    qed
    moreover have "validate_loop s (k + 4 + 1) \<longleftrightarrow> base64_form t" if "t \<noteq> []"
    proof -
      have more: "k + 4 < length s" using t that by (metis drop_eq_Nil2 linorder_not_le)
      then have "length s - (k + 4) < length s - k" by linarith
      from less.hyps [OF this less.prems(1) _ more] show ?thesis using less.prems(2) t by (simp add: add.commute)
    qed
    ultimately have step: "validate_loop s (k + 1) \<longleftrightarrow> (if list_all is_valid_base64_char [a, b, c, d] then t = [] \<or> base64_form t
        else t = [] \<and> final_block s (k + 4))" using skip True by argo
    have fin: "final_block s (k + 4) \<longleftrightarrow> last_block a b c d" unfolding final_block_def valid_block_def p last_block_def
      by (simp add: eq_commute [of "CHR ''=''"])
    show ?thesis unfolding step fin d form_last_block by argo
  qed
qed

lemma base64_text_form: "base64_form (base64_text s) \<and> NUL \<notin> set (base64_text s)"
proof (induction s rule: base64_text.induct)
  case (2 c s)
  have block: "base64_form (encode_block a b d p q @ t) \<and> NUL \<notin> set (encode_block a b d p q @ t)"
    if "base64_form t" "NUL \<notin> set t" "q \<longrightarrow> p" "\<not> q \<longrightarrow> t = []" for a b d p q t
  proof -
    obtain w x y z where e: "encode_block a b d p q = [w, x, if p then y else CHR ''='', if q then z else CHR ''='']"
      and ok: "is_valid_base64_char w" "is_valid_base64_char x" "is_valid_base64_char y" "is_valid_base64_char z"
      using sextet(1) [OF sextet_bounds(1) [of a]] sextet(1) [OF sextet_bounds(2) [of a b]] sextet(1) [OF sextet_bounds(3) [of b d]]
        sextet(1) [OF sextet_bounds(4) [of d]] unfolding encode_block_def Let_def by blast
    from ok valid_char have "w \<noteq> NUL" "x \<noteq> NUL" "y \<noteq> NUL" "z \<noteq> NUL" by blast+
    with ok that show ?thesis unfolding e by (cases q; cases p) (auto intro: base64_form_intros)
  qed
  show ?case unfolding base64_text.simps by (rule block) (use 2 in \<open>cases s; cases "tl s"; auto simp: base64_form.none\<close>)+
qed (simp add: base64_form.none)

section \<open>How much is decoded\<close>

lemma collect_length: "collect from4 p = (from4', p', fin) \<Longrightarrow> length from4' + length p' \<le> length from4 + length p"
  by (induction from4 p rule: collect.induct) (auto split: if_splits)

lemma decode_block_length: "4 * length (decode_block from4) \<le> 3 * length from4"
  by (auto simp: decode_block_def Let_def)

lemma decode_loop_length:
  "length out < maxsize \<Longrightarrow>
   length (decode_loop maxsize p out) \<le> maxsize \<and> 4 * length (decode_loop maxsize p out) \<le> 4 * length out + 3 * length p"
proof (induction maxsize p out rule: decode_loop.induct)
  case (1 maxsize p out)
  obtain from4 p' fin where c: "collect [] p = (from4, p', fin)" by (cases "collect [] p")
  define new where "new = (if from4 = [] then [] else decode_block from4)"
  have w: "(if from4 = [] then (out, False) else emit maxsize out (decode_block from4))
      = (take maxsize (out @ new), maxsize \<le> length (out @ new))"
    using 1(2) emit_take [OF 1(2)] by (simp add: new_def)
  have n: "4 * length new \<le> 3 * length from4" using decode_block_length [of from4] by (simp add: new_def)
  have l: "length from4 + length p' \<le> length p" using collect_length [OF c] by simp
  show ?case
  proof (cases "maxsize \<le> length (out @ new) \<or> fin")
    case True
    then have "decode_loop maxsize p out = take maxsize (out @ new)"
      by (subst decode_loop.simps) (simp only: c w Let_def prod.case if_True)
    moreover have "4 * length (out @ new) \<le> 4 * length out + 3 * length p" using n l by simp
    ultimately show ?thesis by (simp only: length_take) linarith
  next
    case False
    then have u: "decode_loop maxsize p out = decode_loop maxsize p' (take maxsize (out @ new))"
      by (subst decode_loop.simps) (simp only: c w Let_def prod.case if_False)
    have t: "take maxsize (out @ new) = out @ new" using False by auto
    have "length (decode_loop maxsize p' (out @ new)) \<le> maxsize
      \<and> 4 * length (decode_loop maxsize p' (out @ new)) \<le> 4 * length (out @ new) + 3 * length p'"
      using 1(1) [OF c [symmetric] HOL.refl HOL.refl w [symmetric] HOL.refl] False 1(2) unfolding t by simp
    then show ?thesis unfolding u t using n l by simp
  qed
qed

lemma collect_skips:
  "collect from4 [c \<leftarrow> p. c = NUL \<or> is_base64 c]
   = (case collect from4 p of (from4', p', fin) \<Rightarrow> (from4', [c \<leftarrow> p'. c = NUL \<or> is_base64 c], fin))"
  by (induction from4 p rule: collect.induct) auto

lemma decode_loop_skips: "decode_loop maxsize p out = decode_loop maxsize [c \<leftarrow> p. c = NUL \<or> is_base64 c] out"
proof (induction maxsize p out rule: decode_loop.induct)
  case (1 maxsize p out)
  obtain from4 p' fin where c: "collect [] p = (from4, p', fin)" by (cases "collect [] p")
  obtain out' full where w: "(if from4 = [] then (out, False) else emit maxsize out (decode_block from4)) = (out', full)"
    by (cases "if from4 = [] then (out, False) else emit maxsize out (decode_block from4)")
  have c': "collect [] [c \<leftarrow> p. c = NUL \<or> is_base64 c] = (from4, [c \<leftarrow> p'. c = NUL \<or> is_base64 c], fin)"
    unfolding collect_skips c by simp
  show ?case unfolding decode_loop.simps [of maxsize p] decode_loop.simps [of maxsize "[c \<leftarrow> p. c = NUL \<or> is_base64 c]"]
      c c' Let_def prod.case w using 1 [OF c [symmetric] HOL.refl HOL.refl w [symmetric] HOL.refl] by simp
qed

section \<open>Properties\<close>

text \<open>
  C34: Base64 round trip. For data of any bytes, NUL included, whose encoding has a length that fits an int,
  \<open>zbx_base64_encode_dyn\<close> writes nowhere outside of the memory it allocates, whatever that holds at first; the text is
  terminated, has no other NUL, has the exact length and the form of base64; and \<open>zbx_base64_decode\<close> gives the
  data back, up to the size of the buffer.
\<close>

theorem base64_roundtrip:
  assumes "0 < maxsize" "(length s + 2) div 3 * 4 + 1 < 2 ^ 31"
  shows "\<exists>b64. zbx_base64_encode_dyn garbage s = Inr (b64 @ [NUL]) \<and> NUL \<notin> set b64 \<and> base64_form b64
    \<and> length b64 = (length s + 2) div 3 * 4 \<and> zbx_base64_decode (b64 @ [NUL]) maxsize = take maxsize s"
proof (intro exI conjI)
  show "zbx_base64_encode_dyn garbage s = Inr (base64_text s @ [NUL])" by (rule encode_dyn_ok)
  show "zbx_base64_decode (base64_text s @ [NUL]) maxsize = take maxsize s"
    using decode_encoded [of "[]" maxsize s] assms(1) by (simp add: zbx_base64_decode_def)
qed (simp_all add: base64_text_form base64_text_length)

theorem base64_roundtrip_witness:
  "\<exists>b64. zbx_base64_encode_dyn (\<lambda>i. CHR ''?'') [CHR ''a'', CHR 0xFF, NUL, CHR ''b''] = Inr (b64 @ [NUL]) \<and> NUL \<notin> set b64
     \<and> base64_form b64 \<and> length b64 = 8 \<and> zbx_base64_decode (b64 @ [NUL]) 3 = [CHR ''a'', CHR 0xFF, NUL]"
  using base64_roundtrip [of 3 "[CHR ''a'', CHR 0xFF, NUL, CHR ''b'']" "\<lambda>i. CHR ''?''"] by simp

text \<open>
  C36: \<open>zbx_base64_validate\<close> ends and accepts a text exactly if it is the empty text or derived by the regular
  expression of its comment: blocks of four of the 64 characters of \<open>base64_alphabet\<close>, the last one possibly with two or one padding
  characters.
\<close>

theorem base64_validate_exact:
  assumes "NUL \<notin> set s"
  shows "zbx_base64_validate s \<longleftrightarrow> base64_form s"
proof (cases s)
  case (Cons c t)
  then show ?thesis using validate_form [of s 0] assms by (auto simp: zbx_base64_validate_def)
qed (simp add: zbx_base64_validate_def base64_form.none)

theorem base64_validate_witness:
  "zbx_base64_validate ''YWI='' \<and> \<not> zbx_base64_validate ''YW=I''"
  using base64_validate_exact [of "''YWI=''"] base64_validate_exact [of "''YW=I''"]
  by (simp add: base64_form_block base64_form.none is_valid_base64_char_def in_range_def)

text \<open>
  C40: Whatever \<open>zbx_base64_decode\<close> is given, it ends, writes no more than the size of its buffer, and never more
  than three bytes for four characters, so that a buffer of three quarters of the text always takes all of it; characters
  outside of the alphabet are skipped.
\<close>

theorem base64_decode_bounds:
  assumes "0 < maxsize"
  shows "length (zbx_base64_decode b64 maxsize) \<le> maxsize \<and> length (zbx_base64_decode b64 maxsize) \<le> 3 * length b64 div 4
    \<and> zbx_base64_decode b64 maxsize = zbx_base64_decode [c \<leftarrow> b64. c = NUL \<or> is_base64 c] maxsize"
proof -
  have "length (decode_loop maxsize b64 []) \<le> maxsize \<and> 4 * length (decode_loop maxsize b64 []) \<le> 3 * length b64"
    using decode_loop_length [of "[]" maxsize b64] assms by simp
  then show ?thesis using decode_loop_skips [of maxsize b64 "[]"] by (auto simp: zbx_base64_decode_def)
qed

theorem base64_decode_bounds_witness:
  "length (zbx_base64_decode ''Y W!I='' 2) \<le> 2 \<and> zbx_base64_decode ''Y W!I='' 2 = zbx_base64_decode ''YWI='' 2"
  using base64_decode_bounds [of 2 "''Y W!I=''"] by (auto simp: is_base64_def in_range_def)

end
