(* ===== verification/ZbxJson.thy ===== *)
theory ZbxJson
  imports Prelude
begin

text \<open>
  The JSON parser of \<^verbatim>\<open>src/libs/zbxjson/json_parser.c\<close> with the decoding of strings of \<^verbatim>\<open>json.c\<close> and the value trees
  of \<^verbatim>\<open>jsonobj.c\<close>.

  \<^item> A pointer into the text is the rest of the text. A parser function returns the number of characters parsed, as the
    code does, or the error message; the code's result 0 is the error.
  \<^item> The parameter \<^verbatim>\<open>obj\<close> (NULL or a value to fill) is the flag \<open>build\<close>, the value built is the second part of the
    result. Arrays are lists, objects lists of named values, in which the hash set keeps one value for a name.
  \<^item> A \<^verbatim>\<open>double\<close> is a value of the type \<open>'d\<close> that the C library's \<open>atof\<close>, a parameter, reads.
  \<^item> The parsers of arrays and objects take the parser of their elements as an argument, since it is the same function
    at the next depth.
\<close>

unbundle bit_operations_syntax

section \<open>Errors and white space\<close>

text \<open>\<^verbatim>\<open>%128s\<close> gives a least width, so that a longer fragment is printed whole.\<close>

abbreviation (input) QUOTE :: char where "QUOTE \<equiv> CHR 0x22"
abbreviation (input) BACKSLASH :: char where "BACKSLASH \<equiv> CHR 0x5C"
abbreviation (input) APOSTROPHE :: char where "APOSTROPHE \<equiv> CHR 0x27"

definition json_error :: "string \<Rightarrow> string option \<Rightarrow> string" where
  "json_error message ptr =
     (case ptr of
        Some p \<Rightarrow> if 128 < length p then message @ '' at: '' @ [APOSTROPHE] @ p @ ''...'' @ [APOSTROPHE]
                  else message @ '' at: '' @ [APOSTROPHE] @ p @ [APOSTROPHE]
      | None \<Rightarrow> message)"

definition ZBX_WHITESPACE :: string where
  "ZBX_WHITESPACE = [CHR '' '', CHR 0x09, CHR 0x0D, CHR 0x0A]"

definition SKIP_WHITESPACE :: "string \<Rightarrow> string" where
  "SKIP_WHITESPACE src = dropWhile (\<lambda>c. c \<noteq> NUL \<and> strchr ZBX_WHITESPACE c \<noteq> None) src"

section \<open>Escape sequences\<close>

definition zbx_is_valid_json_hex :: "string \<Rightarrow> bool" where
  "zbx_is_valid_json_hex p = list_all (\<lambda>i. isxdigit (peek_at p i)) [0..<4]"

definition zbx_hex2num :: "char \<Rightarrow> 32 word" where
  "zbx_hex2num c = word_of_int
     (if of_char c \<ge> (97 :: int) then of_char c - 97 + 10
      else if of_char c \<ge> (65 :: int) then of_char c - 65 + 10
      else of_char c - 48)"

text \<open>Four hexadecimal digits, read with the pointer going on after each.\<close>

definition json_hex4 :: "string \<Rightarrow> 32 word" where
  "json_hex4 p = push_bit 12 (zbx_hex2num (peek p)) + push_bit 8 (zbx_hex2num (peek_at p 1))
     + push_bit 4 (zbx_hex2num (peek_at p 2)) + zbx_hex2num (peek_at p 3)"

definition uchar :: "32 word \<Rightarrow> char" where
  "uchar w = char_of (unat w)"

definition simple_escape :: "char \<Rightarrow> char option" where
  "simple_escape c =
     (if c = QUOTE then Some QUOTE
      else if c = BACKSLASH then Some BACKSLASH
      else if c = CHR ''/'' then Some (CHR ''/'')
      else if c = CHR ''b'' then Some (CHR 0x08)
      else if c = CHR ''f'' then Some (CHR 0x0C)
      else if c = CHR ''n'' then Some (CHR 0x0A)
      else if c = CHR ''r'' then Some (CHR 0x0D)
      else if c = CHR ''t'' then Some (CHR 0x09)
      else None)"

text \<open>The bytes decoded and the pointer after the sequence; \<open>None\<close> is the return value 0.\<close>

definition zbx_json_decode_character :: "string \<Rightarrow> (string \<times> string) option" where
  "zbx_json_decode_character p =
     (case simple_escape (peek p) of
        Some b \<Rightarrow> Some ([b], tl p)
      | None \<Rightarrow>
          if peek p = CHR ''u'' then
            let p = tl p in
            if \<not> zbx_is_valid_json_hex p then None
            else
              let num = json_hex4 p; p = drop 4 p in
              if 0x7f \<ge> num then Some ([uchar num], p)
              else if 0x7ff \<ge> num then
                Some ([uchar (0xc0 OR (drop_bit 6 num AND 0x1f)), uchar (0x80 OR (num AND 0x3f))], p)
              else if 0xd7ff \<ge> num \<or> 0xe000 \<le> num then
                Some ([uchar (0xe0 OR (drop_bit 12 num AND 0x0f)), uchar (0x80 OR (drop_bit 6 num AND 0x3f)),
                       uchar (0x80 OR (num AND 0x3f))], p)
              else if 0xd800 \<le> num \<and> num \<le> 0xdbff then
                if peek p \<noteq> BACKSLASH \<or> peek_at p 1 \<noteq> CHR ''u'' \<or> \<not> zbx_is_valid_json_hex (drop 2 p) then None
                else
                  let num_lo = json_hex4 (drop 2 p); p = drop 6 p in
                  if num_lo < 0xdc00 \<or> 0xdfff < num_lo then None
                  else
                    let uc = 0x10000 + push_bit 10 (num AND 0x3ff) + (num_lo AND 0x3ff) in
                    Some ([uchar (0xf0 OR (drop_bit 18 uc AND 0x07)), uchar (0x80 OR (drop_bit 12 uc AND 0x3f)),
                           uchar (0x80 OR (drop_bit 6 uc AND 0x3f)), uchar (0x80 OR (uc AND 0x3f))], p)
              else None
          else None)"

lemma decode_character_shorter:
  "zbx_json_decode_character p = Some (b, p') \<Longrightarrow> length p' < length p"
  by (cases p) (auto simp: zbx_json_decode_character_def simple_escape_def Let_def split: if_splits)

section \<open>Strings\<close>

text \<open>
  The scan of a string; the result points to the closing quotation mark. \<open>string_char\<close> is the end of the loop body, with
  the check for control characters.
\<close>

definition escape_letter :: "char \<Rightarrow> bool" where
  "escape_letter c \<longleftrightarrow> c \<in> {QUOTE, BACKSLASH, CHR ''/'', CHR ''b'', CHR ''f'', CHR ''n'', CHR ''r'', CHR ''t''}"

function string_scan :: "string \<Rightarrow> string + string" where
  "string_scan ptr =
     (if peek ptr = QUOTE then Inr ptr
      else if peek ptr = NUL then Inl (json_error ''unexpected end of string data'' None)
      else if peek ptr = BACKSLASH then
        let escape_start = ptr; ptr = tl ptr in
        if peek ptr = NUL then Inl (json_error ''invalid escape sequence in string'' (Some escape_start))
        else if escape_letter (peek ptr) then
          (if (0x1f :: nat) \<ge> of_char (peek ptr)
           then Inl (json_error ''invalid control character in string data'' (Some ptr))
           else string_scan (tl ptr))
        else if peek ptr = CHR ''u'' then
          (case zbx_json_decode_character ptr of
             None \<Rightarrow> Inl (json_error ''invalid escape sequence in string'' (Some escape_start))
           | Some (uc, ptr) \<Rightarrow> string_scan ptr)
        else Inl (json_error ''invalid escape sequence in string data'' (Some escape_start))
      else if (0x1f :: nat) \<ge> of_char (peek ptr)
      then Inl (json_error ''invalid control character in string data'' (Some ptr))
      else string_scan (tl ptr))"
  by pat_completeness auto
termination string_scan
proof (relation "measure length", goal_cases)
  case (2 ptr _ p)
  then show ?case by (cases ptr; cases p) auto
next
  case (3 ptr _ p z uc p')
  then show ?case using decode_character_shorter [of p uc p'] by (cases ptr) auto
next
  case (4 ptr)
  then show ?case by (cases ptr) auto
qed simp

declare string_scan.simps [simp del]

text \<open>
  \<^verbatim>\<open>json_copy_string\<close>: the bytes written before the terminator and the pointer after the closing quotation mark.
\<close>

function copy_loop :: "string \<Rightarrow> string \<Rightarrow> nat \<Rightarrow> (string \<times> string) option" where
  "copy_loop p out n =
     (if peek p = NUL then None
      else if peek p = BACKSLASH then
        (case zbx_json_decode_character (tl p) of
           None \<Rightarrow> None
         | Some (uc, p') \<Rightarrow>
             if length out + length uc \<ge> n then None
             else if length (out @ uc) = n then None
             else copy_loop p' (out @ uc) n)
      else if peek p = QUOTE then Some (out, tl p)
      else if length (out @ [peek p]) = n then None
      else copy_loop (tl p) (out @ [peek p]) n)"
  by pat_completeness auto
termination copy_loop
proof (relation "measure (\<lambda>(p, out, n). length p)", goal_cases)
  case (2 p out n z uc p')
  then show ?case using decode_character_shorter [of "tl p" uc p'] by (cases p) auto
next
  case (3 p out n)
  then show ?case by (cases p) auto
qed simp

declare copy_loop.simps [simp del]

definition json_copy_string :: "string \<Rightarrow> nat \<Rightarrow> (string \<times> string) option" where
  "json_copy_string p n = (if n = 0 then None else copy_loop (tl p) [] n)"

text \<open>What a C program sees of the bytes of a string.\<close>

definition cstr :: "string \<Rightarrow> string" where
  "cstr s = takeWhile (\<lambda>c. c \<noteq> NUL) s"

definition json_parse_string :: "bool \<Rightarrow> string \<Rightarrow> string + nat \<times> string option" where
  "json_parse_string build start =
     (case string_scan (tl start) of
        Inl e \<Rightarrow> Inl e
      | Inr ptr \<Rightarrow>
          let len = length start - length ptr in
          if build then
            (case json_copy_string start len of
               None \<Rightarrow> Inl (json_error ''invalid string data'' (Some start))
             | Some (str, _) \<Rightarrow> Inr (len + 1, Some (cstr str)))
          else Inr (len + 1, None))"

section \<open>Values\<close>

datatype 'd zbx_jsonobj =
    JSON_STRING string
  | JSON_NUMBER 'd
  | JSON_TRUE
  | JSON_FALSE
  | JSON_NULL
  | JSON_ARRAY "'d zbx_jsonobj list"
  | JSON_OBJECT "(string \<times> 'd zbx_jsonobj) list"

text \<open>Insertion into the hash set of an object: a value of the same name is overwritten.\<close>

fun jsonobj_insert :: "string \<Rightarrow> 'd zbx_jsonobj \<Rightarrow> (string \<times> 'd zbx_jsonobj) list \<Rightarrow> (string \<times> 'd zbx_jsonobj) list"
where
  "jsonobj_insert name v [] = [(name, v)]"
| "jsonobj_insert name v ((name', v') # els) =
     (if name = name' then (name, v) # els else (name', v') # jsonobj_insert name v els)"

fun literal_loop :: "string \<Rightarrow> string \<Rightarrow> string \<Rightarrow> string + string" where
  "literal_loop start ptr [] = Inr ptr"
| "literal_loop start ptr (t # txt) =
     (if peek ptr \<noteq> t then Inl (json_error ''invalid literal value'' (Some start))
      else literal_loop start (tl ptr) txt)"

definition json_parse_literal :: "string \<Rightarrow> string \<Rightarrow> string + nat" where
  "json_parse_literal start txt = map_sum id (\<lambda>ptr. length start - length ptr) (literal_loop start start txt)"

text \<open>The digits and at most one point of a number, counting the digits before the point.\<close>

fun number_loop :: "string \<Rightarrow> bool \<Rightarrow> nat \<Rightarrow> string \<times> nat" where
  "number_loop [] point digit = ([], digit)"
| "number_loop (c # ptr) point digit =
     (if c = NUL then (c # ptr, digit)
      else if c = CHR ''.'' then if point then (c # ptr, digit) else number_loop ptr True digit
      else if \<not> isdigit c then (c # ptr, digit)
      else number_loop ptr point (if point then digit else digit + 1))"

definition json_exponent :: "string \<Rightarrow> string + string" where
  "json_exponent ptr =
     (if peek ptr = CHR ''e'' \<or> peek ptr = CHR ''E'' then
        let ptr = tl ptr in
        if peek ptr = NUL then Inl (json_error ''unexpected end of numeric value'' None)
        else
          let sign = (peek ptr = CHR ''+'' \<or> peek ptr = CHR ''-''); ptr = (if sign then tl ptr else ptr) in
          if sign \<and> peek ptr = NUL then Inl (json_error ''unexpected end of numeric value'' None)
          else if \<not> isdigit (peek ptr)
          then Inl (json_error ''invalid power value of number in E notation'' (Some ptr))
          else Inr (dropWhile isdigit (tl ptr))
      else Inr ptr)"

definition json_parse_number :: "(string \<Rightarrow> 'd) \<Rightarrow> string \<Rightarrow> string + nat \<times> 'd" where
  "json_parse_number atof start =
     (let ptr = (if peek start = CHR ''-'' then tl start else start); first_digit = peek ptr;
          (ptr, digit) = number_loop ptr False 0
      in if digit = 0 then Inl (json_error ''invalid numeric value format'' (Some start))
         else if first_digit = CHR ''0'' \<and> 1 < digit
         then Inl (json_error ''invalid numeric value format'' (Some start))
         else case json_exponent ptr of
             Inl e \<Rightarrow> Inl e
           | Inr ptr \<Rightarrow> Inr (length start - length ptr, atof start))"

section \<open>Arrays, objects and values\<close>

type_synonym 'd json_result = "string + nat \<times> 'd zbx_jsonobj option"

lemma SKIP_WHITESPACE_length: "length (SKIP_WHITESPACE s) \<le> length s"
  by (simp add: SKIP_WHITESPACE_def length_dropWhile_le)

function array_loop ::
  "(string \<Rightarrow> 'd json_result) \<Rightarrow> string \<Rightarrow> 'd zbx_jsonobj list \<Rightarrow> string + string \<times> 'd zbx_jsonobj list" where
  "array_loop pv ptr vs =
     (case pv ptr of
        Inl e \<Rightarrow> Inl e
      | Inr (len, v) \<Rightarrow>
          let vs = vs @ (case v of None \<Rightarrow> [] | Some v \<Rightarrow> [v]); ptr' = SKIP_WHITESPACE (drop len ptr)
          in if peek ptr' = CHR '','' then array_loop pv (tl ptr') vs else Inr (ptr', vs))"
  by pat_completeness auto
termination array_loop
proof (relation "measure (\<lambda>(pv, ptr, vs). length ptr)", goal_cases)
  case (2 pv ptr vs z len v vs' ptr')
  then have "ptr' \<noteq> []" by (cases ptr') auto
  moreover have "length ptr' \<le> length ptr - len" using 2 SKIP_WHITESPACE_length [of "drop len ptr"] by simp
  ultimately show ?case by (cases ptr') auto
qed simp

declare array_loop.simps [simp del]

definition json_parse_array :: "(string \<Rightarrow> 'd json_result) \<Rightarrow> bool \<Rightarrow> string \<Rightarrow> 'd json_result" where
  "json_parse_array pv build start =
     (let obj = (\<lambda>vs. if build then Some (JSON_ARRAY vs) else None);
          done = (\<lambda>ptr. length start - length ptr + 1);
          ptr = SKIP_WHITESPACE (tl start)
      in if peek ptr \<noteq> CHR '']'' then
           (case array_loop pv ptr [] of
              Inl e \<Rightarrow> Inl e
            | Inr (ptr, vs) \<Rightarrow>
                if peek ptr \<noteq> CHR '']''
                then Inl (json_error (''invalid array format, expected closing character '' @ [APOSTROPHE] @ '']'' @ [APOSTROPHE]) (Some ptr))
                else Inr (done ptr, obj vs))
         else Inr (done ptr, obj []))"

function object_loop ::
  "(string \<Rightarrow> 'd json_result) \<Rightarrow> bool \<Rightarrow> string \<Rightarrow> (string \<times> 'd zbx_jsonobj) list
   \<Rightarrow> string + string \<times> (string \<times> 'd zbx_jsonobj) list" where
  "object_loop pv build ptr els =
     (if peek ptr \<noteq> QUOTE then Inl (json_error ''invalid object name'' (Some ptr))
      else case json_parse_string build ptr of
          Inl e \<Rightarrow> Inl e
        | Inr (len, name) \<Rightarrow>
            let ptr = SKIP_WHITESPACE (drop len ptr) in
            if peek ptr \<noteq> CHR '':'' then Inl (json_error ''invalid object name/value separator'' (Some ptr))
            else
              let ptr = tl ptr in
              case pv ptr of
                Inl e \<Rightarrow> Inl e
              | Inr (len, v) \<Rightarrow>
                  let els = (case (name, v) of (Some name, Some v) \<Rightarrow> jsonobj_insert name v els | _ \<Rightarrow> els);
                      ptr' = SKIP_WHITESPACE (drop len ptr)
                  in if peek ptr' = CHR '','' then object_loop pv build (SKIP_WHITESPACE (tl ptr')) els
                     else Inr (ptr', els))"
  by pat_completeness auto
termination object_loop
proof (relation "measure (\<lambda>(pv, build, ptr, els). length ptr)", goal_cases)
  case (2 pv build ptr els z len name p1 p2 z' len' v els' ptr')
  have "ptr' \<noteq> []" using 2(10) 2(11) by (cases ptr') auto
  moreover have "length ptr' \<le> length ptr"
    using SKIP_WHITESPACE_length [of "drop len' p2"] SKIP_WHITESPACE_length [of "drop len ptr"] 2 by auto
  ultimately show ?case using SKIP_WHITESPACE_length [of "tl ptr'"] by (cases ptr') auto
qed simp

declare object_loop.simps [simp del]

definition json_parse_object :: "(string \<Rightarrow> 'd json_result) \<Rightarrow> bool \<Rightarrow> string \<Rightarrow> 'd json_result" where
  "json_parse_object pv build start =
     (let obj = (\<lambda>els. if build then Some (JSON_OBJECT els) else None);
          ptr = SKIP_WHITESPACE (tl (SKIP_WHITESPACE start))
      in if peek ptr \<noteq> CHR ''}'' then
           (case object_loop pv build ptr [] of
              Inl e \<Rightarrow> Inl e
            | Inr (ptr, els) \<Rightarrow>
                if peek ptr \<noteq> CHR ''}''
                then Inl (json_error (''invalid object format, expected closing character '' @ [APOSTROPHE] @ ''}'' @ [APOSTROPHE]) (Some ptr))
                else Inr (length start - length ptr + 1, obj els))
         else Inr (length start - length ptr + 1, obj []))"

abbreviation (input) ZBX_MAX_JSON_DEPTH :: nat where "ZBX_MAX_JSON_DEPTH \<equiv> 64"

function json_parse_value :: "(string \<Rightarrow> 'd) \<Rightarrow> bool \<Rightarrow> nat \<Rightarrow> string \<Rightarrow> 'd json_result" where
  "json_parse_value atof build depth start =
     (if ZBX_MAX_JSON_DEPTH < depth then Inl (json_error ''JSON depth exceeds 64'' (Some start))
      else
        let ptr = SKIP_WHITESPACE start; c = peek ptr;
            obj = (\<lambda>v. if build then Some v else None);
            literal = (\<lambda>txt v. map_sum id (\<lambda>len. (len, obj v)) (json_parse_literal ptr txt))
        in map_sum id (\<lambda>(len, v). (length start - length ptr + len, v))
             (if c = NUL then Inl (json_error ''unexpected end of object value'' None)
              else if c = QUOTE then map_sum id (\<lambda>(len, str). (len, map_option JSON_STRING str)) (json_parse_string build ptr)
              else if c = CHR ''{'' then json_parse_object (\<lambda>s. json_parse_value atof build (depth + 1) s) build ptr
              else if c = CHR ''['' then json_parse_array (\<lambda>s. json_parse_value atof build (depth + 1) s) build ptr
              else if c = CHR ''t'' then literal ''true'' JSON_TRUE
              else if c = CHR ''f'' then literal ''false'' JSON_FALSE
              else if c = CHR ''n'' then literal ''null'' JSON_NULL
              else if isdigit c \<or> c = CHR ''-''
              then map_sum id (\<lambda>(len, number). (len, obj (JSON_NUMBER number))) (json_parse_number atof ptr)
              else Inl (json_error ''invalid JSON object value starting character'' (Some ptr))))"
  by pat_completeness auto
termination json_parse_value
  by (relation "measure (\<lambda>(atof, build, depth, start). 65 - depth)") auto

declare json_parse_value.simps [simp del]

section \<open>Whole texts\<close>

definition zbx_json_validate :: "string \<Rightarrow> string + nat" where
  "zbx_json_validate start =
     (let start = SKIP_WHITESPACE start; pv = json_parse_value (\<lambda>_. ()) False 0 in
      case (if peek start = CHR ''{'' then json_parse_object pv False start
            else if peek start = CHR ''['' then json_parse_array pv False start
            else Inl (json_error (''invalid object format, expected opening character '' @ [APOSTROPHE] @ ''{''
                   @ [APOSTROPHE] @ '' or '' @ [APOSTROPHE] @ ''['' @ [APOSTROPHE]) (Some start))) of
        Inl e \<Rightarrow> Inl e
      | Inr (len, _) \<Rightarrow>
          let start = SKIP_WHITESPACE (drop len start) in
          if peek start \<noteq> NUL then Inl (json_error ''invalid character following JSON object'' (Some start))
          else Inr len)"

definition zbx_jsonobj_open :: "(string \<Rightarrow> 'd) \<Rightarrow> string \<Rightarrow> string + 'd zbx_jsonobj option" where
  "zbx_jsonobj_open atof data =
     (let data = SKIP_WHITESPACE data; pv = json_parse_value atof True 0 in
      case (if peek data = CHR ''{'' then json_parse_object pv True data
            else if peek data = CHR ''['' then json_parse_array pv True data
            else Inl (json_error (''invalid object format, expected opening character '' @ [APOSTROPHE] @ ''{''
                   @ [APOSTROPHE] @ '' or '' @ [APOSTROPHE] @ ''['' @ [APOSTROPHE]) (Some data))) of
        Inl e \<Rightarrow> Inl e
      | Inr (offset, obj) \<Rightarrow>
          let data = SKIP_WHITESPACE (drop offset data) in
          if peek data \<noteq> NUL then Inl (json_error ''invalid data trailing JSON object'' (Some data))
          else Inr obj)"

definition zbx_json_open :: "string \<Rightarrow> (string \<times> nat) option" where
  "zbx_json_open buffer =
     (let buffer = SKIP_WHITESPACE buffer in
      if peek buffer = NUL then None
      else case zbx_json_validate buffer of Inl e \<Rightarrow> None | Inr len \<Rightarrow> Some (buffer, len - 1))"

end
