(* ===== verification/ZbxJsonText.thy ===== *)
theory ZbxJsonText
  imports ZbxJson
begin

text \<open>
  JSON texts as a grammar of their own, with the value each denotes, and the parser of \<open>ZbxJson\<close> proved to accept
  exactly these texts with these values.
\<close>

section \<open>UTF-8\<close>

definition utf8 :: "nat \<Rightarrow> string" where
  "utf8 n = map char_of
     (if n < 0x80 then [n]
      else if n < 0x800 then [0xC0 + n div 64, 0x80 + n mod 64]
      else if n < 0x10000 then [0xE0 + n div 4096, 0x80 + n div 64 mod 64, 0x80 + n mod 64]
      else [0xF0 + n div 262144, 0x80 + n div 4096 mod 64, 0x80 + n div 64 mod 64, 0x80 + n mod 64])"

definition surrogate_value :: "nat \<Rightarrow> nat \<Rightarrow> nat" where
  "surrogate_value h l = 0x10000 + (h - 0xD800) * 0x400 + (l - 0xDC00)"

abbreviation (input) high_surrogate :: "nat \<Rightarrow> bool" where
  "high_surrogate n \<equiv> 0xD800 \<le> n \<and> n \<le> 0xDBFF"

abbreviation (input) low_surrogate :: "nat \<Rightarrow> bool" where
  "low_surrogate n \<equiv> 0xDC00 \<le> n \<and> n \<le> 0xDFFF"

lemma nat_or_eq_add:
  fixes a b :: nat
  assumes "2 ^ i dvd a" "b < 2 ^ i"
  shows "a OR b = a + b"
proof -
  obtain c where "a = push_bit i c" using assms(1) by (auto simp: push_bit_eq_mult mult.commute elim: dvdE)
  moreover have "b = take_bit i b" using assms(2) by (simp add: take_bit_nat_eq_self)
  ultimately have "\<not> bit a n \<or> \<not> bit b n" for n by (metis bit_push_bit_iff bit_take_bit_iff linorder_not_le)
  then have "a + b = a OR b" by (intro disjunctive_add_eq_or) (auto simp: bit_eq_iff bit_and_iff)
  then show ?thesis by simp
qed

lemma unat_of_nat32: "n < 2 ^ 32 \<Longrightarrow> unat (of_nat n :: 32 word) = n"
  by (simp add: unsigned_of_nat take_bit_nat_eq_self)

lemma unat_bits32: "unat (drop_bit k (w :: 32 word) AND mask j) = unat w div 2 ^ k mod 2 ^ j"
proof -
  have "unat w < 2 ^ 32" by (rule order.strict_trans2 [OF unsigned_less]) simp
  then have "take_bit 32 (unat w) = unat w" by (simp only: take_bit_nat_eq_self)
  then have "unat (drop_bit k w AND mask j) = take_bit j (drop_bit k (unat w))"
    by (simp add: unsigned_take_bit_eq unsigned_drop_bit_eq flip: take_bit_eq_mask)
  then show ?thesis by (simp add: take_bit_eq_mod drop_bit_eq_div)
qed

lemma unat_drop32: "unat (drop_bit k (w :: 32 word)) = unat w div 2 ^ k"
proof -
  have "unat w < 2 ^ 32" by (rule order.strict_trans2 [OF unsigned_less]) simp
  then have "take_bit 32 (unat w) = unat w" by (simp only: take_bit_nat_eq_self)
  then have "unat (drop_bit k w) = drop_bit k (unat w)" by (simp add: unsigned_drop_bit_eq)
  then show ?thesis by (simp only: drop_bit_eq_div)
qed

lemma uchar_bits:
  assumes "2 ^ j dvd unat base"
  shows "uchar (base OR (drop_bit k w AND mask j)) = char_of (unat base + unat w div 2 ^ k mod 2 ^ j)"
  using assms by (simp add: uchar_def unsigned_or_eq unat_bits32 nat_or_eq_add [where i = j])

lemma utf8_bytes:
  fixes w :: "32 word"
  shows "uchar (0xc0 OR (drop_bit 6 w AND 0x1f)) = char_of (0xC0 + unat w div 64 mod 32)"
    "uchar (0xe0 OR (drop_bit 12 w AND 0x0f)) = char_of (0xE0 + unat w div 4096 mod 16)"
    "uchar (0xf0 OR (drop_bit 18 w AND 0x07)) = char_of (0xF0 + unat w div 262144 mod 8)"
    "uchar (0x80 OR (drop_bit 12 w AND 0x3f)) = char_of (0x80 + unat w div 4096 mod 64)"
    "uchar (0x80 OR (drop_bit 6 w AND 0x3f)) = char_of (0x80 + unat w div 64 mod 64)"
    "uchar (0x80 OR (w AND 0x3f)) = char_of (0x80 + unat w mod 64)"
  using uchar_bits [of 5 "0xc0" 6 w] uchar_bits [of 4 "0xe0" 12 w] uchar_bits [of 3 "0xf0" 18 w]
    uchar_bits [of 6 "0x80" 12 w] uchar_bits [of 6 "0x80" 6 w] uchar_bits [of 6 "0x80" 0 w]
  by (simp_all add: mask_numeral)

section \<open>Escape sequences\<close>

lemma xdigit_cases:
  "isxdigit c \<Longrightarrow> isdigit c \<or> (65 \<le> (of_char c :: nat) \<and> (of_char c :: nat) \<le> 70)
    \<or> (97 \<le> (of_char c :: nat) \<and> (of_char c :: nat) \<le> 102)"
  by (auto simp: isxdigit_def)

lemma hex2num:
  assumes "isxdigit c"
  shows "zbx_hex2num c = of_nat (xdigit_val c)" "xdigit_val c < 16"
proof -
  obtain n :: nat where n: "of_char c = n" by blast
  have i: "of_char c = int n" unfolding n [symmetric] by (rule of_nat_of_char [symmetric])
  have "(if (97 :: int) \<le> int n then int n - 97 + 10 else if 65 \<le> int n then int n - 65 + 10 else int n - 48)
      = int (xdigit_val c)"
    using assms n unfolding xdigit_val_def isxdigit_def isdigit_def by auto
  then show "zbx_hex2num c = of_nat (xdigit_val c)" unfolding zbx_hex2num_def i by simp
  show "xdigit_val c < 16" using assms n unfolding xdigit_val_def isxdigit_def isdigit_def by auto
qed

lemma hex4_valid:
  "zbx_is_valid_json_hex p \<longleftrightarrow> (\<exists>a b c d r. p = a # b # c # d # r \<and> list_all isxdigit [a, b, c, d])"
proof
  assume "zbx_is_valid_json_hex p"
  then have "isxdigit (peek_at p 0)" "isxdigit (peek_at p 1)" "isxdigit (peek_at p 2)" "isxdigit (peek_at p 3)"
    by (simp_all add: zbx_is_valid_json_hex_def upt_rec eval_nat_numeral)
  moreover from this(4) have "Suc (Suc (Suc (Suc 0))) \<le> length p"
    by (auto simp: peek_at_def isxdigit_def intro: ccontr)
  then obtain a b c d r where "p = a # b # c # d # r" by (auto simp: Suc_le_length_iff)
  ultimately show "\<exists>a b c d r. p = a # b # c # d # r \<and> list_all isxdigit [a, b, c, d]"
    by (auto simp: peek_at_def)
next
  assume "\<exists>a b c d r. p = a # b # c # d # r \<and> list_all isxdigit [a, b, c, d]"
  then show "zbx_is_valid_json_hex p"
    by (auto simp: zbx_is_valid_json_hex_def upt_rec peek_at_def)
qed

lemma hex4_value:
  assumes "list_all isxdigit [a, b, c, d]"
  shows "json_hex4 (a # b # c # d # r) = of_nat (hex_value [a, b, c, d])" "hex_value [a, b, c, d] < 65536"
proof -
  have x: "isxdigit a" "isxdigit b" "isxdigit c" "isxdigit d" using assms by simp_all
  note v = x [THEN hex2num(1)]
  show "json_hex4 (a # b # c # d # r) = of_nat (hex_value [a, b, c, d])"
    unfolding json_hex4_def peek_at_def
    by (simp add: v push_bit_eq_mult hex_value_def algebra_simps)
  show "hex_value [a, b, c, d] < 65536"
    using x [THEN hex2num(2)] by (simp add: hex_value_def)
qed

lemma surrogate_word:
  fixes w v :: "32 word"
  assumes "high_surrogate (unat w)" "low_surrogate (unat v)"
  shows "unat (0x10000 + push_bit 10 (w AND 0x3ff) + (v AND 0x3ff)) = surrogate_value (unat w) (unat v)"
proof -
  have "unat (w AND 0x3ff) = unat w mod 1024" "unat (v AND 0x3ff) = unat v mod 1024"
    using unat_bits32 [of 0 w 10] unat_bits32 [of 0 v 10] by (simp_all add: mask_numeral)
  moreover have "unat w mod 1024 = unat w - 0xD800" "unat v mod 1024 = unat v - 0xDC00"
    using assms by (auto simp: mod_nat_eqI)
  ultimately have "unat (w AND 0x3ff) = unat w - 0xD800" "unat (v AND 0x3ff) = unat v - 0xDC00" by simp_all
  moreover have "x = of_nat (unat x)" for x :: "32 word" by simp
  ultimately have "w AND 0x3ff = of_nat (unat w - 0xD800)" "v AND 0x3ff = of_nat (unat v - 0xDC00)"
    by metis+
  then have "0x10000 + push_bit 10 (w AND 0x3ff) + (v AND 0x3ff)
      = (of_nat (surrogate_value (unat w) (unat v)) :: 32 word)"
    by (simp add: surrogate_value_def push_bit_eq_mult mult.commute)
  moreover have "surrogate_value (unat w) (unat v) < 2 ^ 32"
  proof -
    have "unat w - 0xD800 \<le> 1023" "unat v - 0xDC00 \<le> 1023" using assms by auto
    then show ?thesis by (simp add: surrogate_value_def)
  qed
  ultimately show ?thesis by (simp only: unat_of_nat32)
qed

lemma utf8_surrogate:
  assumes "high_surrogate h" "low_surrogate l"
  defines "n \<equiv> surrogate_value h l"
  shows "utf8 n = map char_of [0xF0 + n div 262144 mod 8, 0x80 + n div 4096 mod 64, 0x80 + n div 64 mod 64, 0x80 + n mod 64]"
proof -
  have "h - 0xD800 \<le> 1023" "l - 0xDC00 \<le> 1023" using assms(1,2) by auto
  then have "0x10000 \<le> n" "n < 0x110000" by (simp_all add: n_def surrogate_value_def)
  then show ?thesis by (simp add: utf8_def)
qed

text \<open>What an escape sequence \<open>\\u\<close> decodes to, from the position after the letter.\<close>

lemma decode_u:
  assumes "list_all isxdigit [a, b, c, d]"
  defines "n \<equiv> hex_value [a, b, c, d]"
  shows "\<not> high_surrogate n \<Longrightarrow> \<not> low_surrogate n \<Longrightarrow>
      zbx_json_decode_character (CHR ''u'' # a # b # c # d # r) = Some (utf8 n, r)"
    "low_surrogate n \<Longrightarrow> zbx_json_decode_character (CHR ''u'' # a # b # c # d # r) = None"
    "high_surrogate n \<Longrightarrow> zbx_json_decode_character (CHR ''u'' # a # b # c # d # r) =
      (if peek r \<noteq> BACKSLASH \<or> peek_at r 1 \<noteq> CHR ''u'' \<or> \<not> zbx_is_valid_json_hex (drop 2 r)
          \<or> \<not> low_surrogate (unat (json_hex4 (drop 2 r))) then None
       else Some (utf8 (surrogate_value n (unat (json_hex4 (drop 2 r)))), drop 6 r))"
proof -
  note h = hex4_value [OF assms(1), folded n_def]
  have u: "unat (of_nat n :: 32 word) = n" using h(2) by (intro unat_of_nat32) simp
  have uc: "uchar (of_nat n) = char_of n" by (simp add: uchar_def u)
  have valid: "zbx_is_valid_json_hex (a # b # c # d # r)" using assms(1) unfolding hex4_valid by blast
  note dec = zbx_json_decode_character_def simple_escape_def h(1) valid word_le_nat_alt word_less_nat_alt u
  show "\<not> high_surrogate n \<Longrightarrow> \<not> low_surrogate n \<Longrightarrow>
      zbx_json_decode_character (CHR ''u'' # a # b # c # d # r) = Some (utf8 n, r)"
    using h(2) by (auto simp: dec Let_def utf8_bytes uc utf8_def unat_drop32)
  show "low_surrogate n \<Longrightarrow> zbx_json_decode_character (CHR ''u'' # a # b # c # d # r) = None"
    by (auto simp: dec Let_def)
  assume hs: "high_surrogate n"
  define m where "m = json_hex4 (drop 2 r)"
  show "zbx_json_decode_character (CHR ''u'' # a # b # c # d # r) =
      (if peek r \<noteq> BACKSLASH \<or> peek_at r 1 \<noteq> CHR ''u'' \<or> \<not> zbx_is_valid_json_hex (drop 2 r)
          \<or> \<not> low_surrogate (unat (json_hex4 (drop 2 r))) then None
       else Some (utf8 (surrogate_value n (unat (json_hex4 (drop 2 r)))), drop 6 r))"
  proof (cases "low_surrogate (unat m)")
    case True
    have "unat (0x10000 + push_bit 10 (of_nat n AND 0x3ff) + (m AND 0x3ff)) = surrogate_value n (unat m)"
      using surrogate_word [of "of_nat n" m] hs True by (simp add: u)
    then show ?thesis using hs True unfolding m_def [symmetric]
      by (auto simp: dec Let_def utf8_bytes utf8_surrogate unat_drop32 simp flip: m_def)
  next
    case False
    then show ?thesis using hs unfolding m_def by (auto simp: dec Let_def)
  qed
qed

section \<open>Strings\<close>

text \<open>What the letter after a backslash stands for, and the value of an object: for each name, where it first occurs, its last value.\<close>

definition escape_table :: "(char \<times> char) list" where
  "escape_table = [(QUOTE, QUOTE), (BACKSLASH, BACKSLASH), (CHR ''/'', CHR ''/''), (CHR ''b'', CHR 0x08), (CHR ''t'', CHR 0x09),
     (CHR ''n'', CHR 0x0A), (CHR ''f'', CHR 0x0C), (CHR ''r'', CHR 0x0D)]"

definition escaped :: "char \<Rightarrow> char option" where
  "escaped c = map_of escape_table c"

lemma simple_escape_table: "simple_escape c = escaped c"
  by (simp add: simple_escape_def escaped_def escape_table_def)

definition object_value :: "(string \<times> 'v) list \<Rightarrow> (string \<times> 'v) list" where
  "object_value els = map (\<lambda>k. (k, the (map_of (rev els) k))) (rev (remdups (rev (map fst els))))"

lemma insert_object_value: "jsonobj_insert k v (object_value els) = object_value (els @ [(k, v)])"
proof -
  let ?names = "rev (remdups (rev (map fst els)))"
  have ins: "jsonobj_insert k v (map (\<lambda>i. (i, f i)) ns)
      = (if k \<in> set ns then map (\<lambda>i. (i, if i = k then v else f i)) ns else map (\<lambda>i. (i, f i)) ns @ [(k, v)])"
    if "distinct ns" for ns :: "string list" and f
    using that by (induction ns) (auto intro: map_cong)
  have "rev (remdups (rev (map fst (els @ [(k, v)])))) = (if k \<in> set ?names then ?names else ?names @ [k])"
    by auto
  then show ?thesis unfolding object_value_def ins [OF distinct_rev [THEN iffD2, OF distinct_remdups]]
    by (auto intro!: map_cong)
qed

lemma object_value_fold: "fold (\<lambda>(k, v). jsonobj_insert k v) els [] = object_value els"
proof (induction els rule: rev_induct)
  case (snoc e els)
  then show ?case using insert_object_value [of "fst e" "snd e" els] by (simp add: case_prod_beta)
qed (simp add: object_value_def)

lemma object_value_simps [simp]: "object_value [] = []" "object_value [e] = [e]"
  by (simp_all add: object_value_def)

text \<open>One character of a string in the text, with the bytes it stands for.\<close>

inductive json_char :: "string \<Rightarrow> string \<Rightarrow> bool" where
  plain: "0x20 \<le> (of_char c :: nat) \<Longrightarrow> c \<noteq> QUOTE \<Longrightarrow> c \<noteq> BACKSLASH \<Longrightarrow> json_char [c] [c]"
| escape: "escaped c = Some b \<Longrightarrow> json_char [BACKSLASH, c] [b]"
| unicode: "length h = 4 \<Longrightarrow> list_all isxdigit h \<Longrightarrow> \<not> high_surrogate (hex_value h) \<Longrightarrow>
    \<not> low_surrogate (hex_value h) \<Longrightarrow> json_char (BACKSLASH # CHR ''u'' # h) (utf8 (hex_value h))"
| surrogates: "length h = 4 \<Longrightarrow> list_all isxdigit h \<Longrightarrow> length l = 4 \<Longrightarrow> list_all isxdigit l \<Longrightarrow>
    high_surrogate (hex_value h) \<Longrightarrow> low_surrogate (hex_value l) \<Longrightarrow>
    json_char (BACKSLASH # CHR ''u'' # h @ BACKSLASH # CHR ''u'' # l)
      (utf8 (surrogate_value (hex_value h) (hex_value l)))"

inductive json_chars :: "string \<Rightarrow> string \<Rightarrow> bool" where
  nil: "json_chars [] []"
| cons: "json_char s b \<Longrightarrow> json_chars ss bs \<Longrightarrow> json_chars (s @ ss) (b @ bs)"

lemma list_of_4: "length h = 4 \<Longrightarrow> \<exists>a b c d. h = [a, b, c, d]"
  by (auto simp: eval_nat_numeral length_Suc_conv)

lemma decode_char:
  assumes "json_char (BACKSLASH # s) b"
  shows "zbx_json_decode_character (s @ r) = Some (b, r)"
  using assms
proof cases
  case (escape c)
  then show ?thesis by (simp add: zbx_json_decode_character_def simple_escape_table)
next
  case (unicode h)
  then obtain a b' c d where "h = [a, b', c, d]" using list_of_4 by blast
  then show ?thesis using unicode decode_u(1) by simp
next
  case (surrogates h l)
  then obtain a b' c d where h: "h = [a, b', c, d]" using list_of_4 by blast
  obtain a2 b2 c2 d2 where l: "l = [a2, b2, c2, d2]" using list_of_4 surrogates by blast
  have hex: "zbx_is_valid_json_hex (l @ r)" using surrogates(6) l unfolding hex4_valid by auto
  note v = hex4_value(1) [of a2 b2 c2 d2 r] hex4_value(2) [of a2 b2 c2 d2]
  have "unat (json_hex4 (l @ r)) = hex_value l" using v surrogates(6) l by (simp add: unat_of_nat32)
  then show ?thesis using surrogates hex decode_u(3) [of a b' c d] by (simp add: h peek_at_def l)
qed simp

lemma escape_letter_iff: "escape_letter c \<longleftrightarrow> simple_escape c \<noteq> None"
  by (auto simp: escape_letter_def simple_escape_def)

text \<open>Conversely, whatever is decoded is an escape sequence of the grammar.\<close>

lemma decode_char_inv:
  assumes "zbx_json_decode_character p = Some (b, p')"
  obtains s where "p = s @ p'" "json_char (BACKSLASH # s) b"
proof (cases "simple_escape (peek p)")
  case (Some b')
  then have "p = [peek p] @ p'" "b = [b']" using assms
    by (cases p; auto simp: zbx_json_decode_character_def simple_escape_def)+
  then show thesis using that json_char.escape [OF Some [unfolded simple_escape_table]] by metis
next
  case None
  then have pu: "peek p = CHR ''u''" and v: "zbx_is_valid_json_hex (tl p)"
    using assms by (auto simp: zbx_json_decode_character_def Let_def split: if_splits)
  from v obtain x y z w r where h: "tl p = x # y # z # w # r" "list_all isxdigit [x, y, z, w]"
    unfolding hex4_valid by auto
  have p: "p = CHR ''u'' # x # y # z # w # r" using pu h by (cases p) auto
  let ?n = "hex_value [x, y, z, w]"
  note dec = decode_u [OF h(2), of r]
  show thesis
  proof (cases "high_surrogate ?n")
    case True
    from assms have c: "peek r = BACKSLASH" "peek_at r 1 = CHR ''u''" "zbx_is_valid_json_hex (drop 2 r)"
        "low_surrogate (unat (json_hex4 (drop 2 r)))" "p' = drop 6 r"
        "b = utf8 (surrogate_value ?n (unat (json_hex4 (drop 2 r))))"
      unfolding p dec(3) [OF True] by (auto split: if_splits)
    from c(3) obtain a1 a2 a3 a4 t where l: "drop 2 r = a1 # a2 # a3 # a4 # t" "list_all isxdigit [a1, a2, a3, a4]"
      unfolding hex4_valid by auto
    have "r = BACKSLASH # CHR ''u'' # drop 2 r"
      using c(1,2) l(1) by (cases r; cases "tl r") (auto simp: peek_at_def)
    then have r: "r = BACKSLASH # CHR ''u'' # [a1, a2, a3, a4] @ t" using l(1) by simp
    have lv: "unat (json_hex4 (drop 2 r)) = hex_value [a1, a2, a3, a4]"
      unfolding l(1) using hex4_value(1) [OF l(2), of t] hex4_value(2) [OF l(2)] by (simp add: unat_of_nat32)
    have "p' = t" using c(5) r by simp
    then show thesis
      using that [of "CHR ''u'' # [x, y, z, w] @ BACKSLASH # CHR ''u'' # [a1, a2, a3, a4]"] p r c(4,6) True
        json_char.surrogates [of "[x, y, z, w]" "[a1, a2, a3, a4]"] h(2) l(2)
      unfolding lv by auto
  next
    case False
    then have nl: "\<not> low_surrogate ?n" using assms dec(2) unfolding p by auto
    then have "p' = r" "b = utf8 ?n" using assms dec(1) False unfolding p by auto
    then show thesis
      using that [of "CHR ''u'' # [x, y, z, w]"] p json_char.unicode [of "[x, y, z, w]"] h(2) False nl by auto
  qed
qed

lemma scan_quote: "string_scan (QUOTE # t) = Inr (QUOTE # t)"
  by (subst string_scan.simps) simp

lemma scan_plain:
  "0x20 \<le> (of_char c :: nat) \<Longrightarrow> c \<noteq> QUOTE \<Longrightarrow> c \<noteq> BACKSLASH \<Longrightarrow> string_scan (c # t) = string_scan t"
  by (subst string_scan.simps) auto

lemma scan_escape: "simple_escape c = Some b \<Longrightarrow> string_scan (BACKSLASH # c # t) = string_scan t"
proof -
  assume e: "simple_escape c = Some b"
  then have "escape_letter c" by (simp add: escape_letter_iff)
  moreover have "c \<noteq> NUL" "\<not> of_char c \<le> (0x1f :: nat)" using e by (auto simp: simple_escape_def split: if_splits)
  ultimately show ?thesis by (subst string_scan.simps) simp
qed

lemma scan_u:
  "string_scan (BACKSLASH # CHR ''u'' # t) = (case zbx_json_decode_character (CHR ''u'' # t) of
     None \<Rightarrow> Inl (json_error ''invalid escape sequence in string'' (Some (BACKSLASH # CHR ''u'' # t)))
   | Some (uc, t') \<Rightarrow> string_scan t')"
  by (subst string_scan.simps) (simp add: escape_letter_def)

lemma scan_char: "json_char s b \<Longrightarrow> string_scan (s @ t) = string_scan t"
proof (induction rule: json_char.induct)
  case (unicode h)
  then show ?case using decode_char [OF json_char.unicode, of h t] by (simp add: scan_u)
next
  case (surrogates h l)
  then show ?case using decode_char [OF json_char.surrogates, of h l t] by (simp add: scan_u)
qed (simp_all add: scan_plain scan_escape simple_escape_table)

lemma scan_chars: "json_chars s b \<Longrightarrow> string_scan (s @ QUOTE # t) = Inr (QUOTE # t)"
proof (induction rule: json_chars.induct)
  case nil
  then show ?case by (subst string_scan.simps) simp
next
  case (cons s b ss bs)
  then show ?case using scan_char [OF cons(1), of "ss @ QUOTE # t"] by simp
qed

lemma scan_inv:
  "string_scan p = Inr q \<Longrightarrow> \<exists>s b. p = s @ q \<and> json_chars s b \<and> peek q = QUOTE"
proof (induction p rule: string_scan.induct)
  case (1 p)
  note IH = 1(1-3) and sc = 1(4)
  have more: "\<exists>s b. p = s @ q \<and> json_chars s b \<and> peek q = QUOTE"
    if "json_char s b" "p = s @ t" "\<exists>s b. t = s @ q \<and> json_chars s b \<and> peek q = QUOTE" for s b t
    using that json_chars.cons by (metis append.assoc)
  consider "peek p = QUOTE" | "peek p = BACKSLASH" "escape_letter (peek (tl p))"
    | "peek p = BACKSLASH" "peek (tl p) = CHR ''u''" "\<not> escape_letter (peek (tl p))"
    | "peek p \<noteq> QUOTE" "peek p \<noteq> BACKSLASH" "\<not> of_char (peek p) \<le> (0x1f :: nat)"
    using sc by (subst (asm) string_scan.simps) (auto simp: Let_def split: if_splits)
  then show ?case
  proof cases
    case 1
    then have "q = p" using sc by (subst (asm) string_scan.simps) simp
    then show ?thesis using 1 json_chars.nil by (intro exI [of _ "[]"]) auto
  next
    case 2
    then obtain c r b where p: "p = BACKSLASH # c # r" and b: "simple_escape c = Some b"
      by (cases p; cases "tl p") (auto simp: escape_letter_iff, auto simp: simple_escape_def)
    have "string_scan r = Inr q" "c \<noteq> NUL" "\<not> of_char c \<le> (0x1f :: nat)"
      using sc 2 unfolding p by (subst (asm) string_scan.simps, auto simp: Let_def split: if_splits)+
    then show ?thesis using IH(1) [OF _ _ _ refl refl] 2 p
      by (intro more [OF json_char.escape [OF b [unfolded simple_escape_table]], of r]) auto
  next
    case 3
    then obtain r where p: "p = BACKSLASH # r" "peek r = CHR ''u''" by (cases p) auto
    from sc 3 obtain b r' where d: "zbx_json_decode_character r = Some (b, r')" "string_scan r' = Inr q"
      unfolding p by (subst (asm) string_scan.simps) (auto simp: Let_def split: option.splits if_splits)
    from decode_char_inv [OF d(1)] obtain s where s: "r = s @ r'" "json_char (BACKSLASH # s) b" by blast
    show ?thesis using IH(2) [OF _ _ _ refl refl] 3 p d s
      by (intro more [OF s(2), of r']) auto
  next
    case 4
    then obtain c r where p: "p = c # r" using sc by (cases p) auto
    have "string_scan r = Inr q" using sc 4 unfolding p by (subst (asm) string_scan.simps) (auto split: if_splits)
    moreover have "c \<noteq> NUL" using 4 p by auto
    ultimately show ?thesis using IH(3) 4 p by (intro more [OF json_char.plain, of c r]) auto
  qed
qed

lemma utf8_length: "length (utf8 n) \<le> 4"
  by (simp add: utf8_def)

lemma json_char_length: "json_char s b \<Longrightarrow> length b \<le> length s \<and> s \<noteq> []"
  by (induction rule: json_char.induct) (auto intro: le_trans [OF utf8_length])

lemma copy_escape:
  assumes "zbx_json_decode_character p = Some (b, t)" "length out + length b < n"
  shows "copy_loop (BACKSLASH # p) out n = copy_loop t (out @ b) n"
  using assms by (subst copy_loop.simps) simp

lemma copy_char: "json_char s b \<Longrightarrow> length out + length b < n \<Longrightarrow> copy_loop (s @ t) out n = copy_loop t (out @ b) n"
proof (induction rule: json_char.induct)
  case (plain c)
  then show ?case by (subst copy_loop.simps) auto
next
  case (escape c b)
  then show ?case using decode_char [OF json_char.escape, of c b t] by (simp add: copy_escape)
next
  case (unicode h)
  then show ?case using decode_char [OF json_char.unicode, of h t] by (simp add: copy_escape)
next
  case (surrogates h l)
  then show ?case using decode_char [OF json_char.surrogates, of h l t] by (simp add: copy_escape)
qed

lemma copy_chars:
  "json_chars s b \<Longrightarrow> length out + length s < n \<Longrightarrow> copy_loop (s @ QUOTE # t) out n = Some (out @ b, t)"
proof (induction arbitrary: out rule: json_chars.induct)
  case nil
  then show ?case by (subst copy_loop.simps) simp
next
  case (cons s b ss bs)
  note l = json_char_length [OF cons(1)]
  show ?case using copy_char [OF cons(1), of out n "ss @ QUOTE # t"] cons l by simp
qed

lemma parse_string:
  assumes "json_chars s b"
  shows "json_parse_string build (QUOTE # s @ QUOTE # t)
    = Inr (length s + 2, if build then Some (cstr b) else None)"
  using scan_chars [OF assms, of t] copy_chars [OF assms, of "[]" "length s + 1" t]
  by (simp add: json_parse_string_def json_copy_string_def)

lemma parse_string_inv:
  assumes "json_parse_string build start = Inr (len, str)" "peek start = QUOTE"
  shows "\<exists>s b t. start = QUOTE # s @ QUOTE # t \<and> json_chars s b \<and> len = length s + 2
    \<and> str = (if build then Some (cstr b) else None)"
proof -
  from assms(1) obtain q where q: "string_scan (tl start) = Inr q"
    by (auto simp: json_parse_string_def split: sum.splits)
  from scan_inv [OF q] obtain s b where s: "tl start = s @ q" "json_chars s b" "peek q = QUOTE" by blast
  then obtain t where "q = QUOTE # t" by (cases q) auto
  then have st: "start = QUOTE # s @ QUOTE # t" using assms(2) s(1) by (cases start) auto
  then show ?thesis using assms(1) parse_string [OF s(2), of build t] s(2)
    by (intro exI [of _ s] exI [of _ b] exI [of _ t]) auto
qed

section \<open>White space and numbers\<close>

definition is_ws :: "char \<Rightarrow> bool" where
  "is_ws c \<longleftrightarrow> c \<in> {CHR '' '', CHR 0x09, CHR 0x0D, CHR 0x0A}"

lemma SKIP_eq: "SKIP_WHITESPACE s = dropWhile is_ws s"
proof -
  have "(\<lambda>c. c \<noteq> NUL \<and> strchr ZBX_WHITESPACE c \<noteq> None) = is_ws"
    by (rule ext) (auto simp: ZBX_WHITESPACE_def is_ws_def)
  then show ?thesis by (simp only: SKIP_WHITESPACE_def)
qed

lemma skip_ws: "list_all is_ws w \<Longrightarrow> SKIP_WHITESPACE (w @ s) = SKIP_WHITESPACE s"
  by (simp add: SKIP_eq list_all_iff dropWhile_append2)

lemma skip_none [simp]: "\<not> is_ws c \<Longrightarrow> SKIP_WHITESPACE (c # s) = c # s" "SKIP_WHITESPACE [] = []"
  by (simp_all add: SKIP_eq)

lemma skip_split: "\<exists>w. s = w @ SKIP_WHITESPACE s \<and> list_all is_ws w"
  by (rule exI [of _ "takeWhile is_ws s"]) (auto simp: SKIP_eq list_all_iff dest: set_takeWhileD)

lemma skip_peek: "\<not> is_ws (peek (SKIP_WHITESPACE s))"
  unfolding SKIP_eq by (induction s) (simp_all add: is_ws_def)

definition json_number :: "string \<Rightarrow> bool" where
  "json_number s \<longleftrightarrow> (\<exists>sg ip fr ex. s = sg @ ip @ fr @ ex \<and> (sg = [] \<or> sg = ''-'')
     \<and> ip \<noteq> [] \<and> list_all isdigit ip \<and> (hd ip = CHR ''0'' \<longrightarrow> length ip = 1)
     \<and> (fr = [] \<or> (\<exists>ds. fr = CHR ''.'' # ds \<and> list_all isdigit ds))
     \<and> (ex = [] \<or> (\<exists>e es ds. ex = e # es @ ds \<and> (e = CHR ''e'' \<or> e = CHR ''E'')
          \<and> (es = [] \<or> es = ''+'' \<or> es = ''-'') \<and> ds \<noteq> [] \<and> list_all isdigit ds)))"

text \<open>What may follow a value inside an array or an object, or at the end.\<close>

definition follow :: "string \<Rightarrow> bool" where
  "follow t \<longleftrightarrow> t = [] \<or> is_ws (hd t) \<or> hd t = CHR '','' \<or> hd t = CHR '']'' \<or> hd t = CHR ''}''"

lemma number_loop_digits:
  "list_all isdigit ds \<Longrightarrow> number_loop (ds @ r) pt k = number_loop r pt (if pt then k else k + length ds)"
proof (induction ds arbitrary: k)
  case (Cons d ds)
  then have "isdigit d" "d \<noteq> NUL" "d \<noteq> CHR ''.''" by (auto simp: isdigit_def)
  then show ?case using Cons by simp
qed simp

lemma number_loop_stop:
  "\<not> isdigit (peek r) \<Longrightarrow> peek r \<noteq> CHR ''.'' \<or> pt \<Longrightarrow> number_loop r pt k = (r, k)"
  by (cases r) auto

lemma number_loop_inv:
  "number_loop p pt k = (q, k') \<Longrightarrow> \<exists>ip fr. p = ip @ fr @ q \<and> list_all isdigit ip
    \<and> k' = (if pt then k else k + length ip) \<and> (fr = [] \<or> \<not> pt \<and> (\<exists>ds. fr = CHR ''.'' # ds \<and> list_all isdigit ds))"
proof (induction p pt k rule: number_loop.induct)
  case (1 pt k)
  then show ?case by (intro exI [of _ "[]"]) auto
next
  case (2 c p pt k)
  show ?case
  proof (cases "c = CHR ''.'' \<and> \<not> pt")
    case True
    then have "number_loop p True k = (q, k')" using 2(3) by simp
    then obtain ip where "p = ip @ q" "list_all isdigit ip" "k' = k" using 2(1) True by auto
    then show ?thesis using True by (intro exI [of _ "[]"] exI [of _ "CHR ''.'' # ip"]) auto
  next
    case nd: False
    show ?thesis
    proof (cases "isdigit c")
      case True
      then have "c \<noteq> NUL" "c \<noteq> CHR ''.''" by (auto simp: isdigit_def)
      moreover from this have "number_loop p pt (if pt then k else k + 1) = (q, k')" using 2(3) True by simp
      ultimately obtain ip fr where "p = ip @ fr @ q" "list_all isdigit ip"
        "k' = (if pt then k else k + 1 + length ip)"
        "fr = [] \<or> \<not> pt \<and> (\<exists>ds. fr = CHR ''.'' # ds \<and> list_all isdigit ds)"
        using 2(2) True by (auto split: if_splits)
      then show ?thesis using True by (intro exI [of _ "c # ip"] exI [of _ fr]) auto
    next
      case False
      then have "q = c # p" "k' = k" using 2(3) nd by (auto split: if_splits)
      then show ?thesis by (intro exI [of _ "[]"]) auto
    qed
  qed
qed

lemma dropWhile_digits: "list_all isdigit ds \<Longrightarrow> \<not> isdigit (peek t) \<Longrightarrow> dropWhile isdigit (ds @ t) = t"
  by (induction ds) (cases t; auto)+

lemma json_exponent_ok:
  assumes "ex = [] \<or> (\<exists>e es ds. ex = e # es @ ds \<and> (e = CHR ''e'' \<or> e = CHR ''E'')
      \<and> (es = [] \<or> es = ''+'' \<or> es = ''-'') \<and> ds \<noteq> [] \<and> list_all isdigit ds)"
    "\<not> isdigit (peek t)" "peek t \<noteq> CHR ''e''" "peek t \<noteq> CHR ''E''"
  shows "json_exponent (ex @ t) = Inr t"
  using assms(1)
proof
  assume "ex = []"
  then show ?thesis using assms by (simp add: json_exponent_def)
next
  assume "\<exists>e es ds. ex = e # es @ ds \<and> (e = CHR ''e'' \<or> e = CHR ''E'')
      \<and> (es = [] \<or> es = ''+'' \<or> es = ''-'') \<and> ds \<noteq> [] \<and> list_all isdigit ds"
  then obtain e es d ds where x: "ex = e # es @ d # ds" "e = CHR ''e'' \<or> e = CHR ''E''"
    "es = [] \<or> es = ''+'' \<or> es = ''-''" "isdigit d" "list_all isdigit ds" by (metis list.exhaust list.pred_inject(2))
  then have "d \<noteq> CHR ''+''" "d \<noteq> CHR ''-''" "d \<noteq> NUL" by (auto simp: isdigit_def)
  then show ?thesis
    using x dropWhile_digits [OF x(5) assms(2)] by (auto simp: json_exponent_def Let_def)
qed

lemma json_exponent_inv:
  assumes "json_exponent p = Inr q"
  shows "\<exists>ex. p = ex @ q \<and> (ex = [] \<or> (\<exists>e es ds. ex = e # es @ ds \<and> (e = CHR ''e'' \<or> e = CHR ''E'')
      \<and> (es = [] \<or> es = ''+'' \<or> es = ''-'') \<and> ds \<noteq> [] \<and> list_all isdigit ds))"
proof (cases "peek p = CHR ''e'' \<or> peek p = CHR ''E''")
  case True
  then obtain e r where p: "p = e # r" "e = CHR ''e'' \<or> e = CHR ''E''" by (cases p) auto
  define es where "es = (if peek r = CHR ''+'' \<or> peek r = CHR ''-'' then [peek r] else [])"
  define u where "u = (if peek r = CHR ''+'' \<or> peek r = CHR ''-'' then tl r else r)"
  have r: "r = es @ u" "es = [] \<or> es = ''+'' \<or> es = ''-''" by (cases r; auto simp: es_def u_def)+
  have d: "isdigit (peek u)" "q = dropWhile isdigit (tl u)"
    using assms p by (auto simp: json_exponent_def Let_def u_def split: if_splits)
  then obtain c v where u: "u = c # v" "isdigit c" by (cases u) auto
  have "p = (e # es @ c # takeWhile isdigit v) @ q" using p r u d by simp
  moreover have "list_all isdigit (c # takeWhile isdigit v)"
    using u by (auto simp: list_all_iff dest: set_takeWhileD)
  ultimately show ?thesis using p(2) r(2) by blast
next
  case False
  then show ?thesis using assms by (intro exI [of _ "[]"]) (auto simp: json_exponent_def)
qed

lemma follow_peek: "follow t \<Longrightarrow> \<not> isdigit (peek t) \<and> peek t \<noteq> CHR ''.'' \<and> peek t \<noteq> CHR ''e'' \<and> peek t \<noteq> CHR ''E''"
  by (cases t) (auto simp: follow_def is_ws_def isdigit_def)

lemma exponent_peek:
  assumes "ex = [] \<or> (\<exists>e es ds. ex = e # es @ ds \<and> (e = CHR ''e'' \<or> e = CHR ''E'')
      \<and> (es = [] \<or> es = ''+'' \<or> es = ''-'') \<and> ds \<noteq> [] \<and> list_all isdigit ds)" "follow t"
  shows "\<not> isdigit (peek (ex @ t)) \<and> peek (ex @ t) \<noteq> CHR ''.''"
  using assms(1) follow_peek [OF assms(2)] by (auto simp: isdigit_def)

lemma parse_number:
  assumes "json_number s" "follow t"
  shows "json_parse_number atof (s @ t) = Inr (length s, atof (s @ t))"
proof -
  from assms(1) obtain sg ip fr ex where s: "s = sg @ ip @ fr @ ex" "sg = [] \<or> sg = ''-''"
    "ip \<noteq> []" "list_all isdigit ip" "hd ip = CHR ''0'' \<longrightarrow> length ip = 1"
    "fr = [] \<or> (\<exists>ds. fr = CHR ''.'' # ds \<and> list_all isdigit ds)"
    and ex: "ex = [] \<or> (\<exists>e es ds. ex = e # es @ ds \<and> (e = CHR ''e'' \<or> e = CHR ''E'')
          \<and> (es = [] \<or> es = ''+'' \<or> es = ''-'') \<and> ds \<noteq> [] \<and> list_all isdigit ds)"
    unfolding json_number_def by blast
  obtain d ds where ip: "ip = d # ds" using s(3) by (cases ip) auto
  then have d: "isdigit d" "d \<noteq> CHR ''-''" using s(4) by (auto simp: isdigit_def)
  have f: "(if peek (s @ t) = CHR ''-'' then tl (s @ t) else s @ t) = ip @ fr @ ex @ t"
    using s(1,2) ip d by auto
  note e = exponent_peek [OF ex assms(2)]
  have "number_loop (fr @ ex @ t) False k = (ex @ t, k)" for k
    using s(6) e by (auto simp: number_loop_digits number_loop_stop)
  then have n: "number_loop (ip @ fr @ ex @ t) False 0 = (ex @ t, length ip)"
    using s(4) by (simp add: number_loop_digits)
  have x: "json_exponent (ex @ t) = Inr t" using json_exponent_ok [OF ex] follow_peek [OF assms(2)] by simp
  have z: "\<not> (d = CHR ''0'' \<and> 1 < length ip)" using s(5) ip by auto
  show ?thesis unfolding json_parse_number_def f Let_def n
    using ip z by (simp add: x s(1))
qed

lemma parse_number_inv:
  assumes "json_parse_number atof start = Inr (len, v)"
  shows "\<exists>s t. start = s @ t \<and> json_number s \<and> len = length s \<and> v = atof start"
proof -
  define sg where "sg = (if peek start = CHR ''-'' then ''-'' else [])"
  define p where "p = (if peek start = CHR ''-'' then tl start else start)"
  have st: "start = sg @ p" "sg = [] \<or> sg = ''-''" by (cases start; auto simp: sg_def p_def)+
  obtain q k where n: "number_loop p False 0 = (q, k)" by fastforce
  from number_loop_inv [OF n] obtain ip fr where ip: "p = ip @ fr @ q" "list_all isdigit ip" "k = length ip"
    "fr = [] \<or> (\<exists>ds. fr = CHR ''.'' # ds \<and> list_all isdigit ds)" by auto
  from assms n obtain t where t: "k \<noteq> 0" "\<not> (peek p = CHR ''0'' \<and> 1 < k)" "json_exponent q = Inr t"
    "len = length start - length t" "v = atof start"
    by (auto simp: json_parse_number_def Let_def p_def split: if_splits sum.splits)
  from json_exponent_inv [OF t(3)] obtain ex where ex: "q = ex @ t"
    "ex = [] \<or> (\<exists>e es ds. ex = e # es @ ds \<and> (e = CHR ''e'' \<or> e = CHR ''E'')
      \<and> (es = [] \<or> es = ''+'' \<or> es = ''-'') \<and> ds \<noteq> [] \<and> list_all isdigit ds)" by blast
  have "ip \<noteq> []" "hd ip = CHR ''0'' \<longrightarrow> length ip = 1" using t(1,2) ip(1,3) by (cases ip; auto)+
  then have "json_number (sg @ ip @ fr @ ex)"
    unfolding json_number_def using st(2) ip(2,4) ex(2) by blast
  moreover have "start = (sg @ ip @ fr @ ex) @ t" using st(1) ip(1) ex(1) by simp
  moreover from this have "len = length (sg @ ip @ fr @ ex)" unfolding t(4) by simp
  ultimately show ?thesis using t(5) by blast
qed

section \<open>Literals\<close>

lemma literal_loop_ok: "literal_loop st (lit @ t) lit = Inr t"
  by (induction lit) auto

lemma literal_loop_inv: "literal_loop st p lit = Inr q \<Longrightarrow> NUL \<notin> set lit \<Longrightarrow> p = lit @ q"
proof (induction lit arbitrary: p)
  case (Cons c lit)
  then show ?case by (cases p) (auto split: if_splits)
qed simp

lemma parse_literal: "json_parse_literal (lit @ t) lit = Inr (length lit)"
  by (simp add: json_parse_literal_def literal_loop_ok)

lemma parse_literal_inv:
  "json_parse_literal p lit = Inr len \<Longrightarrow> NUL \<notin> set lit \<Longrightarrow> len = length lit \<and> (\<exists>t. p = lit @ t)"
  by (cases "literal_loop p p lit") (auto simp: json_parse_literal_def dest: literal_loop_inv)

section \<open>The grammar\<close>

text \<open>
  The texts of values, elements and members nested at most \<open>n\<close> levels deep in containers that are not empty, and
  what they denote.
\<close>

inductive json_val :: "(string \<Rightarrow> 'd) \<Rightarrow> nat \<Rightarrow> string \<Rightarrow> 'd zbx_jsonobj \<Rightarrow> bool"
  and json_elems :: "(string \<Rightarrow> 'd) \<Rightarrow> nat \<Rightarrow> string \<Rightarrow> 'd zbx_jsonobj list \<Rightarrow> bool"
  and json_members :: "(string \<Rightarrow> 'd) \<Rightarrow> nat \<Rightarrow> string \<Rightarrow> (string \<times> 'd zbx_jsonobj) list \<Rightarrow> bool"
  for atof :: "string \<Rightarrow> 'd"
where
  string: "json_chars s b \<Longrightarrow> json_val atof n (QUOTE # s @ [QUOTE]) (JSON_STRING (cstr b))"
| number: "json_number s \<Longrightarrow> json_val atof n s (JSON_NUMBER (atof s))"
| true: "json_val atof n ''true'' JSON_TRUE"
| false: "json_val atof n ''false'' JSON_FALSE"
| null: "json_val atof n ''null'' JSON_NULL"
| array_empty: "list_all is_ws w \<Longrightarrow> json_val atof n (CHR ''['' # w @ '']'') (JSON_ARRAY [])"
| array: "json_elems atof n s vs \<Longrightarrow> json_val atof (Suc n) (CHR ''['' # s @ '']'') (JSON_ARRAY vs)"
| object_empty: "list_all is_ws w \<Longrightarrow> json_val atof n (CHR ''{'' # w @ ''}'') (JSON_OBJECT [])"
| object: "json_members atof n s els \<Longrightarrow>
    json_val atof (Suc n) (CHR ''{'' # s @ ''}'') (JSON_OBJECT (object_value els))"
| last_elem: "list_all is_ws w \<Longrightarrow> json_val atof n s v \<Longrightarrow> list_all is_ws w' \<Longrightarrow>
    json_elems atof n (w @ s @ w') [v]"
| elem: "list_all is_ws w \<Longrightarrow> json_val atof n s v \<Longrightarrow> list_all is_ws w' \<Longrightarrow> json_elems atof n ss vs \<Longrightarrow>
    json_elems atof n (w @ s @ w' @ CHR '','' # ss) (v # vs)"
| last_member: "list_all is_ws w \<Longrightarrow> json_chars k b \<Longrightarrow> list_all is_ws w1 \<Longrightarrow> list_all is_ws w2 \<Longrightarrow>
    json_val atof n s v \<Longrightarrow> list_all is_ws w3 \<Longrightarrow>
    json_members atof n (w @ QUOTE # k @ QUOTE # w1 @ CHR '':'' # w2 @ s @ w3) [(cstr b, v)]"
| member: "list_all is_ws w \<Longrightarrow> json_chars k b \<Longrightarrow> list_all is_ws w1 \<Longrightarrow> list_all is_ws w2 \<Longrightarrow>
    json_val atof n s v \<Longrightarrow> list_all is_ws w3 \<Longrightarrow> json_members atof n ss els \<Longrightarrow>
    json_members atof n (w @ QUOTE # k @ QUOTE # w1 @ CHR '':'' # w2 @ s @ w3 @ CHR '','' # ss) ((cstr b, v) # els)"

lemma json_number_head: "json_number s \<Longrightarrow> \<exists>c r. s = c # r \<and> (isdigit c \<or> c = CHR ''-'')"
proof -
  assume "json_number s"
  then obtain sg ip r where "s = sg @ ip @ r" "sg = [] \<or> sg = ''-''" "ip \<noteq> []" "list_all isdigit ip"
    unfolding json_number_def by blast
  then show ?thesis by (cases ip) auto
qed

lemma json_val_head:
  assumes "json_val atof n s v"
  obtains c r where "s = c # r" "\<not> is_ws c" "c \<noteq> CHR '']''" "c \<noteq> CHR ''}''" "c \<noteq> NUL"
  using assms
proof cases
  case number
  then obtain c r where "s = c # r" "isdigit c \<or> c = CHR ''-''" using json_number_head by blast
  moreover from this have "\<not> is_ws c" "c \<noteq> CHR '']''" "c \<noteq> CHR ''}''" "c \<noteq> NUL"
    by (auto simp: isdigit_def is_ws_def)
  ultimately show ?thesis using that by blast
qed (auto intro!: that simp: is_ws_def)

text \<open>The C library's conversion reads a number up to the first character that does not belong to it.\<close>

definition atof_ok :: "(string \<Rightarrow> 'd) \<Rightarrow> bool" where
  "atof_ok atof \<longleftrightarrow> (\<forall>s t. json_number s \<longrightarrow> follow t \<longrightarrow> atof (s @ t) = atof s)"

section \<open>The parsers on texts of the grammar\<close>

abbreviation (input) built :: "bool \<Rightarrow> 'a \<Rightarrow> 'a option" where
  "built b v \<equiv> (if b then Some v else None)"

lemma parse_value_string:
  assumes "json_chars s b'" "k \<le> 64" "list_all is_ws w"
  shows "json_parse_value atof b k (w @ QUOTE # s @ QUOTE # t) = Inr (length w + length s + 2, built b (JSON_STRING (cstr b')))"
  using assms by (subst json_parse_value.simps) (simp add: skip_ws is_ws_def parse_string)

lemma parse_value_number:
  assumes "json_number s" "k \<le> 64" "list_all is_ws w" "follow t"
  shows "json_parse_value atof b k (w @ s @ t) = Inr (length w + length s, built b (JSON_NUMBER (atof (s @ t))))"
proof -
  obtain c r where c: "s = c # r" "isdigit c \<or> c = CHR ''-''" using json_number_head assms(1) by blast
  then have "\<not> is_ws c" "c \<noteq> NUL" "c \<notin> {QUOTE, CHR ''{'', CHR ''['', CHR ''t'', CHR ''f'', CHR ''n''}"
    by (auto simp: isdigit_def is_ws_def)
  then show ?thesis using assms(2,3) c parse_number [OF assms(1,4), of atof]
    by (subst json_parse_value.simps) (simp add: skip_ws Let_def)
qed

lemma parse_value_literal:
  assumes "k \<le> 64" "list_all is_ws w"
  shows "json_parse_value atof b k (w @ ''true'' @ t) = Inr (length w + 4, built b JSON_TRUE)"
    "json_parse_value atof b k (w @ ''false'' @ t) = Inr (length w + 5, built b JSON_FALSE)"
    "json_parse_value atof b k (w @ ''null'' @ t) = Inr (length w + 4, built b JSON_NULL)"
  using assms parse_literal [of "''true''" t] parse_literal [of "''false''" t] parse_literal [of "''null''" t]
  by (subst json_parse_value.simps, simp add: skip_ws is_ws_def Let_def)+

lemma parse_value_container:
  assumes "k \<le> 64" "list_all is_ws w"
  shows "json_parse_array (json_parse_value atof b (Suc k)) b (CHR ''['' # s) = Inr (len, v) \<Longrightarrow>
      json_parse_value atof b k (w @ CHR ''['' # s) = Inr (length w + len, v)"
    "json_parse_object (json_parse_value atof b (Suc k)) b (CHR ''{'' # s) = Inr (len, v) \<Longrightarrow>
      json_parse_value atof b k (w @ CHR ''{'' # s) = Inr (length w + len, v)"
  using assms by (subst json_parse_value.simps, simp add: skip_ws is_ws_def Let_def)+

lemma parse_array_empty:
  "list_all is_ws w \<Longrightarrow> json_parse_array pv b (CHR ''['' # w @ CHR '']'' # t) = Inr (length w + 2, built b (JSON_ARRAY []))"
  by (simp add: json_parse_array_def skip_ws is_ws_def)

lemma parse_object_empty:
  "list_all is_ws w \<Longrightarrow> json_parse_object pv b (CHR ''{'' # w @ CHR ''}'' # t) = Inr (length w + 2, built b (JSON_OBJECT []))"
  by (simp add: json_parse_object_def skip_ws is_ws_def)

text \<open>One turn of the loops over elements and members, after the value was parsed.\<close>

lemma array_loop_step:
  assumes "pv p = Inr (len, built b v)" "drop len p = w @ c # t" "list_all is_ws w" "\<not> is_ws c"
  shows "array_loop pv p acc = (if c = CHR '','' then array_loop pv t (acc @ (if b then [v] else []))
    else Inr (c # t, acc @ (if b then [v] else [])))"
  using assms by (subst array_loop.simps) (simp add: skip_ws)

lemma object_loop_step:
  assumes "json_chars k b'" "list_all is_ws w1"
    "pv p = Inr (len, built b v)" "drop len p = w @ c # t" "list_all is_ws w" "\<not> is_ws c"
  shows "object_loop pv b (QUOTE # k @ QUOTE # w1 @ CHR '':'' # p) acc
    = (if c = CHR '','' then object_loop pv b (SKIP_WHITESPACE t) (if b then jsonobj_insert (cstr b') v acc else acc)
       else Inr (c # t, if b then jsonobj_insert (cstr b') v acc else acc))"
proof -
  have d: "drop (length k + 2) (QUOTE # k @ QUOTE # w1 @ CHR '':'' # p) = w1 @ CHR '':'' # p" by simp
  have s: "SKIP_WHITESPACE (w1 @ CHR '':'' # p) = CHR '':'' # p" using assms(2) by (simp add: skip_ws is_ws_def)
  have s2: "SKIP_WHITESPACE (drop len p) = c # t" using assms(4-6) by (simp add: skip_ws)
  note ps = parse_string [OF assms(1), of b "w1 @ CHR '':'' # p"]
  show ?thesis by (subst object_loop.simps, simp only: ps) (simp add: s assms(3) s2 Let_def)
qed

lemma follow_simps [simp]:
  "follow (c # t) \<longleftrightarrow> is_ws c \<or> c = CHR '','' \<or> c = CHR '']'' \<or> c = CHR ''}''" "follow []"
  by (auto simp: follow_def)

lemma follow_ws: "list_all is_ws w \<Longrightarrow> follow t \<Longrightarrow> follow (w @ t)"
  by (cases w) auto

lemma json_elems_head:
  assumes "json_elems atof n s vs"
  shows "peek (SKIP_WHITESPACE (s @ t)) \<noteq> CHR '']''"
  using assms by cases (auto simp: skip_ws elim!: json_val_head)

lemma json_members_head:
  assumes "json_members atof n s els"
  shows "peek (SKIP_WHITESPACE (s @ t)) \<noteq> CHR ''}''"
  using assms by cases (auto simp: skip_ws is_ws_def)


end
