(* ===== verification/ZbxJsonParse.thy ===== *)
theory ZbxJsonParse
  imports ZbxJsonText
begin

text \<open>The parser accepts every text of the grammar, with the value it denotes, and no other text.\<close>

section \<open>Every text of the grammar is accepted\<close>

lemma parse_array_of_loop:
  assumes "json_elems atof n s vs"
    "array_loop pv (SKIP_WHITESPACE (s @ CHR '']'' # t)) [] = Inr (CHR '']'' # t, if b then vs else [])"
  shows "json_parse_array pv b (CHR ''['' # s @ CHR '']'' # t) = Inr (length s + 2, built b (JSON_ARRAY vs))"
  using assms(2) json_elems_head [OF assms(1), of "CHR '']'' # t"] by (simp add: json_parse_array_def)

lemma parse_object_of_loop:
  assumes "json_members atof n s els"
    "object_loop pv b (SKIP_WHITESPACE (s @ CHR ''}'' # t)) []
      = Inr (CHR ''}'' # t, if b then fold (\<lambda>(k, v). jsonobj_insert k v) els [] else [])"
  shows "json_parse_object pv b (CHR ''{'' # s @ CHR ''}'' # t)
      = Inr (length s + 2, built b (JSON_OBJECT (object_value els)))"
  using assms(2) json_members_head [OF assms(1), of "CHR ''}'' # t"] by (simp add: json_parse_object_def is_ws_def object_value_fold)

text \<open>
  The three relations by one induction. A list of elements is parsed with and without the white space in front of it
  skipped.
\<close>

lemma grammar_complete:
  assumes at: "b \<longrightarrow> atof_ok atof"
  shows "json_val atof n s v \<Longrightarrow> (\<forall>k w t. k + n \<le> 64 \<longrightarrow> list_all is_ws w \<longrightarrow> follow t \<longrightarrow>
      json_parse_value atof b k (w @ s @ t) = Inr (length w + length s, built b v))"
    and "json_elems atof n s vs \<Longrightarrow> (\<forall>k t acc. k + n \<le> 64 \<longrightarrow> peek t = CHR '']'' \<longrightarrow>
      array_loop (json_parse_value atof b k) (s @ t) acc = Inr (t, acc @ (if b then vs else []))
      \<and> array_loop (json_parse_value atof b k) (SKIP_WHITESPACE (s @ t)) acc = Inr (t, acc @ (if b then vs else [])))"
    and "json_members atof n s els \<Longrightarrow> (\<forall>k t acc. k + n \<le> 64 \<longrightarrow> peek t = CHR ''}'' \<longrightarrow>
      object_loop (json_parse_value atof b k) b (SKIP_WHITESPACE (s @ t)) acc
        = Inr (t, if b then fold (\<lambda>(k, v). jsonobj_insert k v) els acc else acc))"
proof (induction rule: json_val_json_elems_json_members.inducts)
  case (string s b' n)
  then show ?case by (intro allI impI) (simp add: parse_value_string [OF string] add_leD1 split del: if_split)
next
  case (number s n)
  have "b \<Longrightarrow> follow t \<Longrightarrow> atof (s @ t) = atof s" for t using at number unfolding atof_ok_def by blast
  then show ?case by (intro allI impI) (simp add: parse_value_number [OF number] add_leD1)
next
  case (array_empty w n)
  show ?case
    by (intro allI impI)
      (simp add: parse_value_container(1) [OF _ _ parse_array_empty [OF array_empty]] add_leD1 split del: if_split)
next
  case (object_empty w n)
  show ?case
    by (intro allI impI)
      (simp add: parse_value_container(2) [OF _ _ parse_object_empty [OF object_empty]] add_leD1 split del: if_split)
next
  case (array n s vs)
  have arr: "json_parse_array (json_parse_value atof b (Suc k)) b (CHR ''['' # s @ CHR '']'' # t)
      = Inr (length s + 2, built b (JSON_ARRAY vs))" if "k + Suc n \<le> 64" for k t
    using array that by (intro parse_array_of_loop) simp_all
  show ?case
    by (intro allI impI) (simp add: parse_value_container(1) [OF _ _ arr] add_leD1 split del: if_split)
next
  case (object n s els)
  have obj: "json_parse_object (json_parse_value atof b (Suc k)) b (CHR ''{'' # s @ CHR ''}'' # t)
      = Inr (length s + 2, built b (JSON_OBJECT (object_value els)))"
    if "k + Suc n \<le> 64" for k t
    using object that by (intro parse_object_of_loop) simp_all
  show ?case
    by (intro allI impI) (simp add: parse_value_container(2) [OF _ _ obj] add_leD1 split del: if_split)
next
  case (last_elem w n s v w')
  have loop: "array_loop (json_parse_value atof b k) (u @ s @ w' @ t) acc = Inr (t, acc @ (if b then [v] else []))"
    if k: "k + n \<le> 64" and t: "peek t = CHR '']''" and u: "list_all is_ws u" for k t acc u
  proof -
    obtain t' where t': "t = CHR '']'' # t'" using t by (cases t) auto
    have "json_parse_value atof b k (u @ s @ w' @ t) = Inr (length u + length s, built b v)"
      using last_elem(2,4) k u t' follow_ws [of w' t] by (simp split del: if_split)
    from array_loop_step [where pv = "json_parse_value atof b k" and b = b and v = v, OF this, of w' "CHR '']''" t' acc] show ?thesis
      using last_elem(2) t' by (simp add: is_ws_def)
  qed
  obtain c r where c: "s = c # r" "\<not> is_ws c" using json_val_head [OF last_elem(3)] by blast
  then have "SKIP_WHITESPACE ((w @ s @ w') @ t) = [] @ s @ w' @ t" for t
    using last_elem(1) by (simp add: skip_ws)
  then show ?case using loop [where u = w] loop [where u = "[]"] last_elem(1) by auto
next
  case (elem w n s v w' ss vs)
  have loop: "array_loop (json_parse_value atof b k) (u @ s @ w' @ CHR '','' # ss @ t) acc
      = Inr (t, acc @ (if b then v # vs else []))"
    if k: "k + n \<le> 64" and t: "peek t = CHR '']''" and u: "list_all is_ws u" for k t acc u
  proof -
    have "json_parse_value atof b k (u @ s @ w' @ CHR '','' # ss @ t) = Inr (length u + length s, built b v)"
      using elem(2,4) k u follow_ws [of w' "CHR '','' # ss @ t"] by (simp split del: if_split)
    from array_loop_step [where pv = "json_parse_value atof b k" and b = b and v = v, OF this, of w' "CHR '',''" "ss @ t" acc] show ?thesis
      using elem(2,6) k t by (simp add: is_ws_def)
  qed
  obtain c r where c: "s = c # r" "\<not> is_ws c" using json_val_head [OF elem(3)] by blast
  then have "SKIP_WHITESPACE ((w @ s @ w' @ CHR '','' # ss) @ t) = [] @ s @ w' @ CHR '','' # ss @ t" for t
    using elem(1) by (simp add: skip_ws)
  then show ?case using loop [where u = w] loop [where u = "[]"] elem(1) by auto
next
  case (last_member w k' b' w1 w2 n s v w3)
  show ?case
  proof (intro allI impI)
    fix k t acc
    assume k: "k + n \<le> 64" and t: "peek t = CHR ''}''"
    obtain t' where t': "t = CHR ''}'' # t'" using t by (cases t) auto
    have "json_parse_value atof b k (w2 @ s @ w3 @ t) = Inr (length w2 + length s, built b v)"
      using last_member k t' follow_ws [of w3 t] by (simp split del: if_split)
    from object_loop_step [where pv = "json_parse_value atof b k" and b = b and v = v, OF last_member(2,3) this, of w3 "CHR ''}''" t' acc]
    show "object_loop (json_parse_value atof b k) b
        (SKIP_WHITESPACE ((w @ QUOTE # k' @ QUOTE # w1 @ CHR '':'' # w2 @ s @ w3) @ t)) acc
      = Inr (t, if b then fold (\<lambda>(k, v). jsonobj_insert k v) [(cstr b', v)] acc else acc)"
      using last_member(1,5) t' by (simp add: skip_ws is_ws_def)
  qed
next
  case (member w k' b' w1 w2 n s v w3 ss els)
  show ?case
  proof (intro allI impI)
    fix k t acc
    assume k: "k + n \<le> 64" and t: "peek t = CHR ''}''"
    have "json_parse_value atof b k (w2 @ s @ w3 @ CHR '','' # ss @ t) = Inr (length w2 + length s, built b v)"
      using member k follow_ws [of w3 "CHR '','' # ss @ t"] by (simp split del: if_split)
    from object_loop_step [where pv = "json_parse_value atof b k" and b = b and v = v, OF member(2,3) this, of w3 "CHR '',''" "ss @ t" acc]
    show "object_loop (json_parse_value atof b k) b
        (SKIP_WHITESPACE ((w @ QUOTE # k' @ QUOTE # w1 @ CHR '':'' # w2 @ s @ w3 @ CHR '','' # ss) @ t)) acc
      = Inr (t, if b then fold (\<lambda>(k, v). jsonobj_insert k v) ((cstr b', v) # els) acc else acc)"
      using member(1,5,9) k t by (simp add: skip_ws is_ws_def)
  qed
qed (intro allI impI, simp add: parse_value_literal [simplified] add_leD1)+

section \<open>Every accepted text is of the grammar\<close>

text \<open>A parser of values is sound for a nesting depth when it parses only texts of the grammar.\<close>

definition pv_sound :: "(string \<Rightarrow> 'd) \<Rightarrow> bool \<Rightarrow> nat \<Rightarrow> (string \<Rightarrow> 'd json_result) \<Rightarrow> bool" where
  "pv_sound atof b d pv \<longleftrightarrow> (\<forall>p len vo. pv p = Inr (len, vo) \<longrightarrow>
     (\<exists>w s t v. p = w @ s @ t \<and> list_all is_ws w \<and> len = length w + length s \<and> json_val atof d s v
        \<and> (follow t \<longrightarrow> vo = built b v)))"

lemma pv_soundD:
  assumes "pv_sound atof b d pv" "pv p = Inr (len, vo)" "follow (SKIP_WHITESPACE (drop len p))"
  obtains w s w' v where "p = w @ s @ w' @ SKIP_WHITESPACE (drop len p)" "list_all is_ws w" "list_all is_ws w'"
    "json_val atof d s v" "vo = built b v"
proof -
  obtain w s t v where p: "p = w @ s @ t" "list_all is_ws w" "len = length w + length s"
    "json_val atof d s v" "follow t \<longrightarrow> vo = built b v"
    using assms(1) [unfolded pv_sound_def, rule_format, OF assms(2)] by (elim exE conjE)
  have t: "drop len p = t" unfolding p(1,3) by simp
  obtain w' where w': "t = w' @ SKIP_WHITESPACE t" "list_all is_ws w'" using skip_split [of t] by blast
  have "follow t" using follow_ws [OF w'(2) assms(3) [unfolded t]] unfolding w'(1) [symmetric] .
  then have v: "vo = built b v" using p(5) by simp
  have "p = w @ s @ w' @ SKIP_WHITESPACE (drop len p)" unfolding t w'(1) [symmetric] by (rule p(1))
  from that [OF this p(2) w'(2) p(4) v] show thesis .
qed

lemma array_loop_turn:
  assumes "array_loop pv p acc = Inr (q, vs)"
  obtains len vo where "pv p = Inr (len, vo)"
    "(if peek (SKIP_WHITESPACE (drop len p)) = CHR '',''
      then array_loop pv (tl (SKIP_WHITESPACE (drop len p))) (acc @ (case vo of None \<Rightarrow> [] | Some v \<Rightarrow> [v]))
      else Inr (SKIP_WHITESPACE (drop len p), acc @ (case vo of None \<Rightarrow> [] | Some v \<Rightarrow> [v]))) = Inr (q, vs)"
proof (cases "pv p")
  case (Inl e)
  then show thesis using assms by (simp add: array_loop.simps [of pv p acc])
next
  case (Inr x)
  obtain len vo where "x = (len, vo)" by fastforce
  then show thesis
    using that [of len vo] Inr assms [unfolded array_loop.simps [of pv p acc]]
    by (simp add: Let_def cong del: if_weak_cong split del: if_split)
qed

lemma array_loop_sound:
  "pv_sound atof b d pv \<Longrightarrow> array_loop pv p acc = Inr (q, vs) \<Longrightarrow> peek q = CHR '']'' \<Longrightarrow>
   \<exists>s vs'. p = s @ q \<and> json_elems atof d s vs' \<and> vs = acc @ (if b then vs' else [])"
proof (induction pv p acc rule: array_loop.induct)
  case (1 pv p acc)
  from array_loop_turn [OF 1(3)] obtain len vo where v: "pv p = Inr (len, vo)"
    and turn: "(if peek (SKIP_WHITESPACE (drop len p)) = CHR '',''
      then array_loop pv (tl (SKIP_WHITESPACE (drop len p))) (acc @ (case vo of None \<Rightarrow> [] | Some v \<Rightarrow> [v]))
      else Inr (SKIP_WHITESPACE (drop len p), acc @ (case vo of None \<Rightarrow> [] | Some v \<Rightarrow> [v]))) = Inr (q, vs)" .
  define r where "r = SKIP_WHITESPACE (drop len p)"
  define acc' where "acc' = acc @ (case vo of None \<Rightarrow> [] | Some v \<Rightarrow> [v])"
  note loop = turn [folded r_def acc'_def]
  show ?case
  proof (cases "peek r = CHR '',''")
    case True
    then obtain r' where r: "r = CHR '','' # r'" by (cases r) auto
    then have "follow r" by simp
    from pv_soundD [OF 1(2) v, folded r_def, OF this] obtain w s w' x where
      x: "p = w @ s @ w' @ r" "list_all is_ws w" "list_all is_ws w'" "json_val atof d s x" "vo = built b x" .
    from 1(1) [OF v refl refl refl, folded r_def acc'_def, OF True 1(2) loop [unfolded if_P [OF True]] 1(4)]
    obtain s' vs' where s': "tl r = s' @ q" "json_elems atof d s' vs'" "vs = acc' @ (if b then vs' else [])" by blast
    have "p = (w @ s @ w' @ CHR '','' # s') @ q" using x(1) r s'(1) by simp
    moreover have "json_elems atof d (w @ s @ w' @ CHR '','' # s') (x # vs')" using x s' by (intro json_val_json_elems_json_members.elem)
    moreover have "vs = acc @ (if b then x # vs' else [])" using s'(3) x(5) by (simp add: acc'_def)
    ultimately show ?thesis by - (intro exI conjI)
  next
    case False
    then have r: "r = q" "vs = acc'" using loop by auto
    then have "follow r" using 1(4) by (cases q) auto
    from pv_soundD [OF 1(2) v, folded r_def, OF this] obtain w s w' x where
      x: "p = w @ s @ w' @ r" "list_all is_ws w" "list_all is_ws w'" "json_val atof d s x" "vo = built b x" .
    have "p = (w @ s @ w') @ q" using x(1) r(1) by simp
    moreover have "json_elems atof d (w @ s @ w') [x]" using x by (intro json_val_json_elems_json_members.last_elem)
    moreover have "vs = acc @ (if b then [x] else [])" using x(5) r(2) by (simp add: acc'_def)
    ultimately show ?thesis by - (intro exI conjI)
  qed
qed

lemma json_elems_ws:
  assumes "json_elems atof d s vs" "list_all is_ws u"
  shows "json_elems atof d (u @ s) vs"
  using assms(1)
proof cases
  case (last_elem w s' v w')
  then show ?thesis
    using json_val_json_elems_json_members.last_elem [of "u @ w" atof d s' v w'] assms(2) by simp
next
  case (elem w s' v w' ss vs')
  then show ?thesis
    using json_val_json_elems_json_members.elem [of "u @ w" atof d s' v w' ss vs'] assms(2) by simp
qed

lemma json_members_ws:
  assumes "json_members atof d s els" "list_all is_ws u"
  shows "json_members atof d (u @ s) els"
  using assms(1)
proof cases
  case (last_member w k b' w1 w2 s' v w3)
  then show ?thesis
    using json_val_json_elems_json_members.last_member [of "u @ w" k b' w1 w2 atof d s' v w3] assms(2) by simp
next
  case (member w k b' w1 w2 s' v w3 ss els')
  then show ?thesis
    using json_val_json_elems_json_members.member [of "u @ w" k b' w1 w2 atof d s' v w3 ss els'] assms(2) by simp
qed

text \<open>One turn of the loop over members, split into what was parsed.\<close>

lemma object_loop_turn:
  assumes "pv_sound atof b d pv" "object_loop pv b p acc = Inr (q, els)" "peek q = CHR ''}''"
  obtains k b' w1 w2 s v w3 c r where
    "p = QUOTE # k @ QUOTE # w1 @ CHR '':'' # w2 @ s @ w3 @ c # r" "json_chars k b'" "list_all is_ws w1"
    "list_all is_ws w2" "json_val atof d s v" "list_all is_ws w3"
    "if c = CHR '','' then object_loop pv b (SKIP_WHITESPACE r) (if b then jsonobj_insert (cstr b') v acc else acc) = Inr (q, els)
     else q = c # r \<and> els = (if b then jsonobj_insert (cstr b') v acc else acc)"
proof -
  have pq: "peek p = QUOTE" using assms(2) by (subst (asm) object_loop.simps) (simp split: if_splits)
  obtain l name where n: "json_parse_string b p = Inr (l, name)"
    using assms(2) pq by (subst (asm) object_loop.simps) (auto split: sum.splits)
  from parse_string_inv [OF n pq] obtain k b' t where k: "p = QUOTE # k @ QUOTE # t" "json_chars k b'"
    "l = length k + 2" "name = built b (cstr b')" by blast
  obtain w1 where w1: "t = w1 @ SKIP_WHITESPACE t" "list_all is_ws w1" using skip_split [of t] by blast
  have dl: "drop l p = t" using k by simp
  have "peek (SKIP_WHITESPACE t) = CHR '':''"
    using assms(2) pq n dl by (subst (asm) object_loop.simps) (auto simp: Let_def split: if_splits)
  then obtain u where u: "SKIP_WHITESPACE t = CHR '':'' # u" by (cases "SKIP_WHITESPACE t") auto
  obtain len vo where v: "pv u = Inr (len, vo)"
    using assms(2) pq n dl u by (subst (asm) object_loop.simps) (auto simp: Let_def split: sum.splits)
  define x where "x = SKIP_WHITESPACE (drop len u)"
  define acc' where "acc' = (case (name, vo) of (Some name, Some v) \<Rightarrow> jsonobj_insert name v acc | _ \<Rightarrow> acc)"
  have loop: "(if peek x = CHR '','' then object_loop pv b (SKIP_WHITESPACE (tl x)) acc' else Inr (x, acc')) = Inr (q, els)"
    using assms(2) pq n dl u v unfolding x_def acc'_def
    by (subst (asm) object_loop.simps) (simp add: Let_def cong del: if_weak_cong split del: if_split)
  have "peek x = CHR '','' \<or> x = q" using loop by (auto split: if_splits)
  then have "x \<noteq> []" "follow x" using assms(3) by (cases x; auto)+
  then obtain c r where c: "x = c # r" by (cases x) auto
  from pv_soundD [OF assms(1) v, folded x_def, OF \<open>follow x\<close>] obtain w2 s w3 y where
    y: "u = w2 @ s @ w3 @ x" "list_all is_ws w2" "list_all is_ws w3" "json_val atof d s y" "vo = built b y" .
  have "acc' = (if b then jsonobj_insert (cstr b') y acc else acc)" using k(4) y(5) by (simp add: acc'_def)
  then show thesis using that [OF _ k(2) w1(2) y(2,4,3), of c r] k(1) w1(1) u y(1) c loop by (auto split: if_splits)
qed

lemma object_loop_some: "object_loop pv b p acc = Inr (q, els) \<Longrightarrow> \<exists>u x. pv u = Inr x"
  by (subst (asm) object_loop.simps) (auto simp: Let_def split: if_splits sum.splits; blast)

lemma object_loop_sound:
  "pv_sound atof b d pv \<Longrightarrow> object_loop pv b p acc = Inr (q, els) \<Longrightarrow> peek q = CHR ''}'' \<Longrightarrow>
   \<exists>s els'. p = s @ q \<and> json_members atof d s els'
     \<and> els = (if b then fold (\<lambda>(k, v). jsonobj_insert k v) els' acc else acc)"
proof (induction "length p" arbitrary: p acc rule: less_induct)
  case less
  from object_loop_turn [OF less(2-4)] obtain k b' w1 w2 s v w3 c r where
    p: "p = QUOTE # k @ QUOTE # w1 @ CHR '':'' # w2 @ s @ w3 @ c # r" "json_chars k b'" "list_all is_ws w1"
    "list_all is_ws w2" "json_val atof d s v" "list_all is_ws w3"
    and step: "if c = CHR '','' then object_loop pv b (SKIP_WHITESPACE r) (if b then jsonobj_insert (cstr b') v acc else acc) = Inr (q, els)
     else q = c # r \<and> els = (if b then jsonobj_insert (cstr b') v acc else acc)" .
  have ws: "list_all is_ws []" by simp
  show ?case
  proof (cases "c = CHR '',''")
    case True
    have "length (SKIP_WHITESPACE r) < length p"
      using SKIP_WHITESPACE_length [of r] by (simp add: p(1))
    from less(1) [OF this less(2) step [unfolded if_P [OF True]] less(4)] obtain s' els' where
      s': "SKIP_WHITESPACE r = s' @ q" "json_members atof d s' els'"
      "els = (if b then fold (\<lambda>(k, v). jsonobj_insert k v) els' (if b then jsonobj_insert (cstr b') v acc else acc)
        else (if b then jsonobj_insert (cstr b') v acc else acc))" by blast
    obtain u where u: "r = u @ SKIP_WHITESPACE r" "list_all is_ws u" using skip_split [of r] by blast
    have "json_members atof d (u @ s') els'" using json_members_ws [OF s'(2) u(2)] .
    from json_val_json_elems_json_members.member [OF ws p(2-6) this]
    show ?thesis using p(1) s'(1,3) u(1) True
      by (intro exI [of _ "QUOTE # k @ QUOTE # w1 @ CHR '':'' # w2 @ s @ w3 @ CHR '','' # u @ s'"]
          exI [of _ "(cstr b', v) # els'"]) auto
  next
    case False
    from json_val_json_elems_json_members.last_member [OF ws p(2-6)]
    show ?thesis using p(1) step False
      by (intro exI [of _ "QUOTE # k @ QUOTE # w1 @ CHR '':'' # w2 @ s @ w3"] exI [of _ "[(cstr b', v)]"]) auto
  qed
qed

text \<open>
  What an array or an object gives, when the parser of its elements is sound for one level less or, at the greatest
  depth, accepts nothing.
\<close>

definition inner_sound :: "(string \<Rightarrow> 'd) \<Rightarrow> bool \<Rightarrow> nat \<Rightarrow> (string \<Rightarrow> 'd json_result) \<Rightarrow> bool" where
  "inner_sound atof b D pv \<longleftrightarrow> (\<exists>d. D = Suc d \<and> pv_sound atof b d pv) \<or> (\<forall>p. isl (pv p))"

lemma array_sound:
  assumes "inner_sound atof b D pv" "json_parse_array pv b (CHR ''['' # p) = Inr (len, vo)"
  shows "\<exists>s t v. CHR ''['' # p = s @ t \<and> len = length s \<and> json_val atof D s v \<and> hd s = CHR ''['' \<and> vo = built b v"
proof -
  obtain w where w: "p = w @ SKIP_WHITESPACE p" "list_all is_ws w" using skip_split [of p] by blast
  show ?thesis
  proof (cases "peek (SKIP_WHITESPACE p) = CHR '']''")
    case True
    then obtain t where t: "SKIP_WHITESPACE p = CHR '']'' # t" by (cases "SKIP_WHITESPACE p") auto
    have "length p = length w + length t + 1" using arg_cong [OF w(1) [unfolded t], of length] by simp
    then have "len = length w + 2" "vo = built b (JSON_ARRAY [])"
      using assms(2) by (auto simp: json_parse_array_def Let_def t)
    then show ?thesis using w t json_val_json_elems_json_members.array_empty [OF w(2), of atof D]
      by (intro exI [of _ "CHR ''['' # w @ '']''"] exI [of _ t] exI [of _ "JSON_ARRAY []"]) auto
  next
    case False
    then obtain q vs where q: "array_loop pv (SKIP_WHITESPACE p) [] = Inr (q, vs)" "peek q = CHR '']''"
      "len = length p + 1 - length q + 1" "vo = built b (JSON_ARRAY vs)"
      using assms(2) by (auto simp: json_parse_array_def Let_def split: sum.splits if_splits)
    have "\<not> isl (pv (SKIP_WHITESPACE p))" using array_loop_turn [OF q(1)] by fastforce
    then obtain d where d: "D = Suc d" "pv_sound atof b d pv" using assms(1) by (auto simp: inner_sound_def)
    from array_loop_sound [OF d(2) q(1,2)] obtain s vs' where
      s: "SKIP_WHITESPACE p = s @ q" "json_elems atof d s vs'" "vs = (if b then vs' else [])" by auto
    obtain t where t: "q = CHR '']'' # t" using q(2) by (cases q) auto
    have "json_elems atof d (w @ s) vs'" using json_elems_ws [OF s(2) w(2)] .
    from json_val_json_elems_json_members.array [OF this]
    show ?thesis using w(1) s(1,3) t q(3,4) d(1)
      by (intro exI [of _ "CHR ''['' # (w @ s) @ '']''"] exI [of _ t] exI [of _ "JSON_ARRAY vs'"]) auto
  qed
qed

lemma object_sound:
  assumes "inner_sound atof b D pv" "json_parse_object pv b (CHR ''{'' # p) = Inr (len, vo)"
  shows "\<exists>s t v. CHR ''{'' # p = s @ t \<and> len = length s \<and> json_val atof D s v \<and> hd s = CHR ''{'' \<and> vo = built b v"
proof -
  have sk: "SKIP_WHITESPACE (CHR ''{'' # p) = CHR ''{'' # p" by (simp add: is_ws_def)
  obtain w where w: "p = w @ SKIP_WHITESPACE p" "list_all is_ws w" using skip_split [of p] by blast
  show ?thesis
  proof (cases "peek (SKIP_WHITESPACE p) = CHR ''}''")
    case True
    then obtain t where t: "SKIP_WHITESPACE p = CHR ''}'' # t" by (cases "SKIP_WHITESPACE p") auto
    have "length p = length w + length t + 1" using arg_cong [OF w(1) [unfolded t], of length] by simp
    then have "len = length w + 2" "vo = built b (JSON_OBJECT [])"
      using assms(2) by (auto simp: json_parse_object_def Let_def sk t)
    then show ?thesis using w t json_val_json_elems_json_members.object_empty [OF w(2), of atof D]
      by (intro exI [of _ "CHR ''{'' # w @ ''}''"] exI [of _ t] exI [of _ "JSON_OBJECT []"]) auto
  next
    case False
    then obtain q els where q: "object_loop pv b (SKIP_WHITESPACE p) [] = Inr (q, els)" "peek q = CHR ''}''"
      "len = length p + 1 - length q + 1" "vo = built b (JSON_OBJECT els)"
      using assms(2) by (auto simp: json_parse_object_def Let_def sk split: sum.splits if_splits)
    then obtain d where d: "D = Suc d" "pv_sound atof b d pv"
      using assms(1) object_loop_some [OF q(1)] unfolding inner_sound_def by (metis sum.disc(2))
    from object_loop_sound [OF d(2) q(1,2)] obtain s els' where
      s: "SKIP_WHITESPACE p = s @ q" "json_members atof d s els'"
      "els = (if b then fold (\<lambda>(k, v). jsonobj_insert k v) els' [] else [])" by blast
    obtain t where t: "q = CHR ''}'' # t" using q(2) by (cases q) auto
    have "json_members atof d (w @ s) els'" using json_members_ws [OF s(2) w(2)] .
    from json_val_json_elems_json_members.object [OF this]
    show ?thesis using w(1) s(1,3) t q(3,4) d(1)
      by (intro exI [of _ "CHR ''{'' # (w @ s) @ ''}''"] exI [of _ t]
          exI [of _ "JSON_OBJECT (object_value els')"]) (auto simp: object_value_fold)
  qed
qed

text \<open>The parser of values: the white space, and the branches after it.\<close>

lemma map_sum_InrD: "map_sum id f x = Inr y \<Longrightarrow> \<exists>z. x = Inr z \<and> y = f z"
  by (cases x) auto

lemma value_ws:
  assumes "list_all is_ws w" "SKIP_WHITESPACE r = r"
  shows "json_parse_value atof b k (w @ r) =
    (if 64 < k then Inl (json_error ''JSON depth exceeds 64'' (Some (w @ r)))
     else map_sum id (\<lambda>(len, v). (length w + len, v)) (json_parse_value atof b k r))"
proof -
  have sk: "SKIP_WHITESPACE (w @ r) = r" using assms by (simp add: skip_ws)
  have f: "(\<lambda>(len, v). (length w + len, v)) \<circ> (\<lambda>(len, v). (length r - length r + len, v))
      = (\<lambda>(len, v :: 'a zbx_jsonobj option). (length (w @ r) - length r + len, v))"
    by (rule ext) auto
  show ?thesis
    unfolding json_parse_value.simps [of atof b k "w @ r"] json_parse_value.simps [of atof b k r] Let_def sk assms(2)
    by (cases "64 < k") (simp_all only: if_True if_False sum.map_comp f id_comp simp_thms)
qed

lemma value_cases:
  assumes "json_parse_value atof b k r = Inr (l, vo)" "SKIP_WHITESPACE r = r"
  obtains
    (str) s where "peek r = QUOTE" "json_parse_string b r = Inr (l, s)" "vo = map_option JSON_STRING s"
  | (obj) p where "r = CHR ''{'' # p" "json_parse_object (json_parse_value atof b (Suc k)) b r = Inr (l, vo)"
  | (arr) p where "r = CHR ''['' # p" "json_parse_array (json_parse_value atof b (Suc k)) b r = Inr (l, vo)"
  | (lit) x v where "(x, v) \<in> {(''true'', JSON_TRUE), (''false'', JSON_FALSE), (''null'', JSON_NULL)}"
      "json_parse_literal r x = Inr l" "vo = built b v"
  | (num) d where "json_parse_number atof r = Inr (l, d)" "vo = built b (JSON_NUMBER d)"
proof -
  note E = assms(1) [unfolded json_parse_value.simps [of atof b k r] Let_def assms(2)]
  have id: "map_sum id (\<lambda>(len, v). (length r - length r + len, v)) x = x" for x :: "'a json_result"
    by (cases x) auto
  from E have "\<not> 64 < k" by (auto split: if_splits)
  note E' = E [unfolded if_not_P [OF this] id]
  from E' have "peek r \<noteq> NUL" by (auto split: if_splits)
  note E'' = E' [unfolded if_not_P [OF this]]
  then obtain c p where r: "r = c # p" using \<open>peek r \<noteq> NUL\<close> by (cases r) auto
  consider "c = QUOTE" | "c = CHR ''{''" | "c = CHR ''[''" | "c = CHR ''t''" | "c = CHR ''f''" | "c = CHR ''n''"
    | "c \<noteq> QUOTE" "c \<noteq> CHR ''{''" "c \<noteq> CHR ''[''" "c \<noteq> CHR ''t''" "c \<noteq> CHR ''f''" "c \<noteq> CHR ''n''" by blast
  then show thesis
  proof cases
    case 1
    then show ?thesis using E'' r str by (auto dest!: map_sum_InrD)
  next
    case 2
    then show ?thesis using E'' r obj by simp
  next
    case 3
    then show ?thesis using E'' r arr by simp
  next
    case 4
    then have "map_sum id (\<lambda>len. (len, built b JSON_TRUE)) (json_parse_literal r ''true'') = Inr (l, vo)"
      using E'' unfolding r by simp
    from map_sum_InrD [OF this] show ?thesis by (intro lit [of "''true''" JSON_TRUE]) auto
  next
    case 5
    then have "map_sum id (\<lambda>len. (len, built b JSON_FALSE)) (json_parse_literal r ''false'') = Inr (l, vo)"
      using E'' unfolding r by simp
    from map_sum_InrD [OF this] show ?thesis by (intro lit [of "''false''" JSON_FALSE]) auto
  next
    case 6
    then have "map_sum id (\<lambda>len. (len, built b JSON_NULL)) (json_parse_literal r ''null'') = Inr (l, vo)"
      using E'' unfolding r by simp
    from map_sum_InrD [OF this] show ?thesis by (intro lit [of "''null''" JSON_NULL]) auto
  next
    case 7
    then have E3: "(if isdigit c \<or> c = CHR ''-''
        then map_sum id (\<lambda>(len, number). (len, built b (JSON_NUMBER number))) (json_parse_number atof r)
        else Inl (json_error ''invalid JSON object value starting character'' (Some r))) = Inr (l, vo)"
      using E'' unfolding r by (simp split del: if_split)
    have "isdigit c \<or> c = CHR ''-''" using E3 by (rule contrapos_pp) simp
    from map_sum_InrD [OF E3 [unfolded if_P [OF this]]] show ?thesis by (auto intro: num)
  qed
qed

lemma literal_val:
  "(x, v) \<in> {(''true'', JSON_TRUE), (''false'', JSON_FALSE), (''null'', JSON_NULL)} \<Longrightarrow> json_val atof n x v \<and> NUL \<notin> set x"
  using json_val_json_elems_json_members.true json_val_json_elems_json_members.false
    json_val_json_elems_json_members.null by auto

lemma value_branch_sound:
  assumes "json_parse_value atof b k r = Inr (l, vo)" "SKIP_WHITESPACE r = r"
    "inner_sound atof b D (json_parse_value atof b (Suc k))" "b \<longrightarrow> atof_ok atof"
  shows "\<exists>s t v. r = s @ t \<and> l = length s \<and> json_val atof D s v \<and> (follow t \<longrightarrow> vo = built b v)"
  using assms(1,2)
proof (cases rule: value_cases)
  case (str s)
  from parse_string_inv [OF str(2,1)] obtain s' b' t where s: "r = (QUOTE # s' @ [QUOTE]) @ t" "json_chars s' b'"
    "l = length s' + 2" "s = built b (cstr b')" by auto
  then show ?thesis using str(3) json_val_json_elems_json_members.string [OF s(2), of atof D]
    by (intro exI [of _ "QUOTE # s' @ [QUOTE]"] exI [of _ t] exI [of _ "JSON_STRING (cstr b')"]) auto
next
  case (obj p)
  then show ?thesis using object_sound [OF assms(3), of p l vo] by blast
next
  case (arr p)
  then show ?thesis using array_sound [OF assms(3), of p l vo] by blast
next
  case (lit x v)
  from parse_literal_inv [OF lit(2)] literal_val [OF lit(1)] obtain t where "l = length x" "r = x @ t" by auto
  then show ?thesis using literal_val [OF lit(1)] lit(3) by blast
next
  case (num d)
  from parse_number_inv [OF num(1)] obtain s t where s: "r = s @ t" "json_number s" "l = length s" "d = atof r" by blast
  have "b \<Longrightarrow> follow t \<Longrightarrow> d = atof s" using assms(4) s unfolding atof_ok_def by blast
  then show ?thesis using s num(2) json_val_json_elems_json_members.number [OF s(2), of atof D] by auto
qed

lemma pv_sound_of_inner:
  assumes "b \<longrightarrow> atof_ok atof" "inner_sound atof b D (json_parse_value atof b (Suc k))"
  shows "pv_sound atof b D (json_parse_value atof b k)"
  unfolding pv_sound_def
proof (intro allI impI)
  fix p len vo
  assume pv: "json_parse_value atof b k p = Inr (len, vo)"
  define r where "r = SKIP_WHITESPACE p"
  obtain w where w: "p = w @ r" "list_all is_ws w" using skip_split [of p] unfolding r_def by blast
  have r: "SKIP_WHITESPACE r = r" unfolding r_def SKIP_eq by (rule dropWhile_idem)
  from pv [unfolded w(1) value_ws [OF w(2) r]] obtain l where l: "json_parse_value atof b k r = Inr (l, vo)" "len = length w + l"
    by (auto dest!: map_sum_InrD split: if_splits)
  from value_branch_sound [OF l(1) r assms(2,1)] obtain s t v where
    s: "r = s @ t" "l = length s" "json_val atof D s v" "follow t \<longrightarrow> vo = built b v" by blast
  show "\<exists>w s t v. p = w @ s @ t \<and> list_all is_ws w \<and> len = length w + length s \<and> json_val atof D s v
      \<and> (follow t \<longrightarrow> vo = built b v)"
    using w s l(2) by (intro exI [of _ w] exI [of _ s] exI [of _ t] exI [of _ v]) simp
qed

lemma value_sound:
  assumes at: "b \<longrightarrow> atof_ok atof"
  shows "k \<le> 64 \<Longrightarrow> pv_sound atof b (64 - k) (json_parse_value atof b k)"
proof (induction "64 - k" arbitrary: k)
  case 0
  then have "k = 64" by simp
  then have "inner_sound atof b (64 - k) (json_parse_value atof b (Suc k))"
    by (simp add: inner_sound_def json_parse_value.simps [of _ _ 65])
  from pv_sound_of_inner [OF at this] show ?case by simp
next
  case (Suc m)
  have "pv_sound atof b (64 - Suc k) (json_parse_value atof b (Suc k))" using Suc(2,3) by (intro Suc(1)) simp_all
  moreover have "64 - k = Suc (64 - Suc k)" using Suc(2) by arith
  ultimately have "inner_sound atof b (64 - k) (json_parse_value atof b (Suc k))" unfolding inner_sound_def by blast
  from pv_sound_of_inner [OF at this] show ?case by simp
qed

lemma top_sound:
  assumes "b \<longrightarrow> atof_ok atof"
  shows "inner_sound atof b 65 (json_parse_value atof b 0)"
  using value_sound [where k = 0 and b = b and atof = atof, OF assms]
  unfolding inner_sound_def by (intro disjI1 exI [of _ 64]) simp

section \<open>Whole texts\<close>

text \<open>
  A JSON text: an array or an object with white space around it. \<open>n\<close> is the length without the white space. Since the
  code counts the depth from the elements of the outermost container on, 65 levels of containers that are not empty are
  allowed, and empty ones in the innermost.
\<close>

definition json_text :: "(string \<Rightarrow> 'd) \<Rightarrow> string \<Rightarrow> nat \<Rightarrow> 'd zbx_jsonobj \<Rightarrow> bool" where
  "json_text atof text n v \<longleftrightarrow> (\<exists>w s w'. text = w @ s @ w' \<and> list_all is_ws w \<and> list_all is_ws w' \<and> n = length s
     \<and> json_val atof 65 s v \<and> (hd s = CHR ''{'' \<or> hd s = CHR ''[''))"

text \<open>The part that \<^verbatim>\<open>zbx_json_validate\<close> and \<^verbatim>\<open>zbx_jsonobj_open\<close> have in common.\<close>

definition parse_top :: "(string \<Rightarrow> 'd) \<Rightarrow> bool \<Rightarrow> string \<Rightarrow> 'd json_result" where
  "parse_top atof b p = (let pv = json_parse_value atof b 0 in
     if peek p = CHR ''{'' then json_parse_object pv b p
     else if peek p = CHR ''['' then json_parse_array pv b p
     else Inl (json_error (''invalid object format, expected opening character '' @ [APOSTROPHE] @ ''{''
                   @ [APOSTROPHE] @ '' or '' @ [APOSTROPHE] @ ''['' @ [APOSTROPHE]) (Some p)))"

lemma top_complete:
  assumes "b \<longrightarrow> atof_ok atof" "json_val atof 65 s v" "hd s = CHR ''{'' \<or> hd s = CHR ''[''"
  shows "parse_top atof b (s @ t) = Inr (length s, built b v)"
proof -
  note gc = grammar_complete [where b = b and atof = atof, OF assms(1)]
  from assms(2) show ?thesis
  proof cases
    case (array_empty w)
    then show ?thesis by (simp add: parse_top_def parse_array_empty)
  next
    case (array n s' vs)
    then have "json_elems atof 64 s' vs" by simp
    from parse_array_of_loop [OF this, where pv = "json_parse_value atof b 0" and b = b and t = t] gc(2) [OF this] array
    show ?thesis by (simp add: parse_top_def)
  next
    case (object_empty w)
    then show ?thesis by (simp add: parse_top_def parse_object_empty)
  next
    case (object n s' els)
    then have "json_members atof 64 s' els" by simp
    from parse_object_of_loop [OF this, where pv = "json_parse_value atof b 0" and b = b and t = t] gc(3) [OF this] object
    show ?thesis by (simp add: parse_top_def)
  next
    case number
    then obtain c r where "s = c # r" "isdigit c \<or> c = CHR ''-''" using json_number_head by blast
    then show ?thesis using assms(3) by (auto simp: isdigit_def)
  qed (use assms(3) in auto)
qed

lemma top_inv:
  assumes "b \<longrightarrow> atof_ok atof" "parse_top atof b p = Inr (len, vo)"
  shows "\<exists>s t v. p = s @ t \<and> len = length s \<and> json_val atof 65 s v \<and> (hd s = CHR ''{'' \<or> hd s = CHR ''['') \<and> vo = built b v"
proof -
  note top = top_sound [where b = b and atof = atof, OF assms(1)]
  consider u where "p = CHR ''{'' # u" "json_parse_object (json_parse_value atof b 0) b p = Inr (len, vo)"
    | u where "p = CHR ''['' # u" "json_parse_array (json_parse_value atof b 0) b p = Inr (len, vo)"
    using assms(2) by (cases p) (auto simp: parse_top_def Let_def split: if_splits)
  then show ?thesis
  proof cases
    case (1 u)
    from object_sound [OF top 1(2) [unfolded 1(1)]] show ?thesis unfolding 1(1) by blast
  next
    case (2 u)
    from array_sound [OF top 2(2) [unfolded 2(1)]] show ?thesis unfolding 2(1) by blast
  qed
qed

lemma text_parse:
  assumes "b \<longrightarrow> atof_ok atof" "NUL \<notin> set p"
  shows "(\<exists>v. json_text atof p n v \<and> vo = built b v) \<longleftrightarrow>
    parse_top atof b (SKIP_WHITESPACE p) = Inr (n, vo) \<and> peek (SKIP_WHITESPACE (drop n (SKIP_WHITESPACE p))) = NUL"
proof
  assume "\<exists>v. json_text atof p n v \<and> vo = built b v"
  then obtain w s w' v where p: "p = w @ s @ w'" "list_all is_ws w" "list_all is_ws w'" "n = length s"
    "json_val atof 65 s v" "hd s = CHR ''{'' \<or> hd s = CHR ''[''" "vo = built b v"
    by (auto simp: json_text_def)
  obtain c r where c: "s = c # r" "\<not> is_ws c" using json_val_head [OF p(5)] by blast
  have "SKIP_WHITESPACE p = s @ w'" using p(1,2) c by (simp add: skip_ws)
  moreover have "SKIP_WHITESPACE w' = []" using skip_ws [OF p(3), of "[]"] by simp
  ultimately show "parse_top atof b (SKIP_WHITESPACE p) = Inr (n, vo)
      \<and> peek (SKIP_WHITESPACE (drop n (SKIP_WHITESPACE p))) = NUL"
    using top_complete [OF assms(1) p(5,6), of w'] p(4,7) by simp
next
  assume a: "parse_top atof b (SKIP_WHITESPACE p) = Inr (n, vo)
      \<and> peek (SKIP_WHITESPACE (drop n (SKIP_WHITESPACE p))) = NUL"
  from top_inv [OF assms(1) conjunct1 [OF a]] obtain s t v where
    s: "SKIP_WHITESPACE p = s @ t" "n = length s" "json_val atof 65 s v" "hd s = CHR ''{'' \<or> hd s = CHR ''[''"
    "vo = built b v" by blast
  obtain w where w: "p = w @ s @ t" "list_all is_ws w" using skip_split [of p] s(1) by metis
  obtain w' where w': "t = w' @ SKIP_WHITESPACE t" "list_all is_ws w'" using skip_split [of t] by blast
  have "peek (SKIP_WHITESPACE t) = NUL" using conjunct2 [OF a] s(1,2) by simp
  moreover have "NUL \<notin> set (SKIP_WHITESPACE t)" using assms(2) w(1) arg_cong [OF w'(1), of set] by auto
  ultimately have "SKIP_WHITESPACE t = []" by (cases "SKIP_WHITESPACE t") auto
  then have "t = w'" using w'(1) by simp
  then show "\<exists>v. json_text atof p n v \<and> vo = built b v"
    using w w'(2) s unfolding json_text_def by blast
qed

lemma validate_parse:
  "zbx_json_validate p = Inr n \<longleftrightarrow> (\<exists>vo. parse_top (\<lambda>_. ()) False (SKIP_WHITESPACE p) = Inr (n, vo))
     \<and> peek (SKIP_WHITESPACE (drop n (SKIP_WHITESPACE p))) = NUL"
  unfolding zbx_json_validate_def parse_top_def [symmetric, unfolded Let_def] Let_def
  by (auto split: sum.splits)

lemma open_parse:
  "zbx_jsonobj_open atof p = Inr vo \<longleftrightarrow> (\<exists>n. parse_top atof True (SKIP_WHITESPACE p) = Inr (n, vo)
     \<and> peek (SKIP_WHITESPACE (drop n (SKIP_WHITESPACE p))) = NUL)"
  unfolding zbx_jsonobj_open_def parse_top_def [symmetric, unfolded Let_def] Let_def
  by (auto split: sum.splits)

text \<open>A sample text, with the conversion that keeps a number as it is written.\<close>

definition numeral_text :: "string \<Rightarrow> string" where
  "numeral_text = takeWhile (\<lambda>c. isdigit c \<or> c \<in> set ''+-.eE'')"

lemma number_text_chars: "json_number s \<Longrightarrow> list_all (\<lambda>c. isdigit c \<or> c \<in> set ''+-.eE'') s"
  unfolding json_number_def by (elim exE conjE disjE; auto simp: list_all_iff)

lemma numeral_text_ok: "atof_ok numeral_text"
  unfolding atof_ok_def
proof (intro allI impI)
  fix s t
  assume s: "json_number s" and t: "follow t"
  have s: "\<forall>c\<in>set s. isdigit c \<or> c \<in> set ''+-.eE''" using number_text_chars [OF s] by (simp add: list_all_iff)
  have "takeWhile (\<lambda>c. isdigit c \<or> c \<in> set ''+-.eE'') t = []"
    using t by (cases t) (auto simp: follow_def is_ws_def isdigit_def)
  then show "numeral_text (s @ t) = numeral_text s"
    using s unfolding numeral_text_def by (simp add: takeWhile_append2 takeWhile_eq_all_conv [THEN iffD2])
qed

abbreviation (input) sample :: string where
  "sample \<equiv> ''{ '' @ QUOTE # ''a'' @ QUOTE # '':[0.5, true]} ''"

lemma sample_text: "json_text f sample 18 (JSON_OBJECT [(''a'', JSON_ARRAY [JSON_NUMBER (f ''0.5''), JSON_TRUE])])"
proof -
  note g = json_val_json_elems_json_members.intros
  have "json_number ''0.5''" unfolding json_number_def
    by (intro exI [of _ "[]"] exI [of _ "''0''"] exI [of _ "''.5''"]) (auto simp: isdigit_def)
  from g(11) [OF _ g(2) [OF this] _ g(10) [OF _ g(3)], of "[]" "[]" "'' ''" "[]" f 63]
  have "json_elems f 63 ''0.5, true'' [JSON_NUMBER (f ''0.5''), JSON_TRUE]" by (simp add: is_ws_def)
  from g(7) [OF this] have a: "json_val f 64 ''[0.5, true]'' (JSON_ARRAY [JSON_NUMBER (f ''0.5''), JSON_TRUE])" by simp
  have "json_chars ''a'' ''a''"
    using json_chars.cons [OF json_char.plain json_chars.nil, of "CHR ''a''"] by simp
  from g(12) [OF _ this _ _ a, of "'' ''" "[]" "[]" "[]"]
  have "json_members f 64 ('' '' @ QUOTE # ''a'' @ QUOTE # '':[0.5, true]'')
      [(''a'', JSON_ARRAY [JSON_NUMBER (f ''0.5''), JSON_TRUE])]" by (simp add: is_ws_def cstr_def)
  from g(9) [OF this] show ?thesis unfolding json_text_def
    by (intro exI [of _ "[]"] exI [of _ "''{ '' @ QUOTE # ''a'' @ QUOTE # '':[0.5, true]}''"] exI [of _ "'' ''"])
      (simp add: is_ws_def)
qed

lemma validate_exact: "NUL \<notin> set p \<Longrightarrow> zbx_json_validate p = Inr n \<longleftrightarrow> (\<exists>v. json_text (\<lambda>_. ()) p n v)"
  using text_parse [of False "\<lambda>_. ()" p n] unfolding validate_parse by auto

lemma open_exact:
  "atof_ok atof \<Longrightarrow> NUL \<notin> set p \<Longrightarrow> zbx_jsonobj_open atof p = Inr vo \<longleftrightarrow> (\<exists>n v. json_text atof p n v \<and> vo = Some v)"
  using text_parse [of True atof p _ vo] unfolding open_parse by simp

text \<open>
  C7: a text without an embedded NUL passes \<^verbatim>\<open>zbx_json_validate\<close> exactly when it is a JSON text of the grammar, an array
  or an object nested no deeper than allowed, and the number returned is its length without the white space around it.
\<close>

theorem json_validate_exact:
  assumes "NUL \<notin> set p"
  shows "zbx_json_validate p = Inr n \<longleftrightarrow> (\<exists>v. json_text (\<lambda>_. ()) p n v)"
  using assms by (rule validate_exact)

theorem json_validate_witness: "NUL \<notin> set sample \<and> zbx_json_validate sample = Inr 18"
  using json_validate_exact [of sample 18] sample_text [of "\<lambda>_. ()"] by auto

text \<open>
  C8: for a conversion that reads a number up to the character that ends it, a text opens as a tree exactly when it is
  a JSON text of the grammar, and the tree is the value the text denotes: every array in order, every object with the
  last value of each name (\<open>object_value\<close>), every escape sequence with the bytes of the grammar (\<open>escaped\<close>, \<open>utf8\<close>).
\<close>

theorem jsonobj_open_exact:
  assumes "atof_ok atof" "NUL \<notin> set p"
  shows "zbx_jsonobj_open atof p = Inr vo \<longleftrightarrow> (\<exists>n v. json_text atof p n v \<and> vo = Some v)"
  using assms by (rule open_exact)

theorem jsonobj_open_witness:
  "atof_ok numeral_text \<and> NUL \<notin> set sample
   \<and> zbx_jsonobj_open numeral_text sample
     = Inr (Some (JSON_OBJECT [(''a'', JSON_ARRAY [JSON_NUMBER ''0.5'', JSON_TRUE])]))"
proof -
  have "numeral_text ''0.5'' = ''0.5''" by (simp add: numeral_text_def isdigit_def)
  then show ?thesis
    using jsonobj_open_exact [OF numeral_text_ok, of sample] sample_text [of numeral_text] numeral_text_ok by auto
qed

end
