(* ===== verification/ZbxJsonWriter.thy ===== *)
theory ZbxJsonWriter
  imports ZbxJsonParse "HOL-Library.Monad_Syntax"
begin

text \<open>
  The writer of JSON texts, \<^verbatim>\<open>src/libs/zbxjson/json.c\<close>, down to the single bytes it moves and writes.

  \<^item> The memory the buffer points to is a function from positions to bytes, with arbitrary bytes at first; \<open>place\<close> says
    whether the buffer is NULL, the array in the structure or allocated.
  \<^item> Every write and move is checked against \<open>buffer_allocated\<close>; \<open>None\<close> is an access outside of the buffer or of a
    string, which in C is undefined. Sizes are natural numbers; \<^verbatim>\<open>zbx_malloc\<close> ends the process instead of failing.
  \<^item> A string argument may be NULL, \<open>None\<close> here.
\<close>

section \<open>The structure and its buffer\<close>

datatype zbx_json_status_t = ZBX_JSON_EMPTY | ZBX_JSON_COMMA

datatype zbx_json_type_t =
    ZBX_JSON_TYPE_UNKNOWN | ZBX_JSON_TYPE_STRING | ZBX_JSON_TYPE_INT | ZBX_JSON_TYPE_ARRAY
  | ZBX_JSON_TYPE_OBJECT | ZBX_JSON_TYPE_NULL | ZBX_JSON_TYPE_TRUE | ZBX_JSON_TYPE_FALSE | ZBX_JSON_TYPE_NUMBER

datatype buffer_place = NULL_BUFFER | BUF_STAT | BUF_HEAP

record zbx_json =
  mem :: "nat \<Rightarrow> char"
  place :: buffer_place
  buffer_allocated :: nat
  buffer_offset :: nat
  buffer_size :: nat
  status :: zbx_json_status_t
  level :: int

abbreviation (input) ZBX_JSON_STAT_BUF_LEN :: nat where "ZBX_JSON_STAT_BUF_LEN \<equiv> 4096"

function json_grow :: "nat \<Rightarrow> nat \<Rightarrow> nat" where
  "json_grow need allocated =
     (if need > allocated then json_grow need (if allocated = 0 then 1024 else allocated * 2) else allocated)"
  by pat_completeness auto
termination json_grow
  by (relation "measure (\<lambda>(need, allocated). need - allocated)") auto

declare json_grow.simps [simp del]

definition zbx_json_realloc :: "zbx_json \<Rightarrow> nat \<Rightarrow> zbx_json" where
  "zbx_json_realloc j need =
     (if place j = NULL_BUFFER then
        (if need > ZBX_JSON_STAT_BUF_LEN then j\<lparr>buffer_allocated := need, place := BUF_HEAP\<rparr>
         else j\<lparr>buffer_allocated := ZBX_JSON_STAT_BUF_LEN, place := BUF_STAT\<rparr>)
      else if need > buffer_allocated j
      then j\<lparr>buffer_allocated := json_grow need (buffer_allocated j), place := BUF_HEAP\<rparr>
      else j)"

definition poke :: "zbx_json \<Rightarrow> nat \<Rightarrow> char \<Rightarrow> zbx_json option" where
  "poke j p c = (if p < buffer_allocated j then Some (j\<lparr>mem := (mem j)(p := c)\<rparr>) else None)"

definition mem_move :: "zbx_json \<Rightarrow> nat \<Rightarrow> nat \<Rightarrow> nat \<Rightarrow> zbx_json option" where
  "mem_move j dst src n =
     (if dst + n \<le> buffer_allocated j \<and> src + n \<le> buffer_allocated j
      then Some (j\<lparr>mem := (\<lambda>i. if dst \<le> i \<and> i < dst + n then mem j (src + (i - dst)) else mem j i)\<rparr>)
      else None)"

text \<open>Bytes written one by one through a pointer that moves on.\<close>

fun put_bytes :: "zbx_json \<Rightarrow> nat \<Rightarrow> string \<Rightarrow> (zbx_json \<times> nat) option" where
  "put_bytes j p [] = Some (j, p)"
| "put_bytes j p (c # cs) = do { j \<leftarrow> poke j p c; put_bytes j (p + 1) cs }"

section \<open>Sizes and escaping\<close>

definition short_escape :: "char \<Rightarrow> char option" where
  "short_escape c =
     (if c = QUOTE then Some QUOTE
      else if c = BACKSLASH then Some BACKSLASH
      else if c = CHR 0x08 then Some (CHR ''b'')
      else if c = CHR 0x0C then Some (CHR ''f'')
      else if c = CHR 0x0A then Some (CHR ''n'')
      else if c = CHR 0x0D then Some (CHR ''r'')
      else if c = CHR 0x09 then Some (CHR ''t'')
      else None)"

definition escape_size :: "char \<Rightarrow> nat" where
  "escape_size c = (if short_escape c \<noteq> None then 2 else if (0x1f :: nat) \<ge> of_char c then 6 else 1)"

definition zbx_num2hex :: "nat \<Rightarrow> char" where
  "zbx_num2hex c = (if c \<ge> 10 then char_of (c + 0x57) else char_of (c + 0x30))"

definition escape_bytes :: "char \<Rightarrow> string" where
  "escape_bytes c =
     (case short_escape c of
        Some e \<Rightarrow> [BACKSLASH, e]
      | None \<Rightarrow>
          if (0x1f :: nat) \<ge> of_char c
          then [BACKSLASH, CHR ''u'', CHR ''0'', CHR ''0'', zbx_num2hex (of_char c div 16 mod 16), zbx_num2hex (of_char c mod 16)]
          else [c])"

text \<open>
  The loop of \<^verbatim>\<open>__zbx_json_stringsize_limit\<close>: the rest of the string, the position in it, the length so far and, once
  the limit was passed, \<open>str_cutoff\<close> and \<open>len_cutoff\<close>.
\<close>

fun stringsize_loop :: "string \<Rightarrow> nat \<Rightarrow> nat \<Rightarrow> nat \<Rightarrow> (nat \<times> nat) option \<Rightarrow> nat \<times> (nat \<times> nat) option" where
  "stringsize_loop [] max_size sptr len found = (len, found)"
| "stringsize_loop (c # s) max_size sptr len found =
     (if c = NUL then (len, found)
      else
        let cur_len = len; len = len + escape_size c
        in stringsize_loop s max_size (sptr + 1) len
             (if found = None \<and> max_size \<noteq> 0 \<and> len > max_size then Some (sptr + 1, cur_len) else found))"

text \<open>The way back to the start of a UTF-8 sequence; \<open>None\<close> is a read in front of the string.\<close>

fun cut_back :: "string \<Rightarrow> nat \<Rightarrow> nat \<Rightarrow> (nat \<times> nat) option" where
  "cut_back s str_cutoff 0 = Some (str_cutoff, 0)"
| "cut_back s 0 (Suc len_cutoff) = None"
| "cut_back s (Suc n) (Suc len_cutoff) =
     (if (of_char (s ! n) :: nat) div 64 = 2 then cut_back s n len_cutoff else Some (Suc n, Suc len_cutoff))"

text \<open>
  The size, the full length and the cutoff, which is \<open>None\<close> where the code leaves the variable as it is. With a NULL
  string the code's difference of pointers is of no use; the positions are those in the word \<^verbatim>\<open>null\<close>.
\<close>

definition zbx_json_stringsize_limit ::
  "string option \<Rightarrow> zbx_json_type_t \<Rightarrow> nat \<Rightarrow> (nat \<times> nat \<times> nat option) option" where
  "zbx_json_stringsize_limit string type max_size =
     (let s = (case string of Some s \<Rightarrow> s | None \<Rightarrow> ''null''); (full_len, found) = stringsize_loop s max_size 0 0 None;
          quotes = (if string \<noteq> None \<and> type = ZBX_JSON_TYPE_STRING then 2 else 0)
      in case found of
           None \<Rightarrow> Some (full_len + quotes, full_len, None)
         | Some (str_cutoff, len_cutoff) \<Rightarrow> do {
             (str_cutoff, len_cutoff) \<leftarrow> cut_back s str_cutoff (len_cutoff + quotes);
             Some (len_cutoff, full_len, Some (if str_cutoff = 0 then ZBX_SIZE_T_MAX else str_cutoff - 1))
           })"

definition zbx_json_stringsize :: "string option \<Rightarrow> zbx_json_type_t \<Rightarrow> nat option" where
  "zbx_json_stringsize string type = map_option fst (zbx_json_stringsize_limit string type 0)"

fun insstring_loop :: "zbx_json \<Rightarrow> nat \<Rightarrow> string \<Rightarrow> nat \<Rightarrow> nat \<Rightarrow> (zbx_json \<times> nat) option" where
  "insstring_loop j p [] sptr str_len = Some (j, p)"
| "insstring_loop j p (c # s) sptr str_len =
     (if (str_len = 0 \<or> sptr < str_len) \<and> c \<noteq> NUL then do {
        (j, p) \<leftarrow> put_bytes j p (escape_bytes c);
        insstring_loop j p s (sptr + 1) str_len
      }
      else Some (j, p))"

definition zbx_json_insstring_limit ::
  "zbx_json \<Rightarrow> nat \<Rightarrow> string option \<Rightarrow> zbx_json_type_t \<Rightarrow> nat \<Rightarrow> (zbx_json \<times> nat) option" where
  "zbx_json_insstring_limit j p string type str_len = do {
     let quoted = (string \<noteq> None \<and> type = ZBX_JSON_TYPE_STRING);
     (j, p) \<leftarrow> put_bytes j p (if quoted then [QUOTE] else []);
     (j, p) \<leftarrow> insstring_loop j p (case string of Some s \<Rightarrow> s | None \<Rightarrow> ''null'') 0 str_len;
     put_bytes j p (if quoted then [QUOTE] else [])
   }"

definition zbx_json_insstring :: "zbx_json \<Rightarrow> nat \<Rightarrow> string option \<Rightarrow> zbx_json_type_t \<Rightarrow> (zbx_json \<times> nat) option" where
  "zbx_json_insstring j p string type = zbx_json_insstring_limit j p string type 0"

text \<open>
  \<^verbatim>\<open>zbx_json_escape\<close> escapes into a new buffer of just the size needed, and leaves a string that needs no byte alone.
\<close>

definition zbx_json_escape :: "(nat \<Rightarrow> char) \<Rightarrow> string \<Rightarrow> string option" where
  "zbx_json_escape fresh s = do {
     size \<leftarrow> zbx_json_stringsize (Some s) ZBX_JSON_TYPE_UNKNOWN;
     if size = 0 then Some s
     else do {
       let buffer = \<lparr>mem = fresh, place = BUF_HEAP, buffer_allocated = size + 1, buffer_offset = 0, buffer_size = size,
                     status = ZBX_JSON_EMPTY, level = 0\<rparr>;
       buffer \<leftarrow> poke buffer size NUL;
       (buffer, p) \<leftarrow> zbx_json_insstring buffer 0 (Some s) ZBX_JSON_TYPE_UNKNOWN;
       Some (cstr (map (mem buffer) [0..<buffer_allocated buffer]))
     }
   }"

section \<open>Operations\<close>

text \<open>What the three ways to add have in common: the comma and the name, and the gap made for what is added.\<close>

definition lead_size :: "zbx_json \<Rightarrow> string option \<Rightarrow> nat option" where
  "lead_size j name = do {
     n \<leftarrow> (case name of
             None \<Rightarrow> Some 0
           | Some _ \<Rightarrow> map_option (\<lambda>n. n + 1) (zbx_json_stringsize name ZBX_JSON_TYPE_STRING));
     Some ((if status j = ZBX_JSON_COMMA then 1 else 0) + n)
   }"

definition make_gap :: "zbx_json \<Rightarrow> nat \<Rightarrow> zbx_json option" where
  "make_gap j len =
     (let j = zbx_json_realloc j (buffer_size j + len + 1)
      in mem_move j (buffer_offset j + len) (buffer_offset j) (buffer_size j - buffer_offset j + 1))"

definition put_lead :: "zbx_json \<Rightarrow> nat \<Rightarrow> string option \<Rightarrow> (zbx_json \<times> nat) option" where
  "put_lead j p name = do {
     (j, p) \<leftarrow> put_bytes j p (if status j = ZBX_JSON_COMMA then '','' else []);
     case name of
       None \<Rightarrow> Some (j, p)
     | Some _ \<Rightarrow> do {
         (j, p) \<leftarrow> zbx_json_insstring j p name ZBX_JSON_TYPE_STRING;
         put_bytes j p '':''
       }
   }"

definition json_addobject :: "zbx_json \<Rightarrow> string option \<Rightarrow> bool \<Rightarrow> zbx_json option" where
  "json_addobject j name object = do {
     n \<leftarrow> lead_size j name;
     let len = 2 + n;
     j \<leftarrow> make_gap j len;
     (j, p) \<leftarrow> put_lead j (buffer_offset j) name;
     (j, p) \<leftarrow> put_bytes j p (if object then ''{'' else ''['');
     j \<leftarrow> poke j p (if object then CHR ''}'' else CHR '']'');
     Some (j\<lparr>buffer_offset := p, buffer_size := buffer_size j + len, level := level j + 1, status := ZBX_JSON_EMPTY\<rparr>)
   }"

definition zbx_json_addobject :: "zbx_json \<Rightarrow> string option \<Rightarrow> zbx_json option" where
  "zbx_json_addobject j name = json_addobject j name True"

definition zbx_json_addarray :: "zbx_json \<Rightarrow> string option \<Rightarrow> zbx_json option" where
  "zbx_json_addarray j name = json_addobject j name False"

definition zbx_json_addstring_limit ::
  "zbx_json \<Rightarrow> string option \<Rightarrow> string option \<Rightarrow> zbx_json_type_t \<Rightarrow> nat \<Rightarrow> (zbx_json \<times> nat) option" where
  "zbx_json_addstring_limit j name string type max_size = do {
     n \<leftarrow> lead_size j name;
     (size, orig_len, cutoff) \<leftarrow> zbx_json_stringsize_limit string type max_size;
     let len = n + size;
     j \<leftarrow> make_gap j len;
     (j, p) \<leftarrow> put_lead j (buffer_offset j) name;
     (j, p) \<leftarrow> zbx_json_insstring_limit j p string type (case cutoff of None \<Rightarrow> 0 | Some str_len \<Rightarrow> str_len);
     Some (j\<lparr>buffer_offset := p, buffer_size := buffer_size j + len, status := ZBX_JSON_COMMA\<rparr>, orig_len)
   }"

definition zbx_json_addstring ::
  "zbx_json \<Rightarrow> string option \<Rightarrow> string option \<Rightarrow> zbx_json_type_t \<Rightarrow> zbx_json option" where
  "zbx_json_addstring j name string type = map_option fst (zbx_json_addstring_limit j name string type 0)"

definition zbx_json_addraw :: "zbx_json \<Rightarrow> string option \<Rightarrow> string \<Rightarrow> zbx_json option" where
  "zbx_json_addraw j name data = do {
     let data = cstr data;
     n \<leftarrow> lead_size j name;
     let len = n + length data;
     j \<leftarrow> make_gap j len;
     (j, p) \<leftarrow> put_lead j (buffer_offset j) name;
     (j, p) \<leftarrow> put_bytes j p data;
     Some (j\<lparr>buffer_offset := p, buffer_size := buffer_size j + len, status := ZBX_JSON_COMMA\<rparr>)
   }"

definition zbx_json_adduint64 :: "zbx_json \<Rightarrow> string option \<Rightarrow> 64 word \<Rightarrow> zbx_json option" where
  "zbx_json_adduint64 j name value = zbx_json_addstring j name (Some (dec_string (unat value))) ZBX_JSON_TYPE_INT"

text \<open>What \<^verbatim>\<open>printf\<close> prints of a signed value.\<close>

definition int64_text :: "64 word \<Rightarrow> string" where
  "int64_text n = (if sint n < 0 then CHR ''-'' # dec_string (nat (- sint n)) else dec_string (nat (sint n)))"

definition zbx_json_addint64 :: "zbx_json \<Rightarrow> string option \<Rightarrow> 64 word \<Rightarrow> zbx_json option" where
  "zbx_json_addint64 j name value =
     zbx_json_addstring j name (Some (int64_text value)) ZBX_JSON_TYPE_INT"

text \<open>The top level cannot be closed: \<open>False\<close> is FAIL.\<close>

definition zbx_json_close :: "zbx_json \<Rightarrow> zbx_json \<times> bool" where
  "zbx_json_close j =
     (if level j = 1 then (j, False)
      else (j\<lparr>level := level j - 1, buffer_offset := buffer_offset j + 1, status := ZBX_JSON_COMMA\<rparr>, True))"

definition json_setup :: "(nat \<Rightarrow> char) \<Rightarrow> nat \<Rightarrow> zbx_json option" where
  "json_setup fresh allocate =
     poke (zbx_json_realloc
        \<lparr>mem = fresh, place = NULL_BUFFER, buffer_allocated = 0, buffer_offset = 0, buffer_size = 0,
         status = ZBX_JSON_EMPTY, level = 0\<rparr> allocate) 0 NUL"

definition zbx_json_init :: "(nat \<Rightarrow> char) \<Rightarrow> nat \<Rightarrow> zbx_json option" where
  "zbx_json_init fresh allocate = do { j \<leftarrow> json_setup fresh allocate; zbx_json_addobject j None }"

definition zbx_json_initarray :: "(nat \<Rightarrow> char) \<Rightarrow> nat \<Rightarrow> zbx_json option" where
  "zbx_json_initarray fresh allocate = do { j \<leftarrow> json_setup fresh allocate; zbx_json_addarray j None }"

definition zbx_json_setempty :: "zbx_json \<Rightarrow> zbx_json option" where
  "zbx_json_setempty j = poke (j\<lparr>buffer_offset := 0, buffer_size := 0, status := ZBX_JSON_EMPTY, level := 0\<rparr>) 0 NUL"

definition zbx_json_clean :: "zbx_json \<Rightarrow> zbx_json option" where
  "zbx_json_clean j = do { j \<leftarrow> zbx_json_setempty j; zbx_json_addobject j None }"

section \<open>What is written\<close>

definition escape_string :: "string \<Rightarrow> string" where
  "escape_string s = concat (map escape_bytes (cstr s))"

definition quoted :: "string \<Rightarrow> string" where
  "quoted s = QUOTE # escape_string s @ [QUOTE]"

definition lead_text :: "zbx_json_status_t \<Rightarrow> string option \<Rightarrow> string" where
  "lead_text st name = (if st = ZBX_JSON_COMMA then '','' else []) @ (case name of None \<Rightarrow> [] | Some s \<Rightarrow> quoted s @ '':'')"

definition scalar_text :: "string option \<Rightarrow> zbx_json_type_t \<Rightarrow> string" where
  "scalar_text string type = (case string of
       None \<Rightarrow> ''null''
     | Some s \<Rightarrow> if type = ZBX_JSON_TYPE_STRING then quoted s else escape_string s)"

lemma put_bytes_append: "put_bytes j p (a @ b) = do { (j, p) \<leftarrow> put_bytes j p a; put_bytes j p b }"
  by (induction a arbitrary: j p) (auto simp: Option.bind_eq_Some_conv split: Option.bind_split)

lemma escape_string_Cons:
  "escape_string (c # s) = (if c = NUL then [] else escape_bytes c @ escape_string s)" "escape_string [] = []"
  by (simp_all add: escape_string_def cstr_def)

lemma insstring_loop_put:
  "insstring_loop j p s n l = put_bytes j p (escape_string (if l = 0 then s else take (l - n) s))"
proof (induction s arbitrary: j p n)
  case (Cons c s)
  show ?case
  proof (cases "(l = 0 \<or> n < l) \<and> c \<noteq> NUL")
    case True
    then have "l \<noteq> 0 \<Longrightarrow> l - n = Suc (l - Suc n)" by arith
    then have "l \<noteq> 0 \<Longrightarrow> take (l - n) (c # s) = c # take (l - Suc n) s" by simp
    then show ?thesis using True Cons
      by (auto simp: escape_string_Cons put_bytes_append intro!: Option.bind_cong)
  next
    case False
    then have "escape_string (if l = 0 then c # s else take (l - n) (c # s)) = []"
      by (auto simp: escape_string_Cons take_Cons' simp del: take_Suc_Cons)
    then show ?thesis using False by auto
  qed
qed (simp add: escape_string_Cons)

lemma escape_size_length: "escape_size c = length (escape_bytes c)"
  by (auto simp: escape_size_def escape_bytes_def split: option.splits)

lemma stringsize_loop_len: "fst (stringsize_loop s m k len f) = len + length (escape_string s)"
  by (induction s m k len f rule: stringsize_loop.induct)
    (auto simp: escape_string_Cons Let_def escape_size_length)

lemma stringsize_loop_unlimited: "snd (stringsize_loop s 0 k len None) = None"
  by (induction s arbitrary: k len) (auto simp: Let_def)

lemma stringsize_unlimited:
  "zbx_json_stringsize_limit string type 0 = Some (length (scalar_text string type), length (escape_string (case string of Some s \<Rightarrow> s | None \<Rightarrow> ''null'')), None)"
proof -
  have "stringsize_loop s 0 0 0 None = (length (escape_string s), None)" for s
    using stringsize_loop_len [of s 0 0 0 None] stringsize_loop_unlimited [of s 0 0] by (simp add: prod_eq_iff)
  moreover have "escape_string ''null'' = ''null''"
    by (simp add: escape_string_def cstr_def escape_bytes_def short_escape_def)
  ultimately show ?thesis
    by (cases string) (simp_all add: zbx_json_stringsize_limit_def scalar_text_def quoted_def)
qed

lemma insstring_put: "zbx_json_insstring_limit j p string type 0 = put_bytes j p (scalar_text string type)"
proof -
  have n: "escape_string ''null'' = ''null''"
    by (simp add: escape_string_def cstr_def escape_bytes_def short_escape_def)
  have q: "put_bytes j p (quoted s) = do { (j, p) \<leftarrow> put_bytes j p [QUOTE]; (j, p) \<leftarrow> put_bytes j p (escape_string s);
      put_bytes j p [QUOTE] }" for s
    using put_bytes_append [of j p "[QUOTE]" "escape_string s @ [QUOTE]"]
    by (simp add: quoted_def put_bytes_append case_prod_beta del: put_bytes.simps)
  show ?thesis
    by (cases string)
      (simp_all add: zbx_json_insstring_limit_def insstring_loop_put scalar_text_def n q case_prod_beta del: put_bytes.simps(2))
qed

section \<open>The buffer as the text before and after the cursor\<close>

text \<open>The bytes from a position on.\<close>

definition cells :: "(nat \<Rightarrow> char) \<Rightarrow> nat \<Rightarrow> string \<Rightarrow> bool" where
  "cells m a s \<longleftrightarrow> (\<forall>i < length s. m (a + i) = s ! i)"

lemma cells_Nil [simp]: "cells m a []"
  by (simp add: cells_def)

lemma cells_append: "cells m a (s @ t) \<longleftrightarrow> cells m a s \<and> cells m (a + length s) t"
proof
  assume c: "cells m a (s @ t)"
  have "m (a + i) = s ! i" if "i < length s" for i using c that by (auto simp: cells_def nth_append)
  moreover have "m (a + length s + i) = t ! i" if "i < length t" for i
    using c [unfolded cells_def, rule_format, of "length s + i"] that by (simp add: nth_append add.assoc)
  ultimately show "cells m a s \<and> cells m (a + length s) t" by (simp add: cells_def)
next
  assume c: "cells m a s \<and> cells m (a + length s) t"
  have "m (a + i) = (s @ t) ! i" if "i < length s + length t" for i
  proof (cases "i < length s")
    case False
    then have "i - length s < length t" using that by simp
    then have "m (a + length s + (i - length s)) = t ! (i - length s)" using c unfolding cells_def by blast
    moreover have "a + length s + (i - length s) = a + i" using False by simp
    ultimately show ?thesis using False by (simp only: nth_append if_False)
  qed (use c in \<open>auto simp: cells_def nth_append\<close>)
  then show "cells m a (s @ t)" by (simp add: cells_def)
qed

lemma cells_cong: "cells m a s \<Longrightarrow> (\<And>i. i < length s \<Longrightarrow> m' (a + i) = m (a + i)) \<Longrightarrow> cells m' a s"
  by (simp add: cells_def)

text \<open>
  The buffer is allocated, holds the text before the cursor and the text after it with the terminator, and the cursor
  and the size are at the ends of these.
\<close>

definition json_holds :: "zbx_json \<Rightarrow> string \<Rightarrow> string \<Rightarrow> bool" where
  "json_holds j pre post \<longleftrightarrow> place j \<noteq> NULL_BUFFER \<and> buffer_offset j = length pre
     \<and> buffer_size j = length pre + length post \<and> buffer_size j < buffer_allocated j
     \<and> cells (mem j) 0 (pre @ post @ [NUL])"

text \<open>What a C program reads as the text of the buffer.\<close>

definition json_buffer :: "zbx_json \<Rightarrow> string" where
  "json_buffer j = map (mem j) [0..<buffer_size j]"

lemma json_holds_buffer:
  assumes "json_holds j pre post"
  shows "json_buffer j = pre @ post" "mem j (buffer_size j) = NUL" "buffer_size j < buffer_allocated j"
proof -
  have c: "cells (mem j) 0 (pre @ post)" "cells (mem j) (length (pre @ post)) [NUL]" "buffer_size j = length (pre @ post)"
    using assms cells_append [of "mem j" 0 "pre @ post" "[NUL]"] by (simp_all add: json_holds_def)
  show "json_buffer j = pre @ post"
    unfolding json_buffer_def c(3) using c(1) by (intro nth_equalityI) (auto simp: cells_def)
  show "mem j (buffer_size j) = NUL" using c(2,3) by (simp add: cells_def)
  show "buffer_size j < buffer_allocated j" using assms by (simp add: json_holds_def)
qed

lemma json_grow_ge: "need \<le> json_grow need allocated \<and> allocated \<le> json_grow need allocated"
proof (induction need allocated rule: json_grow.induct)
  case (1 need allocated)
  show ?case using 1 by (subst json_grow.simps, subst (2) json_grow.simps) (auto split: if_splits)
qed

lemma realloc_fits:
  "need \<le> buffer_allocated (zbx_json_realloc j need) \<and> (place j \<noteq> NULL_BUFFER \<longrightarrow> buffer_allocated j \<le> buffer_allocated (zbx_json_realloc j need))
   \<and> place (zbx_json_realloc j need) \<noteq> NULL_BUFFER"
  using json_grow_ge [of need "buffer_allocated j"] by (auto simp: zbx_json_realloc_def)

lemma realloc_keeps [simp]:
  "mem (zbx_json_realloc j need) = mem j" "buffer_offset (zbx_json_realloc j need) = buffer_offset j"
  "buffer_size (zbx_json_realloc j need) = buffer_size j" "status (zbx_json_realloc j need) = status j"
  "level (zbx_json_realloc j need) = level j"
  by (simp_all add: zbx_json_realloc_def)

lemma put_bytes_ok:
  "p + length bs \<le> buffer_allocated j \<Longrightarrow>
   \<exists>m. put_bytes j p bs = Some (j\<lparr>mem := m\<rparr>, p + length bs) \<and> cells m p bs
     \<and> (\<forall>i. i < p \<or> p + length bs \<le> i \<longrightarrow> m i = mem j i)"
proof (induction bs arbitrary: j p)
  case (Cons c bs)
  define j1 where "j1 = j\<lparr>mem := (mem j)(p := c)\<rparr>"
  have "p + 1 + length bs \<le> buffer_allocated j1" using Cons(2) by (simp add: j1_def)
  from Cons(1) [OF this] obtain m where m: "put_bytes j1 (p + 1) bs = Some (j1\<lparr>mem := m\<rparr>, p + 1 + length bs)"
    "cells m (p + 1) bs" "\<forall>i. i < p + 1 \<or> p + 1 + length bs \<le> i \<longrightarrow> m i = mem j1 i" by blast
  have "m p = c" using m(3) by (simp add: j1_def)
  then have "cells m p (c # bs)" using m(2) cells_append [of m p "[c]" bs] by (simp add: cells_def)
  moreover have "put_bytes j p (c # bs) = Some (j\<lparr>mem := m\<rparr>, p + length (c # bs))"
    using m(1) Cons(2) by (simp add: poke_def j1_def)
  moreover have "\<forall>i. i < p \<or> p + length (c # bs) \<le> i \<longrightarrow> m i = mem j i" using m(3) by (auto simp: j1_def)
  ultimately show ?case by blast
qed (auto intro!: exI [of _ "mem _"])

text \<open>Adding anything: a gap of the right size is made at the cursor and filled.\<close>

lemma gap_put:
  assumes "json_holds j pre post"
  shows "\<exists>j1 j2. make_gap j (length bs) = Some j1 \<and> put_bytes j1 (length pre) bs = Some (j2, length pre + length bs)
    \<and> status j1 = status j \<and> buffer_offset j1 = length pre
    \<and> status j2 = status j \<and> level j2 = level j \<and> buffer_size j2 = length pre + length post
    \<and> (\<forall>a b st l. bs = a @ b \<longrightarrow>
         json_holds (j2\<lparr>buffer_offset := length pre + length a, buffer_size := length pre + length post + length bs,
            level := l, status := st\<rparr>) (pre @ a) (b @ post))"
proof -
  define n where "n = length post + 1"
  define j0 where "j0 = zbx_json_realloc j (buffer_size j + length bs + 1)"
  have h: "place j \<noteq> NULL_BUFFER" "buffer_offset j = length pre" "buffer_size j = length pre + length post"
    "cells (mem j) 0 (pre @ post @ [NUL])" using assms by (simp_all add: json_holds_def)
  have a: "length pre + length post + length bs + 1 \<le> buffer_allocated j0" "place j0 \<noteq> NULL_BUFFER"
    using realloc_fits [of "buffer_size j + length bs + 1" j] h by (simp_all add: j0_def)
  have j0: "buffer_offset j0 = length pre" "buffer_size j0 = length pre + length post" using h by (simp_all add: j0_def)
  define m1 where "m1 = (\<lambda>i. if length pre + length bs \<le> i \<and> i < length pre + length bs + n
      then mem j0 (length pre + (i - (length pre + length bs))) else mem j0 i)"
  have g: "make_gap j (length bs) = Some (j0\<lparr>mem := m1\<rparr>)"
    using a h j0 unfolding make_gap_def Let_def j0_def [symmetric] by (simp add: mem_move_def m1_def n_def)
  have m0: "mem j0 = mem j" by (simp add: j0_def)
  have "cells (mem j) (length pre) (post @ [NUL])" "cells (mem j) 0 pre"
    using h(4) cells_append [of "mem j" 0 pre "post @ [NUL]"] by simp_all
  then have c1: "cells m1 (length pre + length bs) (post @ [NUL])" "cells m1 0 pre"
    by (auto simp: cells_def m1_def m0 n_def)
  obtain m where m: "put_bytes (j0\<lparr>mem := m1\<rparr>) (length pre) bs = Some (j0\<lparr>mem := m\<rparr>, length pre + length bs)"
    "cells m (length pre) bs" "\<forall>i. i < length pre \<or> length pre + length bs \<le> i \<longrightarrow> m i = m1 i"
    using put_bytes_ok [of "length pre" bs "j0\<lparr>mem := m1\<rparr>"] a by auto
  have "cells m 0 pre" using c1(2) m(3) by (auto simp: cells_def)
  moreover have "cells m (length pre + length bs) (post @ [NUL])" using c1(1) m(3) by (auto simp: cells_def)
  ultimately have "cells m 0 (pre @ bs @ post @ [NUL])" using m(2) by (simp add: cells_append)
  then have "json_holds (j0\<lparr>mem := m, buffer_offset := length pre + length a, buffer_size := length pre + length post + length bs,
            level := l, status := st\<rparr>) (pre @ a) (b @ post)" if "bs = a @ b" for a b st l
    using a that by (simp add: json_holds_def)
  then show ?thesis using g m(1) h by (auto simp: j0_def)
qed

lemma lead_size_ok: "lead_size j name = Some (length (lead_text (status j) name))"
  by (cases name) (simp_all add: lead_size_def lead_text_def zbx_json_stringsize_def stringsize_unlimited scalar_text_def)

lemma put_lead_ok: "put_lead j p name = put_bytes j p (lead_text (status j) name)"
proof (cases name)
  case None
  then show ?thesis
    by (simp add: put_lead_def lead_text_def case_prod_beta del: put_bytes.simps(2))
next
  case (Some s)
  then show ?thesis
    by (simp add: put_lead_def lead_text_def put_bytes_append zbx_json_insstring_def insstring_put scalar_text_def
        case_prod_beta del: put_bytes.simps(2))
qed

lemma put_bytes_append_SomeD:
  assumes "put_bytes j p (a @ b) = Some (j2, p + length (a @ b))" "p + length a \<le> buffer_allocated j"
  obtains j1 where "put_bytes j p a = Some (j1, p + length a)" "put_bytes j1 (p + length a) b = Some (j2, p + length (a @ b))"
proof -
  from put_bytes_ok [OF assms(2)] obtain m where "put_bytes j p a = Some (j\<lparr>mem := m\<rparr>, p + length a)" by blast
  then show thesis using that assms(1) by (simp add: put_bytes_append)
qed

definition bracket_open :: "bool \<Rightarrow> char" where
  "bracket_open object = (if object then CHR ''{'' else CHR ''['')"

definition bracket_close :: "bool \<Rightarrow> char" where
  "bracket_close object = (if object then CHR ''}'' else CHR '']'')"

lemma bracket_folds:
  "(if object then ''{'' else ''['') = [bracket_open object]"
  "(if object then CHR ''}'' else CHR '']'') = bracket_close object"
  by (simp_all add: bracket_open_def bracket_close_def)

lemma addobject_holds:
  assumes "json_holds j pre post"
  shows "\<exists>j'. json_addobject j name object = Some j'
    \<and> json_holds j' (pre @ lead_text (status j) name @ [bracket_open object]) (bracket_close object # post)
    \<and> level j' = level j + 1 \<and> status j' = ZBX_JSON_EMPTY"
proof -
  let ?l = "lead_text (status j) name"
  let ?bs = "?l @ [bracket_open object] @ [bracket_close object]"
  from gap_put [OF assms, of ?bs] obtain j1 j2 where
    j: "make_gap j (length ?bs) = Some j1" "put_bytes j1 (length pre) ?bs = Some (j2, length pre + length ?bs)"
      "status j1 = status j" "buffer_offset j1 = length pre" "level j2 = level j" "buffer_size j2 = length pre + length post"
    and h: "\<And>a b st l. ?bs = a @ b \<Longrightarrow>
         json_holds (j2\<lparr>buffer_offset := length pre + length a, buffer_size := length pre + length post + length ?bs,
            level := l, status := st\<rparr>) (pre @ a) (b @ post)" by blast
  from j(2) obtain k where k: "put_bytes j1 (length pre) ?l = Some k" by (auto simp: put_bytes_append Option.bind_eq_Some_conv)
  then obtain k2 where k2: "put_bytes (fst k) (snd k) [bracket_open object] = Some k2"
    "put_bytes (fst k2) (snd k2) [bracket_close object] = Some (j2, length pre + length ?bs)"
    using j(2) put_bytes_append [of j1 "length pre" ?l "[bracket_open object] @ [bracket_close object]"]
    by (auto simp: put_bytes_append case_prod_beta Option.bind_eq_Some_conv simp del: put_bytes.simps(2) append_Cons)
  then have "poke (fst k2) (snd k2) (bracket_close object) = Some j2" "snd k2 = length pre + length ?l + 1"
    by (auto simp: Option.bind_eq_Some_conv)
  then have "json_addobject j name object = Some (j2\<lparr>buffer_offset := length pre + length (?l @ [bracket_open object]),
      buffer_size := length pre + length post + length ?bs, level := level j + 1, status := ZBX_JSON_EMPTY\<rparr>)"
    using j k k2
    unfolding json_addobject_def bracket_folds
    by (simp add: lead_size_ok put_lead_ok case_prod_beta Let_def
        add.commute add.left_commute del: put_bytes.simps(2))
  then show ?thesis using h [of "?l @ [bracket_open object]" "[bracket_close object]" ZBX_JSON_EMPTY "level j + 1"] by simp
qed

text \<open>Adding a scalar value or raw text writes the same way.\<close>

lemma add_text_holds:
  fixes name :: "string option" and data :: string
  assumes "json_holds j pre post"
  defines "bs \<equiv> lead_text (status j) name @ data"
  shows "\<exists>j1 k j2. make_gap j (length bs) = Some j1 \<and> put_lead j1 (buffer_offset j1) name = Some k
    \<and> put_bytes (fst k) (snd k) data = Some (j2, length pre + length bs) \<and> level j2 = level j
    \<and> json_holds (j2\<lparr>buffer_offset := length pre + length bs, buffer_size := buffer_size j2 + length bs, status := ZBX_JSON_COMMA\<rparr>)
        (pre @ bs) post"
proof -
  from gap_put [OF assms(1), of bs] obtain j1 j2 where
    j: "make_gap j (length bs) = Some j1" "put_bytes j1 (length pre) bs = Some (j2, length pre + length bs)"
      "status j1 = status j" "buffer_offset j1 = length pre" "level j2 = level j" "buffer_size j2 = length pre + length post"
    and h: "\<And>a b st l. bs = a @ b \<Longrightarrow>
         json_holds (j2\<lparr>buffer_offset := length pre + length a, buffer_size := length pre + length post + length bs,
            level := l, status := st\<rparr>) (pre @ a) (b @ post)" by blast
  from j(2) obtain k where "put_bytes j1 (length pre) (lead_text (status j) name) = Some k"
      "put_bytes (fst k) (snd k) data = Some (j2, length pre + length bs)"
    by (auto simp: bs_def put_bytes_append Option.bind_eq_Some_conv)
  moreover have "json_holds (j2\<lparr>buffer_offset := length pre + length bs, buffer_size := length pre + length post + length bs,
      status := ZBX_JSON_COMMA\<rparr>) (pre @ bs) post"
    using h [of bs "[]" ZBX_JSON_COMMA "level j2"] by simp
  ultimately show ?thesis using j(1,3-6)
    by - (rule exI [of _ j1], rule exI [of _ k], rule exI [of _ j2], simp add: put_lead_ok)
qed

lemma addstring_holds:
  assumes "json_holds j pre post"
  shows "\<exists>j'. zbx_json_addstring j name string type = Some j'
    \<and> json_holds j' (pre @ lead_text (status j) name @ scalar_text string type) post
    \<and> level j' = level j \<and> status j' = ZBX_JSON_COMMA"
  using add_text_holds [OF assms, of name "scalar_text string type"]
  by (auto simp: zbx_json_addstring_def zbx_json_addstring_limit_def stringsize_unlimited lead_size_ok insstring_put Let_def)

lemma addraw_holds:
  assumes "json_holds j pre post"
  shows "\<exists>j'. zbx_json_addraw j name data = Some j'
    \<and> json_holds j' (pre @ lead_text (status j) name @ cstr data) post
    \<and> level j' = level j \<and> status j' = ZBX_JSON_COMMA"
  using add_text_holds [OF assms, of name "cstr data"]
  by (auto simp: zbx_json_addraw_def lead_size_ok Let_def)

lemma close_holds:
  assumes "json_holds j pre (c # post)"
  shows "json_holds (fst (zbx_json_close j)) (if level j = 1 then pre else pre @ [c]) (if level j = 1 then c # post else post)"
  using assms by (auto simp: json_holds_def zbx_json_close_def)

lemma setup_holds:
  "\<exists>j. json_setup fresh allocate = Some j \<and> json_holds j [] [] \<and> level j = 0 \<and> status j = ZBX_JSON_EMPTY"
proof -
  define j0 where "j0 = zbx_json_realloc \<lparr>mem = fresh, place = NULL_BUFFER, buffer_allocated = 0, buffer_offset = 0,
    buffer_size = 0, status = ZBX_JSON_EMPTY, level = 0\<rparr> allocate"
  have "0 < buffer_allocated j0" "place j0 \<noteq> NULL_BUFFER" "buffer_offset j0 = 0" "buffer_size j0 = 0" "level j0 = 0"
    "status j0 = ZBX_JSON_EMPTY"
    by (simp_all add: j0_def) (simp_all add: zbx_json_realloc_def)
  then show ?thesis unfolding json_setup_def j0_def [symmetric] by (simp add: poke_def json_holds_def cells_def)
qed

lemma init_holds:
  shows "\<exists>j. zbx_json_init fresh allocate = Some j \<and> json_holds j ''{'' ''}'' \<and> level j = 1 \<and> status j = ZBX_JSON_EMPTY"
    and "\<exists>j. zbx_json_initarray fresh allocate = Some j \<and> json_holds j ''['' '']'' \<and> level j = 1 \<and> status j = ZBX_JSON_EMPTY"
proof -
  from setup_holds [of fresh allocate] obtain j where j: "json_setup fresh allocate = Some j" "json_holds j [] []" "level j = 0"
    "status j = ZBX_JSON_EMPTY" by blast
  from addobject_holds [OF j(2), of None True] addobject_holds [OF j(2), of None False] j
  show "\<exists>j. zbx_json_init fresh allocate = Some j \<and> json_holds j ''{'' ''}'' \<and> level j = 1 \<and> status j = ZBX_JSON_EMPTY"
    "\<exists>j. zbx_json_initarray fresh allocate = Some j \<and> json_holds j ''['' '']'' \<and> level j = 1 \<and> status j = ZBX_JSON_EMPTY"
    by (auto simp: zbx_json_init_def zbx_json_initarray_def zbx_json_addobject_def zbx_json_addarray_def lead_text_def
        bracket_open_def bracket_close_def)
qed

lemma clean_holds:
  assumes "json_holds j pre post"
  shows "\<exists>j'. zbx_json_clean j = Some j' \<and> json_holds j' ''{'' ''}'' \<and> level j' = 1 \<and> status j' = ZBX_JSON_EMPTY"
proof -
  define j0 where "j0 = j\<lparr>buffer_offset := 0, buffer_size := 0, status := ZBX_JSON_EMPTY, level := 0, mem := (mem j)(0 := NUL)\<rparr>"
  have s: "zbx_json_setempty j = Some j0" using assms by (auto simp: zbx_json_setempty_def poke_def json_holds_def j0_def)
  have "json_holds j0 [] []" using assms by (auto simp: json_holds_def j0_def cells_def)
  from addobject_holds [OF this, of None True] s show ?thesis
    by (auto simp: zbx_json_clean_def zbx_json_addobject_def lead_text_def bracket_open_def bracket_close_def j0_def)
qed

lemma escape_bytes_NUL: "c \<noteq> NUL \<Longrightarrow> NUL \<notin> set (escape_bytes c)"
proof -
  assume c: "c \<noteq> NUL"
  have h: "zbx_num2hex k \<noteq> NUL" if "k < 16" for k
  proof
    assume "zbx_num2hex k = NUL"
    then have "(of_char (zbx_num2hex k) :: nat) = 0" by simp
    then show False using that by (simp add: zbx_num2hex_def split: if_splits)
  qed
  show ?thesis using c h [of "of_char c div 16 mod 16"] h [of "of_char c mod 16"]
    by (auto simp: escape_bytes_def short_escape_def)
qed

lemma escape_string_NUL: "NUL \<notin> set (escape_string s)"
  by (auto simp: escape_string_def cstr_def dest!: set_takeWhileD escape_bytes_NUL)

lemma escape_exact: "zbx_json_escape fresh s = Some (if escape_string s = [] then s else escape_string s)"
proof (cases "escape_string s = []")
  case True
  then show ?thesis
    by (simp add: zbx_json_escape_def zbx_json_stringsize_def stringsize_unlimited scalar_text_def)
next
  case False
  let ?n = "length (escape_string s)"
  define b where "b = \<lparr>mem = fresh(?n := NUL), place = BUF_HEAP, buffer_allocated = ?n + 1, buffer_offset = 0,
    buffer_size = ?n, status = ZBX_JSON_EMPTY, level = 0\<rparr>"
  obtain m where m: "put_bytes b 0 (escape_string s) = Some (b\<lparr>mem := m\<rparr>, ?n)" "cells m 0 (escape_string s)"
    "\<forall>i. i < 0 \<or> ?n \<le> i \<longrightarrow> m i = mem b i"
    using put_bytes_ok [of 0 "escape_string s" b] by (auto simp: b_def)
  have "map m [0..<?n] = escape_string s" using m(2) by (intro nth_equalityI) (auto simp: cells_def)
  moreover have "m ?n = NUL" using m(3) by (simp add: b_def)
  ultimately have "cstr (map m [0..<?n + 1]) = escape_string s"
    using escape_string_NUL [of s] by (auto simp: cstr_def takeWhile_tail takeWhile_append2)
  moreover have "zbx_json_insstring b 0 (Some s) ZBX_JSON_TYPE_UNKNOWN = Some (b\<lparr>mem := m\<rparr>, ?n)"
    using m(1) by (simp add: zbx_json_insstring_def insstring_put scalar_text_def)
  ultimately show ?thesis using False
    by (simp add: zbx_json_escape_def zbx_json_stringsize_def stringsize_unlimited scalar_text_def poke_def Let_def flip: b_def)
      (simp add: b_def)
qed

end
