(* ===== verification/ZbxJsonLimit.thy ===== *)
theory ZbxJsonLimit
  imports ZbxJsonWriter
begin

text \<open>
  \<^verbatim>\<open>zbx_json_addstring_limit\<close> (\<^verbatim>\<open>json.c\<close>) with a limit: what is cut off and that the space made is the space used.
\<close>

section \<open>UTF-8 texts byte by byte\<close>

definition is_cont :: "char \<Rightarrow> bool" where
  "is_cont c \<longleftrightarrow> (of_char c :: nat) div 64 = 2"

definition utf8_string :: "nat list \<Rightarrow> string" where
  "utf8_string cps = concat (map utf8 cps)"

lemma escape_size_high:
  assumes "128 \<le> (of_char c :: nat)"
  shows "escape_size c = 1"
proof -
  have "c \<notin> {QUOTE, BACKSLASH, CHR 0x08, CHR 0x0C, CHR 0x0A, CHR 0x0D, CHR 0x09}" using assms by auto
  then show ?thesis using assms by (simp add: escape_size_def short_escape_def)
qed

lemma is_cont_high: "is_cont c \<Longrightarrow> 128 \<le> (of_char c :: nat)"
  using div_times_less_eq_dividend [of "of_char c :: nat" 64] by (simp add: is_cont_def)

lemma escape_size_bounds: "0 < escape_size c \<and> escape_size c \<le> 6"
  by (simp add: escape_size_def)

lemma utf8_shape:
  assumes "n < 0x110000"
  obtains b bs where "utf8 n = b # bs" "\<not> is_cont b" "list_all is_cont bs" "length bs \<le> 3"
    "bs \<noteq> [] \<longrightarrow> 128 \<le> (of_char b :: nat)"
proof -
  have q: "n div 262144 < 8" "n < 0x10000 \<Longrightarrow> n div 4096 < 16" "n < 0x800 \<Longrightarrow> n div 64 < 32" using assms by auto
  have h: "(240 + d) div 64 \<noteq> 2" "(224 + d) div 64 \<noteq> 2" "(192 + d) div 64 \<noteq> 2" for d :: nat by auto
  have c: "(128 + d) mod 256 div 64 = 2" "(128 + d) div 64 = 2" if "d < 64" for d :: nat using that by auto
  consider "n < 0x80" | "0x80 \<le> n" "n < 0x800" | "0x800 \<le> n" "n < 0x10000" | "0x10000 \<le> n" by linarith
  then show thesis
  proof cases
    case 1
    then show ?thesis using that [of "char_of n" "[]"] by (simp add: utf8_def is_cont_def)
  next
    case 2
    then show ?thesis using that [of "char_of (0xC0 + n div 64)" "[char_of (0x80 + n mod 64)]"] q(3) h(3)
      by (simp add: utf8_def is_cont_def c)
  next
    case 3
    then show ?thesis
      using that [of "char_of (0xE0 + n div 4096)" "[char_of (0x80 + n div 64 mod 64), char_of (0x80 + n mod 64)]"] q(2) h(2)
      by (simp add: utf8_def is_cont_def c)
  next
    case 4
    then show ?thesis
      using that [of "char_of (0xF0 + n div 262144)"
          "[char_of (0x80 + n div 4096 mod 64), char_of (0x80 + n div 64 mod 64), char_of (0x80 + n mod 64)]"] q(1) h(1)
      by (simp add: utf8_def is_cont_def c)
  qed
qed

text \<open>The bytes in front of a continuation byte are not escaped, and at most three follow a first byte.\<close>

definition valid_cps :: "nat list \<Rightarrow> bool" where
  "valid_cps cps \<longleftrightarrow> list_all (\<lambda>n. 0 < n \<and> n < 0x110000) cps"

lemma utf8_string_Cons: "utf8_string (n # cps) = utf8 n @ utf8_string cps" "utf8_string [] = []"
  by (simp_all add: utf8_string_def)

lemma utf8_string_cont:
  "valid_cps cps \<Longrightarrow> i < length (utf8_string cps) \<Longrightarrow> is_cont (utf8_string cps ! i) \<Longrightarrow>
   \<exists>d. 0 < d \<and> d \<le> 3 \<and> d \<le> i \<and> \<not> is_cont (utf8_string cps ! (i - d))
     \<and> (\<forall>e < d. is_cont (utf8_string cps ! (i - e))) \<and> (\<forall>e. 0 < e \<and> e \<le> d \<longrightarrow> escape_size (utf8_string cps ! (i - e)) = 1)"
proof (induction cps arbitrary: i)
  case (Cons n cps)
  then have "n < 0x110000" by (simp add: valid_cps_def)
  from utf8_shape [OF this] obtain b bs where u: "utf8 n = b # bs" "\<not> is_cont b" "list_all is_cont bs" "length bs \<le> 3"
    "bs \<noteq> [] \<longrightarrow> 128 \<le> (of_char b :: nat)" .
  have hi: "\<forall>c\<in>set bs. 128 \<le> (of_char c :: nat)"
    using u(3) is_cont_high by (simp add: list_all_iff)
  show ?case
  proof (cases "i \<le> length bs")
    case True
    have "i \<noteq> 0"
    proof
      assume "i = 0"
      then show False using Cons(4) u(1,2) by (simp add: utf8_string_Cons)
    qed
    then obtain k where k: "i = Suc k" by (cases i) simp_all
    have nth: "utf8_string (n # cps) ! j = (b # bs) ! j" if "j \<le> length bs" for j
      using that by (simp add: utf8_string_Cons u(1) nth_append flip: append_Cons)
    have "escape_size ((b # bs) ! j) = 1" if "j \<le> length bs" for j
    proof (intro escape_size_high, cases j)
      case 0
      have "bs \<noteq> []" using True k by auto
      then show "128 \<le> (of_char ((b # bs) ! j) :: nat)" using u(5) 0 by simp
    next
      case (Suc l)
      then have "bs ! l \<in> set bs" using that by simp
      then show "128 \<le> (of_char ((b # bs) ! j) :: nat)" using hi Suc by simp
    qed
    moreover have "is_cont ((b # bs) ! (i - e))" if "e < i" for e
    proof -
      have "i - e = Suc (i - e - 1)" "i - e - 1 < length bs" using that True by auto
      then show ?thesis using u(3) by (metis list_all_length nth_Cons_Suc)
    qed
    ultimately show ?thesis using True k u(2,4) by (intro exI [of _ i]) (simp add: nth)
  next
    case False
    define i' where "i' = i - Suc (length bs)"
    have i: "i = Suc (length bs) + i'" using False by (simp add: i'_def)
    have nth: "utf8_string (n # cps) ! (Suc (length bs) + j) = utf8_string cps ! j" for j
      by (simp add: utf8_string_Cons u(1) nth_append)
    from Cons(1) [of i'] Cons(2-4) obtain d where d: "0 < d" "d \<le> 3" "d \<le> i'" "\<not> is_cont (utf8_string cps ! (i' - d))"
      "\<forall>e < d. is_cont (utf8_string cps ! (i' - e))"
      "\<forall>e. 0 < e \<and> e \<le> d \<longrightarrow> escape_size (utf8_string cps ! (i' - e)) = 1"
      unfolding i nth by (auto simp: valid_cps_def utf8_string_Cons u(1))
    have "i - e = Suc (length bs) + (i' - e)" if "e \<le> d" for e using that d(3) i by simp
    then have at: "utf8_string (n # cps) ! (i - e) = utf8_string cps ! (i' - e)" if "e \<le> d" for e
      using that by (simp only: nth)
    then show ?thesis using d i by (intro exI [of _ d]) simp
  qed
qed (simp add: utf8_string_Cons)

text \<open>A position that is not inside a character splits the text between characters.\<close>

lemma utf8_string_split:
  "valid_cps cps \<Longrightarrow> k \<le> length (utf8_string cps) \<Longrightarrow> k = length (utf8_string cps) \<or> \<not> is_cont (utf8_string cps ! k) \<Longrightarrow>
   \<exists>m. take k (utf8_string cps) = utf8_string (take m cps)"
proof (induction cps arbitrary: k)
  case (Cons n cps)
  then have "n < 0x110000" by (simp add: valid_cps_def)
  from utf8_shape [OF this] obtain b bs where u: "utf8 n = b # bs" "list_all is_cont bs" by blast
  show ?case
  proof (cases "k \<le> length bs")
    case True
    then have "k = 0" using Cons(3,4) u by (cases k) (auto simp: utf8_string_Cons nth_append list_all_length)
    then show ?thesis by (intro exI [of _ 0]) (simp add: utf8_string_Cons)
  next
    case False
    define k' where "k' = k - Suc (length bs)"
    have k: "k = Suc (length bs) + k'" using False by (simp add: k'_def)
    have "\<exists>m. take k' (utf8_string cps) = utf8_string (take m cps)"
      using Cons(2-4) by (intro Cons(1)) (auto simp: valid_cps_def utf8_string_Cons u(1) k nth_append)
    then obtain m where "take k' (utf8_string cps) = utf8_string (take m cps)" ..
    then show ?thesis using k by (intro exI [of _ "Suc m"]) (simp add: utf8_string_Cons u(1))
  qed
qed (simp add: utf8_string_Cons)

lemma utf8_string_NUL: "valid_cps cps \<Longrightarrow> NUL \<notin> set (utf8_string cps)"
proof (induction cps)
  case (Cons n cps)
  then have n: "0 < n" "n < 0x110000" by (simp_all add: valid_cps_def)
  have "NUL \<notin> set (utf8 n)"
  proof (cases "n < 0x80")
    case True
    have "char_of n \<noteq> NUL"
    proof
      assume "char_of n = NUL"
      then have "(of_char (char_of n :: char) :: nat) = 0" by simp
      then show False using n True by simp
    qed
    then show ?thesis using True by (simp add: utf8_def)
  next
    case False
    from utf8_shape [OF n(2)] obtain b bs where u: "utf8 n = b # bs" "list_all is_cont bs"
      "bs \<noteq> [] \<longrightarrow> 128 \<le> (of_char b :: nat)" by blast
    have "bs \<noteq> []" using u(1) False by (auto simp: utf8_def split: if_splits)
    then have "b \<noteq> NUL" "NUL \<notin> set bs" using u by (auto simp: list_all_iff is_cont_def)
    then show ?thesis by (simp add: u(1))
  qed
  then show ?case using Cons by (simp add: utf8_string_Cons valid_cps_def)
qed (simp add: utf8_string_Cons)

section \<open>The cut\<close>

abbreviation (input) escaped_size :: "string \<Rightarrow> nat" where
  "escaped_size s \<equiv> length (escape_string s)"

lemma escaped_size_Cons: "c \<noteq> NUL \<Longrightarrow> escaped_size (c # s) = escape_size c + escaped_size s"
  by (simp add: escape_string_Cons escape_size_length)

lemma escaped_size_snoc:
  "k < length s \<Longrightarrow> NUL \<notin> set s \<Longrightarrow> escaped_size (take (Suc k) s) = escaped_size (take k s) + escape_size (s ! k)"
proof (induction s arbitrary: k)
  case (Cons c s)
  then show ?case by (cases k) (auto simp: escaped_size_Cons escape_string_Cons(2))
qed simp

lemma stringsize_loop_found: "snd (stringsize_loop s m k len (Some x)) = Some x"
  by (induction s arbitrary: k len) (auto simp: Let_def)

lemma stringsize_loop_cut:
  "NUL \<notin> set s \<Longrightarrow> 0 < m \<Longrightarrow> len \<le> m \<Longrightarrow>
   (if len + escaped_size s \<le> m then snd (stringsize_loop s m off len None) = None
    else \<exists>k < length s. snd (stringsize_loop s m off len None) = Some (Suc (off + k), len + escaped_size (take k s))
      \<and> len + escaped_size (take k s) \<le> m \<and> m < len + escaped_size (take (Suc k) s))"
proof (induction s arbitrary: off len)
  case (Cons c s)
  have nz: "c \<noteq> NUL" "NUL \<notin> set s" using Cons(2) by auto
  show ?case
  proof (cases "m < len + escape_size c")
    case True
    then have "snd (stringsize_loop (c # s) m off len None) = Some (Suc off, len)"
      using nz Cons(3) by (simp add: Let_def stringsize_loop_found)
    then show ?thesis using True nz Cons(4)
      by (auto simp: escaped_size_Cons escape_string_Cons(2) intro!: exI [of _ 0])
  next
    case False
    then have step: "stringsize_loop (c # s) m off len None = stringsize_loop s m (Suc off) (len + escape_size c) None"
      using nz by (simp add: Let_def)
    note IH = Cons(1) [OF nz(2) Cons(3), of "len + escape_size c" "Suc off"]
    show ?thesis
    proof (cases "len + escaped_size (c # s) \<le> m")
      case True
      then show ?thesis using IH False unfolding step by (simp add: escaped_size_Cons nz(1) add.assoc)
    next
      case more: False
      then obtain k where "k < length s"
        "snd (stringsize_loop s m (Suc off) (len + escape_size c) None) = Some (Suc (Suc off + k), len + escape_size c + escaped_size (take k s))"
        "len + escape_size c + escaped_size (take k s) \<le> m" "m < len + escape_size c + escaped_size (take (Suc k) s)"
        using IH False by (auto simp: escaped_size_Cons nz(1) add.assoc)
      then show ?thesis using more unfolding step
        by (simp add: escaped_size_Cons nz(1) add.assoc del: take_Suc_Cons)
          (simp add: escaped_size_Cons nz(1) add.assoc)
    qed
  qed
qed (simp add: escape_string_Cons(2))

lemma cut_back_stop:
  "\<not> is_cont (s ! n) \<Longrightarrow> cut_back s (Suc n) (Suc l) = Some (Suc n, Suc l)"
  by (simp add: is_cont_def)

lemma cut_back_steps:
  assumes "d \<le> n" "d \<le> l" "\<forall>e < d. is_cont (s ! (n - e))"
  shows "cut_back s (Suc n) (Suc l) = cut_back s (Suc (n - d)) (Suc (l - d))"
  using assms
proof (induction d arbitrary: n l)
  case (Suc d)
  from Suc(2,3) obtain n' l' where nl: "n = Suc n'" "l = Suc l'" by (cases n; cases l) auto
  have "is_cont (s ! n)" using Suc(4) by (metis diff_zero zero_less_Suc)
  then have "cut_back s (Suc n) (Suc l) = cut_back s (Suc n') (Suc l')" by (simp add: nl is_cont_def)
  also have "\<dots> = cut_back s (Suc (n' - d)) (Suc (l' - d))"
    using Suc(2-4) by (intro Suc(1)) (auto simp: nl dest: spec [of _ "Suc _"])
  finally show ?case by (simp add: nl)
qed simp

lemma escaped_size_back:
  "NUL \<notin> set s \<Longrightarrow> n \<le> length s \<Longrightarrow> d \<le> n \<Longrightarrow> \<forall>e. 0 < e \<and> e \<le> d \<longrightarrow> escape_size (s ! (n - e)) = 1 \<Longrightarrow>
   escaped_size (take n s) = escaped_size (take (n - d) s) + d"
proof (induction d)
  case (Suc d)
  have "Suc (n - Suc d) = n - d" using Suc(4) by simp
  then have "escaped_size (take (n - d) s) = escaped_size (take (n - Suc d) s) + 1"
    using escaped_size_snoc [of "n - Suc d" s] Suc(2-5) by simp
  then show ?case using Suc by simp
qed simp

lemma escaped_size_mono: "i \<le> k \<Longrightarrow> escaped_size (take i s) \<le> escaped_size (take k s)"
proof (induction s arbitrary: i k)
  case (Cons c s)
  then show ?case by (cases i; cases k) (auto simp: escape_string_Cons)
qed simp

lemma stringsize_limit_cut:
  assumes "valid_cps cps" "6 \<le> m" "m < escaped_size (utf8_string cps)"
  defines "s \<equiv> utf8_string cps"
  shows "\<exists>k. zbx_json_stringsize_limit (Some s) ZBX_JSON_TYPE_STRING m = Some (escaped_size (take k s) + 2, escaped_size s, Some k)
    \<and> 0 < k \<and> k < length s \<and> \<not> is_cont (s ! k) \<and> escaped_size (take k s) \<le> m"
proof -
  have nul: "NUL \<notin> set s" unfolding s_def by (rule utf8_string_NUL [OF assms(1)])
  obtain k where k: "k < length s" "snd (stringsize_loop s m 0 0 None) = Some (Suc k, escaped_size (take k s))"
    "escaped_size (take k s) \<le> m" "m < escaped_size (take (Suc k) s)"
    using stringsize_loop_cut [OF nul, of m 0 0] assms(2,3) by (auto simp: s_def)
  have loop: "stringsize_loop s m 0 0 None = (escaped_size s, Some (Suc k, escaped_size (take k s)))"
    using k(2) stringsize_loop_len [of s m 0 0 None] by (simp add: prod_eq_iff)
  have walk: "\<exists>j. cut_back s (Suc k) (escaped_size (take k s) + 2) = Some (Suc j, escaped_size (take j s) + 2)
      \<and> 0 < j \<and> j \<le> k \<and> \<not> is_cont (s ! j)"
  proof (cases "is_cont (s ! k)")
    case False
    have "k \<noteq> 0"
    proof
      assume "k = 0"
      then show False
        using k(1,4) assms(2) escaped_size_snoc [OF k(1) nul] escape_size_bounds [of "s ! k"] by (simp add: escape_string_Cons(2))
    qed
    then show ?thesis using cut_back_stop [OF False, of "escaped_size (take k s) + 1"] False by (intro exI [of _ k]) simp
  next
    case True
    from utf8_string_cont [OF assms(1) _ True [unfolded s_def]] k(1) obtain d where
      d: "0 < d" "d \<le> 3" "d \<le> k" "\<not> is_cont (s ! (k - d))" "\<forall>e < d. is_cont (s ! (k - e))"
        "\<forall>e. 0 < e \<and> e \<le> d \<longrightarrow> escape_size (s ! (k - e)) = 1" unfolding s_def by blast
    have size: "escaped_size (take k s) = escaped_size (take (k - d) s) + d"
      using escaped_size_back [OF nul _ d(3,6)] k(1) by simp
    have "escape_size (s ! k) = 1" using is_cont_high [OF True] by (rule escape_size_high)
    then have "m \<le> escaped_size (take k s)" using escaped_size_snoc [OF k(1) nul] k(4) by simp
    then have pos: "0 < k - d" using size d(2) assms(2) by (cases "k - d") (simp_all add: escape_string_Cons(2))
    have "cut_back s (Suc k) (Suc (escaped_size (take k s) + 1)) = cut_back s (Suc (k - d)) (Suc (escaped_size (take k s) + 1 - d))"
      using size by (intro cut_back_steps [OF d(3) _ d(5)]) simp
    also have "\<dots> = Some (Suc (k - d), escaped_size (take (k - d) s) + 2)"
      using cut_back_stop [OF d(4)] size by simp
    finally show ?thesis using pos d(4) by (intro exI [of _ "k - d"]) simp
  qed
  then obtain j where j: "cut_back s (Suc k) (escaped_size (take k s) + 2) = Some (Suc j, escaped_size (take j s) + 2)"
    "0 < j" "j \<le> k" "\<not> is_cont (s ! j)" by blast
  have "escaped_size (take j s) \<le> escaped_size (take k s)"
    using escaped_size_mono [OF j(3)] .
  then show ?thesis using j k(1,3) loop by (intro exI [of _ j]) (simp add: zbx_json_stringsize_limit_def)
qed

lemma insstring_limit_put:
  assumes "0 < k"
  shows "zbx_json_insstring_limit j p (Some s) ZBX_JSON_TYPE_STRING k = put_bytes j p (quoted (take k s))"
proof -
  have "put_bytes j p (quoted t) = do { (j, p) \<leftarrow> put_bytes j p [QUOTE]; (j, p) \<leftarrow> put_bytes j p (escape_string t);
      put_bytes j p [QUOTE] }" for t
    using put_bytes_append [of j p "[QUOTE]" "escape_string t @ [QUOTE]"]
    by (simp add: quoted_def put_bytes_append case_prod_beta del: put_bytes.simps)
  then show ?thesis using assms
    by (simp add: zbx_json_insstring_limit_def insstring_loop_put case_prod_beta Let_def del: put_bytes.simps(2))
qed

lemma add_limit_holds:
  assumes "json_holds j pre post"
    and size: "zbx_json_stringsize_limit string type max_size = Some (length data, full, found)"
    and put: "\<And>j p. zbx_json_insstring_limit j p string type (case found of None \<Rightarrow> 0 | Some k \<Rightarrow> k) = put_bytes j p data"
  shows "\<exists>j'. zbx_json_addstring_limit j name string type max_size = Some (j', full)
    \<and> json_holds j' (pre @ lead_text (status j) name @ data) post"
  using add_text_holds [OF assms(1), of name data]
  by (auto simp: zbx_json_addstring_limit_def lead_size_ok size put Let_def)

text \<open>
  C31: with a limit of at least six bytes and valid UTF-8, a string is added in full when its escaped form fits, and
  otherwise cut between characters to one that fits; the space made in the buffer is exactly the space used.
\<close>

theorem json_limit_exact:
  assumes "json_holds j pre post" "valid_cps cps" "6 \<le> max_size"
  shows "\<exists>j' m. zbx_json_addstring_limit j name (Some (utf8_string cps)) ZBX_JSON_TYPE_STRING max_size
        = Some (j', length (escape_string (utf8_string cps)))
    \<and> json_holds j' (pre @ lead_text (status j) name @ quoted (utf8_string (take m cps))) post
    \<and> (if length (escape_string (utf8_string cps)) \<le> max_size then utf8_string (take m cps) = utf8_string cps
       else length (escape_string (utf8_string (take m cps))) \<le> max_size)"
proof (cases "escaped_size (utf8_string cps) \<le> max_size")
  case True
  have "zbx_json_stringsize_limit (Some (utf8_string cps)) ZBX_JSON_TYPE_STRING max_size
      = Some (length (quoted (utf8_string cps)), length (escape_string (utf8_string cps)), None)"
    using stringsize_loop_cut [OF utf8_string_NUL [OF assms(2)], of max_size 0 0] True assms(3)
      stringsize_loop_len [of "utf8_string cps" max_size 0 0 None]
    by (cases "stringsize_loop (utf8_string cps) max_size 0 0 None")
      (simp add: zbx_json_stringsize_limit_def quoted_def Let_def)
  from add_limit_holds [OF assms(1) this, of name] True show ?thesis
    by (auto simp: insstring_put scalar_text_def intro!: exI [of _ "length cps"])
next
  case False
  define s where "s = utf8_string cps"
  obtain k where k: "zbx_json_stringsize_limit (Some s) ZBX_JSON_TYPE_STRING max_size
        = Some (escaped_size (take k s) + 2, escaped_size s, Some k)"
      "0 < k" "k < length s" "\<not> is_cont (s ! k)" "escaped_size (take k s) \<le> max_size"
    using stringsize_limit_cut [OF assms(2,3)] False unfolding s_def by auto
  obtain m where m: "take k s = utf8_string (take m cps)"
    using utf8_string_split [OF assms(2), of k] k(3,4) unfolding s_def by auto
  have "escaped_size (take k s) + 2 = length (quoted (take k s))" by (simp add: quoted_def)
  from add_limit_holds [OF assms(1) k(1) [unfolded this], of name] False k(2,5) show ?thesis
    by (simp add: insstring_limit_put m) (auto simp: s_def)
qed

text \<open>Six letters of two bytes and a limit in the middle of the fourth.\<close>

lemma accents_size: "length (escape_string (utf8_string (replicate n 0xE9))) = 2 * n"
proof (induction n)
  case (Suc n)
  have u: "utf8 0xE9 = [char_of (0xC3 :: nat), char_of (0xA9 :: nat)]" by (simp add: utf8_def)
  have "char_of (0xC3 :: nat) \<noteq> NUL" "char_of (0xA9 :: nat) \<noteq> NUL"
    using utf8_string_NUL [of "[0xE9]"] by (auto simp: valid_cps_def utf8_string_Cons u)
  moreover have "escape_size (char_of (0xC3 :: nat)) = 1" "escape_size (char_of (0xA9 :: nat)) = 1"
    by (simp_all add: escape_size_high)
  ultimately show ?case using Suc by (simp add: utf8_string_Cons u escaped_size_Cons)
qed (simp add: utf8_string_Cons escape_string_Cons)

theorem json_limit_witness:
  "\<exists>j j' m. zbx_json_init (\<lambda>i. CHR ''?'') 16 = Some j
    \<and> zbx_json_addstring_limit j (Some ''v'') (Some (utf8_string (replicate 6 0xE9))) ZBX_JSON_TYPE_STRING 7 = Some (j', 12)
    \<and> json_holds j' (''{'' @ QUOTE # ''v'' @ QUOTE # '':'' @ quoted (utf8_string (replicate m 0xE9))) ''}''
    \<and> m \<le> 3"
proof -
  obtain j where j: "zbx_json_init (\<lambda>i. CHR ''?'') 16 = Some j" "json_holds j ''{'' ''}''" "status j = ZBX_JSON_EMPTY"
    using init_holds(1) by blast
  have lead: "lead_text (status j) (Some ''v'') = QUOTE # ''v'' @ QUOTE # '':''"
    by (simp add: j(3) lead_text_def quoted_def escape_string_Cons escape_bytes_def short_escape_def)
  have "valid_cps (replicate 6 0xE9)" by (simp add: valid_cps_def list_all_iff)
  from json_limit_exact [OF j(2) this, of 7 "Some ''v''"] obtain j' m where
    "zbx_json_addstring_limit j (Some ''v'') (Some (utf8_string (replicate 6 0xE9))) ZBX_JSON_TYPE_STRING 7 = Some (j', 12)"
    "json_holds j' (''{'' @ (QUOTE # ''v'' @ QUOTE # '':'') @ quoted (utf8_string (take m (replicate 6 0xE9)))) ''}''"
    "length (escape_string (utf8_string (take m (replicate 6 0xE9)))) \<le> 7"
    unfolding lead accents_size by auto
  then show ?thesis using j(1)
    by - (rule exI [of _ j], rule exI [of _ j'], rule exI [of _ "min m 6"], simp add: take_replicate accents_size)
qed

text \<open>
  With a smaller limit the position 0 of the cut is taken for no limit: space is made for the quotation marks only, but
  the whole string is written.
\<close>

lemma json_limit_zero_cut:
  "zbx_json_stringsize_limit (Some (QUOTE # s)) ZBX_JSON_TYPE_STRING 1 = Some (2, length (escape_string (QUOTE # s)), Some 0)"
  "zbx_json_insstring_limit j p (Some (QUOTE # s)) ZBX_JSON_TYPE_STRING 0 = put_bytes j p (quoted (QUOTE # s))"
proof -
  have q: "escape_size QUOTE = 2" by (simp add: escape_size_def short_escape_def)
  have "stringsize_loop (QUOTE # s) 1 0 0 None = (length (escape_string (QUOTE # s)), Some (1, 0))"
    using stringsize_loop_len [of "QUOTE # s" 1 0 0 None]
    by (simp add: prod_eq_iff Let_def q stringsize_loop_found)
  then show "zbx_json_stringsize_limit (Some (QUOTE # s)) ZBX_JSON_TYPE_STRING 1 = Some (2, length (escape_string (QUOTE # s)), Some 0)"
    by (simp add: zbx_json_stringsize_limit_def numeral_2_eq_2)
  show "zbx_json_insstring_limit j p (Some (QUOTE # s)) ZBX_JSON_TYPE_STRING 0 = put_bytes j p (quoted (QUOTE # s))"
    by (simp add: insstring_put scalar_text_def)
qed

end
