(* ===== verification/ZbxJsonTree.thy ===== *)
theory ZbxJsonTree
  imports ZbxJsonWriter
begin

text \<open>
  What a sequence of calls of the writer means: a stack of containers that are still open, each with the text and the
  values added so far. The texts in the buffer are proved to follow the stack, to be valid JSON after every call, and
  to open as the tree of values that was written.
\<close>

section \<open>Escaping\<close>

lemma num2hex_digit: "k < 16 \<Longrightarrow> isxdigit (zbx_num2hex k) \<and> xdigit_val (zbx_num2hex k) = k"
  by (auto simp: zbx_num2hex_def isxdigit_def isdigit_def xdigit_val_def of_char_char_of_lt)

lemma escape_json_char:
  assumes "c \<noteq> NUL"
  shows "json_char (escape_bytes c) [c]"
proof (cases "short_escape c")
  case (Some e)
  then have "escaped e = Some c" by (auto simp: short_escape_def escaped_def escape_table_def split: if_splits)
  then show ?thesis using Some json_char.escape by (simp add: escape_bytes_def)
next
  case None
  then have nq: "c \<noteq> QUOTE" "c \<noteq> BACKSLASH" by (auto simp: short_escape_def)
  define n :: nat where "n = of_char c"
  show ?thesis
  proof (cases "n \<le> 0x1f")
    case False
    then show ?thesis using None nq json_char.plain [of c] by (simp add: escape_bytes_def n_def)
  next
    case True
    define h where "h = [CHR ''0'', CHR ''0'', zbx_num2hex (n div 16 mod 16), zbx_num2hex (n mod 16)]"
    have x: "isxdigit (zbx_num2hex (n div 16 mod 16))" "isxdigit (zbx_num2hex (n mod 16))"
      "xdigit_val (zbx_num2hex (n div 16 mod 16)) = n div 16" "xdigit_val (zbx_num2hex (n mod 16)) = n mod 16"
      using num2hex_digit [of "n div 16 mod 16"] num2hex_digit [of "n mod 16"] True by auto
    have v: "hex_value h = n" using x(3,4) by (simp add: h_def hex_value_def xdigit_val_def isdigit_def)
    have "length h = 4" "list_all isxdigit h" using x(1,2) by (simp_all add: h_def isxdigit_def isdigit_def)
    from json_char.unicode [OF this] v True have "json_char (BACKSLASH # CHR ''u'' # h) (utf8 n)" by simp
    moreover have "utf8 n = [c]" using True by (simp add: utf8_def n_def)
    moreover have "escape_bytes c = BACKSLASH # CHR ''u'' # h"
      using None True by (simp add: escape_bytes_def h_def n_def)
    ultimately show ?thesis by simp
  qed
qed

lemma escape_json_chars: "json_chars (escape_string s) (cstr s)"
  unfolding escape_string_def cstr_def
proof (induction s)
  case (Cons c s)
  then show ?case using json_chars.cons [OF escape_json_char, of c] by (cases "c = NUL") (auto intro: json_chars.nil)
qed (simp add: json_chars.nil)

lemma cstr_cstr [simp]: "cstr (cstr s) = cstr s"
  by (simp add: cstr_def takeWhile_idem)

lemma quoted_val: "json_val atof n (quoted s) (JSON_STRING (cstr s))"
  using json_val_json_elems_json_members.string [OF escape_json_chars, of atof n s] by (simp add: quoted_def)

section \<open>Containers that are still open\<close>

text \<open>
  A container: object or array, the name under which it stands, the text between the brackets so far and the values
  with their names. The innermost container is the head of the list.
\<close>

record 'd frame =
  fr_obj :: bool
  fr_name :: "string option"
  fr_body :: string
  fr_vals :: "(string \<times> 'd zbx_jsonobj) list"

definition new_frame :: "bool \<Rightarrow> string option \<Rightarrow> 'd frame" where
  "new_frame object name = \<lparr>fr_obj = object, fr_name = name, fr_body = [], fr_vals = []\<rparr>"

definition fr_status :: "'d frame \<Rightarrow> zbx_json_status_t" where
  "fr_status f = (if fr_body f = [] then ZBX_JSON_EMPTY else ZBX_JSON_COMMA)"

definition fr_text :: "'d frame \<Rightarrow> string" where
  "fr_text f = bracket_open (fr_obj f) # fr_body f @ [bracket_close (fr_obj f)]"

definition fr_value :: "'d frame \<Rightarrow> 'd zbx_jsonobj" where
  "fr_value f = (if fr_obj f then JSON_OBJECT (object_value (fr_vals f))
     else JSON_ARRAY (map snd (fr_vals f)))"

definition add_value :: "string option \<Rightarrow> string \<Rightarrow> 'd zbx_jsonobj \<Rightarrow> 'd frame \<Rightarrow> 'd frame" where
  "add_value name s v f = f\<lparr>fr_body := fr_body f @ lead_text (fr_status f) name @ s,
     fr_vals := fr_vals f @ [(case name of None \<Rightarrow> [] | Some n \<Rightarrow> cstr n, v)]\<rparr>"

text \<open>The text before and after the cursor, and what remains when every container is closed.\<close>

fun pre_text :: "'d frame list \<Rightarrow> string" where
  "pre_text [] = []"
| "pre_text (f # fs) = pre_text fs @ (case fs of [] \<Rightarrow> [] | p # _ \<Rightarrow> lead_text (fr_status p) (fr_name f))
     @ bracket_open (fr_obj f) # fr_body f"

definition post_text :: "'d frame list \<Rightarrow> string" where
  "post_text fs = map (\<lambda>f. bracket_close (fr_obj f)) fs"

fun close_all :: "'d frame list \<Rightarrow> 'd frame option" where
  "close_all [] = None"
| "close_all [f] = Some f"
| "close_all (f # p # fs) = close_all (add_value (fr_name f) (fr_text f) (fr_value f) p # fs)"

section \<open>Calls\<close>

datatype write_op =
    AddObject "string option"
  | AddArray "string option"
  | AddString "string option" string
  | AddNull "string option"
  | AddNumber "string option" string
  | AddUint64 "string option" "64 word"
  | AddInt64 "string option" "64 word"
  | AddRaw "string option" string
  | CloseTop
  | Clean

fun exec_op :: "zbx_json \<Rightarrow> write_op \<Rightarrow> zbx_json option" where
  "exec_op j (AddObject name) = zbx_json_addobject j name"
| "exec_op j (AddArray name) = zbx_json_addarray j name"
| "exec_op j (AddString name s) = zbx_json_addstring j name (Some s) ZBX_JSON_TYPE_STRING"
| "exec_op j (AddNull name) = zbx_json_addstring j name None ZBX_JSON_TYPE_STRING"
| "exec_op j (AddNumber name s) = zbx_json_addstring j name (Some s) ZBX_JSON_TYPE_INT"
| "exec_op j (AddUint64 name n) = zbx_json_adduint64 j name n"
| "exec_op j (AddInt64 name n) = zbx_json_addint64 j name n"
| "exec_op j (AddRaw name s) = zbx_json_addraw j name s"
| "exec_op j CloseTop = Some (fst (zbx_json_close j))"
| "exec_op j Clean = zbx_json_clean j"

fun exec_ops :: "zbx_json \<Rightarrow> write_op list \<Rightarrow> zbx_json option" where
  "exec_ops j [] = Some j"
| "exec_ops j (oper # ops) = do { j \<leftarrow> exec_op j oper; exec_ops j ops }"

text \<open>
  The calls allowed: names in objects and only there, numbers in the form of JSON, raw text that is a JSON value, and
  no value below the level at which the parser gives up. Closing the outermost container changes nothing, and
  cleaning starts over with an object.
\<close>

definition adds_to :: "'d frame list \<Rightarrow> string option \<Rightarrow> bool" where
  "adds_to fs name \<longleftrightarrow> fs \<noteq> [] \<and> (name \<noteq> None) = fr_obj (hd fs) \<and> length fs \<le> 65"

fun add_top :: "string option \<Rightarrow> string \<Rightarrow> 'd zbx_jsonobj \<Rightarrow> 'd frame list \<Rightarrow> 'd frame list" where
  "add_top name s v [] = []"
| "add_top name s v (f # fs) = add_value name s v f # fs"

inductive write_step :: "(string \<Rightarrow> 'd) \<Rightarrow> 'd frame list \<Rightarrow> write_op \<Rightarrow> 'd frame list \<Rightarrow> bool" for atof where
  object: "adds_to fs name \<Longrightarrow> write_step atof fs (AddObject name) (new_frame True name # fs)"
| array: "adds_to fs name \<Longrightarrow> write_step atof fs (AddArray name) (new_frame False name # fs)"
| string: "adds_to fs name \<Longrightarrow> write_step atof fs (AddString name s) (add_top name (quoted s) (JSON_STRING (cstr s)) fs)"
| null: "adds_to fs name \<Longrightarrow> write_step atof fs (AddNull name) (add_top name ''null'' JSON_NULL fs)"
| number: "adds_to fs name \<Longrightarrow> json_number s \<Longrightarrow>
    write_step atof fs (AddNumber name s) (add_top name s (JSON_NUMBER (atof s)) fs)"
| uint64: "adds_to fs name \<Longrightarrow> write_step atof fs (AddUint64 name n)
    (add_top name (dec_string (unat n)) (JSON_NUMBER (atof (dec_string (unat n)))) fs)"
| int64: "adds_to fs name \<Longrightarrow> write_step atof fs (AddInt64 name n)
    (add_top name (int64_text n) (JSON_NUMBER (atof (int64_text n))) fs)"
| raw: "adds_to fs name \<Longrightarrow> json_val atof d s v \<Longrightarrow> d + length fs \<le> 65 \<Longrightarrow>
    write_step atof fs (AddRaw name s) (add_top name s v fs)"
| close: "write_step atof (f # p # fs) CloseTop (add_value (fr_name f) (fr_text f) (fr_value f) p # fs)"
| close_last: "write_step atof [f] CloseTop [f]"
| clean: "write_step atof fs Clean [new_frame True None]"

inductive write_steps :: "(string \<Rightarrow> 'd) \<Rightarrow> 'd frame list \<Rightarrow> write_op list \<Rightarrow> 'd frame list \<Rightarrow> bool" for atof where
  refl: "write_steps atof fs [] fs"
| more: "write_step atof fs oper fs' \<Longrightarrow> write_steps atof fs' ops fs'' \<Longrightarrow> write_steps atof fs (oper # ops) fs''"

section \<open>Numbers\<close>

lemma dec_string_head: "hd (dec_string n) = CHR ''0'' \<longrightarrow> length (dec_string n) = 1"
proof (induction n rule: dec_string.induct)
  case (1 n)
  show ?case
  proof (cases "n < 10")
    case False
    then have "n div 10 \<noteq> 0" by auto
    have "hd (dec_string (n div 10)) \<noteq> CHR ''0''"
    proof
      assume "hd (dec_string (n div 10)) = CHR ''0''"
      then have "length (dec_string (n div 10)) = 1" "hd (dec_string (n div 10)) = CHR ''0''" using 1 False by auto
      then have "dec_string (n div 10) = ''0''" by (cases "dec_string (n div 10)") auto
      then have "dec_value (dec_string (n div 10)) = 0" by (simp add: dec_value_def digit_val_def)
      then show False using \<open>n div 10 \<noteq> 0\<close> by simp
    qed
    then show ?thesis using False by (subst dec_string.simps, subst (2) dec_string.simps) simp
  qed (simp add: dec_string.simps)
qed

lemma json_number_ints: "json_number (dec_string n)" "json_number (CHR ''-'' # dec_string n)"
proof -
  note d = dec_string_digits dec_string_nonempty dec_string_head
  show "json_number (dec_string n)" unfolding json_number_def
    by (rule exI [of _ "[]"], rule exI [of _ "dec_string n"], rule exI [of _ "[]"], rule exI [of _ "[]"]) (use d in auto)
  show "json_number (CHR ''-'' # dec_string n)" unfolding json_number_def
    by (rule exI [of _ "''-''"], rule exI [of _ "dec_string n"], rule exI [of _ "[]"], rule exI [of _ "[]"]) (use d in auto)
qed

lemma escape_string_plain:
  "list_all (\<lambda>c. c \<noteq> NUL \<and> short_escape c = None \<and> (0x1f :: nat) < of_char c) s \<Longrightarrow> escape_string s = s"
  by (induction s) (auto simp: escape_string_Cons escape_bytes_def)

lemma escape_string_number:
  assumes "json_number s"
  shows "escape_string s = s"
proof (rule escape_string_plain)
  have "c \<noteq> NUL \<and> short_escape c = None \<and> (0x1f :: nat) < of_char c"
    if "isdigit c \<or> c \<in> set ''+-.eE''" for c
  proof (cases "isdigit c")
    case True
    then have "48 \<le> (of_char c :: nat) \<and> (of_char c :: nat) \<le> 57" by (simp add: isdigit_def)
    moreover from this have "c \<notin> {NUL, QUOTE, BACKSLASH, CHR 0x08, CHR 0x0C, CHR 0x0A, CHR 0x0D, CHR 0x09}" by auto
    ultimately show ?thesis by (simp add: short_escape_def)
  next
    case False
    then have "c \<in> {CHR ''+'', CHR ''-'', CHR ''.'', CHR ''e'', CHR ''E''}" using that by simp
    then show ?thesis by (elim insertE) (simp_all add: short_escape_def)
  qed
  then show "list_all (\<lambda>c. c \<noteq> NUL \<and> short_escape c = None \<and> (0x1f :: nat) < of_char c) s"
    using number_text_chars [OF assms] by (auto simp: list_all_iff)
qed

lemma scalar_number: "json_number s \<Longrightarrow> scalar_text (Some s) ZBX_JSON_TYPE_INT = s"
  by (simp add: scalar_text_def escape_string_number)

text \<open>No text of the grammar has a NUL in it.\<close>

lemma simple_escape_not_NUL: "escaped c = Some b \<Longrightarrow> c \<noteq> NUL"
  by (auto simp: escaped_def escape_table_def split: if_splits)

lemma list_all_NUL: "list_all P s \<Longrightarrow> \<not> P NUL \<Longrightarrow> NUL \<notin> set s"
  by (induction s) auto

lemma json_char_NUL: "json_char s b \<Longrightarrow> NUL \<notin> set s"
proof (induction rule: json_char.induct)
  case (escape c b)
  then show ?case using simple_escape_not_NUL by auto
next
  case (unicode h)
  then show ?case using list_all_NUL [of isxdigit h] isxdigit_not_NUL by auto
next
  case (surrogates h l)
  then show ?case using list_all_NUL [of isxdigit h] list_all_NUL [of isxdigit l] isxdigit_not_NUL by auto
qed auto

lemma json_chars_NUL: "json_chars s b \<Longrightarrow> NUL \<notin> set s"
  by (induction rule: json_chars.induct) (auto dest: json_char_NUL)

lemma ws_NUL: "list_all is_ws w \<Longrightarrow> NUL \<notin> set w"
  by (erule list_all_NUL) (simp add: is_ws_def)

lemma number_NUL: "json_number s \<Longrightarrow> NUL \<notin> set s"
  by (erule list_all_NUL [OF number_text_chars]) simp

lemma json_val_NUL:
  "json_val atof n s v \<Longrightarrow> NUL \<notin> set s" "json_elems atof n s vs \<Longrightarrow> NUL \<notin> set s" "json_members atof n s els \<Longrightarrow> NUL \<notin> set s"
  by (induction rule: json_val_json_elems_json_members.inducts)
    (auto dest: json_chars_NUL ws_NUL number_NUL)

lemma json_val_nonempty: "json_val atof n s v \<Longrightarrow> s \<noteq> []"
  by (auto elim: json_val_head)

section \<open>The buffer follows the containers\<close>

definition holds_frames :: "zbx_json \<Rightarrow> 'd frame list \<Rightarrow> bool" where
  "holds_frames j fs \<longleftrightarrow> fs \<noteq> [] \<and> json_holds j (pre_text fs) (post_text fs)
     \<and> status j = fr_status (hd fs) \<and> level j = int (length fs)"

lemma holds_frames_start:
  "holds_frames j [new_frame object None] \<longleftrightarrow>
    json_holds j [bracket_open object] [bracket_close object] \<and> status j = ZBX_JSON_EMPTY \<and> level j = 1"
  by (auto simp: holds_frames_def new_frame_def fr_status_def post_text_def)

lemma add_value_frame [simp]:
  "fr_obj (add_value name s v f) = fr_obj f" "fr_name (add_value name s v f) = fr_name f"
  "s \<noteq> [] \<Longrightarrow> fr_status (add_value name s v f) = ZBX_JSON_COMMA"
  "s \<noteq> [] \<Longrightarrow> fr_body (add_value name s v f) \<noteq> []"
  by (simp_all add: add_value_def fr_status_def)

lemma pre_text_add:
  "pre_text (add_value name s v f # fs) = pre_text (f # fs) @ lead_text (fr_status f) name @ s"
  by (simp add: add_value_def split: list.split)

lemma post_text_simps [simp]:
  "post_text (f # fs) = bracket_close (fr_obj f) # post_text fs"
  "post_text [] = []"
  by (simp_all add: post_text_def)

lemma holds_add:
  assumes "holds_frames j fs" "s \<noteq> []" "adds_to fs name"
    "\<exists>j'. oper = Some j' \<and> json_holds j' (pre_text fs @ lead_text (status j) name @ s) (post_text fs)
       \<and> level j' = level j \<and> status j' = ZBX_JSON_COMMA"
  shows "\<exists>j'. oper = Some j' \<and> holds_frames j' (add_top name s v fs)"
proof -
  obtain f gs where fs: "fs = f # gs" using assms(1) by (cases fs) (auto simp: holds_frames_def)
  show ?thesis using assms unfolding holds_frames_def fs
    by (auto simp: pre_text_add simp del: pre_text.simps)
qed

lemma holds_open:
  assumes "holds_frames j fs"
  shows "\<exists>j'. json_addobject j name object = Some j' \<and> holds_frames j' (new_frame object name # fs)"
proof -
  obtain f gs where fs: "fs = f # gs" using assms by (cases fs) (auto simp: holds_frames_def)
  have "json_holds j (pre_text fs) (post_text fs)" using assms by (simp add: holds_frames_def)
  from addobject_holds [OF this, of name object] show ?thesis using assms unfolding holds_frames_def fs
    by (auto simp: new_frame_def fr_status_def)
qed

lemma exec_op_holds:
  assumes "write_step atof fs oper fs'" "holds_frames j fs"
  shows "\<exists>j'. exec_op j oper = Some j' \<and> holds_frames j' fs'"
proof -
  have h: "json_holds j (pre_text fs) (post_text fs)" using assms(2) by (simp add: holds_frames_def)
  from assms(1) show ?thesis
  proof cases
    case (object name)
    then show ?thesis using holds_open [OF assms(2), of name True] by (simp add: zbx_json_addobject_def)
  next
    case (array name)
    then show ?thesis using holds_open [OF assms(2), of name False] by (simp add: zbx_json_addarray_def)
  next
    case (string name s)
    then show ?thesis using holds_add [OF assms(2) _ string(3) addstring_holds [OF h, of name "Some s" ZBX_JSON_TYPE_STRING]]
      by (simp add: scalar_text_def quoted_def)
  next
    case (null name)
    then show ?thesis using holds_add [OF assms(2) _ null(3) addstring_holds [OF h, of name None ZBX_JSON_TYPE_STRING]]
      by (simp add: scalar_text_def)
  next
    case (number name s)
    have "s \<noteq> []" using number(4) by (auto dest: json_number_head)
    then show ?thesis using holds_add [OF assms(2) _ number(3) addstring_holds [OF h, of name "Some s" ZBX_JSON_TYPE_INT]] number
      by (simp add: scalar_number)
  next
    case (uint64 name n)
    then show ?thesis
      using holds_add [OF assms(2) _ uint64(3) addstring_holds [OF h, of name "Some (dec_string (unat n))" ZBX_JSON_TYPE_INT]]
      by (simp add: scalar_number json_number_ints zbx_json_adduint64_def)
  next
    case (int64 name n)
    have "json_number (int64_text n)" by (simp add: int64_text_def json_number_ints)
    then show ?thesis
      using holds_add [OF assms(2) _ int64(3) addstring_holds [OF h, of name "Some (int64_text n)" ZBX_JSON_TYPE_INT]] int64
      by (simp add: scalar_number zbx_json_addint64_def) (simp add: int64_text_def)
  next
    case (raw name d s v)
    have "cstr s = s" using json_val_NUL(1) [OF raw(4)] by (simp add: cstr_def takeWhile_eq_all_conv) metis
    then show ?thesis using holds_add [OF assms(2) json_val_nonempty [OF raw(4)] raw(3)] addraw_holds [OF h, of name s] raw
      by simp
  next
    case (close f p gs)
    have "json_holds j (pre_text fs) (bracket_close (fr_obj f) # post_text (p # gs))" using h by (simp add: close)
    from close_holds [OF this] have "json_holds (fst (zbx_json_close j))
        (pre_text (add_value (fr_name f) (fr_text f) (fr_value f) p # gs)) (post_text (p # gs))"
      using assms(2) unfolding pre_text_add by (simp add: holds_frames_def close fr_text_def)
    then show ?thesis using assms(2) close
      by (simp add: holds_frames_def fr_text_def zbx_json_close_def del: pre_text.simps)
  next
    case (close_last f)
    then show ?thesis using assms(2) by (simp add: holds_frames_def zbx_json_close_def)
  next
    case clean
    then show ?thesis using clean_holds [OF h] by (auto simp: holds_frames_start bracket_open_def bracket_close_def)
  qed
qed

lemma exec_ops_holds:
  "write_steps atof fs ops fs' \<Longrightarrow> holds_frames j fs \<Longrightarrow> \<exists>j'. exec_ops j ops = Some j' \<and> holds_frames j' fs'"
proof (induction arbitrary: j rule: write_steps.induct)
  case (more fs oper fs' ops fs'')
  from exec_op_holds [OF more(1,4)] obtain j' where "exec_op j oper = Some j'" "holds_frames j' fs'" by blast
  then show ?case using more(3) by auto
qed simp

section \<open>The text is valid after every call\<close>

definition frame_ok :: "(string \<Rightarrow> 'd) \<Rightarrow> nat \<Rightarrow> 'd frame \<Rightarrow> bool" where
  "frame_ok atof n f \<longleftrightarrow> fr_body f = [] \<and> fr_vals f = []
     \<or> n \<le> 65 \<and> (if fr_obj f then json_members atof (65 - n) (fr_body f) (fr_vals f)
         else json_elems atof (65 - n) (fr_body f) (map snd (fr_vals f)))"

fun frames_ok :: "(string \<Rightarrow> 'd) \<Rightarrow> 'd frame list \<Rightarrow> bool" where
  "frames_ok atof [] = True"
| "frames_ok atof (f # fs) = (frame_ok atof (length (f # fs)) f
     \<and> (fs \<noteq> [] \<longrightarrow> adds_to fs (fr_name f)) \<and> frames_ok atof fs)"

lemma json_elems_append:
  "json_elems atof n s vs \<Longrightarrow> json_val atof n t v \<Longrightarrow> json_elems atof n (s @ CHR '','' # t) (vs @ [v])"
proof (induction s arbitrary: vs rule: length_induct)
  case (1 s)
  have last: "json_elems atof n t [v]"
    using json_val_json_elems_json_members.last_elem [of "[]" atof n t v "[]"] 1(3) by simp
  from 1(2) show ?case
  proof cases
    case (last_elem w s' x w')
    then show ?thesis
      using json_val_json_elems_json_members.elem [of w atof n s' x w' t "[v]"] last by simp
  next
    case (elem w s' x w' ss vs')
    then have "json_elems atof n (ss @ CHR '','' # t) (vs' @ [v])" using 1(1,3) by simp
    then show ?thesis
      using json_val_json_elems_json_members.elem [of w atof n s' x w' "ss @ CHR '','' # t" "vs' @ [v]"] elem by simp
  qed
qed

lemma json_members_one: "json_val atof n t v \<Longrightarrow> json_members atof n (quoted k @ CHR '':'' # t) [(cstr k, v)]"
  using json_val_json_elems_json_members.last_member [of "[]" "escape_string k" "cstr k" "[]" "[]" atof n t v "[]"]
    escape_json_chars [of k] by (simp add: quoted_def)

lemma json_members_append:
  "json_members atof n s els \<Longrightarrow> json_val atof n t v \<Longrightarrow>
   json_members atof n (s @ CHR '','' # quoted k @ CHR '':'' # t) (els @ [(cstr k, v)])"
proof (induction s arbitrary: els rule: length_induct)
  case (1 s)
  note last = json_members_one [OF 1(3), of k]
  from 1(2) show ?case
  proof cases
    case (last_member w k' b w1 w2 s' x w3)
    then show ?thesis
      using json_val_json_elems_json_members.member [OF last_member(3-8) last] by simp
  next
    case (member w k' b w1 w2 s' x w3 ss els')
    then have "json_members atof n (ss @ CHR '','' # quoted k @ CHR '':'' # t) (els' @ [(cstr k, v)])" using 1(1,3) by simp
    from json_val_json_elems_json_members.member [OF member(3-8) this] show ?thesis using member(1,2) by simp
  qed
qed

lemma json_elems_nonempty: "json_elems atof n s vs \<Longrightarrow> s \<noteq> []"
  by (erule json_elems.cases) (auto dest: json_val_nonempty)

lemma json_members_nonempty: "json_members atof n s els \<Longrightarrow> s \<noteq> []"
  by (erule json_members.cases) auto

text \<open>A value that goes below a container at level \<open>n\<close> may have \<open>65 - n\<close> more levels.\<close>

lemma add_value_ok:
  assumes "frame_ok atof n f" "json_val atof (65 - n) s v" "n \<le> 65" "(name \<noteq> None) = fr_obj f"
  shows "frame_ok atof n (add_value name s v f)"
proof (cases "fr_body f = []")
  case True
  then have v: "fr_vals f = []" using assms(1)
    by (auto simp: frame_ok_def split: if_splits dest: json_elems_nonempty json_members_nonempty)
  then show ?thesis
    using True assms json_members_one [OF assms(2)] json_val_json_elems_json_members.last_elem [of "[]" atof "65 - n" s v "[]"]
    by (auto simp: frame_ok_def add_value_def fr_status_def lead_text_def)
next
  case False
  then show ?thesis
    using assms json_members_append [OF _ assms(2)] json_elems_append [OF _ assms(2)]
    by (auto simp: frame_ok_def add_value_def fr_status_def lead_text_def)
qed

lemma fr_value_ok:
  assumes "frame_ok atof (Suc n) f" "n \<le> 65"
  shows "json_val atof (65 - n) (fr_text f) (fr_value f)"
proof (cases "fr_body f = [] \<and> fr_vals f = []")
  case True
  then show ?thesis
    using json_val_json_elems_json_members.array_empty [of "[]" atof "65 - n"]
      json_val_json_elems_json_members.object_empty [of "[]" atof "65 - n"]
    by (auto simp: fr_text_def fr_value_def bracket_open_def bracket_close_def)
next
  case False
  then have s: "Suc n \<le> 65" "65 - n = Suc (65 - Suc n)" using assms by (auto simp: frame_ok_def)
  show ?thesis unfolding s(2) using False assms(1)
      json_val_json_elems_json_members.array [of atof "65 - Suc n" "fr_body f" "map snd (fr_vals f)"]
      json_val_json_elems_json_members.object [of atof "65 - Suc n" "fr_body f" "fr_vals f"]
    by (auto simp: frame_ok_def fr_text_def fr_value_def bracket_open_def bracket_close_def)
qed

lemma frames_ok_add_top:
  assumes "frames_ok atof fs" "adds_to fs name" "json_val atof (65 - length fs) s v"
  shows "frames_ok atof (add_top name s v fs)"
proof -
  obtain f gs where fs: "fs = f # gs" using assms(2) by (cases fs) (auto simp: adds_to_def)
  show ?thesis using assms add_value_ok [of atof "length fs" f s v name] by (simp add: fs adds_to_def)
qed

lemma frames_ok_new: "frames_ok atof fs \<Longrightarrow> fs \<noteq> [] \<longrightarrow> adds_to fs name \<Longrightarrow> frames_ok atof (new_frame object name # fs)"
  by (simp add: new_frame_def frame_ok_def)

lemma json_val_more:
  "json_val atof n s v \<Longrightarrow> \<forall>m\<ge>n. json_val atof m s v"
  "json_elems atof n s vs \<Longrightarrow> \<forall>m\<ge>n. json_elems atof m s vs"
  "json_members atof n s els \<Longrightarrow> \<forall>m\<ge>n. json_members atof m s els"
proof (induction rule: json_val_json_elems_json_members.inducts)
  case (array n s vs)
  show ?case
  proof (intro allI impI)
    fix m assume "Suc n \<le> m"
    then obtain k where "m = Suc k" "n \<le> k" by (cases m) auto
    then show "json_val atof m (CHR ''['' # s @ '']'') (JSON_ARRAY vs)"
      using array(2) json_val_json_elems_json_members.array by blast
  qed
next
  case (object n s els)
  show ?case
  proof (intro allI impI)
    fix m assume "Suc n \<le> m"
    then obtain k where "m = Suc k" "n \<le> k" by (cases m) auto
    then show "json_val atof m (CHR ''{'' # s @ ''}'') (JSON_OBJECT (object_value els))"
      using object(2) json_val_json_elems_json_members.object by blast
  qed
qed (intro allI impI, rule json_val_json_elems_json_members.intros; simp)+

lemma write_step_ok: "write_step atof fs oper fs' \<Longrightarrow> frames_ok atof fs \<Longrightarrow> frames_ok atof fs'"
proof (induction rule: write_step.induct)
  case (raw fs name d s v)
  have "d \<le> 65 - length fs" using raw(3) by simp
  then show ?case using raw frames_ok_add_top [OF raw(4,1)] json_val_more(1) [OF raw(2)] by blast
next
  case (close f p fs)
  then have "frame_ok atof (Suc (length (p # fs))) f" "length (p # fs) \<le> 65" "adds_to (p # fs) (fr_name f)"
    by (simp_all add: adds_to_def)
  from frames_ok_add_top [OF _ this(3) fr_value_ok [OF this(1,2)]] close show ?case by simp
next
  case (int64 fs name n)
  have "json_number (int64_text n)" by (simp add: int64_text_def json_number_ints)
  from frames_ok_add_top [OF int64(2,1) json_val_json_elems_json_members.number [OF this]] show ?case .
next
  case (clean fs)
  then show ?case by (simp add: new_frame_def frame_ok_def)
next
  case (object fs name)
  then show ?case by (intro frames_ok_new) simp_all
next
  case (array fs name)
  then show ?case by (intro frames_ok_new) simp_all
next
  case (string fs name s)
  from frames_ok_add_top [OF string(2,1) quoted_val] show ?case .
next
  case (null fs name)
  from frames_ok_add_top [OF null(2,1) json_val_json_elems_json_members.null] show ?case .
next
  case (number fs name s)
  from frames_ok_add_top [OF number(3,1) json_val_json_elems_json_members.number [OF number(2)]] show ?case .
next
  case (uint64 fs name n)
  from frames_ok_add_top [OF uint64(2,1) json_val_json_elems_json_members.number [OF json_number_ints(1)]] show ?case .
qed

lemma write_steps_ok: "write_steps atof fs ops fs' \<Longrightarrow> frames_ok atof fs \<Longrightarrow> frames_ok atof fs'"
  by (induction rule: write_steps.induct) (auto dest: write_step_ok)

lemma close_all_ok:
  "frames_ok atof fs \<Longrightarrow> fs \<noteq> [] \<Longrightarrow>
   \<exists>g. close_all fs = Some g \<and> frame_ok atof 1 g \<and> pre_text fs @ post_text fs = fr_text g"
proof (induction fs rule: close_all.induct)
  case (2 f)
  then show ?case by (simp add: fr_text_def)
next
  case (3 f p fs)
  have "write_step atof (f # p # fs) CloseTop (add_value (fr_name f) (fr_text f) (fr_value f) p # fs)"
    by (rule write_step.close)
  from write_step_ok [OF this 3(2)] 3(1) obtain g where
    g: "close_all (f # p # fs) = Some g" "frame_ok atof 1 g"
    "pre_text (add_value (fr_name f) (fr_text f) (fr_value f) p # fs) @ post_text (p # fs) = fr_text g" by auto
  have "pre_text (f # p # fs) @ post_text (f # p # fs) = fr_text g"
    using g(3) unfolding pre_text_add by (simp add: fr_text_def)
  then show ?case using g by blast
qed simp

text \<open>The same text denotes a value whatever the conversion of numbers.\<close>

lemma json_val_unit:
  "json_val atof n s v \<Longrightarrow> \<exists>v'. json_val f n s v'"
  "json_elems atof n s vs \<Longrightarrow> \<exists>vs'. json_elems f n s vs'"
  "json_members atof n s els \<Longrightarrow> \<exists>els'. json_members f n s els'"
proof (induction rule: json_val_json_elems_json_members.inducts)
qed ((elim exE)?, rule exI, rule json_val_json_elems_json_members.intros; assumption)+

lemma json_text_unit: "json_text atof p n v \<Longrightarrow> \<exists>v. json_text f p n v"
  unfolding json_text_def
proof (elim exE conjE)
  fix w s w'
  assume t: "p = w @ s @ w'" "list_all is_ws w" "list_all is_ws w'" "n = length s" "json_val atof 65 s v"
    "hd s = CHR ''{'' \<or> hd s = CHR ''[''"
  from json_val_unit(1) [OF t(5)] obtain v' where "json_val f 65 s v'" by blast
  then show "\<exists>v w s w'. p = w @ s @ w' \<and> list_all is_ws w \<and> list_all is_ws w' \<and> n = length s \<and> json_val f 65 s v
      \<and> (hd s = CHR ''{'' \<or> hd s = CHR ''['')" using t by blast
qed

lemma json_text_NUL: "json_text atof p n v \<Longrightarrow> NUL \<notin> set p"
  unfolding json_text_def by (auto dest: ws_NUL json_val_NUL(1))

definition run_writer :: "(nat \<Rightarrow> char) \<Rightarrow> nat \<Rightarrow> bool \<Rightarrow> write_op list \<Rightarrow> zbx_json option" where
  "run_writer fresh allocate object ops = do {
     j \<leftarrow> (if object then zbx_json_init fresh allocate else zbx_json_initarray fresh allocate);
     exec_ops j ops
   }"

lemma run_writer_holds:
  assumes "write_steps atof [new_frame object None] ops fs"
  shows "\<exists>j. run_writer fresh allocate object ops = Some j \<and> holds_frames j fs"
proof -
  obtain j where j: "(if object then zbx_json_init fresh allocate else zbx_json_initarray fresh allocate) = Some j"
      "holds_frames j [new_frame object None :: 'a frame]"
    using init_holds [of fresh allocate]
    by (cases object) (auto simp: holds_frames_start bracket_open_def bracket_close_def)
  from exec_ops_holds [OF assms j(2)] j(1) show ?thesis by (auto simp: run_writer_def)
qed

lemma written_text:
  assumes "write_steps atof [new_frame object None] ops fs" "holds_frames j fs"
  shows "\<exists>g. close_all fs = Some g \<and> json_text atof (json_buffer j) (buffer_size j) (fr_value g)"
proof -
  have "frames_ok atof fs" using write_steps_ok [OF assms(1)] by (simp add: new_frame_def frame_ok_def)
  from close_all_ok [OF this] assms(2) obtain g where
    g: "close_all fs = Some g" "frame_ok atof 1 g" "pre_text fs @ post_text fs = fr_text g"
    by (auto simp: holds_frames_def)
  have h: "json_holds j (pre_text fs) (post_text fs)" using assms(2) by (simp add: holds_frames_def)
  then have b: "json_buffer j = fr_text g" "buffer_size j = length (fr_text g)"
    unfolding g(3) [symmetric] by (simp_all add: json_holds_buffer(1) [OF h] json_holds_def)
  have "json_val atof 65 (fr_text g) (fr_value g)" using fr_value_ok [of atof 0 g] g(2) by simp
  then have "json_text atof (fr_text g) (length (fr_text g)) (fr_value g)"
    unfolding json_text_def
    by (intro exI [of _ "[]"] exI [of _ "fr_text g"]) (auto simp: fr_text_def bracket_open_def)
  then show ?thesis using g(1) b by auto
qed

section \<open>A sample sequence of calls\<close>

definition sample_ops :: "write_op list" where
  "sample_ops = [AddString (Some ''a'') [QUOTE, CHR 0x0A], AddArray (Some ''b''), AddUint64 None 5, CloseTop]"

definition sample_inner :: "string frame" where
  "sample_inner = add_value None ''5'' (JSON_NUMBER ''5'') (new_frame False (Some ''b''))"

definition sample_outer :: "string frame" where
  "sample_outer = add_value (Some ''a'') (quoted [QUOTE, CHR 0x0A]) (JSON_STRING [QUOTE, CHR 0x0A]) (new_frame True None)"

definition sample_final :: "string frame" where
  "sample_final = add_value (Some ''b'') (fr_text sample_inner) (fr_value sample_inner) sample_outer"

lemma sample_steps: "write_steps numeral_text [new_frame True None] sample_ops [sample_final]"
proof -
  have obj: "fr_obj sample_outer" "fr_obj (new_frame True None :: string frame)" "\<not> fr_obj (new_frame False n :: string frame)" for n
    by (simp_all add: sample_outer_def new_frame_def)
  have "char_of (of_char (CHR ''5'') :: nat) = CHR ''5''" by (rule char_of_char)
  then have five: "dec_string 5 = ''5''" by (subst dec_string.simps) (simp add: dec_digit_def)
  have "numeral_text ''5'' = ''5''" by (simp add: numeral_text_def isdigit_def)
  then have u: "write_step numeral_text [new_frame False (Some ''b''), sample_outer] (AddUint64 None 5) [sample_inner, sample_outer]"
    using write_step.uint64 [of "[new_frame False (Some ''b''), sample_outer]" None numeral_text 5] obj
    by (simp add: adds_to_def five sample_inner_def)
  have s: "write_step numeral_text [new_frame True None] (AddString (Some ''a'') [QUOTE, CHR 0x0A]) [sample_outer]"
    using write_step.string [of "[new_frame True None]" "Some ''a''" numeral_text "[QUOTE, CHR 0x0A]"] obj
    by (simp add: adds_to_def sample_outer_def cstr_def)
  have a: "write_step numeral_text [sample_outer] (AddArray (Some ''b'')) [new_frame False (Some ''b''), sample_outer]"
    using obj by (intro write_step.array) (simp add: adds_to_def)
  have c: "write_step numeral_text [sample_inner, sample_outer] CloseTop [sample_final]"
    using write_step.close [of numeral_text sample_inner sample_outer "[]"]
    by (simp add: sample_final_def) (simp add: sample_inner_def new_frame_def add_value_def)
  show ?thesis unfolding sample_ops_def
    by (intro write_steps.more [OF s] write_steps.more [OF a] write_steps.more [OF u] write_steps.more [OF c] write_steps.refl)
qed

lemma sample_final_text:
  "pre_text [sample_final] @ post_text [sample_final]
    = ''{'' @ QUOTE # ''a'' @ QUOTE # '':'' @ QUOTE # BACKSLASH # QUOTE # BACKSLASH # ''n'' @ QUOTE # '','' @ QUOTE # ''b'' @ QUOTE # '':[5]}''"
  "close_all [sample_final] = Some sample_final"
  "fr_value sample_final = JSON_OBJECT [(''a'', JSON_STRING [QUOTE, CHR 0x0A]), (''b'', JSON_ARRAY [JSON_NUMBER ''5''])]"
  by (simp_all add: sample_final_def sample_inner_def sample_outer_def add_value_def new_frame_def fr_text_def fr_value_def
      bracket_open_def bracket_close_def fr_status_def lead_text_def quoted_def escape_string_def cstr_def escape_bytes_def
      short_escape_def object_value_def)

text \<open>
  C9: any allowed sequence of calls, from a new buffer of any size on, ends without an access outside of the buffer; the
  buffer holds the text of the containers written so far, closed, with its terminator inside the allocated memory, and
  the cursor stands before the closing brackets.
\<close>

theorem json_writer_refines:
  assumes "write_steps atof [new_frame object None] ops fs"
  shows "\<exists>j. run_writer fresh allocate object ops = Some j \<and> json_buffer j = pre_text fs @ post_text fs
    \<and> mem j (buffer_size j) = NUL \<and> buffer_size j < buffer_allocated j
    \<and> buffer_offset j = length (pre_text fs) \<and> level j = int (length fs)"
  using run_writer_holds [OF assms, of fresh allocate] json_holds_buffer
  by (auto simp: holds_frames_def json_holds_def intro: json_holds_buffer)

theorem json_writer_refines_witness:
  "\<exists>j. run_writer (\<lambda>i. CHR ''?'') 16 True sample_ops = Some j
    \<and> json_buffer j = ''{'' @ QUOTE # ''a'' @ QUOTE # '':'' @ QUOTE # BACKSLASH # QUOTE # BACKSLASH # ''n'' @ QUOTE # '',''
        @ QUOTE # ''b'' @ QUOTE # '':[5]}''"
  using json_writer_refines [OF sample_steps, of "\<lambda>i. CHR ''?''" 16] unfolding sample_final_text by blast

text \<open>
  C6: after any allowed sequence of calls the text in the buffer passes the validation with its whole length, and opens
  as exactly the tree of values that was written, open containers closed.
\<close>

theorem json_writer_roundtrip:
  assumes "atof_ok atof" "write_steps atof [new_frame object None] ops fs"
  shows "\<exists>j g. run_writer fresh allocate object ops = Some j \<and> close_all fs = Some g
    \<and> zbx_json_validate (json_buffer j) = Inr (buffer_size j)
    \<and> zbx_jsonobj_open atof (json_buffer j) = Inr (Some (fr_value g))"
proof -
  obtain j where j: "run_writer fresh allocate object ops = Some j" "holds_frames j fs"
    using run_writer_holds [OF assms(2)] by blast
  obtain g where g: "close_all fs = Some g" "json_text atof (json_buffer j) (buffer_size j) (fr_value g)"
    using written_text [OF assms(2) j(2)] by blast
  have "\<exists>v. json_text (\<lambda>_. ()) (json_buffer j) (buffer_size j) v" using json_text_unit [OF g(2)] .
  moreover have "NUL \<notin> set (json_buffer j)" using json_text_NUL [OF g(2)] .
  ultimately show ?thesis using validate_exact open_exact [OF assms(1)] j(1) g by blast
qed

theorem json_writer_roundtrip_witness:
  "\<exists>j. run_writer (\<lambda>i. CHR ''?'') 16 True sample_ops = Some j
    \<and> zbx_json_validate (json_buffer j) = Inr (buffer_size j)
    \<and> zbx_jsonobj_open numeral_text (json_buffer j)
      = Inr (Some (JSON_OBJECT [(''a'', JSON_STRING [QUOTE, CHR 0x0A]), (''b'', JSON_ARRAY [JSON_NUMBER ''5''])]))"
  using json_writer_roundtrip [OF numeral_text_ok sample_steps, of "\<lambda>i. CHR ''?''" 16] sample_final_text(2,3) by auto

end
