(* ===== verification/ZbxProxyBuffer.thy ===== *)
theory ZbxProxyBuffer
  imports ZbxJsonTree
begin

text \<open>
  The proxy's buffer of collected data, \<^verbatim>\<open>src/libs/zbxproxybuffer\<close>: \<^verbatim>\<open>proxybuffer.c\<close> with the history part \<^verbatim>\<open>pb_history.c\<close>
  and what \<^verbatim>\<open>proxybuffer.c\<close> uses of \<^verbatim>\<open>pb_discovery.c\<close> and \<^verbatim>\<open>pb_autoreg.c\<close>.

  \<^item> The database is a parameter: a record of the statements the code executes, on a state of any type.
  \<^item> Lists in shared memory are lists; whether the allocator has room for a row is the parameter \<open>fits\<close>. Which items
    are sent, which the configuration cache knows, is the parameter \<open>exportable\<close>, and the time is an argument.
  \<^item> A handle is opened, filled and closed by one process while others do the same. \<^verbatim>\<open>zbx_pb_history_close\<close> is three
    functions here: the part under the lock, the transaction, and the part under the lock at the end.
\<close>

unbundle bit_operations_syntax

section \<open>Data\<close>

datatype zbx_pb_state_t = PB_DATABASE | PB_DATABASE_MEMORY | PB_MEMORY | PB_MEMORY_DATABASE

datatype zbx_pb_mode = ZBX_PB_MODE_DISK | ZBX_PB_MODE_MEMORY | ZBX_PB_MODE_HYBRID

datatype pb_more = ZBX_PROXY_DATA_DONE | ZBX_PROXY_DATA_MORE

fun get_pb_dst :: "zbx_pb_state_t \<Rightarrow> zbx_pb_state_t" where
  "get_pb_dst PB_DATABASE = PB_DATABASE"
| "get_pb_dst PB_DATABASE_MEMORY = PB_MEMORY"
| "get_pb_dst PB_MEMORY = PB_MEMORY"
| "get_pb_dst PB_MEMORY_DATABASE = PB_DATABASE"

fun get_pb_src :: "zbx_pb_state_t \<Rightarrow> zbx_pb_state_t" where
  "get_pb_src PB_DATABASE = PB_DATABASE"
| "get_pb_src PB_DATABASE_MEMORY = PB_DATABASE"
| "get_pb_src PB_MEMORY = PB_MEMORY"
| "get_pb_src PB_MEMORY_DATABASE = PB_MEMORY"

record zbx_pb_history =
  row_id :: nat
  row_itemid :: nat
  row_lastlogsize :: nat
  row_sec :: int
  row_ns :: int
  row_value :: string
  row_source :: string
  row_timestamp :: int
  row_severity :: int
  row_logeventid :: int
  row_state :: int
  row_mtime :: int
  row_flags :: "32 word"
  row_write_clock :: int

record zbx_pb_discovery =
  drow_id :: nat
  drow_druleid :: nat
  drow_dcheckid :: nat
  drow_handleid :: nat
  drow_dns :: string
  drow_ip :: string
  drow_value :: string
  drow_error :: string
  drow_port :: int
  drow_clock :: int
  drow_status :: int

record zbx_pb_autoreg =
  arow_id :: nat
  arow_host :: string
  arow_listen_ip :: string
  arow_listen_dns :: string
  arow_host_metadata :: string
  arow_listen_port :: int
  arow_tls_accepted :: int
  arow_flags :: int
  arow_clock :: int

record zbx_pb =
  pb_history :: "zbx_pb_history list"
  pb_discovery :: "zbx_pb_discovery list"
  pb_autoreg :: "zbx_pb_autoreg list"
  pb_mode :: zbx_pb_mode
  pb_state :: zbx_pb_state_t
  db_handles_num :: int
  max_age :: int
  offline_buffer :: int
  changes_num :: nat
  history_lastid_sent :: nat
  discovery_lastid_sent :: nat
  autoreg_lastid_sent :: nat
  history_lastid_db :: nat
  discovery_lastid_db :: nat
  autoreg_lastid_db :: nat
  history_lastid_mem :: nat
  last_handleid :: nat
  history_handleids :: "nat list"

text \<open>The tables and the statements: insert rows, select rows after an id in their order, the greatest id, the id last sent.\<close>

datatype pb_table = PROXY_HISTORY | PROXY_DHISTORY | PROXY_AUTOREG_HOST

record 'db pb_db =
  insert_history :: "zbx_pb_history list \<Rightarrow> 'db \<Rightarrow> 'db"
  insert_discovery :: "zbx_pb_discovery list \<Rightarrow> 'db \<Rightarrow> 'db"
  insert_autoreg :: "zbx_pb_autoreg list \<Rightarrow> 'db \<Rightarrow> 'db"
  select_history :: "nat \<Rightarrow> nat \<Rightarrow> 'db \<Rightarrow> zbx_pb_history list"
  select_maxid :: "pb_table \<Rightarrow> 'db \<Rightarrow> nat"
  select_lastid :: "pb_table \<Rightarrow> 'db \<Rightarrow> nat"
  store_lastid :: "pb_table \<Rightarrow> nat \<Rightarrow> 'db \<Rightarrow> 'db"

section \<open>Memory\<close>

definition zbx_shmem_required_chunk_size :: "nat \<Rightarrow> nat" where
  "zbx_shmem_required_chunk_size n =
     (if n = 0 then 0 else (if 24 \<le> n then n + (8 - n mod 8) mod 8 else 24) + 16)"

text \<open>The sizes of the structures are those of a 64-bit build.\<close>

definition pb_history_estimate_row_size :: "zbx_pb_history \<Rightarrow> nat" where
  "pb_history_estimate_row_size r =
     zbx_shmem_required_chunk_size 80 + zbx_shmem_required_chunk_size 16
     + zbx_shmem_required_chunk_size (length (row_value r) + 1) + zbx_shmem_required_chunk_size (length (row_source r) + 1)"

definition pb_discovery_estimate_row_size :: "zbx_pb_discovery \<Rightarrow> nat" where
  "pb_discovery_estimate_row_size r =
     zbx_shmem_required_chunk_size 80 + zbx_shmem_required_chunk_size 16
     + zbx_shmem_required_chunk_size (length (drow_value r) + 1) + zbx_shmem_required_chunk_size (length (drow_ip r) + 1)
     + zbx_shmem_required_chunk_size (length (drow_dns r) + 1) + zbx_shmem_required_chunk_size (length (drow_error r) + 1)"

definition pb_autoreg_estimate_row_size :: "zbx_pb_autoreg \<Rightarrow> nat" where
  "pb_autoreg_estimate_row_size r =
     zbx_shmem_required_chunk_size 56 + zbx_shmem_required_chunk_size 16
     + zbx_shmem_required_chunk_size (length (arow_host r) + 1) + zbx_shmem_required_chunk_size (length (arow_host_metadata r) + 1)
     + zbx_shmem_required_chunk_size (length (arow_listen_ip r) + 1) + zbx_shmem_required_chunk_size (length (arow_listen_dns r) + 1)"

text \<open>Discarding the oldest records; the clocks of the first records are compared, an empty list counts as the latest.\<close>

fun pop_discovery :: "nat \<Rightarrow> int \<Rightarrow> zbx_pb_discovery list \<Rightarrow> int \<times> zbx_pb_discovery list" where
  "pop_discovery handleid size_left [] = (size_left, [])"
| "pop_discovery handleid size_left (d # ds) =
     (if drow_handleid d = handleid
      then pop_discovery handleid (size_left - int (pb_discovery_estimate_row_size d)) ds
      else (size_left, d # ds))"

lemma pop_discovery_length: "length (snd (pop_discovery h s ds)) \<le> length ds"
  by (induction h s ds rule: pop_discovery.induct) auto

definition hclock :: "zbx_pb \<Rightarrow> int" where
  "hclock pb = (case pb_history pb of [] \<Rightarrow> INT_MAX | h # _ \<Rightarrow> row_sec h)"

definition discovery_older :: "zbx_pb \<Rightarrow> bool" where
  "discovery_older pb = (case pb_discovery pb of [] \<Rightarrow> False | d # _ \<Rightarrow> drow_clock d < hclock pb)"

definition oldest_clock :: "zbx_pb \<Rightarrow> int" where
  "oldest_clock pb = (if discovery_older pb then drow_clock (hd (pb_discovery pb)) else hclock pb)"

definition autoreg_older :: "zbx_pb \<Rightarrow> bool" where
  "autoreg_older pb = (case pb_autoreg pb of [] \<Rightarrow> False | a # _ \<Rightarrow> arow_clock a < oldest_clock pb)"

function pb_free_loop :: "zbx_pb \<Rightarrow> int \<Rightarrow> zbx_pb \<times> bool" where
  "pb_free_loop pb size_left =
     (if size_left \<le> 0 then (pb, True)
      else if autoreg_older pb then
        pb_free_loop (pb\<lparr>pb_autoreg := tl (pb_autoreg pb)\<rparr>)
          (size_left - int (pb_autoreg_estimate_row_size (hd (pb_autoreg pb))))
      else if discovery_older pb then
        let d = hd (pb_discovery pb);
            (left, rest) = pop_discovery (drow_handleid d) (size_left - int (pb_discovery_estimate_row_size d)) (tl (pb_discovery pb))
        in pb_free_loop (pb\<lparr>pb_discovery := rest\<rparr>) left
      else
        (case pb_history pb of
           [] \<Rightarrow> (pb, False)
         | h # hs \<Rightarrow> pb_free_loop (pb\<lparr>pb_history := hs\<rparr>) (size_left - int (pb_history_estimate_row_size h))))"
  by pat_completeness auto
termination pb_free_loop
proof (relation "measure (\<lambda>(pb, _). length (pb_history pb) + length (pb_discovery pb) + length (pb_autoreg pb))", goal_cases)
  case (2 pb size_left)
  then show ?case by (cases "pb_autoreg pb") (auto simp: autoreg_older_def)
next
  case (3 pb size_left d x left rest)
  have "length rest \<le> length (tl (pb_discovery pb))"
    using pop_discovery_length [of "drow_handleid d" "size_left - int (pb_discovery_estimate_row_size d)" "tl (pb_discovery pb)"]
    unfolding 3(5) [symmetric] 3(6) [symmetric] by simp
  then show ?case using 3(3) by (cases "pb_discovery pb") (auto simp: discovery_older_def)
qed auto

declare pb_free_loop.simps [simp del]

definition pb_free_space :: "zbx_pb \<Rightarrow> nat \<Rightarrow> zbx_pb \<times> bool" where
  "pb_free_space pb n = pb_free_loop pb (int n)"

section \<open>State changes and the database\<close>

definition pb_set_state :: "zbx_pb \<Rightarrow> zbx_pb_state_t \<Rightarrow> zbx_pb" where
  "pb_set_state pb new_state =
     (let pb = (if pb_state pb = PB_DATABASE \<or> pb_state pb = PB_MEMORY then pb\<lparr>changes_num := changes_num pb + 1\<rparr> else pb)
      in pb\<lparr>pb_state := new_state\<rparr>)"

definition last_id :: "('r \<Rightarrow> nat) \<Rightarrow> 'r list \<Rightarrow> nat" where
  "last_id f rows = (if rows = [] then 0 else f (last rows))"

text \<open>Rows are inserted in one statement when there are any; the result is the last id.\<close>

definition pb_history_add_rows_db ::
  "('db, 'b) pb_db_scheme \<Rightarrow> zbx_pb_history list \<Rightarrow> 'db \<Rightarrow> 'db \<times> nat" where
  "pb_history_add_rows_db D rows db = (if rows = [] then (db, 0) else (insert_history D rows db, last_id row_id rows))"

definition pb_history_flush :: "('db, 'b) pb_db_scheme \<Rightarrow> zbx_pb \<Rightarrow> 'db \<Rightarrow> zbx_pb \<times> 'db" where
  "pb_history_flush D pb db =
     (let (db, lastid) = pb_history_add_rows_db D (pb_history pb) db
      in (if history_lastid_db pb < lastid then pb\<lparr>history_lastid_db := lastid\<rparr> else pb, db))"

definition pb_discovery_flush :: "('db, 'b) pb_db_scheme \<Rightarrow> zbx_pb \<Rightarrow> 'db \<Rightarrow> zbx_pb \<times> 'db" where
  "pb_discovery_flush D pb db =
     (let db = (if pb_discovery pb = [] then db else insert_discovery D (pb_discovery pb) db);
          lastid = last_id drow_id (pb_discovery pb)
      in (if discovery_lastid_db pb < lastid then pb\<lparr>discovery_lastid_db := lastid\<rparr> else pb, db))"

definition pb_autoreg_flush :: "('db, 'b) pb_db_scheme \<Rightarrow> zbx_pb \<Rightarrow> 'db \<Rightarrow> zbx_pb \<times> 'db" where
  "pb_autoreg_flush D pb db =
     (let db = (if pb_autoreg pb = [] then db else insert_autoreg D (pb_autoreg pb) db);
          lastid = last_id arow_id (pb_autoreg pb)
      in (if autoreg_lastid_db pb < lastid then pb\<lparr>autoreg_lastid_db := lastid\<rparr> else pb, db))"

definition pb_history_clear :: "zbx_pb \<Rightarrow> nat \<Rightarrow> zbx_pb" where
  "pb_history_clear pb lastid = pb\<lparr>pb_history := dropWhile (\<lambda>r. row_id r \<le> lastid) (pb_history pb)\<rparr>"

text \<open>Clearing up to \<^verbatim>\<open>UINT64_MAX\<close> drops every row.\<close>

definition pb_clear_all :: "zbx_pb \<Rightarrow> zbx_pb" where
  "pb_clear_all pb = pb\<lparr>pb_history := [], pb_discovery := [], pb_autoreg := []\<rparr>"

definition pb_flush_lastids :: "('db, 'b) pb_db_scheme \<Rightarrow> zbx_pb \<Rightarrow> 'db \<Rightarrow> 'db" where
  "pb_flush_lastids D pb db =
     (let db = (if history_lastid_sent pb \<noteq> 0 then store_lastid D PROXY_HISTORY (history_lastid_sent pb) db else db);
          db = (if discovery_lastid_sent pb \<noteq> 0 then store_lastid D PROXY_DHISTORY (discovery_lastid_sent pb) db else db)
      in if autoreg_lastid_sent pb \<noteq> 0 then store_lastid D PROXY_AUTOREG_HOST (autoreg_lastid_sent pb) db else db)"

definition has_mem_rows :: "zbx_pb \<Rightarrow> bool" where
  "has_mem_rows pb \<longleftrightarrow> pb_history pb \<noteq> [] \<or> pb_discovery pb \<noteq> [] \<or> pb_autoreg pb \<noteq> []"

text \<open>The transaction is repeated while the database is down; what is modelled is the time it succeeds.\<close>

definition pb_flush :: "('db, 'b) pb_db_scheme \<Rightarrow> zbx_pb \<Rightarrow> 'db \<Rightarrow> zbx_pb \<times> 'db" where
  "pb_flush D pb db =
     (let (pb, db) =
        (if pb_mode pb \<noteq> ZBX_PB_MODE_MEMORY \<and> has_mem_rows pb then
           let (pb, db) = pb_autoreg_flush D pb db;
               (pb, db) = pb_discovery_flush D pb db;
               (pb, db) = pb_history_flush D pb db
           in (pb, pb_flush_lastids D pb db)
         else (pb, db))
      in (pb_clear_all pb, db))"

definition pd_fallback_to_database :: "('db, 'b) pb_db_scheme \<Rightarrow> zbx_pb \<Rightarrow> 'db \<Rightarrow> zbx_pb \<times> 'db" where
  "pd_fallback_to_database D pb db = (let (pb, db) = pb_flush D pb db in (pb_set_state pb PB_DATABASE, db))"

definition pb_update_state :: "('db, 'b) pb_db_scheme \<Rightarrow> zbx_pb \<Rightarrow> 'db \<Rightarrow> pb_more \<Rightarrow> zbx_pb \<times> 'db" where
  "pb_update_state D pb db more_data =
     (if pb_mode pb \<noteq> ZBX_PB_MODE_HYBRID then (pb, db)
      else case pb_state pb of
          PB_MEMORY \<Rightarrow> (pb, db)
        | PB_MEMORY_DATABASE \<Rightarrow>
            if \<not> has_mem_rows pb then (pb_set_state pb PB_DATABASE, pb_flush_lastids D pb db) else (pb, db)
        | PB_DATABASE \<Rightarrow>
            if more_data = ZBX_PROXY_DATA_DONE then (pb_set_state pb PB_DATABASE_MEMORY, db) else (pb, db)
        | PB_DATABASE_MEMORY \<Rightarrow>
            if db_handles_num pb = 0 \<and> history_lastid_db pb \<le> history_lastid_sent pb
              \<and> discovery_lastid_db pb \<le> discovery_lastid_sent pb \<and> autoreg_lastid_db pb \<le> autoreg_lastid_sent pb
            then (pb_set_state pb PB_MEMORY, db) else (pb, db))"

section \<open>Row ids\<close>

text \<open>
  Ids come from two caches of last ids, which are filled from the table when they are first asked: \<^verbatim>\<open>zbx_dc_get_nextid\<close> in
  \<^verbatim>\<open>cachehistory.c\<close> gives them to rows for memory, with \<open>None\<close> for a table it has no entry of, and
  \<^verbatim>\<open>dbconn_get_cached_nextid\<close> in \<^verbatim>\<open>dbmisc.c\<close> to rows that an insert statement writes, with 0 for a table not asked for yet.
\<close>

definition zbx_dc_get_nextid :: "('db, 'b) pb_db_scheme \<Rightarrow> pb_table \<Rightarrow> 'db \<Rightarrow> nat option \<Rightarrow> nat \<Rightarrow> nat \<times> nat option" where
  "zbx_dc_get_nextid D table db entry num =
     (let lastid = (case entry of None \<Rightarrow> select_maxid D table db | Some lastid \<Rightarrow> lastid)
      in (lastid + 1, Some (lastid + num)))"

definition dbconn_get_cached_nextid :: "('db, 'b) pb_db_scheme \<Rightarrow> pb_table \<Rightarrow> 'db \<Rightarrow> nat \<Rightarrow> nat \<Rightarrow> nat \<times> nat" where
  "dbconn_get_cached_nextid D table db cached num =
     (let lastid = (if cached = 0 then select_maxid D table db else cached)
      in (lastid + 1, lastid + num))"

section \<open>Handles\<close>

record zbx_pb_history_data =
  hd_state :: zbx_pb_state_t
  hd_rows :: "zbx_pb_history list"
  hd_handleid :: nat

definition pb_register_handle :: "zbx_pb \<Rightarrow> zbx_pb \<times> nat" where
  "pb_register_handle pb =
     (let handleid = last_handleid pb + 1
      in (pb\<lparr>last_handleid := handleid, history_handleids := history_handleids pb @ [handleid]\<rparr>, handleid))"

text \<open>Removal without keeping the order: the last one takes the place.\<close>

fun index_of :: "nat \<Rightarrow> nat list \<Rightarrow> nat option" where
  "index_of h [] = None"
| "index_of h (x # xs) = (if x = h then Some 0 else map_option Suc (index_of h xs))"

definition pb_deregister_handle :: "nat list \<Rightarrow> nat \<Rightarrow> nat list" where
  "pb_deregister_handle handleids handleid =
     (case index_of handleid handleids of
        None \<Rightarrow> handleids
      | Some i \<Rightarrow> butlast (handleids[i := last handleids]))"

definition zbx_pb_history_open :: "zbx_pb \<Rightarrow> zbx_pb \<times> zbx_pb_history_data" where
  "zbx_pb_history_open pb =
     (let (pb, handleid) = pb_register_handle pb; dst = get_pb_dst (pb_state pb);
          pb = (if dst = PB_DATABASE then pb\<lparr>db_handles_num := db_handles_num pb + 1\<rparr> else pb)
      in (pb, \<lparr>hd_state = dst, hd_rows = [], hd_handleid = handleid\<rparr>))"

text \<open>In both cases the row gets its id later: from \<^verbatim>\<open>pb_history_set_row_ids\<close> or from the insert statement.\<close>

definition pb_history_add_value :: "zbx_pb_history_data \<Rightarrow> zbx_pb_history \<Rightarrow> zbx_pb_history_data" where
  "pb_history_add_value data row = data\<lparr>hd_rows := hd_rows data @ [row\<lparr>row_id := 0\<rparr>]\<rparr>"

fun pb_history_set_row_ids :: "nat \<Rightarrow> zbx_pb_history list \<Rightarrow> zbx_pb_history list" where
  "pb_history_set_row_ids i [] = []"
| "pb_history_set_row_ids i (r # rows) = r\<lparr>row_id := i\<rparr> # pb_history_set_row_ids (i + 1) rows"

definition pb_history_check_age :: "int \<Rightarrow> int \<Rightarrow> zbx_pb \<Rightarrow> zbx_pb \<times> bool" where
  "pb_history_check_age now later pb =
     (let rows = dropWhile (\<lambda>r. \<not> now - row_write_clock r \<le> offline_buffer pb) (pb_history pb);
          pb = pb\<lparr>pb_history := rows\<rparr>
      in (pb, max_age pb = 0 \<or> rows = [] \<or> later - row_write_clock (hd rows) < max_age pb))"

definition pb_history_add_row_mem ::
  "(zbx_pb \<Rightarrow> zbx_pb_history \<Rightarrow> bool) \<Rightarrow> zbx_pb \<Rightarrow> zbx_pb_history \<Rightarrow> zbx_pb option" where
  "pb_history_add_row_mem fits pb src =
     (if fits pb src then Some (pb\<lparr>pb_history := pb_history pb @ [src], history_lastid_mem := row_id src\<rparr>) else None)"

abbreviation (input) mem_rows :: "zbx_pb \<Rightarrow> nat" where
  "mem_rows pb \<equiv> length (pb_history pb) + length (pb_discovery pb) + length (pb_autoreg pb)"

lemma pb_free_loop_rows:
  "mem_rows (fst (pb_free_loop pb left)) \<le> mem_rows pb
   \<and> (0 < left \<and> snd (pb_free_loop pb left) \<longrightarrow> mem_rows (fst (pb_free_loop pb left)) < mem_rows pb)"
proof (induction pb left rule: pb_free_loop.induct)
  case (1 pb left)
  define d where "d = hd (pb_discovery pb)"
  obtain l rest where p: "pop_discovery (drow_handleid d) (left - int (pb_discovery_estimate_row_size d)) (tl (pb_discovery pb)) = (l, rest)"
    by fastforce
  have len: "length rest \<le> length (tl (pb_discovery pb))"
    using pop_discovery_length [of "drow_handleid d" "left - int (pb_discovery_estimate_row_size d)" "tl (pb_discovery pb)"] p by simp
  consider "left \<le> 0" | "0 < left" "autoreg_older pb" | "0 < left" "\<not> autoreg_older pb" "discovery_older pb"
    | "0 < left" "\<not> autoreg_older pb" "\<not> discovery_older pb" by linarith
  then show ?case
  proof cases
    case 1
    then show ?thesis by (simp add: pb_free_loop.simps)
  next
    case 2
    then obtain a as where "pb_autoreg pb = a # as" by (auto simp: autoreg_older_def split: list.splits)
    then show ?thesis using 1(1) 2 by (simp add: pb_free_loop.simps [of pb])
  next
    case 3
    then obtain ds where "pb_discovery pb = d # ds" by (auto simp: discovery_older_def d_def split: list.splits)
    then show ?thesis using 1(2) [of d _ l rest] 3 p len by (simp add: pb_free_loop.simps [of pb] d_def [symmetric])
  next
    case 4
    then show ?thesis using 1(3) by (cases "pb_history pb") (simp_all add: pb_free_loop.simps [of pb])
  qed
qed

text \<open>
  The loop that discards old records in memory mode until the row fits or nothing is left; \<open>None\<close> stops the adding of
  rows in the other modes.
\<close>

lemma history_size_pos: "0 < pb_history_estimate_row_size r"
  by (simp add: pb_history_estimate_row_size_def zbx_shmem_required_chunk_size_def)

function add_row_loop ::
  "(zbx_pb \<Rightarrow> zbx_pb_history \<Rightarrow> bool) \<Rightarrow> zbx_pb \<Rightarrow> nat \<Rightarrow> zbx_pb_history \<Rightarrow> (zbx_pb \<times> nat) option" where
  "add_row_loop fits pb space row =
     (case pb_history_add_row_mem fits pb row of
        Some pb \<Rightarrow> Some (pb, space)
      | None \<Rightarrow>
          if pb_mode pb \<noteq> ZBX_PB_MODE_MEMORY then None
          else
            let space = (if space = 0 then pb_history_estimate_row_size row else space);
                (pb', freed) = pb_free_space pb space
            in if freed then add_row_loop fits pb' space row else Some (pb', space))"
  by pat_completeness auto
termination add_row_loop
proof (relation "measure (\<lambda>(fits, pb, space, row). mem_rows pb)", goal_cases)
  case (2 fits pb space row space' x pb' freed)
  have "0 < space'" using 2 history_size_pos [of row] by (simp split: if_splits)
  then show ?case
    using pb_free_loop_rows [of pb "int space'"] 2
    by (cases "pb_free_loop pb (int space')") (auto simp: pb_free_space_def)
qed simp

declare add_row_loop.simps [simp del]

text \<open>
  The rows not added are the second part of the result. The size to free is estimated for the first row that needs it
  and kept for the rows after it, as the code does.
\<close>

fun add_rows_loop ::
  "(zbx_pb \<Rightarrow> zbx_pb_history \<Rightarrow> bool) \<Rightarrow> zbx_pb \<Rightarrow> nat \<Rightarrow> zbx_pb_history list \<Rightarrow> zbx_pb \<times> zbx_pb_history list" where
  "add_rows_loop fits pb space [] = (pb, [])"
| "add_rows_loop fits pb space (r # rows) =
     (case add_row_loop fits pb space r of
        None \<Rightarrow> (pb, r # rows)
      | Some (pb, space) \<Rightarrow> add_rows_loop fits pb space rows)"

definition pb_history_add_rows_mem ::
  "(zbx_pb \<Rightarrow> zbx_pb_history \<Rightarrow> bool) \<Rightarrow> zbx_pb \<Rightarrow> zbx_pb_history list \<Rightarrow> zbx_pb \<times> zbx_pb_history list" where
  "pb_history_add_rows_mem fits pb rows = add_rows_loop fits pb 0 rows"

text \<open>
  The first part of closing, under the lock: the ids, the age check in the memory state, and the rows that are to be
  inserted into the database, \<open>None\<close> when the handle is done. \<open>close_rows\<close> has what follows the age check.
\<close>

definition close_rows ::
  "('db, 'b) pb_db_scheme \<Rightarrow> (zbx_pb \<Rightarrow> zbx_pb_history \<Rightarrow> bool) \<Rightarrow> bool \<Rightarrow> zbx_pb \<Rightarrow> 'db \<Rightarrow> nat \<Rightarrow> zbx_pb_history list
   \<Rightarrow> zbx_pb \<times> 'db \<times> zbx_pb_history list option" where
  "close_rows D fits young pb db handleid rows =
     (let to_db = (\<lambda>pb db rows. (pb\<lparr>db_handles_num := db_handles_num pb + 1\<rparr>, db, Some rows))
      in if pb_state pb = PB_MEMORY \<and> \<not> young then
           let (pb, db) = pd_fallback_to_database D pb db in to_db pb db rows
         else if get_pb_dst (pb_state pb) = PB_MEMORY then
           let (pb, rest) = pb_history_add_rows_mem fits pb rows in
           if rest = [] then (pb\<lparr>history_handleids := pb_deregister_handle (history_handleids pb) handleid\<rparr>, db, None)
           else if pb_state pb = PB_DATABASE_MEMORY
           then let (pb, db) = pd_fallback_to_database D pb db in to_db pb db rest
           else to_db (pb_set_state pb PB_MEMORY_DATABASE) db rest
         else to_db pb db rows)"

definition close_lock ::
  "('db, 'b) pb_db_scheme \<Rightarrow> (zbx_pb \<Rightarrow> zbx_pb_history \<Rightarrow> bool) \<Rightarrow> int \<Rightarrow> int \<Rightarrow> zbx_pb \<Rightarrow> 'db \<Rightarrow> nat \<Rightarrow> zbx_pb_history_data
   \<Rightarrow> zbx_pb \<times> 'db \<times> nat \<times> zbx_pb_history list option" where
  "close_lock D fits now later pb db nextid data =
     (if hd_rows data = []
      then (pb\<lparr>history_handleids := pb_deregister_handle (history_handleids pb) (hd_handleid data)\<rparr>, db, nextid, None)
      else
        let rows = pb_history_set_row_ids nextid (hd_rows data);
            (aged, young) = (if pb_state pb = PB_MEMORY then pb_history_check_age now later pb else (pb, True));
            (pb, db, rest) = close_rows D fits young aged db (hd_handleid data) rows
        in (pb, db, nextid + length rows, rest))"

text \<open>A handle for the database gets its ids while the transaction runs, without the lock.\<close>

definition close_db :: "nat \<Rightarrow> zbx_pb_history_data \<Rightarrow> nat \<times> zbx_pb_history list" where
  "close_db nextid data = (nextid + length (hd_rows data), pb_history_set_row_ids nextid (hd_rows data))"

text \<open>The last part: the last id in the database and the counts of handles.\<close>

definition close_end :: "zbx_pb \<Rightarrow> nat \<Rightarrow> nat \<Rightarrow> zbx_pb" where
  "close_end pb handleid lastid =
     (let pb = (if history_lastid_db pb < lastid then pb\<lparr>history_lastid_db := lastid\<rparr> else pb)
      in pb\<lparr>db_handles_num := db_handles_num pb - 1,
           history_handleids := pb_deregister_handle (history_handleids pb) handleid\<rparr>)"

end
