(* ===== verification/ZbxPbUpload.thy ===== *)
theory ZbxPbUpload
  imports ZbxProxyBuffer
begin

text \<open>
  The other half of \<^verbatim>\<open>src/libs/zbxproxybuffer\<close>: reading the history for the server, from memory and from the database,
  what happens after the server has it, and the state at the start.

  \<^item> The JSON writer is that of \<open>ZbxJsonWriter\<close>, called through \<open>exec_op\<close>; \<open>None\<close> is an error there.
  \<^item> \<open>exportable\<close> says of an item id whether the configuration cache knows it as an enabled item of a monitored host.
  \<^item> Reading from the database is interleaved with other processes. \<open>read_once\<close> is one select statement with its loop and
    \<open>batch_end\<close> what follows a batch; in between \<^verbatim>\<open>pb_wait_handles\<close> may have changed the database.
\<close>

abbreviation (input) ZBX_MAX_HRECORDS :: nat where "ZBX_MAX_HRECORDS \<equiv> 1000"
abbreviation (input) ZBX_MAX_HRECORDS_TOTAL :: nat where "ZBX_MAX_HRECORDS_TOTAL \<equiv> 10000"
abbreviation (input) ZBX_DATA_JSON_RESERVED :: nat where "ZBX_DATA_JSON_RESERVED \<equiv> 65535 * 4 + 1024 * 4"
abbreviation (input) ZBX_DATA_JSON_RECORD_LIMIT :: nat where
  "ZBX_DATA_JSON_RECORD_LIMIT \<equiv> 1024 * 1024 * 1024 - ZBX_DATA_JSON_RESERVED"
abbreviation (input) ZBX_DATA_JSON_BATCH_LIMIT :: nat where
  "ZBX_DATA_JSON_BATCH_LIMIT \<equiv> (1024 * 1024 * 1024 - ZBX_DATA_JSON_RESERVED) div 2"

section \<open>Export\<close>

definition ZBX_PROXY_HISTORY_FLAG_META :: "32 word" where "ZBX_PROXY_HISTORY_FLAG_META = 1"
definition ZBX_PROXY_HISTORY_FLAG_NOVALUE :: "32 word" where "ZBX_PROXY_HISTORY_FLAG_NOVALUE = 2"
definition ZBX_PROXY_HISTORY_MASK_NOVALUE :: "32 word" where
  "ZBX_PROXY_HISTORY_MASK_NOVALUE = ZBX_PROXY_HISTORY_FLAG_META OR ZBX_PROXY_HISTORY_FLAG_NOVALUE"

abbreviation (input) ITEM_STATE_NORMAL :: int where "ITEM_STATE_NORMAL \<equiv> 0"

definition is_novalue :: "zbx_pb_history \<Rightarrow> bool" where
  "is_novalue r \<longleftrightarrow> row_flags r AND ZBX_PROXY_HISTORY_MASK_NOVALUE = ZBX_PROXY_HISTORY_FLAG_NOVALUE"

text \<open>The calls that write one record.\<close>

definition value_ops :: "zbx_pb_history \<Rightarrow> write_op list" where
  "value_ops r =
     (if row_timestamp r \<noteq> 0 then [AddInt64 (Some ''timestamp'') (of_int (row_timestamp r))] else [])
     @ (if cstr (row_source r) \<noteq> [] then [AddString (Some ''source'') (row_source r)] else [])
     @ (if row_severity r \<noteq> 0 then [AddInt64 (Some ''severity'') (of_int (row_severity r))] else [])
     @ (if row_logeventid r \<noteq> 0 then [AddInt64 (Some ''eventid'') (of_int (row_logeventid r))] else [])
     @ [AddString (Some ''value'') (row_value r)]"

definition history_members :: "zbx_pb_history \<Rightarrow> write_op list" where
  "history_members r =
     [AddUint64 (Some ''id'') (of_nat (row_id r)), AddUint64 (Some ''itemid'') (of_nat (row_itemid r)),
      AddInt64 (Some ''clock'') (of_int (row_sec r)), AddInt64 (Some ''ns'') (of_int (row_ns r))]
     @ (if is_novalue r then []
        else (if row_state r \<noteq> ITEM_STATE_NORMAL then [AddInt64 (Some ''state'') (of_int (row_state r))] else [])
          @ (if row_flags r AND ZBX_PROXY_HISTORY_FLAG_NOVALUE = 0 then value_ops r else [])
          @ (if row_flags r AND ZBX_PROXY_HISTORY_FLAG_META \<noteq> 0
             then [AddUint64 (Some ''lastlogsize'') (of_nat (row_lastlogsize r)), AddInt64 (Some ''mtime'') (of_int (row_mtime r))]
             else []))"

definition history_ops :: "zbx_pb_history \<Rightarrow> write_op list" where
  "history_ops r = AddObject None # history_members r @ [CloseTop]"

text \<open>From the last row to the first, only the last of the rows of an item that carry no value is kept.\<close>

fun filter_novalue :: "nat list \<Rightarrow> zbx_pb_history list \<Rightarrow> zbx_pb_history list" where
  "filter_novalue nodata_itemids [] = []"
| "filter_novalue nodata_itemids (r # rows) =
     (if is_novalue r then
        (if row_itemid r \<in> set nodata_itemids then filter_novalue nodata_itemids rows
         else r # filter_novalue (row_itemid r # nodata_itemids) rows)
      else r # filter_novalue nodata_itemids rows)"

fun export_loop ::
  "(nat \<Rightarrow> bool) \<Rightarrow> zbx_json \<Rightarrow> nat \<Rightarrow> nat \<Rightarrow> zbx_pb_history list \<Rightarrow> (zbx_json \<times> nat \<times> nat) option" where
  "export_loop exportable j records_num lastid [] = Some (j, records_num, lastid)"
| "export_loop exportable j records_num lastid (r # rows) =
     (if \<not> exportable (row_itemid r) then export_loop exportable j records_num (row_id r) rows
      else do {
        j \<leftarrow> (if records_num = 0 then exec_op j (AddArray (Some ''history data'')) else Some j);
        j \<leftarrow> exec_ops j (history_ops r);
        if ZBX_DATA_JSON_RECORD_LIMIT < buffer_offset j then Some (j, records_num + 1, row_id r)
        else export_loop exportable j (records_num + 1) (row_id r) rows
      })"

definition pb_history_export ::
  "(nat \<Rightarrow> bool) \<Rightarrow> zbx_json \<Rightarrow> nat \<Rightarrow> nat \<Rightarrow> zbx_pb_history list \<Rightarrow> (zbx_json \<times> nat \<times> nat) option" where
  "pb_history_export exportable j records_num lastid rows =
     export_loop exportable j records_num lastid (rev (filter_novalue [] (rev rows)))"

definition close_array :: "zbx_json \<Rightarrow> nat \<Rightarrow> zbx_json option" where
  "close_array j records_num = (if records_num \<noteq> 0 then exec_op j CloseTop else Some j)"

section \<open>From memory\<close>

function get_mem_loop ::
  "(nat \<Rightarrow> bool) \<Rightarrow> zbx_json \<Rightarrow> nat \<Rightarrow> nat \<Rightarrow> zbx_pb_history list \<Rightarrow> (zbx_json \<times> nat \<times> nat \<times> pb_more) option" where
  "get_mem_loop exportable j records_num lastid rows =
     (case pb_history_export exportable j records_num lastid (take ZBX_MAX_HRECORDS rows) of
        None \<Rightarrow> None
      | Some (j, records_num, lastid) \<Rightarrow>
          if length rows < ZBX_MAX_HRECORDS then Some (j, records_num, lastid, ZBX_PROXY_DATA_DONE)
          else if ZBX_DATA_JSON_BATCH_LIMIT \<le> buffer_offset j \<or> records_num \<ge> ZBX_MAX_HRECORDS_TOTAL
          then Some (j, records_num, lastid, ZBX_PROXY_DATA_MORE)
          else get_mem_loop exportable j records_num lastid (drop ZBX_MAX_HRECORDS rows))"
  by pat_completeness auto
termination get_mem_loop
  by (relation "measure (\<lambda>(exportable, j, n, lastid, rows). length rows)") auto

declare get_mem_loop.simps [simp del]

definition pb_history_get_mem ::
  "(nat \<Rightarrow> bool) \<Rightarrow> zbx_pb \<Rightarrow> zbx_json \<Rightarrow> nat \<Rightarrow> (zbx_json \<times> nat \<times> nat \<times> pb_more) option" where
  "pb_history_get_mem exportable pb j lastid =
     (if pb_history pb = [] then Some (j, 0, lastid, ZBX_PROXY_DATA_DONE)
      else do {
        (j, records_num, lastid, more_data) \<leftarrow> get_mem_loop exportable j 0 lastid (pb_history pb);
        j \<leftarrow> close_array j records_num;
        Some (j, records_num, lastid, more_data)
      })"

section \<open>From the database\<close>

text \<open>
  The rows of one result until a row is missing before the next one, with the last id taken and, when it stopped, the id
  after the gap. A gap the reader has waited for is accepted.
\<close>

fun fetch_rows :: "nat \<Rightarrow> nat \<Rightarrow> zbx_pb_history list \<Rightarrow> zbx_pb_history list \<times> nat \<times> nat option" where
  "fetch_rows lastid gapid [] = ([], lastid, None)"
| "fetch_rows lastid gapid (r # result) =
     (if row_id r \<noteq> lastid \<and> row_id r \<noteq> lastid + 1 \<and> row_id r \<noteq> gapid then ([], lastid, Some (row_id r))
      else let (rows, lastid, gap) = fetch_rows (row_id r) gapid result in (r # rows, lastid, gap))"

text \<open>Where the reader is: the text so far, the rows of the batch, the last id read and the gap it waited for.\<close>

record reader =
  rd_json :: zbx_json
  rd_num :: nat
  rd_lastid :: nat
  rd_more :: pb_more
  rd_id :: nat
  rd_gapid :: nat
  rd_rows :: "zbx_pb_history list"

definition reader_start :: "('db, 'b) pb_db_scheme \<Rightarrow> zbx_json \<Rightarrow> nat \<Rightarrow> 'db \<Rightarrow> reader" where
  "reader_start D j lastid db =
     \<lparr>rd_json = j, rd_num = 0, rd_lastid = lastid, rd_more = ZBX_PROXY_DATA_MORE,
      rd_id = select_lastid D PROXY_HISTORY db, rd_gapid = 0, rd_rows = []\<rparr>"

definition reads_on :: "reader \<Rightarrow> bool" where
  "reads_on rd \<longleftrightarrow> buffer_offset (rd_json rd) < ZBX_DATA_JSON_BATCH_LIMIT \<and> rd_num rd < ZBX_MAX_HRECORDS_TOTAL"

definition read_once :: "('db, 'b) pb_db_scheme \<Rightarrow> 'db \<Rightarrow> reader \<Rightarrow> reader \<times> bool" where
  "read_once D db rd =
     (let (rows, lastid, gap) = fetch_rows (rd_id rd) (rd_gapid rd)
            (select_history D (rd_id rd) (ZBX_MAX_HRECORDS - length (rd_rows rd)) db);
          rd = rd\<lparr>rd_rows := rd_rows rd @ rows, rd_id := lastid\<rparr>
      in case gap of Some gapid \<Rightarrow> (rd\<lparr>rd_gapid := gapid\<rparr>, True) | None \<Rightarrow> (rd, False))"

text \<open>After a batch: the export and whether another batch follows. The second part of the result says so.\<close>

definition batch_end :: "(nat \<Rightarrow> bool) \<Rightarrow> reader \<Rightarrow> (reader \<times> bool) option" where
  "batch_end exportable rd =
     (let rd = (if length (rd_rows rd) \<noteq> ZBX_MAX_HRECORDS then rd\<lparr>rd_more := ZBX_PROXY_DATA_DONE\<rparr> else rd)
      in if rd_rows rd = [] then Some (rd, False)
         else do {
           (j, records_num, lastid) \<leftarrow> pb_history_export exportable (rd_json rd) (rd_num rd) (rd_lastid rd) (rd_rows rd);
           let rd' = rd\<lparr>rd_json := j, rd_num := records_num, rd_lastid := lastid\<rparr> in
           if length (rd_rows rd) < ZBX_MAX_HRECORDS then Some (rd', False)
           else let rd' = rd'\<lparr>rd_id := lastid, rd_gapid := 0, rd_rows := []\<rparr> in Some (rd', reads_on rd')
         })"

text \<open>
  The loop; \<open>wait\<close> is what happens to the database while the reader waits. It returns if the export does not fail and the
  gaps come to an end.
\<close>

partial_function (option) get_db_loop ::
  "('db, 'b) pb_db_scheme \<Rightarrow> ('db \<Rightarrow> 'db) \<Rightarrow> (nat \<Rightarrow> bool) \<Rightarrow> 'db \<Rightarrow> reader \<Rightarrow> reader option" where
  "get_db_loop D wait exportable db rd =
     (let (rd, again) = read_once D db rd in
      if again then get_db_loop D wait exportable (wait db) rd
      else case batch_end exportable rd of
          None \<Rightarrow> None
        | Some (rd, continue) \<Rightarrow> if continue then get_db_loop D wait exportable db rd else Some rd)"

definition pb_history_get_db ::
  "('db, 'b) pb_db_scheme \<Rightarrow> ('db \<Rightarrow> 'db) \<Rightarrow> (nat \<Rightarrow> bool) \<Rightarrow> 'db \<Rightarrow> zbx_json \<Rightarrow> nat
   \<Rightarrow> (zbx_json \<times> nat \<times> nat \<times> pb_more) option" where
  "pb_history_get_db D wait exportable db j lastid =
     do {
       rd \<leftarrow> (let rd = reader_start D j lastid db in if reads_on rd then get_db_loop D wait exportable db rd else Some rd);
       j \<leftarrow> close_array (rd_json rd) (rd_num rd);
       Some (j, rd_num rd, rd_lastid rd, rd_more rd)
     }"

definition zbx_pb_history_get_rows ::
  "('db, 'b) pb_db_scheme \<Rightarrow> ('db \<Rightarrow> 'db) \<Rightarrow> (nat \<Rightarrow> bool) \<Rightarrow> zbx_pb \<Rightarrow> 'db \<Rightarrow> zbx_json \<Rightarrow> nat
   \<Rightarrow> (zbx_json \<times> nat \<times> nat \<times> pb_more) option" where
  "zbx_pb_history_get_rows D wait exportable pb db j lastid =
     (if get_pb_src (pb_state pb) = PB_MEMORY then pb_history_get_mem exportable pb j lastid
      else pb_history_get_db D wait exportable db j lastid)"

text \<open>The handles to wait for: the greatest id registered now; the wait is over when no handle up to it is registered.\<close>

definition wait_handleid :: "nat list \<Rightarrow> nat" where
  "wait_handleid handleids = foldl (\<lambda>h i. if h < i then i else h) 0 handleids"

definition wait_over :: "nat list \<Rightarrow> nat \<Rightarrow> bool" where
  "wait_over handleids handleid \<longleftrightarrow> handleid = 0 \<or> list_all (\<lambda>i. handleid < i) handleids"

section \<open>After the upload\<close>

definition zbx_pb_set_history_lastid :: "('db, 'b) pb_db_scheme \<Rightarrow> zbx_pb \<Rightarrow> 'db \<Rightarrow> nat \<Rightarrow> zbx_pb \<times> 'db" where
  "zbx_pb_set_history_lastid D pb db lastid =
     (let pb = pb\<lparr>history_lastid_sent := lastid\<rparr>
      in (if get_pb_src (pb_state pb) = PB_MEMORY then pb_history_clear pb lastid else pb,
          if get_pb_src (pb_state pb) = PB_DATABASE then store_lastid D PROXY_HISTORY lastid db else db))"

definition zbx_pb_history_get_unsent_num :: "zbx_pb \<Rightarrow> nat" where
  "zbx_pb_history_get_unsent_num pb =
     (let lastid = max (history_lastid_db pb) (history_lastid_mem pb)
      in if history_lastid_sent pb < lastid then lastid - history_lastid_sent pb else 0)"

definition zbx_pb_disable :: "zbx_pb \<Rightarrow> zbx_pb" where
  "zbx_pb_disable pb =
     (if pb_mode pb = ZBX_PB_MODE_HYBRID then pb\<lparr>pb_state := PB_DATABASE, pb_mode := ZBX_PB_MODE_DISK\<rparr> else pb)"

definition zbx_pb_get_state_info :: "zbx_pb \<Rightarrow> nat \<times> nat" where
  "zbx_pb_get_state_info pb =
     (if pb_mode pb = ZBX_PB_MODE_DISK then (0, 0)
      else (if get_pb_dst (pb_state pb) = PB_MEMORY then 1 else 0, changes_num pb))"

section \<open>The start\<close>

definition zbx_pb_parse_mode :: "string option \<Rightarrow> zbx_pb_mode option" where
  "zbx_pb_parse_mode str =
     (case str of
        None \<Rightarrow> Some ZBX_PB_MODE_DISK
      | Some s \<Rightarrow>
          if s = '''' \<or> s = ''disk'' then Some ZBX_PB_MODE_DISK
          else if s = ''memory'' then Some ZBX_PB_MODE_MEMORY
          else if s = ''hybrid'' then Some ZBX_PB_MODE_HYBRID
          else None)"

definition zbx_pb_create :: "zbx_pb_mode \<Rightarrow> int \<Rightarrow> int \<Rightarrow> zbx_pb" where
  "zbx_pb_create mode age offline =
     \<lparr>pb_history = [], pb_discovery = [], pb_autoreg = [], pb_mode = mode, pb_state = PB_DATABASE, db_handles_num = 0,
      max_age = age, offline_buffer = offline, changes_num = 0, history_lastid_sent = 0, discovery_lastid_sent = 0,
      autoreg_lastid_sent = 0, history_lastid_db = 0, discovery_lastid_db = 0, autoreg_lastid_db = 0,
      history_lastid_mem = 0, last_handleid = 0, history_handleids = []\<rparr>"

text \<open>The last id sent, the greatest id and whether rows are unsent. An id above the table's is set back.\<close>

definition pb_check_unsent_rows :: "('db, 'b) pb_db_scheme \<Rightarrow> pb_table \<Rightarrow> 'db \<Rightarrow> 'db \<times> nat \<times> nat \<times> bool" where
  "pb_check_unsent_rows D table db =
     (let lastid = select_lastid D table db; maxid = select_maxid D table db
      in if lastid < maxid then (db, lastid, maxid, 0 < maxid)
         else if maxid < lastid then (store_lastid D table maxid db, maxid, maxid, False)
         else (db, lastid, maxid, False))"

definition pb_init_state :: "('db, 'b) pb_db_scheme \<Rightarrow> zbx_pb \<Rightarrow> 'db \<Rightarrow> zbx_pb \<times> 'db" where
  "pb_init_state D pb db =
     (if pb_mode pb = ZBX_PB_MODE_MEMORY then (pb_set_state pb PB_MEMORY, db)
      else
        let (db, lastid, maxid, history_ret) = pb_check_unsent_rows D PROXY_HISTORY db;
            pb = pb\<lparr>history_lastid_db := maxid, history_lastid_sent := lastid\<rparr>;
            (db, _, _, discovery_ret) = pb_check_unsent_rows D PROXY_DHISTORY db;
            (db, _, _, autoreg_ret) = pb_check_unsent_rows D PROXY_AUTOREG_HOST db
        in if pb_mode pb = ZBX_PB_MODE_DISK \<or> history_ret \<or> discovery_ret \<or> autoreg_ret
           then (pb_set_state pb PB_DATABASE, db) else (pb_set_state pb PB_MEMORY, db))"

end
