(* ===== verification/ZbxPbWorld.thy ===== *)
theory ZbxPbWorld
  imports ZbxPbUpload
begin

text \<open>
  The processes that share the proxy buffer: any number of them open handles, fill and close them, and one uploads. A step
  is what one process does under the lock or in one statement of the database. Beside the state there is a record of what
  happened: the rows that were accepted and those discarded for their age, the texts the server has acknowledged, and the
  rows that were not written into them because their items were not known any more.
\<close>

section \<open>The database\<close>

text \<open>
  What the database has to do, with the rows of the history table as \<open>tbl\<close>: the select statement gives the rows after
  an id in the order of their ids, an insert adds rows, the other statements leave the table alone, and the id last sent
  is what was stored.
\<close>

definition history_db_ok :: "('db, 'b) pb_db_scheme \<Rightarrow> ('db \<Rightarrow> zbx_pb_history list) \<Rightarrow> bool" where
  "history_db_ok D tbl \<longleftrightarrow>
     (\<forall>lastid limit db. select_history D lastid limit db
        = take limit (filter (\<lambda>r. lastid < row_id r) (sort_key row_id (tbl db))))
   \<and> (\<forall>rows db. tbl (insert_history D rows db) = tbl db @ rows)
   \<and> (\<forall>rows db. tbl (insert_discovery D rows db) = tbl db) \<and> (\<forall>rows db. tbl (insert_autoreg D rows db) = tbl db)
   \<and> (\<forall>t lastid db. tbl (store_lastid D t lastid db) = tbl db)
   \<and> (\<forall>db. select_maxid D PROXY_HISTORY db = Max (insert 0 (row_id ` set (tbl db))))
   \<and> (\<forall>t t' lastid db. select_lastid D t (store_lastid D t' lastid db) = (if t = t' then lastid else select_lastid D t db))
   \<and> (\<forall>t rows db. select_lastid D t (insert_history D rows db) = select_lastid D t db)
   \<and> (\<forall>t rows db. select_lastid D t (insert_discovery D rows db) = select_lastid D t db)
   \<and> (\<forall>t rows db. select_lastid D t (insert_autoreg D rows db) = select_lastid D t db)"

section \<open>States\<close>

text \<open>A handle that is being filled, whose rows have their ids and are being inserted, and whose rows are in the database.\<close>

datatype pb_handle =
    Collecting zbx_pb_history_data
  | Inserting nat "zbx_pb_history list"
  | Inserted nat nat

datatype uploader =
    Idle
  | Reading reader "zbx_pb_history set"
  | Waiting reader "zbx_pb_history set" nat
  | Uploading "zbx_pb_history set" nat pb_more
  | Acknowledged pb_more

text \<open>
  \<open>w_text\<close> is the text of the upload that is going on, \<open>w_missing\<close> are the rows it leaves out because their items are not
  known; when it is acknowledged they become the last of \<open>w_received\<close> and part of \<open>w_unknown\<close>. \<open>w_sent\<close> has the rows up to the
  last ids of these uploads, whatever was written of them.
\<close>

record 'db world =
  w_pb :: zbx_pb
  w_db :: 'db
  w_nextid :: nat
  w_cache_id :: "nat option"
  w_idcache :: nat
  w_handles :: "pb_handle list"
  w_uploader :: uploader
  w_accepted :: "zbx_pb_history set"
  w_sent :: "zbx_pb_history set"
  w_discarded :: "zbx_pb_history set"
  w_text :: zbx_json
  w_missing :: "zbx_pb_history set"
  w_received :: "zbx_json list"
  w_unknown :: "zbx_pb_history set"

fun handle_rows :: "pb_handle \<Rightarrow> zbx_pb_history list" where
  "handle_rows (Inserting handleid rows) = rows"
| "handle_rows _ = []"

fun handle_id :: "pb_handle \<Rightarrow> nat" where
  "handle_id (Collecting data) = hd_handleid data"
| "handle_id (Inserting handleid rows) = handleid"
| "handle_id (Inserted handleid lastid) = handleid"

text \<open>The handles that count as pending database inserts, and those of them that are still being filled.\<close>

fun late_handle :: "pb_handle \<Rightarrow> bool" where
  "late_handle (Collecting data) \<longleftrightarrow> hd_state data = PB_DATABASE"
| "late_handle _ \<longleftrightarrow> False"

fun db_handle :: "pb_handle \<Rightarrow> bool" where
  "db_handle (Collecting data) \<longleftrightarrow> hd_state data = PB_DATABASE"
| "db_handle _ \<longleftrightarrow> True"

definition in_flight :: "pb_handle list \<Rightarrow> zbx_pb_history list" where
  "in_flight handles = concat (map handle_rows handles)"

text \<open>The rows the age check drops when rows are closed in the memory state.\<close>

definition too_old :: "int \<Rightarrow> zbx_pb \<Rightarrow> zbx_pb_history_data \<Rightarrow> zbx_pb_history list" where
  "too_old now pb data =
     (if hd_rows data \<noteq> [] \<and> pb_state pb = PB_MEMORY
      then takeWhile (\<lambda>r. \<not> now - row_write_clock r \<le> offline_buffer pb) (pb_history pb) else [])"

definition new_rows :: "nat \<Rightarrow> zbx_pb_history_data \<Rightarrow> zbx_pb_history list" where
  "new_rows nextid data = pb_history_set_row_ids nextid (hd_rows data)"

text \<open>The first of the ids for the rows of a handle that is closed, and the cache they come from. Without rows no id is asked for.\<close>

definition memory_ids :: "('db, 'b) pb_db_scheme \<Rightarrow> 'db world \<Rightarrow> zbx_pb_history_data \<Rightarrow> nat \<times> nat option" where
  "memory_ids D w data =
     (if hd_rows data = [] then (w_nextid w, w_cache_id w)
      else zbx_dc_get_nextid D PROXY_HISTORY (w_db w) (w_cache_id w) (length (hd_rows data)))"

definition database_ids :: "('db, 'b) pb_db_scheme \<Rightarrow> 'db world \<Rightarrow> zbx_pb_history_data \<Rightarrow> nat \<times> nat" where
  "database_ids D w data =
     (if hd_rows data = [] then (w_nextid w, w_idcache w)
      else dbconn_get_cached_nextid D PROXY_HISTORY (w_db w) (w_idcache w) (length (hd_rows data)))"

definition close_phase :: "nat \<Rightarrow> zbx_pb_history list option \<Rightarrow> pb_handle list" where
  "close_phase handleid rows = (case rows of None \<Rightarrow> [] | Some rows \<Rightarrow> [Inserting handleid rows])"

text \<open>
  The text an upload starts with, as \<^verbatim>\<open>proxy_data_sender\<close> makes it: an object with some members, none of them the history.
\<close>

definition message_start :: "zbx_json \<Rightarrow> bool" where
  "message_start j \<longleftrightarrow> (\<exists>fresh allocate ops f. run_writer fresh allocate True ops = Some j
     \<and> write_steps numeral_text [new_frame True None] ops [f] \<and> ''history data'' \<notin> fst ` set (fr_vals f))"

text \<open>The rows of an export that are not written because their items are not known.\<close>

definition left_out :: "(nat \<Rightarrow> bool) \<Rightarrow> nat \<Rightarrow> zbx_pb_history list \<Rightarrow> zbx_pb_history set" where
  "left_out exportable lastid rows = {r \<in> set rows. row_id r \<le> lastid \<and> \<not> exportable (row_itemid r)}"

section \<open>Steps\<close>

text \<open>
  Everything that can differ from one run to another is free: the rows written, the clock, the room in memory, the items
  known, the text the records are added to (an object without a history so far). Two things are not. One process uploads, as \<^verbatim>\<open>datasender.c\<close> and the lock in
  \<^verbatim>\<open>trapper_proxy.c\<close> have it. The change from the database state to the memory state, in \<open>update\<close>, does not come while
  a handle opened for the database is still being filled; the code does not check this.

  \<open>rising\<close> restricts the steps to those in which the ids that a cache gives are above all that were given before. The two
  caches do not know of each other, so the code does not ensure it once rows got ids from both; \<open>w_nextid\<close> is the bound.
\<close>

inductive pb_step :: "('db, 'b) pb_db_scheme \<Rightarrow> bool \<Rightarrow> 'db world \<Rightarrow> 'db world \<Rightarrow> bool" for D rising where
  opens: "zbx_pb_history_open (w_pb w) = (pb, data) \<Longrightarrow>
    pb_step D rising w (w\<lparr>w_pb := pb, w_handles := w_handles w @ [Collecting data]\<rparr>)"
| writes: "w_handles w = hs @ Collecting data # hs' \<Longrightarrow>
    pb_step D rising w (w\<lparr>w_handles := hs @ Collecting (pb_history_add_value data row) # hs'\<rparr>)"
| closes_memory: "w_handles w = hs @ Collecting data # hs' \<Longrightarrow> hd_state data = PB_MEMORY \<Longrightarrow>
    memory_ids D w data = (first, cache_id) \<Longrightarrow> (rising \<longrightarrow> w_nextid w \<le> first) \<Longrightarrow>
    close_lock D fits now later (w_pb w) (w_db w) first data = (pb, db, nextid, rows) \<Longrightarrow>
    pb_step D rising w (w\<lparr>w_pb := pb, w_db := db, w_nextid := max (w_nextid w) nextid, w_cache_id := cache_id, w_handles := hs @ close_phase (hd_handleid data) rows @ hs',
      w_accepted := w_accepted w \<union> set (new_rows first data),
      w_discarded := w_discarded w \<union> set (too_old now (w_pb w) data)\<rparr>)"
| closes_database: "w_handles w = hs @ Collecting data # hs' \<Longrightarrow> hd_state data = PB_DATABASE \<Longrightarrow>
    database_ids D w data = (first, idcache) \<Longrightarrow> (rising \<longrightarrow> w_nextid w \<le> first) \<Longrightarrow> close_db first data = (nextid, rows) \<Longrightarrow>
    pb_step D rising w (w\<lparr>w_nextid := max (w_nextid w) nextid, w_idcache := idcache, w_handles := hs @ Inserting (hd_handleid data) rows # hs',
      w_accepted := w_accepted w \<union> set (new_rows first data)\<rparr>)"
| commits: "w_handles w = hs @ Inserting handleid rows # hs' \<Longrightarrow> pb_history_add_rows_db D rows (w_db w) = (db, lastid) \<Longrightarrow>
    pb_step D rising w (w\<lparr>w_db := db, w_handles := hs @ Inserted handleid lastid # hs'\<rparr>)"
| finishes: "w_handles w = hs @ Inserted handleid lastid # hs' \<Longrightarrow>
    pb_step D rising w (w\<lparr>w_pb := close_end (w_pb w) handleid lastid, w_handles := hs @ hs'\<rparr>)"
| gets_memory: "w_uploader w = Idle \<Longrightarrow> get_pb_src (pb_state (w_pb w)) = PB_MEMORY \<Longrightarrow>
    pb_history_get_mem exportable (w_pb w) j 0 = Some (j', records_num, lastid, more_data) \<Longrightarrow> message_start j \<Longrightarrow>
    pb_step D rising w (w\<lparr>w_uploader := Uploading {r \<in> set (pb_history (w_pb w)). row_id r \<le> lastid} lastid more_data,
      w_text := j', w_missing := left_out exportable lastid (pb_history (w_pb w))\<rparr>)"
| starts: "w_uploader w = Idle \<Longrightarrow> get_pb_src (pb_state (w_pb w)) = PB_DATABASE \<Longrightarrow>
    reader_start D j 0 (w_db w) = rd \<Longrightarrow> message_start j \<Longrightarrow>
    pb_step D rising w (w\<lparr>w_uploader := (if reads_on rd then Reading rd {} else Uploading {} 0 (rd_more rd)),
      w_text := j, w_missing := {}\<rparr>)"
| waits: "w_uploader w = Reading rd R \<Longrightarrow> read_once D (w_db w) rd = (rd', True) \<Longrightarrow>
    pb_step D rising w (w\<lparr>w_uploader := Waiting rd' (R \<union> set (rd_rows rd')) (wait_handleid (history_handleids (w_pb w)))\<rparr>)"
| waited: "w_uploader w = Waiting rd R handleid \<Longrightarrow> wait_over (history_handleids (w_pb w)) handleid \<Longrightarrow>
    pb_step D rising w (w\<lparr>w_uploader := Reading rd R\<rparr>)"
| reads: "w_uploader w = Reading rd R \<Longrightarrow> read_once D (w_db w) rd = (rd', False) \<Longrightarrow>
    batch_end exportable rd' = Some (rd'', continue) \<Longrightarrow> R' = R \<union> set (rd_rows rd') \<Longrightarrow>
    close_array (rd_json rd'') (rd_num rd'') = Some text' \<Longrightarrow>
    pb_step D rising w (w\<lparr>w_uploader :=
      (if continue then Reading rd'' R'
       else Uploading {r \<in> R'. row_id r \<le> rd_lastid rd''} (rd_lastid rd'') (rd_more rd'')),
      w_text := text', w_missing := w_missing w \<union> left_out exportable (rd_lastid rd'') (rd_rows rd')\<rparr>)"
| fails: "w_uploader w = Uploading R lastid more_data \<Longrightarrow> pb_step D rising w (w\<lparr>w_uploader := Idle\<rparr>)"
| acks: "w_uploader w = Uploading R lastid more_data \<Longrightarrow>
    (if lastid \<noteq> 0 then zbx_pb_set_history_lastid D (w_pb w) (w_db w) lastid else (w_pb w, w_db w)) = (pb, db) \<Longrightarrow>
    pb_step D rising w (w\<lparr>w_pb := pb, w_db := db, w_uploader := Acknowledged more_data, w_sent := w_sent w \<union> R,
      w_received := w_received w @ [w_text w], w_unknown := w_unknown w \<union> w_missing w\<rparr>)"
| updates: "w_uploader w = Acknowledged more_history \<Longrightarrow>
    (more_history = ZBX_PROXY_DATA_MORE \<longrightarrow> more_data = ZBX_PROXY_DATA_MORE) \<Longrightarrow>
    (pb_state (w_pb w) = PB_DATABASE \<and> more_data = ZBX_PROXY_DATA_DONE \<longrightarrow> (\<forall>h \<in> set (w_handles w). \<not> late_handle h)) \<Longrightarrow>
    pb_update_state D (w_pb w) (w_db w) more_data = (pb, db) \<Longrightarrow>
    pb_step D rising w (w\<lparr>w_pb := pb, w_db := db, w_uploader := Idle\<rparr>)"
| skips: "w_uploader w = Acknowledged more_data \<Longrightarrow> pb_step D rising w (w\<lparr>w_uploader := Idle\<rparr>)"

text \<open>The start: the table as it was left, with different ids, and nothing in the caches of ids.\<close>

definition pb_start :: "('db, 'b) pb_db_scheme \<Rightarrow> ('db \<Rightarrow> zbx_pb_history list) \<Rightarrow> 'db \<Rightarrow> 'db world \<Rightarrow> bool" where
  "pb_start D tbl db0 w \<longleftrightarrow>
     distinct (map row_id (tbl db0)) \<and> list_all (\<lambda>r. row_id r < w_nextid w) (tbl db0) \<and> 0 < w_nextid w
   \<and> w_cache_id w = None \<and> w_idcache w = 0
   \<and> (\<exists>age offline. pb_init_state D (zbx_pb_create ZBX_PB_MODE_HYBRID age offline) db0 = (w_pb w, w_db w))
   \<and> w_handles w = [] \<and> w_uploader w = Idle \<and> w_sent w = {} \<and> w_discarded w = {}
   \<and> w_received w = [] \<and> w_unknown w = {}
   \<and> w_accepted w = {r \<in> set (tbl db0). select_lastid D PROXY_HISTORY db0 < row_id r}"

inductive pb_reachable :: "('db, 'b) pb_db_scheme \<Rightarrow> bool \<Rightarrow> ('db \<Rightarrow> zbx_pb_history list) \<Rightarrow> 'db world \<Rightarrow> bool" for D rising tbl where
  start: "pb_start D tbl db0 w \<Longrightarrow> pb_reachable D rising tbl w"
| step: "pb_reachable D rising tbl w \<Longrightarrow> pb_step D rising w w' \<Longrightarrow> pb_reachable D rising tbl w'"

end
