(* ===== verification/ZbxPbCore.thy ===== *)
theory ZbxPbCore
  imports ZbxPbWorld
begin

text \<open>
  The part of the world that decides whether rows are kept, its moves and its invariant. A step of the world is a
  sequence of moves.
\<close>

section \<open>The core\<close>

record core =
  c_mem :: "zbx_pb_history list"
  c_tbl :: "zbx_pb_history list"
  c_state :: zbx_pb_state_t
  c_num :: int
  c_db :: nat
  c_sent :: nat
  c_stored :: nat
  c_next :: nat
  c_ids :: "nat list"
  c_last :: nat
  c_handles :: "pb_handle list"
  c_up :: uploader
  c_acc :: "zbx_pb_history set"
  c_snt :: "zbx_pb_history set"
  c_dis :: "zbx_pb_history set"

definition core_of :: "('db, 'b) pb_db_scheme \<Rightarrow> ('db \<Rightarrow> zbx_pb_history list) \<Rightarrow> 'db world \<Rightarrow> core" where
  "core_of D tbl w =
     \<lparr>c_mem = pb_history (w_pb w), c_tbl = tbl (w_db w), c_state = pb_state (w_pb w), c_num = db_handles_num (w_pb w),
      c_db = history_lastid_db (w_pb w), c_sent = history_lastid_sent (w_pb w),
      c_stored = select_lastid D PROXY_HISTORY (w_db w), c_next = w_nextid w, c_ids = history_handleids (w_pb w),
      c_last = last_handleid (w_pb w), c_handles = w_handles w, c_up = w_uploader w, c_acc = w_accepted w,
      c_snt = w_sent w, c_dis = w_discarded w\<rparr>"

text \<open>The record of the texts is no part of the core.\<close>

lemma core_of_texts [simp]:
  "core_of D tbl (w\<lparr>w_text := j\<rparr>) = core_of D tbl w" "core_of D tbl (w\<lparr>w_missing := R\<rparr>) = core_of D tbl w"
  "core_of D tbl (w\<lparr>w_received := js\<rparr>) = core_of D tbl w" "core_of D tbl (w\<lparr>w_unknown := R\<rparr>) = core_of D tbl w"
  by (simp_all add: core_of_def)

definition fresh :: "core \<Rightarrow> zbx_pb_history list \<Rightarrow> bool" where
  "fresh c rows \<longleftrightarrow> map row_id rows = [c_next c..<c_next c + length rows]"

inductive move :: "core \<Rightarrow> core \<Rightarrow> bool" where
  m_open: "hd_handleid data = Suc (c_last c) \<Longrightarrow> hd_state data = get_pb_dst (c_state c) \<Longrightarrow>
    move c (c\<lparr>c_last := Suc (c_last c), c_ids := c_ids c @ [Suc (c_last c)], c_handles := c_handles c @ [Collecting data],
      c_num := (if hd_state data = PB_DATABASE then c_num c + 1 else c_num c)\<rparr>)"
| m_write: "c_handles c = hs @ Collecting data # hs' \<Longrightarrow> hd_handleid data' = hd_handleid data \<Longrightarrow>
    hd_state data' = hd_state data \<Longrightarrow> move c (c\<lparr>c_handles := hs @ Collecting data' # hs'\<rparr>)"
| m_ids: "c_next c \<le> n \<Longrightarrow> move c (c\<lparr>c_next := n\<rparr>)"
| m_gone: "c_handles c = hs @ Collecting data # hs' \<Longrightarrow> hd_state data = PB_MEMORY \<Longrightarrow>
    move c (c\<lparr>c_handles := hs @ hs', c_ids := pb_deregister_handle (c_ids c) (hd_handleid data)\<rparr>)"
| m_aged: "c_mem c = old @ young \<Longrightarrow> move c (c\<lparr>c_mem := young, c_dis := c_dis c \<union> set old\<rparr>)"
| m_add: "get_pb_dst (c_state c) = PB_MEMORY \<Longrightarrow> fresh c rows \<Longrightarrow>
    move c (c\<lparr>c_mem := c_mem c @ rows, c_next := c_next c + length rows, c_acc := c_acc c \<union> set rows\<rparr>)"
| m_fallback: "c_state c = PB_MEMORY \<and> c_mem c \<noteq> [] \<or> c_state c = PB_DATABASE_MEMORY \<Longrightarrow>
    stored = c_sent c \<or> stored = c_stored c \<and> (c_sent c = 0 \<or> c_mem c = []) \<Longrightarrow>
    move c (c\<lparr>c_tbl := c_tbl c @ c_mem c, c_mem := [], c_state := PB_DATABASE,
      c_db := max (c_db c) (last_id row_id (c_mem c)), c_stored := stored\<rparr>)"
| m_full: "c_state c = PB_MEMORY \<Longrightarrow> move c (c\<lparr>c_state := PB_MEMORY_DATABASE\<rparr>)"
| m_insert_mem: "c_handles c = hs @ Collecting data # hs' \<Longrightarrow> hd_state data = PB_MEMORY \<Longrightarrow>
    get_pb_dst (c_state c) = PB_DATABASE \<Longrightarrow> fresh c rows \<Longrightarrow>
    move c (c\<lparr>c_handles := hs @ Inserting (hd_handleid data) rows # hs', c_num := c_num c + 1,
      c_next := c_next c + length rows, c_acc := c_acc c \<union> set rows\<rparr>)"
| m_insert_db: "c_handles c = hs @ Collecting data # hs' \<Longrightarrow> hd_state data = PB_DATABASE \<Longrightarrow> fresh c rows \<Longrightarrow>
    move c (c\<lparr>c_handles := hs @ Inserting (hd_handleid data) rows # hs', c_next := c_next c + length rows,
      c_acc := c_acc c \<union> set rows\<rparr>)"
| m_commit: "c_handles c = hs @ Inserting h rows # hs' \<Longrightarrow>
    move c (c\<lparr>c_tbl := c_tbl c @ rows, c_handles := hs @ Inserted h (last_id row_id rows) # hs'\<rparr>)"
| m_finish: "c_handles c = hs @ Inserted h lastid # hs' \<Longrightarrow>
    move c (c\<lparr>c_handles := hs @ hs', c_db := max (c_db c) lastid, c_num := c_num c - 1,
      c_ids := pb_deregister_handle (c_ids c) h\<rparr>)"
| m_get: "c_up c = Idle \<Longrightarrow> get_pb_src (c_state c) = PB_MEMORY \<Longrightarrow> lastid = 0 \<or> lastid \<in> row_id ` set (c_mem c) \<Longrightarrow>
    move c (c\<lparr>c_up := Uploading {r \<in> set (c_mem c). row_id r \<le> lastid} lastid more_data\<rparr>)"
| m_start: "c_up c = Idle \<Longrightarrow> get_pb_src (c_state c) = PB_DATABASE \<Longrightarrow> rd_id rd = c_stored c \<Longrightarrow> rd_lastid rd = 0 \<Longrightarrow>
    rd_gapid rd = 0 \<Longrightarrow> rd_rows rd = [] \<Longrightarrow> move c (c\<lparr>c_up := Reading rd {}\<rparr>)"
| m_none: "c_up c = Idle \<Longrightarrow> move c (c\<lparr>c_up := Uploading {} 0 more_data\<rparr>)"
| m_wait: "c_up c = Reading rd R \<Longrightarrow>
    fetch_rows (rd_id rd) (rd_gapid rd) (take n (filter (\<lambda>r. rd_id rd < row_id r) (sort_key row_id (c_tbl c)))) = (rows, lastid, Some gap) \<Longrightarrow>
    rd_id rd' = lastid \<Longrightarrow> rd_rows rd' = rd_rows rd @ rows \<Longrightarrow> rd_gapid rd' = gap \<Longrightarrow> rd_lastid rd' = rd_lastid rd \<Longrightarrow>
    R' = R \<union> set (rd_rows rd') \<Longrightarrow>
    move c (c\<lparr>c_up := Waiting rd' R' (wait_handleid (c_ids c))\<rparr>)"
| m_waited: "c_up c = Waiting rd R h \<Longrightarrow> wait_over (c_ids c) h \<Longrightarrow> move c (c\<lparr>c_up := Reading rd R\<rparr>)"
| m_read: "c_up c = Reading rd R \<Longrightarrow>
    fetch_rows (rd_id rd) (rd_gapid rd) (take n (filter (\<lambda>r. rd_id rd < row_id r) (sort_key row_id (c_tbl c)))) = (rows, i, None) \<Longrightarrow>
    lastid = rd_lastid rd \<or> lastid \<in> row_id ` set (rd_rows rd @ rows) \<Longrightarrow> R' = R \<union> set (rd_rows rd @ rows) \<Longrightarrow>
    move c (c\<lparr>c_up := Uploading {r \<in> R'. row_id r \<le> lastid} lastid more_data\<rparr>)"
| m_batch: "c_up c = Reading rd R \<Longrightarrow>
    fetch_rows (rd_id rd) (rd_gapid rd) (take n (filter (\<lambda>r. rd_id rd < row_id r) (sort_key row_id (c_tbl c)))) = (rows, i, None) \<Longrightarrow>
    rd_lastid rd' \<in> row_id ` set (rd_rows rd @ rows) \<Longrightarrow> R' = R \<union> set (rd_rows rd @ rows) \<Longrightarrow>
    rd_id rd' = rd_lastid rd' \<Longrightarrow> rd_gapid rd' = 0 \<Longrightarrow> rd_rows rd' = [] \<Longrightarrow>
    move c (c\<lparr>c_up := Reading rd' R'\<rparr>)"
| m_fail: "c_up c = Uploading R lastid more_data \<or> c_up c = Acknowledged more_data \<Longrightarrow> move c (c\<lparr>c_up := Idle\<rparr>)"
| m_ack0: "c_up c = Uploading R 0 more_data \<Longrightarrow> move c (c\<lparr>c_up := Acknowledged more_data, c_snt := c_snt c \<union> R\<rparr>)"
| m_ack_db: "c_up c = Uploading R lastid more_data \<Longrightarrow> lastid \<noteq> 0 \<Longrightarrow> get_pb_src (c_state c) = PB_DATABASE \<Longrightarrow>
    move c (c\<lparr>c_up := Acknowledged more_data, c_snt := c_snt c \<union> R, c_sent := lastid, c_stored := lastid\<rparr>)"
| m_ack_mem: "c_up c = Uploading R lastid more_data \<Longrightarrow> lastid \<noteq> 0 \<Longrightarrow> get_pb_src (c_state c) = PB_MEMORY \<Longrightarrow>
    move c (c\<lparr>c_up := Acknowledged more_data, c_snt := c_snt c \<union> R, c_sent := lastid,
      c_mem := dropWhile (\<lambda>r. row_id r \<le> lastid) (c_mem c)\<rparr>)"
| m_drained: "c_up c = Acknowledged more_data \<Longrightarrow> c_state c = PB_MEMORY_DATABASE \<Longrightarrow> c_mem c = [] \<Longrightarrow>
    stored = c_sent c \<or> stored = c_stored c \<and> c_sent c = 0 \<Longrightarrow>
    move c (c\<lparr>c_state := PB_DATABASE, c_stored := stored\<rparr>)"
| m_switch: "c_up c = Acknowledged more_data \<Longrightarrow> c_state c = PB_DATABASE \<Longrightarrow> \<forall>h \<in> set (c_handles c). \<not> late_handle h \<Longrightarrow>
    move c (c\<lparr>c_state := PB_DATABASE_MEMORY\<rparr>)"
| m_back: "c_up c = Acknowledged more_data \<Longrightarrow> c_state c = PB_DATABASE_MEMORY \<Longrightarrow> c_num c = 0 \<Longrightarrow> c_db c \<le> c_sent c \<Longrightarrow>
    move c (c\<lparr>c_state := PB_MEMORY\<rparr>)"

section \<open>Invariant\<close>

abbreviation (input) c_flight :: "core \<Rightarrow> zbx_pb_history list" where "c_flight c \<equiv> in_flight (c_handles c)"

definition ids_ok :: "core \<Rightarrow> bool" where
  "ids_ok c \<longleftrightarrow> distinct (map row_id (c_mem c @ c_tbl c @ c_flight c))
     \<and> (\<forall>r \<in> set (c_mem c) \<union> set (c_tbl c) \<union> set (c_flight c). row_id r < c_next c)
     \<and> (\<forall>r \<in> set (c_mem c) \<union> set (c_flight c). c_sent c < row_id r)
     \<and> sorted (map row_id (c_mem c)) \<and> c_sent c < c_next c"

definition state_ok :: "core \<Rightarrow> bool" where
  "state_ok c \<longleftrightarrow> c_stored c \<le> c_sent c \<and> (get_pb_src (c_state c) = PB_DATABASE \<longrightarrow> c_stored c = c_sent c)
     \<and> (case c_state c of
          PB_DATABASE \<Rightarrow> c_mem c = []
        | PB_DATABASE_MEMORY \<Rightarrow> (\<forall>m \<in> set (c_mem c). \<forall>r \<in> set (c_tbl c) \<union> set (c_flight c). row_id r < row_id m)
            \<and> (\<forall>h \<in> set (c_handles c). \<not> late_handle h)
        | PB_MEMORY \<Rightarrow> (\<forall>r \<in> set (c_tbl c). row_id r \<le> c_sent c) \<and> (\<forall>h \<in> set (c_handles c). \<not> db_handle h)
        | PB_MEMORY_DATABASE \<Rightarrow> \<forall>m \<in> set (c_mem c). \<forall>r \<in> set (c_tbl c) \<union> set (c_flight c). c_sent c < row_id r \<longrightarrow> row_id m < row_id r)"

definition handles_ok :: "core \<Rightarrow> bool" where
  "handles_ok c \<longleftrightarrow> distinct (map handle_id (c_handles c)) \<and> distinct (c_ids c)
     \<and> set (c_ids c) = handle_id ` set (c_handles c) \<and> (\<forall>h \<in> set (c_handles c). 0 < handle_id h \<and> handle_id h \<le> c_last c)
     \<and> c_num c = int (length (filter db_handle (c_handles c)))"

definition lastid_ok :: "core \<Rightarrow> bool" where
  "lastid_ok c \<longleftrightarrow> (c_db c = 0 \<or> c_db c \<in> row_id ` set (c_tbl c))
     \<and> (\<forall>h l. Inserted h l \<in> set (c_handles c) \<longrightarrow> l = 0 \<or> l \<in> row_id ` set (c_tbl c))
     \<and> (\<forall>r \<in> set (c_tbl c). row_id r \<le> c_db c \<or> (\<exists>h l. Inserted h l \<in> set (c_handles c) \<and> row_id r \<le> l))"

definition reader_ok :: "core \<Rightarrow> reader \<Rightarrow> zbx_pb_history set \<Rightarrow> bool" where
  "reader_ok c rd R \<longleftrightarrow> get_pb_src (c_state c) = PB_DATABASE \<and> c_sent c \<le> rd_id rd \<and> rd_id rd < c_next c
     \<and> (rd_lastid rd = 0 \<or> c_sent c < rd_lastid rd \<and> rd_lastid rd \<le> rd_id rd) \<and> set (rd_rows rd) \<subseteq> R
     \<and> rd_gapid rd \<le> c_next c \<and> (\<forall>r \<in> R. c_sent c < row_id r) \<and> (\<forall>r \<in> set (rd_rows rd). row_id r \<le> rd_id rd)
     \<and> (\<forall>r \<in> set (c_tbl c). c_sent c < row_id r \<and> row_id r \<le> rd_id rd \<longrightarrow> r \<in> R)
     \<and> (\<forall>r \<in> set (c_mem c) \<union> set (c_flight c). rd_id rd < row_id r)"

fun uploader_ok :: "core \<Rightarrow> uploader \<Rightarrow> bool" where
  "uploader_ok c (Reading rd R) \<longleftrightarrow> reader_ok c rd R \<and> (\<forall>r \<in> set (c_flight c). rd_gapid rd \<le> row_id r)"
| "uploader_ok c (Waiting rd R h) \<longleftrightarrow> reader_ok c rd R
     \<and> (\<forall>p \<in> set (c_handles c). \<forall>r \<in> set (handle_rows p). rd_gapid rd \<le> row_id r \<or> 0 < h \<and> handle_id p \<le> h)"
| "uploader_ok c (Uploading R lastid more_data) \<longleftrightarrow> lastid < c_next c \<and> (lastid = 0 \<or> c_sent c < lastid)
     \<and> (\<forall>r \<in> R. c_sent c < row_id r \<and> row_id r \<le> lastid)
     \<and> (\<forall>r \<in> set (c_mem c) \<union> set (c_tbl c). c_sent c < row_id r \<and> row_id r \<le> lastid \<longrightarrow> r \<in> R)
     \<and> (\<forall>r \<in> set (c_flight c). lastid < row_id r)
     \<and> (get_pb_src (c_state c) = PB_DATABASE \<longrightarrow> (\<forall>r \<in> set (c_mem c). lastid < row_id r))"
| "uploader_ok c _ \<longleftrightarrow> True"

definition rows_ok :: "core \<Rightarrow> bool" where
  "rows_ok c \<longleftrightarrow> (\<forall>r \<in> c_snt c. row_id r \<le> c_sent c)
     \<and> c_acc c \<subseteq> c_snt c \<union> c_dis c \<union> set (c_mem c) \<union> set (c_flight c) \<union> {r \<in> set (c_tbl c). c_sent c < row_id r}"

lemma in_flight_simps [simp]:
  "in_flight [] = []" "in_flight (h # hs) = handle_rows h @ in_flight hs" "in_flight (hs @ hs') = in_flight hs @ in_flight hs'"
  by (simp_all add: in_flight_def)

section \<open>The handle ids\<close>

lemma index_of_None: "index_of h ids = None \<longleftrightarrow> h \<notin> set ids"
  by (induction ids) auto

lemma index_of_Some: "index_of h ids = Some i \<Longrightarrow> i < length ids \<and> ids ! i = h"
  by (induction ids arbitrary: i) (auto split: if_splits)

lemma deregister:
  assumes "distinct ids"
  shows "distinct (pb_deregister_handle ids h)" "set (pb_deregister_handle ids h) = set ids - {h}"
proof -
  have "distinct (pb_deregister_handle ids h) \<and> set (pb_deregister_handle ids h) = set ids - {h}"
  proof (cases "index_of h ids")
    case None
    then show ?thesis using assms index_of_None [of h ids] by (simp add: pb_deregister_handle_def)
  next
    case (Some i)
    note i = index_of_Some [OF Some]
    then have ne: "ids \<noteq> []" by auto
    define xs where "xs = butlast ids"
    define x where "x = last ids"
    have ids: "ids = xs @ [x]" using ne by (simp add: xs_def x_def)
    have d: "pb_deregister_handle ids h = butlast (ids[i := x])" using Some by (simp add: pb_deregister_handle_def x_def)
    show ?thesis
    proof (cases "i < length xs")
      case True
      then have "pb_deregister_handle ids h = xs[i := x]" unfolding d by (simp add: ids list_update_append)
      moreover have "xs ! i = h" using i True ids by (simp add: nth_append)
      then have "xs = take i xs @ h # drop (Suc i) xs" using True id_take_nth_drop by metis
      then obtain a b where "xs = a @ h # b" "length a = i" using True by (metis length_take less_imp_le min.absorb2)
      ultimately show ?thesis using assms ids by (auto simp: list_update_append)
    next
      case False
      then have "i = length xs" using i ids by simp
      then have "pb_deregister_handle ids h = xs" "x = h" unfolding d using i ids by simp_all
      then show ?thesis using assms ids by auto
    qed
  qed
  then show "distinct (pb_deregister_handle ids h)" "set (pb_deregister_handle ids h) = set ids - {h}" by simp_all
qed

section \<open>Preservation\<close>

lemma fresh_rows:
  assumes "fresh c rows"
  shows "distinct (map row_id rows)" "sorted (map row_id rows)" "\<And>r. r \<in> set rows \<Longrightarrow> c_next c \<le> row_id r \<and> row_id r < c_next c + length rows"
proof -
  note m = assms [unfolded fresh_def]
  show "distinct (map row_id rows)" "sorted (map row_id rows)" unfolding m by simp_all
  fix r assume "r \<in> set rows"
  then have "row_id r \<in> set (map row_id rows)" by simp
  then show "c_next c \<le> row_id r \<and> row_id r < c_next c + length rows" unfolding m by simp
qed

lemma ids_lt: "ids_ok c \<Longrightarrow> r \<in> set (c_mem c) \<union> set (c_tbl c) \<union> set (c_flight c) \<Longrightarrow> row_id r < c_next c"
  unfolding ids_ok_def by blast

lemma sent_lt: "ids_ok c \<Longrightarrow> r \<in> set (c_mem c) \<union> set (c_flight c) \<Longrightarrow> c_sent c < row_id r"
  unfolding ids_ok_def by blast

lemma fresh_less:
  assumes "ids_ok c" "fresh c rows" "r \<in> set rows" "r' \<in> set (c_mem c) \<union> set (c_tbl c) \<union> set (c_flight c)"
  shows "row_id r' < row_id r"
  using ids_lt [OF assms(1,4)] fresh_rows(3) [OF assms(2,3)] by linarith

lemma fresh_sent:
  assumes "ids_ok c" "fresh c rows" "r \<in> set rows"
  shows "c_sent c < row_id r"
  using assms(1) fresh_rows(3) [OF assms(2,3)] by (simp add: ids_ok_def)

text \<open>New rows may go to the memory or to an open handle.\<close>

lemma ids_ok_new:
  assumes ids: "ids_ok c" and f: "fresh c rows"
    and c: "c_tbl c' = c_tbl c" "c_sent c' = c_sent c" "c_next c' = c_next c + length rows"
    and place: "c_mem c' = c_mem c @ rows \<and> c_flight c' = c_flight c
      \<or> c_mem c' = c_mem c \<and> (\<exists>a b. c_flight c = a @ b \<and> c_flight c' = a @ rows @ b)"
  shows "ids_ok c'"
proof -
  let ?old = "set (c_mem c) \<union> set (c_tbl c) \<union> set (c_flight c)"
  have new: "set (c_mem c') \<union> set (c_tbl c') \<union> set (c_flight c') = ?old \<union> set rows"
    and upper: "set (c_mem c') \<union> set (c_flight c') = set (c_mem c) \<union> set (c_flight c) \<union> set rows"
    using place c(1) by auto
  have dj: "row_id ` ?old \<inter> row_id ` set rows = {}" using fresh_less [OF ids f] by fastforce
  have "mset (map row_id (c_mem c' @ c_tbl c' @ c_flight c')) = mset (map row_id ((c_mem c @ c_tbl c @ c_flight c) @ rows))"
    using place c(1) by auto
  moreover have "distinct (map row_id ((c_mem c @ c_tbl c @ c_flight c) @ rows))"
    using dj ids fresh_rows(1) [OF f] unfolding ids_ok_def map_append [of _ "_ @ _"] distinct_append [of "map row_id (_ @ _)"]
    by (simp add: image_Un Un_assoc)
  ultimately have "distinct (map row_id (c_mem c' @ c_tbl c' @ c_flight c'))" using mset_eq_imp_distinct_iff by blast
  moreover have "sorted (map row_id (c_mem c'))"
  proof -
    have "sorted (map row_id (c_mem c))" using ids by (simp add: ids_ok_def)
    moreover from this have "sorted (map row_id (c_mem c @ rows))"
      using fresh_rows(2) [OF f] fresh_less [OF ids f] by (simp add: sorted_append) (meson less_imp_le)
    ultimately show ?thesis using place by auto
  qed
  moreover have "\<forall>r \<in> ?old \<union> set rows. row_id r < c_next c'"
    using ids_lt [OF ids] fresh_rows(3) [OF f] c(3) by (metis UnE trans_less_add1)
  moreover have "\<forall>r \<in> set (c_mem c) \<union> set (c_flight c) \<union> set rows. c_sent c' < row_id r"
    using sent_lt [OF ids] fresh_sent [OF ids f] c(2) by auto
  moreover have "c_sent c' < c_next c'" using ids c by (simp add: ids_ok_def)
  ultimately show ?thesis unfolding ids_ok_def new upper by blast
qed

text \<open>Clearing what was sent leaves exactly the rows after it.\<close>

lemma dropWhile_sent:
  assumes "sorted (map row_id rows)"
  shows "\<exists>old. rows = old @ dropWhile (\<lambda>r. row_id r \<le> lastid) rows \<and> (\<forall>r \<in> set old. row_id r \<le> lastid)
    \<and> (\<forall>r \<in> set (dropWhile (\<lambda>r. row_id r \<le> lastid) rows). lastid < row_id r)"
  using assms
proof (induction rows)
  case (Cons r rows)
  show ?case
  proof (cases "row_id r \<le> lastid")
    case True
    from Cons obtain old where "rows = old @ dropWhile (\<lambda>r. row_id r \<le> lastid) rows" "\<forall>r \<in> set old. row_id r \<le> lastid"
      "\<forall>r \<in> set (dropWhile (\<lambda>r. row_id r \<le> lastid) rows). lastid < row_id r" by auto
    then show ?thesis using True by (intro exI [of _ "r # old"]) simp
  next
    case False
    then show ?thesis using Cons.prems by (intro exI [of _ "[]"]) fastforce
  qed
qed simp

lemma move_ids:
  assumes "move c c'" and ids: "ids_ok c" and up: "uploader_ok c (c_up c)"
  shows "ids_ok c'"
  using assms(1)
proof cases
  case (m_ids n)
  have "\<forall>r \<in> set (c_mem c) \<union> set (c_tbl c) \<union> set (c_flight c). row_id r < n"
    using ids_lt [OF ids] m_ids(2) less_le_trans by blast
  moreover have "c_sent c < n" using ids m_ids(2) by (simp add: ids_ok_def)
  ultimately show ?thesis using ids m_ids(1) by (simp add: ids_ok_def)
next
  case (m_aged old young)
  then show ?thesis using ids by (auto simp: ids_ok_def sorted_append)
next
  case (m_add rows)
  then show ?thesis using ids_ok_new [OF ids, of rows c'] by simp
next
  case (m_fallback stored)
  then show ?thesis using ids by (auto simp: ids_ok_def)
next
  case (m_insert_mem hs data hs' rows)
  then show ?thesis using ids_ok_new [OF ids, of rows c'] by auto
next
  case (m_insert_db hs data hs' rows)
  then show ?thesis using ids_ok_new [OF ids, of rows c'] by auto
next
  case (m_commit hs h rows hs')
  then show ?thesis using ids by (auto simp: ids_ok_def)
next
  case (m_ack_db R lastid more_data)
  then show ?thesis using ids up by (auto simp: ids_ok_def)
next
  case (m_ack_mem R lastid more_data)
  have s: "sorted (map row_id (c_mem c))" using ids by (simp add: ids_ok_def)
  from dropWhile_sent [OF s, of lastid] obtain old where
    M: "c_mem c = old @ dropWhile (\<lambda>r. row_id r \<le> lastid) (c_mem c)"
    "\<forall>r \<in> set (dropWhile (\<lambda>r. row_id r \<le> lastid) (c_mem c)). lastid < row_id r" by blast
  define young where "young = dropWhile (\<lambda>r. row_id r \<le> lastid) (c_mem c)"
  have "c_mem c = old @ young" "\<forall>r \<in> set young. lastid < row_id r" "c_mem c' = young" using M m_ack_mem(1) by (simp_all add: young_def)
  then have Y: "c_mem c = old @ young" "\<forall>r \<in> set young. lastid < row_id r" and F: "c_mem c' = young" "c_tbl c' = c_tbl c"
    "c_handles c' = c_handles c" "c_next c' = c_next c" "c_sent c' = lastid" using m_ack_mem(1) by simp_all
  have "distinct (map row_id (c_mem c' @ c_tbl c' @ c_flight c'))" using ids Y(1) unfolding F ids_ok_def by simp
  moreover have "\<forall>r \<in> set (c_mem c') \<union> set (c_tbl c') \<union> set (c_flight c'). row_id r < c_next c'"
    unfolding F using ids_lt [OF ids] Y(1) by simp
  moreover have "\<forall>r \<in> set (c_mem c') \<union> set (c_flight c'). c_sent c' < row_id r"
    unfolding F using Y(2) up m_ack_mem(2) by auto
  moreover have "sorted (map row_id (c_mem c'))" unfolding F using s Y(1) by (simp add: sorted_append)
  moreover have "c_sent c' < c_next c'" unfolding F using up m_ack_mem(2) by simp
  ultimately show ?thesis unfolding ids_ok_def by blast
qed (use ids in \<open>simp_all add: ids_ok_def\<close>)

lemma not_db_rows: "\<forall>h \<in> set hs. \<not> db_handle h \<Longrightarrow> in_flight hs = []"
proof (induction hs)
  case (Cons h hs)
  then show ?case by (cases h) auto
qed simp

lemma no_db_handles:
  assumes "handles_ok c" "c_num c = 0"
  shows "\<forall>h \<in> set (c_handles c). \<not> db_handle h"
  using assms by (auto simp: handles_ok_def filter_empty_conv)

lemma dst_memory: "get_pb_dst s = PB_MEMORY \<longleftrightarrow> s = PB_DATABASE_MEMORY \<or> s = PB_MEMORY"
  by (cases s) auto

lemma dst_database: "get_pb_dst s = PB_DATABASE \<longleftrightarrow> s = PB_DATABASE \<or> s = PB_MEMORY_DATABASE"
  by (cases s) auto

lemma src_memory: "get_pb_src s = PB_MEMORY \<longleftrightarrow> s = PB_MEMORY \<or> s = PB_MEMORY_DATABASE"
  by (cases s) auto

lemma src_database: "get_pb_src s = PB_DATABASE \<longleftrightarrow> s = PB_DATABASE \<or> s = PB_DATABASE_MEMORY"
  by (cases s) auto

lemma late_db: "late_handle h \<Longrightarrow> db_handle h"
  by (cases h) auto

lemma move_state:
  assumes "move c c'" and ids: "ids_ok c" and st: "state_ok c" and hs: "handles_ok c" and li: "lastid_ok c"
    and up: "uploader_ok c (c_up c)"
  shows "state_ok c'"
  using assms(1)
proof cases
  case (m_open data)
  then show ?thesis using st by (auto simp: state_ok_def split: zbx_pb_state_t.splits)
next
  case (m_write hs data hs' data')
  then show ?thesis using st by (auto simp: state_ok_def split: zbx_pb_state_t.splits)
next
  case (m_gone hs data hs')
  then show ?thesis using st by (auto simp: state_ok_def split: zbx_pb_state_t.splits)
next
  case (m_aged old young)
  then show ?thesis using st by (auto simp: state_ok_def split: zbx_pb_state_t.splits)
next
  case (m_add rows)
  then show ?thesis using st fresh_less [OF ids m_add(3)] by (auto simp: state_ok_def dst_memory)
next
  case (m_fallback stored)
  then show ?thesis using st by (auto simp: state_ok_def)
next
  case m_full
  then show ?thesis using st not_db_rows [of "c_handles c"] by (auto simp: state_ok_def)
next
  case (m_insert_mem hs data hs' rows)
  then show ?thesis using st fresh_less [OF ids m_insert_mem(5)] by (auto simp: state_ok_def dst_database)
next
  case (m_insert_db hs data hs' rows)
  then have "\<exists>h \<in> set (c_handles c). late_handle h" by auto
  then have "c_state c = PB_DATABASE \<or> c_state c = PB_MEMORY_DATABASE"
    using st late_db by (cases "c_state c") (auto simp: state_ok_def)
  then show ?thesis using m_insert_db(1-3) st fresh_less [OF ids m_insert_db(4)] by (auto simp: state_ok_def)
next
  case (m_commit hs h rows hs')
  then show ?thesis using st by (auto simp: state_ok_def split: zbx_pb_state_t.splits)
next
  case (m_finish hs h lastid hs')
  then show ?thesis using st by (auto simp: state_ok_def split: zbx_pb_state_t.splits)
next
  case (m_ack_db R lastid more_data)
  then show ?thesis using st by (auto simp: state_ok_def src_database)
next
  case (m_ack_mem R lastid more_data)
  have up: "c_sent c \<le> lastid" using up m_ack_mem(3) unfolding m_ack_mem(2) uploader_ok.simps by linarith
  define young where "young = dropWhile (\<lambda>r. row_id r \<le> lastid) (c_mem c)"
  have sub: "m \<in> set (c_mem c)" if "m \<in> set young" for m using that unfolding young_def by (rule set_dropWhileD)
  have F: "c_mem c' = young" "c_tbl c' = c_tbl c" "c_handles c' = c_handles c" "c_sent c' = lastid" "c_state c' = c_state c"
    "c_stored c' = c_stored c" using m_ack_mem(1) by (simp_all add: young_def)
  have stored: "c_stored c \<le> lastid" using st up unfolding state_ok_def by linarith
  from m_ack_mem(4) consider "c_state c = PB_MEMORY" | "c_state c = PB_MEMORY_DATABASE" unfolding src_memory by blast
  then show ?thesis
  proof cases
    case 1
    then show ?thesis using st up stored unfolding state_ok_def F by (auto intro: le_trans)
  next
    case 2
    then have "\<forall>m \<in> set (c_mem c). \<forall>r \<in> set (c_tbl c) \<union> set (c_flight c). c_sent c < row_id r \<longrightarrow> row_id m < row_id r"
      using st by (simp add: state_ok_def)
    then have "row_id m < row_id r" if "m \<in> set young" "r \<in> set (c_tbl c) \<union> set (c_flight c)" "lastid < row_id r" for m r
      using sub [OF that(1)] that(2) le_less_trans [OF up that(3)] by blast
    then show ?thesis using 2 stored unfolding state_ok_def F by simp
  qed
next
  case (m_drained more_data stored)
  then show ?thesis using st by (auto simp: state_ok_def)
next
  case (m_switch more_data)
  then show ?thesis using st by (auto simp: state_ok_def)
next
  case (m_back more_data)
  note nd = no_db_handles [OF hs m_back(4)]
  have "row_id r \<le> c_sent c" if "r \<in> set (c_tbl c)" for r
    using li that m_back(5) nd unfolding lastid_ok_def by (metis db_handle.simps(3) le_trans)
  then show ?thesis using m_back(1,3) st nd by (auto simp: state_ok_def)
qed (use st in \<open>simp_all add: state_ok_def cong: zbx_pb_state_t.case_cong\<close>)

lemma drop_handle:
  assumes "handles_ok c" "c_handles c = hs1 @ h # hs'"
  shows "set (pb_deregister_handle (c_ids c) (handle_id h)) = handle_id ` set (hs1 @ hs')"
    "distinct (pb_deregister_handle (c_ids c) (handle_id h))"
proof -
  have "distinct (map handle_id (hs1 @ h # hs'))" "distinct (c_ids c)" "set (c_ids c) = handle_id ` set (hs1 @ h # hs')"
    using assms unfolding handles_ok_def by metis+
  then show "set (pb_deregister_handle (c_ids c) (handle_id h)) = handle_id ` set (hs1 @ hs')"
    "distinct (pb_deregister_handle (c_ids c) (handle_id h))"
    using deregister [of "c_ids c" "handle_id h"] Diff_insert_absorb [of "handle_id h" "handle_id ` set (hs1 @ hs')"] by (simp_all add: image_Un)
qed

lemma move_handles:
  assumes "move c c'" and st: "state_ok c" and hs: "handles_ok c"
  shows "handles_ok c'"
  using assms(1)
proof cases
  case (m_open data)
  then show ?thesis using hs by (force simp: handles_ok_def)
next
  case (m_write hs1 data hs' data')
  then show ?thesis using hs by (auto simp: handles_ok_def)
next
  case (m_gone hs1 data hs')
  then show ?thesis using hs drop_handle [OF hs m_gone(2)] by (auto simp: handles_ok_def)
next
  case (m_insert_mem hs1 data hs' rows)
  then show ?thesis using hs by (auto simp: handles_ok_def)
next
  case (m_insert_db hs1 data hs' rows)
  then show ?thesis using hs by (auto simp: handles_ok_def)
next
  case (m_commit hs1 h rows hs')
  then show ?thesis using hs by (auto simp: handles_ok_def)
next
  case (m_finish hs1 h lastid hs')
  then show ?thesis using hs drop_handle [OF hs m_finish(2)] by (auto simp: handles_ok_def)
qed (use hs in \<open>simp_all add: handles_ok_def\<close>)

lemma last_id_in: "last_id row_id rows = 0 \<or> last_id row_id rows \<in> row_id ` set rows"
  by (simp add: last_id_def)

lemma sorted_last_id: "sorted (map row_id rows) \<Longrightarrow> r \<in> set rows \<Longrightarrow> row_id r \<le> last_id row_id rows"
proof (induction rows rule: rev_induct)
  case (snoc x rows)
  then show ?case by (auto simp: last_id_def sorted_append)
qed simp

definition handles_sorted :: "pb_handle list \<Rightarrow> bool" where
  "handles_sorted hs \<longleftrightarrow> (\<forall>h rows. Inserting h rows \<in> set hs \<longrightarrow> sorted (map row_id rows))"

lemma move_sorted: "move c c' \<Longrightarrow> handles_sorted (c_handles c) \<Longrightarrow> handles_sorted (c_handles c')"
  by (induction rule: move.induct) (auto simp: handles_sorted_def fresh_rows)

lemma move_lastid:
  assumes "move c c'" and ids: "ids_ok c" and st: "state_ok c" and li: "lastid_ok c" and so: "handles_sorted (c_handles c)"
  shows "lastid_ok c'"
  using assms(1)
proof cases
  case (m_fallback stored)
  have "sorted (map row_id (c_mem c))" using ids by (simp add: ids_ok_def)
  note up = sorted_last_id [OF this]
  have "max (c_db c) (last_id row_id (c_mem c)) = 0 \<or> max (c_db c) (last_id row_id (c_mem c)) \<in> row_id ` (set (c_tbl c) \<union> set (c_mem c))"
    using li last_id_in [of "c_mem c"] unfolding lastid_ok_def by (auto simp: max_def)
  then show ?thesis using li m_fallback(1) up unfolding lastid_ok_def by (auto simp: le_max_iff_disj)
next
  case (m_commit hs1 h rows hs')
  have "sorted (map row_id rows)" using so m_commit(2) by (simp add: handles_sorted_def)
  note up = sorted_last_id [OF this]
  have "row_id r \<le> c_db c \<or> (\<exists>h' l. Inserted h' l \<in> set (c_handles c') \<and> row_id r \<le> l)" if "r \<in> set (c_tbl c')" for r
  proof (cases "r \<in> set (c_tbl c)")
    case True
    with li have "row_id r \<le> c_db c \<or> (\<exists>h l. Inserted h l \<in> set (c_handles c) \<and> row_id r \<le> l)"
      unfolding lastid_ok_def by blast
    then show ?thesis using m_commit by auto
  next
    case False
    then have "row_id r \<le> last_id row_id rows" using that m_commit(1) up by auto
    then show ?thesis using m_commit(1) by auto
  qed
  moreover have "l = 0 \<or> l \<in> row_id ` set (c_tbl c')" if "Inserted h' l \<in> set (c_handles c')" for h' l
    using li last_id_in [of rows] m_commit that unfolding lastid_ok_def by (auto simp: image_Un)
  ultimately show ?thesis using li m_commit(1) unfolding lastid_ok_def by (auto simp: image_Un)
next
  case (m_finish hs1 h lastid hs')
  have "max (c_db c) lastid = 0 \<or> max (c_db c) lastid \<in> row_id ` set (c_tbl c)"
    using li m_finish(2) unfolding lastid_ok_def by (auto simp: max_def)
  moreover have "row_id r \<le> max (c_db c) lastid \<or> (\<exists>h l. Inserted h l \<in> set (hs1 @ hs') \<and> row_id r \<le> l)" if "r \<in> set (c_tbl c)" for r
  proof -
    from li that have "row_id r \<le> c_db c \<or> (\<exists>h l. Inserted h l \<in> set (c_handles c) \<and> row_id r \<le> l)"
      unfolding lastid_ok_def by blast
    then show ?thesis using m_finish(2) by (auto simp: le_max_iff_disj)
  qed
  moreover have "l = 0 \<or> l \<in> row_id ` set (c_tbl c)" if "Inserted h' l \<in> set (hs1 @ hs')" for h' l
    using li m_finish(2) that unfolding lastid_ok_def by auto
  ultimately show ?thesis using m_finish(1) unfolding lastid_ok_def by simp
qed (use li in \<open>auto simp: lastid_ok_def\<close>)

section \<open>Reading over gaps\<close>

text \<open>
  One result: its rows up to a gap. An id that is not in it, not before the gap waited for and after the first id is
  beyond the last row taken.
\<close>

lemma fetch_result:
  assumes "sorted_wrt (<) (i # map row_id result)" "fetch_rows i g result = (rows, i', gap)"
  shows "\<exists>rest. result = rows @ rest \<and> i' = (if rows = [] then i else row_id (last rows))
    \<and> (case gap of None \<Rightarrow> rest = [] | Some gp \<Rightarrow> rest \<noteq> [] \<and> gp = row_id (hd rest))
    \<and> (\<forall>f. i < f \<and> g \<le> f \<and> f \<notin> row_id ` set result \<longrightarrow> i' < f)"
  using assms
proof (induction i g result arbitrary: rows rule: fetch_rows.induct)
  case (2 i g r result)
  show ?case
  proof (cases "row_id r \<noteq> i \<and> row_id r \<noteq> i + 1 \<and> row_id r \<noteq> g")
    case True
    then show ?thesis using 2(3) by auto
  next
    case False
    obtain rows' where f: "fetch_rows (row_id r) g result = (rows', i', gap)" "rows = r # rows'"
      using 2(3) False by (auto split: prod.splits)
    have "sorted_wrt (<) (row_id r # map row_id result)" using 2(2) by simp
    from 2(1) [OF False this f(1)] obtain rest where
      R: "result = rows' @ rest" "i' = (if rows' = [] then row_id r else row_id (last rows'))"
        "case gap of None \<Rightarrow> rest = [] | Some gp \<Rightarrow> rest \<noteq> [] \<and> gp = row_id (hd rest)"
        "\<forall>f. row_id r < f \<and> g \<le> f \<and> f \<notin> row_id ` set result \<longrightarrow> i' < f" by blast
    have "i' < f" if "i < f" "g \<le> f" "f \<notin> row_id ` set (r # result)" for f
    proof -
      have "row_id r < f" using that False 2(2) by auto
      then show ?thesis using R(4) that by simp
    qed
    then show ?thesis using R(1,2,3) f(2) by (intro exI [of _ rest]) simp
  qed
qed simp

lemma filter_sorted_after:
  assumes "distinct (map row_id T)"
  shows "sorted_wrt (<) (i # map row_id (take n (filter (\<lambda>r. i < row_id r) (sort_key row_id T))))"
proof -
  have "sorted (map row_id (filter (\<lambda>r. i < row_id r) (sort_key row_id T)))" by (rule sorted_filter) simp
  moreover have "distinct (map row_id (filter (\<lambda>r. i < row_id r) (sort_key row_id T)))"
    using assms by (simp add: distinct_map inj_on_def)
  ultimately have "sorted_wrt (<) (map row_id (filter (\<lambda>r. i < row_id r) (sort_key row_id T)))"
    by (simp add: strict_sorted_iff)
  then have "sorted_wrt (<) (map row_id (take n (filter (\<lambda>r. i < row_id r) (sort_key row_id T))))"
    by (metis sorted_wrt_take take_map)
  moreover have "\<forall>r \<in> set (take n (filter (\<lambda>r. i < row_id r) (sort_key row_id T))). i < row_id r"
    by (auto dest: in_set_takeD)
  ultimately show ?thesis by (simp only: sorted_wrt.simps set_map ball_simps simp_thms)
qed

lemma fetch_table:
  assumes dist: "distinct (map row_id T)"
    and fetch: "fetch_rows i g (take n (filter (\<lambda>r. i < row_id r) (sort_key row_id T))) = (rows, i', gap)"
  shows "set rows \<subseteq> set T" "\<forall>r \<in> set rows. i < row_id r \<and> row_id r \<le> i'" "i \<le> i'" "i' = i \<or> i' \<in> row_id ` set rows"
    "\<forall>r \<in> set T. i < row_id r \<and> row_id r \<le> i' \<longrightarrow> r \<in> set rows"
    "\<forall>f. i < f \<and> g \<le> f \<and> f \<notin> row_id ` set T \<longrightarrow> i' < f" "\<forall>gp. gap = Some gp \<longrightarrow> gp \<in> row_id ` set T"
proof -
  define xs where "xs = filter (\<lambda>r. i < row_id r) (sort_key row_id T)"
  have xs: "set xs = {r \<in> set T. i < row_id r}" by (auto simp: xs_def)
  have sorted_all: "sorted_wrt (<) (map row_id xs)"
    using filter_sorted_after [OF dist, of i "length xs"] by (simp add: xs_def)
  note fetch_result [OF filter_sorted_after [OF dist] fetch]
  then obtain rest where
    R: "take n xs = rows @ rest" "i' = (if rows = [] then i else row_id (last rows))"
      "case gap of None \<Rightarrow> rest = [] | Some gp \<Rightarrow> rest \<noteq> [] \<and> gp = row_id (hd rest)"
      "\<forall>f. i < f \<and> g \<le> f \<and> f \<notin> row_id ` set (take n xs) \<longrightarrow> i' < f" unfolding xs_def [symmetric] by blast
  define later where "later = rest @ drop n xs"
  have split: "xs = rows @ later" using R(1) unfolding later_def by (metis append.assoc append_take_drop_id)
  then have sub: "set rows \<subseteq> set xs" by simp
  show "set rows \<subseteq> set T" using sub xs by blast
  have last: "row_id r \<le> i'" if "r \<in> set rows" for r
    using that sorted_all R(2) unfolding split
    by (cases rows rule: rev_cases) (auto simp: sorted_wrt_append intro: less_imp_le)
  show "\<forall>r \<in> set rows. i < row_id r \<and> row_id r \<le> i'" using sub xs last by auto
  show "i' = i \<or> i' \<in> row_id ` set rows" using R(2) by auto
  then show "i \<le> i'" using sub xs by auto
  have later: "i' < row_id r" if "r \<in> set later" for r
  proof (cases "rows = []")
    case True
    then show ?thesis using that split xs R(2) by auto
  next
    case False
    then show ?thesis using that sorted_all R(2) unfolding split by (auto simp: sorted_wrt_append)
  qed
  show "\<forall>r \<in> set T. i < row_id r \<and> row_id r \<le> i' \<longrightarrow> r \<in> set rows"
  proof (intro ballI impI)
    fix r assume r: "r \<in> set T" "i < row_id r \<and> row_id r \<le> i'"
    then have "r \<in> set xs" using xs by simp
    then show "r \<in> set rows" using split later [of r] r(2) by auto
  qed
  have "row_id ` set (take n xs) \<subseteq> row_id ` set T" using xs by (auto dest: in_set_takeD)
  then show "\<forall>f. i < f \<and> g \<le> f \<and> f \<notin> row_id ` set T \<longrightarrow> i' < f" using R(4) by blast
  have "set rest \<subseteq> set T" using split xs unfolding later_def by (metis (no_types, lifting) Un_subset_iff mem_Collect_eq set_append subsetI)
  then have "hd rest \<in> set T" if "rest \<noteq> []" using hd_in_set [OF that] by blast
  then show "\<forall>gp. gap = Some gp \<longrightarrow> gp \<in> row_id ` set T" using R(3) by (auto split: option.splits)
qed

section \<open>The uploader\<close>

text \<open>What the moves of the other processes leave to the uploader: no row with an id it has passed.\<close>

definition frame :: "core \<Rightarrow> core \<Rightarrow> bool" where
  "frame c c' \<longleftrightarrow> c_up c' = c_up c \<and> c_sent c' = c_sent c \<and> c_next c \<le> c_next c'
     \<and> (get_pb_src (c_state c) = PB_DATABASE \<longrightarrow> get_pb_src (c_state c') = PB_DATABASE)
     \<and> (get_pb_src (c_state c') = PB_DATABASE \<longrightarrow> get_pb_src (c_state c) = PB_DATABASE \<or> c_mem c' = [])
     \<and> set (c_mem c') \<subseteq> set (c_mem c) \<union> {r. c_next c \<le> row_id r}
     \<and> set (c_tbl c') \<subseteq> set (c_tbl c) \<union> set (c_mem c) \<union> set (c_flight c)
     \<and> (\<forall>p' \<in> set (c_handles c'). \<forall>r \<in> set (handle_rows p'). c_next c \<le> row_id r
          \<or> (\<exists>p \<in> set (c_handles c). handle_id p = handle_id p' \<and> r \<in> set (handle_rows p)))"

lemma flight_rows: "r \<in> set (in_flight hs) \<longleftrightarrow> (\<exists>p \<in> set hs. r \<in> set (handle_rows p))"
  by (auto simp: in_flight_def)

lemma frame_flight: "frame c c' \<Longrightarrow> r \<in> set (c_flight c') \<Longrightarrow> c_next c \<le> row_id r \<or> r \<in> set (c_flight c)"
  unfolding frame_def flight_rows by blast

lemma reader_lt: "reader_ok c rd R \<Longrightarrow> r \<in> set (c_mem c) \<union> set (c_flight c) \<Longrightarrow> rd_id rd < row_id r"
  unfolding reader_ok_def by blast

lemma reader_covers: "reader_ok c rd R \<Longrightarrow> r \<in> set (c_tbl c) \<Longrightarrow> c_sent c < row_id r \<Longrightarrow> row_id r \<le> rd_id rd \<Longrightarrow> r \<in> R"
  unfolding reader_ok_def by blast

lemma frame_mem: "frame c c' \<Longrightarrow> r \<in> set (c_mem c') \<Longrightarrow> c_next c \<le> row_id r \<or> r \<in> set (c_mem c)"
  unfolding frame_def by blast

lemma frame_tbl: "frame c c' \<Longrightarrow> r \<in> set (c_tbl c') \<Longrightarrow> r \<in> set (c_tbl c) \<or> r \<in> set (c_mem c) \<union> set (c_flight c)"
  unfolding frame_def by blast

lemma frame_same:
  assumes "frame c c'"
  shows "c_up c' = c_up c" "c_sent c' = c_sent c" "c_next c \<le> c_next c'"
    "get_pb_src (c_state c) = PB_DATABASE \<Longrightarrow> get_pb_src (c_state c') = PB_DATABASE"
    "get_pb_src (c_state c') = PB_DATABASE \<Longrightarrow> get_pb_src (c_state c) = PB_DATABASE \<or> c_mem c' = []"
  using assms unfolding frame_def by blast+

lemma frame_reader:
  assumes f: "frame c c'" and rd: "reader_ok c rd R"
  shows "reader_ok c' rd R"
proof -
  have bound: "rd_id rd < c_next c" "rd_gapid rd \<le> c_next c" using rd by (simp_all add: reader_ok_def)
  have "rd_id rd < row_id r" if "r \<in> set (c_mem c') \<union> set (c_flight c')" for r
  proof -
    have "c_next c \<le> row_id r \<or> r \<in> set (c_mem c) \<union> set (c_flight c)"
      using frame_flight [OF f] frame_mem [OF f] that by blast
    then show ?thesis using reader_lt [OF rd] bound(1) by fastforce
  qed
  moreover have "r \<in> R" if "r \<in> set (c_tbl c')" "c_sent c < row_id r" "row_id r \<le> rd_id rd" for r
    using frame_tbl [OF f that(1)] reader_lt [OF rd, of r] reader_covers [OF rd _ that(2,3)] that(3) by fastforce
  moreover have "rd_id rd < c_next c'" "rd_gapid rd \<le> c_next c'" using bound frame_same(3) [OF f] by linarith+
  ultimately show ?thesis using rd frame_same(4) [OF f] unfolding reader_ok_def frame_same(2) [OF f] by blast
qed

lemma frame_uploader:
  assumes f: "frame c c'" and up: "uploader_ok c (c_up c)"
  shows "uploader_ok c' (c_up c')"
proof (cases "c_up c")
  case (Reading rd R)
  have rd: "reader_ok c rd R" "\<forall>r \<in> set (c_flight c). rd_gapid rd \<le> row_id r" using up Reading by simp_all
  have "rd_gapid rd \<le> c_next c" using rd(1) by (simp add: reader_ok_def)
  then have "rd_gapid rd \<le> row_id r" if "r \<in> set (c_flight c')" for r
    using frame_flight [OF f that] rd(2) by auto
  then show ?thesis using frame_reader [OF f rd(1)] Reading frame_same(1) [OF f] by simp
next
  case (Waiting rd R h)
  have rd: "reader_ok c rd R"
    "\<forall>p \<in> set (c_handles c). \<forall>r \<in> set (handle_rows p). rd_gapid rd \<le> row_id r \<or> 0 < h \<and> handle_id p \<le> h"
    using up Waiting by simp_all
  have gap: "rd_gapid rd \<le> c_next c" using rd(1) by (simp add: reader_ok_def)
  have "rd_gapid rd \<le> row_id r \<or> 0 < h \<and> handle_id p' \<le> h" if "p' \<in> set (c_handles c')" "r \<in> set (handle_rows p')" for p' r
  proof -
    from f that consider "c_next c \<le> row_id r" | p where "p \<in> set (c_handles c)" "handle_id p = handle_id p'" "r \<in> set (handle_rows p)"
      unfolding frame_def by blast
    then show ?thesis using rd(2) gap by cases fastforce+
  qed
  then show ?thesis using frame_reader [OF f rd(1)] Waiting frame_same(1) [OF f] by simp
next
  case (Uploading R lastid more_data)
  note up = up [unfolded Uploading uploader_ok.simps]
  have bound: "lastid < c_next c" and fl: "\<forall>r \<in> set (c_flight c). lastid < row_id r"
    and cov: "\<forall>r \<in> set (c_mem c) \<union> set (c_tbl c). c_sent c < row_id r \<and> row_id r \<le> lastid \<longrightarrow> r \<in> R"
    and mem: "get_pb_src (c_state c) = PB_DATABASE \<longrightarrow> (\<forall>r \<in> set (c_mem c). lastid < row_id r)"
    and R: "lastid = 0 \<or> c_sent c < lastid" "\<forall>r \<in> R. c_sent c < row_id r \<and> row_id r \<le> lastid"
    using up by blast+
  have "lastid < row_id r" if "r \<in> set (c_flight c')" for r
    using frame_flight [OF f that] fl bound by auto
  moreover have "r \<in> R" if "r \<in> set (c_mem c') \<union> set (c_tbl c')" "c_sent c < row_id r" "row_id r \<le> lastid" for r
  proof -
    have "r \<in> set (c_mem c) \<union> set (c_tbl c) \<or> r \<in> set (c_flight c) \<or> c_next c \<le> row_id r"
      using frame_mem [OF f] frame_tbl [OF f] that(1) by blast
    then show ?thesis using cov fl bound that(2,3) by fastforce
  qed
  moreover have "lastid < row_id r" if "get_pb_src (c_state c') = PB_DATABASE" "r \<in> set (c_mem c')" for r
  proof -
    have "get_pb_src (c_state c) = PB_DATABASE" using frame_same(5) [OF f that(1)] that(2) by auto
    then show ?thesis using frame_mem [OF f that(2)] mem bound by auto
  qed
  moreover have "lastid < c_next c'" using bound frame_same(3) [OF f] by linarith
  ultimately show ?thesis unfolding frame_same(1,2) [OF f] Uploading uploader_ok.simps using R by blast
qed (use frame_same(1) [OF f] in simp_all)

lemma memory_ahead:
  assumes "state_ok c" "get_pb_src (c_state c) = PB_DATABASE" "m \<in> set (c_mem c)" "r \<in> set (c_tbl c)"
  shows "row_id r < row_id m"
  using assms unfolding src_database by (auto simp: state_ok_def)

text \<open>One select keeps the reader ahead of nothing that is still to come.\<close>

lemma reader_fetch:
  assumes ids: "ids_ok c" and st: "state_ok c" and rd: "reader_ok c rd R"
    and gap: "\<forall>r \<in> set (c_flight c). rd_gapid rd \<le> row_id r"
    and fetch: "fetch_rows (rd_id rd) (rd_gapid rd) (take n (filter (\<lambda>r. rd_id rd < row_id r) (sort_key row_id (c_tbl c)))) = (rows, i, g)"
  shows "reader_ok c (rd\<lparr>rd_id := i, rd_rows := rd_rows rd @ rows, rd_gapid := case g of None \<Rightarrow> 0 | Some gp \<Rightarrow> gp\<rparr>)
      (R \<union> set (rd_rows rd @ rows))"
proof -
  have dist: "distinct (map row_id (c_tbl c))" "row_id ` set (c_flight c) \<inter> row_id ` set (c_tbl c) = {}"
    using ids unfolding ids_ok_def by auto
  note F = fetch_table [OF dist(1) fetch]
  have src: "get_pb_src (c_state c) = PB_DATABASE" and start: "c_sent c \<le> rd_id rd" "rd_id rd < c_next c"
    and lastid: "rd_lastid rd = 0 \<or> c_sent c < rd_lastid rd \<and> rd_lastid rd \<le> rd_id rd"
    and R: "set (rd_rows rd) \<subseteq> R" "\<forall>r \<in> R. c_sent c < row_id r" "\<forall>r \<in> set (rd_rows rd). row_id r \<le> rd_id rd"
    using rd unfolding reader_ok_def by blast+
  have "i < c_next c" using F(1,4) start(2) ids_lt [OF ids] by (auto dest: subsetD)
  moreover have "(case g of None \<Rightarrow> 0 | Some gp \<Rightarrow> gp) \<le> c_next c"
    using F(7) ids_lt [OF ids] by (auto split: option.splits intro: less_imp_le)
  moreover have "i < row_id r" if "r \<in> set (c_mem c)" for r
    using F(1,4) reader_lt [OF rd, of r] memory_ahead [OF st src that] that by auto
  moreover have "i < row_id r" if "r \<in> set (c_flight c)" for r
  proof -
    have "row_id r \<notin> row_id ` set (c_tbl c)" using that dist(2) by blast
    then show ?thesis using F(6) reader_lt [OF rd, of r] gap that by simp
  qed
  moreover have "r \<in> R \<union> set (rd_rows rd @ rows)" if "r \<in> set (c_tbl c)" "c_sent c < row_id r" "row_id r \<le> i" for r
    using F(5) that reader_covers [OF rd that(1,2)] by (cases "row_id r \<le> rd_id rd") auto
  moreover have "\<forall>r \<in> set (rd_rows rd @ rows). row_id r \<le> i" using F(2,3) R(3) by fastforce
  moreover have "\<forall>r \<in> R \<union> set (rd_rows rd @ rows). c_sent c < row_id r" using F(2) R(1,2) start(1) by fastforce
  moreover have "rd_lastid rd = 0 \<or> c_sent c < rd_lastid rd \<and> rd_lastid rd \<le> i" using lastid F(3) by linarith
  ultimately show ?thesis using src start(1) F(3) unfolding reader_ok_def by (simp add: ball_Un)
qed

lemma reader_ok_up [simp]: "reader_ok (c\<lparr>c_up := u\<rparr>) rd R \<longleftrightarrow> reader_ok c rd R"
  by (simp add: reader_ok_def)

lemma reader_ok_fields:
  "reader_ok c rd R \<Longrightarrow> rd_id rd' = rd_id rd \<Longrightarrow> rd_rows rd' = rd_rows rd \<Longrightarrow> rd_lastid rd' = rd_lastid rd
   \<Longrightarrow> rd_gapid rd' = rd_gapid rd \<Longrightarrow> reader_ok c rd' R"
  by (simp add: reader_ok_def)

lemma wait_handleid_max: "i \<in> set ids \<Longrightarrow> i \<le> wait_handleid ids"
proof -
  have step: "h \<le> foldl (\<lambda>h i. if h < i then i else h) h ids \<and> (\<forall>i \<in> set ids. i \<le> foldl (\<lambda>h i. if h < i then i else h) h ids)" for h
  proof (induction ids arbitrary: h)
    case (Cons j ids)
    define k where "k = (if h < j then j else h)"
    have "h \<le> k" "j \<le> k" by (simp_all add: k_def)
    moreover have IH: "k \<le> foldl (\<lambda>h i. if h < i then i else h) k ids"
      "\<forall>i \<in> set ids. i \<le> foldl (\<lambda>h i. if h < i then i else h) k ids" using Cons [of k] by blast+
    ultimately have "h \<le> foldl (\<lambda>h i. if h < i then i else h) k ids" "j \<le> foldl (\<lambda>h i. if h < i then i else h) k ids" by linarith+
    then show ?case using IH(2) by (simp add: k_def)
  qed simp
  show "i \<in> set ids \<Longrightarrow> i \<le> wait_handleid ids" using step [of 0] by (simp add: wait_handleid_def)
qed

text \<open>What an upload covers once the last id is known.\<close>

lemma reader_upload:
  assumes ids: "ids_ok c" and rd: "reader_ok c rd R" and last: "lastid = rd_lastid rd \<or> lastid \<in> row_id ` set (rd_rows rd)"
  shows "uploader_ok c (Uploading {r \<in> R. row_id r \<le> lastid} lastid more_data)"
proof -
  have le: "lastid \<le> rd_id rd" "lastid = 0 \<or> c_sent c < lastid" using last rd unfolding reader_ok_def by auto
  have R: "\<forall>r \<in> R. c_sent c < row_id r" "rd_id rd < c_next c" using rd unfolding reader_ok_def by blast+
  have "r \<in> R" if "r \<in> set (c_mem c) \<union> set (c_tbl c)" "c_sent c < row_id r" "row_id r \<le> lastid" for r
    using that reader_lt [OF rd, of r] reader_covers [OF rd _ that(2)] le(1) by fastforce
  moreover have "lastid < row_id r" if "r \<in> set (c_flight c) \<union> set (c_mem c)" for r
    using reader_lt [OF rd, of r] that le(1) by fastforce
  ultimately show ?thesis using le R by simp
qed

lemma upload_memory_ahead:
  assumes ids: "ids_ok c" and st: "state_ok c" and src: "get_pb_src (c_state c) = PB_MEMORY"
    and last: "lastid = 0 \<or> lastid \<in> row_id ` set (c_mem c)"
    and r: "r \<in> set (c_tbl c) \<union> set (c_flight c)" "c_sent c < row_id r"
  shows "lastid < row_id r"
proof -
  from src consider "c_state c = PB_MEMORY" | "c_state c = PB_MEMORY_DATABASE" unfolding src_memory by blast
  then show ?thesis
  proof cases
    case 1
    then have "\<forall>h \<in> set (c_handles c). \<not> db_handle h" "\<forall>r \<in> set (c_tbl c). row_id r \<le> c_sent c"
      using st by (simp_all add: state_ok_def)
    then show ?thesis using not_db_rows r by fastforce
  next
    case 2
    then have "\<forall>m \<in> set (c_mem c). row_id m < row_id r" using st r unfolding state_ok_def by auto
    then show ?thesis using last r(2) by auto
  qed
qed

lemma reader_next:
  assumes rd: "reader_ok c rd R" and last: "rd_lastid rd' \<in> row_id ` set (rd_rows rd)"
    and "rd_id rd' = rd_lastid rd'" "rd_gapid rd' = 0" "rd_rows rd' = []"
  shows "reader_ok c rd' R"
proof -
  have le: "rd_lastid rd' \<le> rd_id rd" "c_sent c < rd_lastid rd'" using rd last unfolding reader_ok_def by auto
  have "rd_lastid rd' < c_next c" using rd le(1) unfolding reader_ok_def by linarith
  moreover have "\<forall>r \<in> set (c_mem c) \<union> set (c_flight c). rd_lastid rd' < row_id r"
    using reader_lt [OF rd] le(1) by fastforce
  moreover have "\<forall>r \<in> set (c_tbl c). c_sent c < row_id r \<and> row_id r \<le> rd_lastid rd' \<longrightarrow> r \<in> R"
    using reader_covers [OF rd] le(1) by fastforce
  moreover have "get_pb_src (c_state c) = PB_DATABASE" "\<forall>r \<in> R. c_sent c < row_id r" using rd unfolding reader_ok_def by blast+
  ultimately show ?thesis unfolding reader_ok_def assms(3-5) using le(2) by auto
qed

lemma move_uploader:
  assumes "move c c'" and ids: "ids_ok c" and st: "state_ok c" and hs: "handles_ok c" and up: "uploader_ok c (c_up c)"
  shows "uploader_ok c' (c_up c')"
  using assms(1)
proof cases
  case (m_open data)
  then have "frame c c'" by (auto simp: frame_def)
  then show ?thesis using up by (rule frame_uploader)
next
  case (m_write hs1 data hs' data')
  then have "frame c c'" by (auto simp: frame_def)
  then show ?thesis using up by (rule frame_uploader)
next
  case (m_gone hs1 data hs')
  then have "frame c c'" by (auto simp: frame_def)
  then show ?thesis using up by (rule frame_uploader)
next
  case (m_aged old young)
  then have "frame c c'" by (auto simp: frame_def)
  then show ?thesis using up by (rule frame_uploader)
next
  case (m_add rows)
  then have "frame c c'" using fresh_rows(3) [OF m_add(3)] by (auto simp: frame_def)
  then show ?thesis using up by (rule frame_uploader)
next
  case (m_fallback stored)
  then have "frame c c'" by (auto simp: frame_def)
  then show ?thesis using up by (rule frame_uploader)
next
  case m_full
  then have "frame c c'" by (auto simp: frame_def)
  then show ?thesis using up by (rule frame_uploader)
next
  case (m_ids n)
  then have "frame c c'" by (auto simp: frame_def)
  then show ?thesis using up by (rule frame_uploader)
next
  case (m_insert_mem hs1 data hs' rows)
  then have "frame c c'" using fresh_rows(3) [OF m_insert_mem(5)] by (auto simp: frame_def)
  then show ?thesis using up by (rule frame_uploader)
next
  case (m_insert_db hs1 data hs' rows)
  then have "frame c c'" using fresh_rows(3) [OF m_insert_db(4)] by (auto simp: frame_def)
  then show ?thesis using up by (rule frame_uploader)
next
  case (m_commit hs1 h rows hs')
  then have "frame c c'" by (auto simp: frame_def)
  then show ?thesis using up by (rule frame_uploader)
next
  case (m_finish hs1 h lastid hs')
  then have "frame c c'" by (auto simp: frame_def)
  then show ?thesis using up by (rule frame_uploader)
next
  case (m_get lastid more_data)
  have fl: "lastid < row_id r" if "r \<in> set (c_flight c)" for r
    using upload_memory_ahead [OF ids st m_get(3,4), of r] sent_lt [OF ids, of r] that by simp
  have tb: "row_id r \<le> c_sent c \<or> lastid < row_id r" if "r \<in> set (c_tbl c)" for r
    using upload_memory_ahead [OF ids st m_get(3,4), of r] that by fastforce
  have le: "lastid < c_next c" "lastid = 0 \<or> c_sent c < lastid"
    using m_get(4) ids_lt [OF ids] sent_lt [OF ids] ids by (auto simp: ids_ok_def)
  have "get_pb_src (c_state c) \<noteq> PB_DATABASE" using m_get(3) by simp
  then show ?thesis using m_get(1) fl tb le sent_lt [OF ids] by fastforce
next
  case (m_start rd)
  have "c_stored c = c_sent c" using st m_start(3) by (simp add: state_ok_def)
  moreover have "c_sent c < c_next c" using ids by (simp add: ids_ok_def)
  ultimately have "reader_ok c rd {}" using m_start(3-7) sent_lt [OF ids] by (simp add: reader_ok_def)
  then show ?thesis using m_start(1,6) by simp
next
  case (m_none more_data)
  have "0 < row_id r" if "r \<in> set (c_mem c) \<union> set (c_flight c)" for r using sent_lt [OF ids that] by simp
  moreover have "0 < c_next c" using ids by (simp add: ids_ok_def)
  ultimately show ?thesis using m_none by auto
next
  case (m_wait rd R n rows lastid gap rd' R')
  have rd: "reader_ok c rd R" "\<forall>r \<in> set (c_flight c). rd_gapid rd \<le> row_id r" using up m_wait(2) by simp_all
  have "reader_ok c rd' R'"
    unfolding m_wait(8) m_wait(5) using reader_fetch [OF ids st rd m_wait(3)] by (rule reader_ok_fields) (use m_wait in simp_all)
  moreover have "0 < wait_handleid (c_ids c) \<and> handle_id p \<le> wait_handleid (c_ids c)" if "p \<in> set (c_handles c)" for p
  proof -
    have "handle_id p \<in> set (c_ids c)" "0 < handle_id p" using hs that by (auto simp: handles_ok_def)
    then show ?thesis using wait_handleid_max [of "handle_id p" "c_ids c"] by simp
  qed
  ultimately show ?thesis using m_wait(1) by simp
next
  case (m_waited rd R h)
  have rd: "reader_ok c rd R"
    "\<forall>p \<in> set (c_handles c). \<forall>r \<in> set (handle_rows p). rd_gapid rd \<le> row_id r \<or> 0 < h \<and> handle_id p \<le> h"
    using up m_waited(2) by simp_all
  have "rd_gapid rd \<le> row_id r" if "r \<in> set (c_flight c)" for r
  proof -
    from that obtain p where p: "p \<in> set (c_handles c)" "r \<in> set (handle_rows p)" unfolding flight_rows by blast
    then have "handle_id p \<in> set (c_ids c)" using hs by (auto simp: handles_ok_def)
    then have "0 < h \<longrightarrow> \<not> handle_id p \<le> h" using m_waited(3) by (auto simp: wait_over_def list_all_iff)
    then show ?thesis using rd(2) p by blast
  qed
  then show ?thesis using m_waited(1) rd(1) by simp
next
  case (m_read rd R n rows i lastid R' more_data)
  have rd: "reader_ok c rd R" "\<forall>r \<in> set (c_flight c). rd_gapid rd \<le> row_id r" using up m_read(2) by simp_all
  have "uploader_ok c (Uploading {r \<in> R'. row_id r \<le> lastid} lastid more_data)"
    unfolding m_read(5) by (rule reader_upload [OF ids reader_fetch [OF ids st rd m_read(3)]]) (use m_read(4) in simp)
  then show ?thesis using m_read(1) by simp
next
  case (m_batch rd R n rows i rd' R')
  have rd: "reader_ok c rd R" "\<forall>r \<in> set (c_flight c). rd_gapid rd \<le> row_id r" using up m_batch(2) by simp_all
  have "reader_ok c rd' R'"
    unfolding m_batch(5) by (rule reader_next [OF reader_fetch [OF ids st rd m_batch(3)]]) (use m_batch(4,6-8) in simp_all)
  moreover have "rd_gapid rd' = 0" using m_batch(7) .
  ultimately show ?thesis using m_batch(1) by simp
qed simp_all

section \<open>The rows\<close>

lemma move_rows:
  assumes "move c c'" and ids: "ids_ok c" and up: "uploader_ok c (c_up c)" and ro: "rows_ok c"
  shows "rows_ok c'"
  using assms(1)
proof cases
  case (m_aged old young)
  then show ?thesis using ro by (auto simp: rows_ok_def)
next
  case (m_fallback stored)
  have "set (c_mem c) \<subseteq> {r. c_sent c < row_id r}" using sent_lt [OF ids] by auto
  moreover have "c_mem c' = []" "set (c_tbl c') = set (c_tbl c) \<union> set (c_mem c)" "c_handles c' = c_handles c" "c_sent c' = c_sent c"
    "c_acc c' = c_acc c" "c_snt c' = c_snt c" "c_dis c' = c_dis c" using m_fallback(1) by simp_all
  ultimately show ?thesis using ro unfolding rows_ok_def by auto
next
  case (m_commit hs h rows hs')
  then have "set rows \<subseteq> {r. c_sent c < row_id r}" using sent_lt [OF ids] by auto
  moreover have "set (c_flight c) \<subseteq> set (c_flight c') \<union> set rows" "set (c_tbl c') = set (c_tbl c) \<union> set rows"
    "c_mem c' = c_mem c" "c_sent c' = c_sent c" "c_acc c' = c_acc c" "c_snt c' = c_snt c" "c_dis c' = c_dis c"
    using m_commit(1,2) by auto
  ultimately show ?thesis using ro unfolding rows_ok_def by auto
next
  case (m_ack0 R more_data)
  have "R = {}" using up unfolding m_ack0(2) by auto
  then show ?thesis using m_ack0(1) ro unfolding rows_ok_def by simp
next
  case (m_ack_db R lastid more_data)
  note up = up [unfolded m_ack_db(2) uploader_ok.simps]
  have le: "c_sent c < lastid" "\<forall>r \<in> R. row_id r \<le> lastid"
    and cov: "\<forall>r \<in> set (c_tbl c). c_sent c < row_id r \<and> row_id r \<le> lastid \<longrightarrow> r \<in> R" using up m_ack_db(3) by blast+
  have "\<forall>r \<in> c_snt c \<union> R. row_id r \<le> lastid" using ro le unfolding rows_ok_def by (metis UnE le_trans less_imp_le)
  moreover have "{r \<in> set (c_tbl c). c_sent c < row_id r} \<subseteq> R \<union> {r \<in> set (c_tbl c). lastid < row_id r}" using cov by auto
  moreover have "c_mem c' = c_mem c" "c_tbl c' = c_tbl c" "c_handles c' = c_handles c" "c_sent c' = lastid" "c_acc c' = c_acc c"
    "c_snt c' = c_snt c \<union> R" "c_dis c' = c_dis c" using m_ack_db(1) by simp_all
  ultimately show ?thesis using ro unfolding rows_ok_def by auto
next
  case (m_ack_mem R lastid more_data)
  note up = up [unfolded m_ack_mem(2) uploader_ok.simps]
  have le: "c_sent c < lastid" "\<forall>r \<in> R. row_id r \<le> lastid"
    and cov: "\<forall>r \<in> set (c_mem c) \<union> set (c_tbl c). c_sent c < row_id r \<and> row_id r \<le> lastid \<longrightarrow> r \<in> R" using up m_ack_mem(3) by blast+
  have s: "sorted (map row_id (c_mem c))" using ids by (simp add: ids_ok_def)
  define young where "young = dropWhile (\<lambda>r. row_id r \<le> lastid) (c_mem c)"
  from dropWhile_sent [OF s, of lastid] obtain old where M: "c_mem c = old @ young" "\<forall>r \<in> set old. row_id r \<le> lastid"
    unfolding young_def by blast
  have "set old \<subseteq> R" using M cov sent_lt [OF ids] by auto
  moreover have "\<forall>r \<in> c_snt c \<union> R. row_id r \<le> lastid" using ro le unfolding rows_ok_def by (metis UnE le_trans less_imp_le)
  moreover have "{r \<in> set (c_tbl c). c_sent c < row_id r} \<subseteq> R \<union> {r \<in> set (c_tbl c). lastid < row_id r}" using cov by auto
  moreover have "c_acc c \<subseteq> c_snt c \<union> c_dis c \<union> (set old \<union> set young) \<union> set (c_flight c) \<union> {r \<in> set (c_tbl c). c_sent c < row_id r}"
    using ro M(1) unfolding rows_ok_def by simp
  moreover have "c_mem c' = young" "c_tbl c' = c_tbl c" "c_handles c' = c_handles c" "c_sent c' = lastid" "c_acc c' = c_acc c"
    "c_snt c' = c_snt c \<union> R" "c_dis c' = c_dis c" using m_ack_mem(1) by (simp_all add: young_def)
  ultimately show ?thesis unfolding rows_ok_def by auto
qed (use ro in \<open>auto simp: rows_ok_def\<close>)

section \<open>The invariant\<close>

definition core_ok :: "core \<Rightarrow> bool" where
  "core_ok c \<longleftrightarrow> ids_ok c \<and> state_ok c \<and> handles_ok c \<and> lastid_ok c \<and> uploader_ok c (c_up c) \<and> rows_ok c
     \<and> handles_sorted (c_handles c)"

lemma move_ok: "move c c' \<Longrightarrow> core_ok c \<Longrightarrow> core_ok c'"
  using move_ids [of c c'] move_state [of c c'] move_handles [of c c'] move_lastid [of c c'] move_uploader [of c c']
    move_rows [of c c'] move_sorted [of c c'] unfolding core_ok_def by blast

lemma moves_ok: "move\<^sup>*\<^sup>* c c' \<Longrightarrow> core_ok c \<Longrightarrow> core_ok c'"
  by (induction rule: rtranclp_induct) (auto intro: move_ok)

end
