(* ===== verification/ZbxPbSafe.thy ===== *)
theory ZbxPbSafe
  imports ZbxPbCore
begin

text \<open>
  The steps of the world are moves of its core, so the invariant holds in every reachable world: no accepted row gets
  lost, and rows are sent in the order of their ids.
\<close>

section \<open>The parts of a step\<close>

lemma db_laws:
  assumes "history_db_ok D tbl"
  shows "select_history D lastid limit db = take limit (filter (\<lambda>r. lastid < row_id r) (sort_key row_id (tbl db)))"
    "tbl (insert_history D rows db) = tbl db @ rows" "tbl (insert_discovery D drows db) = tbl db"
    "tbl (insert_autoreg D arows db) = tbl db" "tbl (store_lastid D t lastid db) = tbl db"
    "select_maxid D PROXY_HISTORY db = Max (insert 0 (row_id ` set (tbl db)))"
    "select_lastid D t (store_lastid D t' lastid db) = (if t = t' then lastid else select_lastid D t db)"
    "select_lastid D t (insert_history D rows db) = select_lastid D t db"
    "select_lastid D t (insert_discovery D drows db) = select_lastid D t db"
    "select_lastid D t (insert_autoreg D arows db) = select_lastid D t db"
  using assms by (simp_all add: history_db_ok_def)

lemma set_row_ids:
  "map row_id (pb_history_set_row_ids n rows) = [n..<n + length rows]" "length (pb_history_set_row_ids n rows) = length rows"
proof -
  have "map row_id (pb_history_set_row_ids n rows) = [n..<n + length rows] \<and> length (pb_history_set_row_ids n rows) = length rows"
    by (induction n rows rule: pb_history_set_row_ids.induct) (simp_all add: upt_conv_Cons del: upt_Suc)
  then show "map row_id (pb_history_set_row_ids n rows) = [n..<n + length rows]" "length (pb_history_set_row_ids n rows) = length rows"
    by simp_all
qed

text \<open>Outside of the memory mode rows are added until one does not fit.\<close>

lemma add_rows_loop:
  "pb_mode pb = ZBX_PB_MODE_HYBRID \<Longrightarrow> add_rows_loop fits pb space rows = (pb', rest) \<Longrightarrow>
   \<exists>added x. rows = added @ rest \<and> pb' = pb\<lparr>pb_history := pb_history pb @ added, history_lastid_mem := x\<rparr>"
proof (induction fits pb space rows rule: add_rows_loop.induct)
  case (1 fits pb space)
  then show ?case by (intro exI [of _ "[]"] exI [of _ "history_lastid_mem pb"]) simp
next
  case (2 fits pb space r rows)
  show ?case
  proof (cases "fits pb r")
    case False
    then have "add_row_loop fits pb space r = None" using 2(2) by (simp add: add_row_loop.simps pb_history_add_row_mem_def)
    then show ?thesis using 2(3) by (intro exI [of _ "[]"] exI [of _ "history_lastid_mem pb"]) simp
  next
    case True
    define pb1 where "pb1 = pb\<lparr>pb_history := pb_history pb @ [r], history_lastid_mem := row_id r\<rparr>"
    have add: "add_row_loop fits pb space r = Some (pb1, space)"
      using True by (simp add: add_row_loop.simps pb_history_add_row_mem_def pb1_def)
    have "pb_mode pb1 = ZBX_PB_MODE_HYBRID" using 2(2) by (simp add: pb1_def)
    then obtain added x where "rows = added @ rest" "pb' = pb1\<lparr>pb_history := pb_history pb1 @ added, history_lastid_mem := x\<rparr>"
      using 2(1) [OF add HOL.refl] 2(3) add by auto
    then show ?thesis by (intro exI [of _ "r # added"] exI [of _ x]) (simp add: pb1_def)
  qed
qed

lemma add_rows_mem:
  "pb_mode pb = ZBX_PB_MODE_HYBRID \<Longrightarrow> pb_history_add_rows_mem fits pb rows = (pb', rest) \<Longrightarrow>
   \<exists>added x. rows = added @ rest \<and> pb' = pb\<lparr>pb_history := pb_history pb @ added, history_lastid_mem := x\<rparr>"
  unfolding pb_history_add_rows_mem_def by (rule add_rows_loop)

text \<open>A transaction that writes what is in memory.\<close>

lemma flush_lastids:
  assumes "history_db_ok D tbl"
  shows "tbl (pb_flush_lastids D pb db) = tbl db"
    "select_lastid D PROXY_HISTORY (pb_flush_lastids D pb db)
      = (if history_lastid_sent pb \<noteq> 0 then history_lastid_sent pb else select_lastid D PROXY_HISTORY db)"
  by (simp_all add: pb_flush_lastids_def db_laws [OF assms])

lemma flush:
  assumes db: "history_db_ok D tbl" and mode: "pb_mode pb = ZBX_PB_MODE_HYBRID" and f: "pb_flush D pb db0 = (pb', db')"
  shows "pb' = pb\<lparr>history_lastid_db := max (history_lastid_db pb) (last_id row_id (pb_history pb)),
      discovery_lastid_db := discovery_lastid_db pb', autoreg_lastid_db := autoreg_lastid_db pb',
      pb_history := [], pb_discovery := [], pb_autoreg := []\<rparr>"
    "tbl db' = tbl db0 @ pb_history pb"
    "select_lastid D PROXY_HISTORY db'
      = (if has_mem_rows pb \<and> history_lastid_sent pb \<noteq> 0 then history_lastid_sent pb else select_lastid D PROXY_HISTORY db0)"
    "pb_discovery pb = [] \<Longrightarrow> discovery_lastid_db pb' = discovery_lastid_db pb"
    "pb_autoreg pb = [] \<Longrightarrow> autoreg_lastid_db pb' = autoreg_lastid_db pb"
proof -
  have zero: "last_id row_id [] = 0" by (simp add: last_id_def)
  obtain pb1 db1 where a: "pb_autoreg_flush D pb db0 = (pb1, db1)" by fastforce
  obtain pb2 db2 where d: "pb_discovery_flush D pb1 db1 = (pb2, db2)" by fastforce
  obtain pb3 db3 where h: "pb_history_flush D pb2 db2 = (pb3, db3)" by fastforce
  define x where "x = autoreg_lastid_db pb1"
  define y where "y = discovery_lastid_db pb2"
  have A: "pb1 = pb\<lparr>autoreg_lastid_db := x\<rparr>" "tbl db1 = tbl db0"
    "select_lastid D PROXY_HISTORY db1 = select_lastid D PROXY_HISTORY db0" "pb_autoreg pb = [] \<longrightarrow> x = autoreg_lastid_db pb"
    using a by (auto simp: x_def pb_autoreg_flush_def Let_def last_id_def db_laws [OF db] split: if_splits)
  have B: "pb2 = pb1\<lparr>discovery_lastid_db := y\<rparr>" "tbl db2 = tbl db1"
    "select_lastid D PROXY_HISTORY db2 = select_lastid D PROXY_HISTORY db1" "pb_discovery pb1 = [] \<longrightarrow> y = discovery_lastid_db pb1"
    using d by (auto simp: y_def pb_discovery_flush_def Let_def last_id_def db_laws [OF db] split: if_splits)
  have C: "pb3 = pb2\<lparr>history_lastid_db := max (history_lastid_db pb2) (last_id row_id (pb_history pb2))\<rparr>"
    "tbl db3 = tbl db2 @ pb_history pb2" "select_lastid D PROXY_HISTORY db3 = select_lastid D PROXY_HISTORY db2"
    using h by (auto simp: pb_history_flush_def pb_history_add_rows_db_def Let_def last_id_def db_laws [OF db] max_def split: if_splits)
  let ?new = "pb\<lparr>history_lastid_db := max (history_lastid_db pb) (last_id row_id (pb_history pb)),
      discovery_lastid_db := discovery_lastid_db pb', autoreg_lastid_db := autoreg_lastid_db pb',
      pb_history := [], pb_discovery := [], pb_autoreg := []\<rparr>"
  have "pb' = ?new \<and> tbl db' = tbl db0 @ pb_history pb \<and> select_lastid D PROXY_HISTORY db'
      = (if has_mem_rows pb \<and> history_lastid_sent pb \<noteq> 0 then history_lastid_sent pb else select_lastid D PROXY_HISTORY db0)
      \<and> (pb_discovery pb = [] \<longrightarrow> discovery_lastid_db pb' = discovery_lastid_db pb)
      \<and> (pb_autoreg pb = [] \<longrightarrow> autoreg_lastid_db pb' = autoreg_lastid_db pb)"
  proof (cases "has_mem_rows pb")
    case True
    then have f': "pb' = pb_clear_all pb3" "db' = pb_flush_lastids D pb3 db3"
      using f mode a d h by (simp_all add: pb_flush_def)
    show ?thesis using B(2-4) C(2,3) A(2-4) unfolding f' flush_lastids [OF db] C(1) B(1) A(1)
      using True by (simp add: pb_clear_all_def)
  next
    case False
    then have "pb' = pb_clear_all pb" "db' = db0" using f by (simp_all add: pb_flush_def)
    then show ?thesis using False by (simp add: pb_clear_all_def has_mem_rows_def last_id_def)
  qed
  then show "pb' = ?new" "tbl db' = tbl db0 @ pb_history pb" "select_lastid D PROXY_HISTORY db'
      = (if has_mem_rows pb \<and> history_lastid_sent pb \<noteq> 0 then history_lastid_sent pb else select_lastid D PROXY_HISTORY db0)"
    "pb_discovery pb = [] \<Longrightarrow> discovery_lastid_db pb' = discovery_lastid_db pb"
    "pb_autoreg pb = [] \<Longrightarrow> autoreg_lastid_db pb' = autoreg_lastid_db pb" by blast+
qed

text \<open>The core when only the buffer and the database change.\<close>

abbreviation (input) core_at where "core_at D tbl w pb db \<equiv> core_of D tbl (w\<lparr>w_pb := pb, w_db := db\<rparr>)"

lemma core_at_id: "core_of D tbl w = core_at D tbl w (w_pb w) (w_db w)"
  by (simp add: core_of_def)

lemma set_state_fields [simp]:
  "pb_state (pb_set_state pb s) = s" "pb_history (pb_set_state pb s) = pb_history pb" "pb_mode (pb_set_state pb s) = pb_mode pb"
  "db_handles_num (pb_set_state pb s) = db_handles_num pb" "history_lastid_sent (pb_set_state pb s) = history_lastid_sent pb"
  "history_lastid_db (pb_set_state pb s) = history_lastid_db pb" "history_handleids (pb_set_state pb s) = history_handleids pb"
  "last_handleid (pb_set_state pb s) = last_handleid pb" "pb_discovery (pb_set_state pb s) = pb_discovery pb"
  "pb_autoreg (pb_set_state pb s) = pb_autoreg pb" "discovery_lastid_db (pb_set_state pb s) = discovery_lastid_db pb"
  "autoreg_lastid_db (pb_set_state pb s) = autoreg_lastid_db pb" "discovery_lastid_sent (pb_set_state pb s) = discovery_lastid_sent pb"
  "autoreg_lastid_sent (pb_set_state pb s) = autoreg_lastid_sent pb"
  by (simp_all add: pb_set_state_def Let_def)

lemma fallback:
  assumes db: "history_db_ok D tbl" and mode: "pb_mode pb = ZBX_PB_MODE_HYBRID"
    and f: "pd_fallback_to_database D pb db0 = (pb', db')"
    and state: "pb_state pb = PB_MEMORY \<and> pb_history pb \<noteq> [] \<or> pb_state pb = PB_DATABASE_MEMORY"
  shows "pb_mode pb' = ZBX_PB_MODE_HYBRID" "pb_state pb' = PB_DATABASE" "db_handles_num pb' = db_handles_num pb"
    "history_handleids pb' = history_handleids pb" "move (core_at D tbl w pb db0) (core_at D tbl w pb' db')"
proof -
  obtain pb1 where p: "pb_flush D pb db0 = (pb1, db')" "pb' = pb_set_state pb1 PB_DATABASE"
    using f by (auto simp: pd_fallback_to_database_def split: prod.splits)
  note F = flush(1-3) [OF db mode p(1)]
  have fields: "pb_mode pb1 = pb_mode pb" "db_handles_num pb1 = db_handles_num pb" "history_handleids pb1 = history_handleids pb"
    "pb_history pb1 = []" "last_handleid pb1 = last_handleid pb" "history_lastid_sent pb1 = history_lastid_sent pb"
    "history_lastid_db pb1 = max (history_lastid_db pb) (last_id row_id (pb_history pb))"
    by (subst F(1), simp)+
  show "pb_mode pb' = ZBX_PB_MODE_HYBRID" "pb_state pb' = PB_DATABASE" "db_handles_num pb' = db_handles_num pb"
    "history_handleids pb' = history_handleids pb" using p(2) fields mode by simp_all
  let ?c = "core_at D tbl w pb db0" and ?stored = "select_lastid D PROXY_HISTORY db'"
  have eq: "core_at D tbl w pb' db' = ?c\<lparr>c_tbl := c_tbl ?c @ c_mem ?c, c_mem := [], c_state := PB_DATABASE,
      c_db := max (c_db ?c) (last_id row_id (c_mem ?c)), c_stored := ?stored\<rparr>"
    using p(2) fields F(2) by (simp add: core_of_def)
  show "move ?c (core_at D tbl w pb' db')" unfolding eq
  proof (rule m_fallback)
    show "c_state ?c = PB_MEMORY \<and> c_mem ?c \<noteq> [] \<or> c_state ?c = PB_DATABASE_MEMORY" using state by (simp add: core_of_def)
    show "?stored = c_sent ?c \<or> ?stored = c_stored ?c \<and> (c_sent ?c = 0 \<or> c_mem ?c = [])"
      using F(3) by (auto simp: core_of_def has_mem_rows_def)
  qed
qed

section \<open>Closing a handle for the memory\<close>

text \<open>The parts of closing, each a move.\<close>

lemma gone_move:
  assumes "w_handles w = hs @ Collecting data # hs'" "hd_state data = PB_MEMORY"
  shows "move (core_of D tbl w) (core_of D tbl (w\<lparr>w_handles := hs @ hs',
      w_pb := (w_pb w)\<lparr>history_handleids := pb_deregister_handle (history_handleids (w_pb w)) (hd_handleid data)\<rparr>\<rparr>))"
  using m_gone [of "core_of D tbl w" hs data hs'] assms by (simp add: core_of_def)

lemma aged_move:
  assumes "pb_history (w_pb w) = old @ young"
  shows "move (core_of D tbl w) (core_of D tbl (w\<lparr>w_pb := (w_pb w)\<lparr>pb_history := young\<rparr>, w_discarded := w_discarded w \<union> set old\<rparr>))"
  using m_aged [of "core_of D tbl w" old young] assms by (simp add: core_of_def)

lemma add_move:
  assumes "get_pb_dst (pb_state (w_pb w)) = PB_MEMORY" "map row_id rows = [w_nextid w..<w_nextid w + length rows]"
  shows "move (core_of D tbl w) (core_of D tbl (w\<lparr>w_nextid := w_nextid w + length rows, w_accepted := w_accepted w \<union> set rows,
      w_pb := (w_pb w)\<lparr>pb_history := pb_history (w_pb w) @ rows, history_lastid_mem := x\<rparr>\<rparr>))"
  using m_add [of "core_of D tbl w" rows] assms by (simp add: core_of_def fresh_def)

lemma full_move:
  assumes "pb_state (w_pb w) = PB_MEMORY"
  shows "move (core_of D tbl w) (core_of D tbl (w\<lparr>w_pb := pb_set_state (w_pb w) PB_MEMORY_DATABASE\<rparr>))"
  using m_full [of "core_of D tbl w"] assms by (simp add: core_of_def)

lemma insert_move:
  assumes "w_handles w = hs @ Collecting data # hs'" "hd_state data = PB_MEMORY" "get_pb_dst (pb_state (w_pb w)) = PB_DATABASE"
    "map row_id rows = [w_nextid w..<w_nextid w + length rows]"
  shows "move (core_of D tbl w) (core_of D tbl (w\<lparr>w_handles := hs @ Inserting (hd_handleid data) rows # hs',
      w_pb := (w_pb w)\<lparr>db_handles_num := db_handles_num (w_pb w) + 1\<rparr>, w_nextid := w_nextid w + length rows,
      w_accepted := w_accepted w \<union> set rows\<rparr>))"
  using m_insert_mem [of "core_of D tbl w" hs data hs' rows] assms by (simp add: core_of_def fresh_def)

lemma aged_split:
  assumes "(if pb_state pb = PB_MEMORY then pb_history_check_age now later pb else (pb, True)) = (aged, young)" "hd_rows data \<noteq> []"
  shows "aged = pb\<lparr>pb_history := pb_history aged\<rparr>" "pb_history pb = too_old now pb data @ pb_history aged"
    "\<not> young \<Longrightarrow> pb_state pb = PB_MEMORY \<and> pb_history aged \<noteq> []"
proof (atomize (full), cases "pb_state pb = PB_MEMORY")
  case True
  then have "pb_history_check_age now later pb = (aged, young)" using assms by simp
  then show "aged = pb\<lparr>pb_history := pb_history aged\<rparr> \<and> pb_history pb = too_old now pb data @ pb_history aged
    \<and> (\<not> young \<longrightarrow> pb_state pb = PB_MEMORY \<and> pb_history aged \<noteq> [])"
    using True assms(2) unfolding pb_history_check_age_def Let_def by (fastforce simp: too_old_def)
next
  case False
  then show "aged = pb\<lparr>pb_history := pb_history aged\<rparr> \<and> pb_history pb = too_old now pb data @ pb_history aged
    \<and> (\<not> young \<longrightarrow> pb_state pb = PB_MEMORY \<and> pb_history aged \<noteq> [])"
    using assms by (auto simp: too_old_def)
qed

lemma fallback_move:
  assumes "history_db_ok D tbl" "pb_mode (w_pb w) = ZBX_PB_MODE_HYBRID" "pd_fallback_to_database D (w_pb w) (w_db w) = (pb', db')"
    "pb_state (w_pb w) = PB_MEMORY \<and> pb_history (w_pb w) \<noteq> [] \<or> pb_state (w_pb w) = PB_DATABASE_MEMORY"
  shows "move (core_of D tbl w) (core_of D tbl (w\<lparr>w_pb := pb', w_db := db'\<rparr>))"
  using fallback(5) [OF assms, of w] by simp

text \<open>The rows that are left after a change of state go to the database.\<close>

lemma state_insert_moves:
  assumes move: "move (core_of D tbl w) (core_of D tbl (w\<lparr>w_pb := pb', w_db := db'\<rparr>))" and st: "get_pb_dst (pb_state pb') = PB_DATABASE"
    and h: "w_handles w = hs @ Collecting data # hs'" "hd_state data = PB_MEMORY"
    and ids: "map row_id rows = [w_nextid w..<w_nextid w + length rows]"
  shows "move\<^sup>*\<^sup>* (core_of D tbl w) (core_of D tbl (w\<lparr>w_pb := pb'\<lparr>db_handles_num := db_handles_num pb' + 1\<rparr>, w_db := db',
    w_nextid := w_nextid w + length rows, w_handles := hs @ Inserting (hd_handleid data) rows # hs', w_accepted := w_accepted w \<union> set rows\<rparr>))"
proof -
  let ?v = "w\<lparr>w_pb := pb', w_db := db'\<rparr>"
  have "move (core_of D tbl ?v) (core_of D tbl (w\<lparr>w_pb := pb'\<lparr>db_handles_num := db_handles_num pb' + 1\<rparr>, w_db := db',
    w_nextid := w_nextid w + length rows, w_handles := hs @ Inserting (hd_handleid data) rows # hs', w_accepted := w_accepted w \<union> set rows\<rparr>))"
    using insert_move [of ?v hs data hs' rows D tbl] h st ids by (simp add: core_of_def)
  then show ?thesis using move by (auto intro: rtranclp.rtrancl_into_rtrancl)
qed

text \<open>The rows that fit.\<close>

lemma add_rows_moves:
  assumes mode: "pb_mode (w_pb w) = ZBX_PB_MODE_HYBRID" and dst: "get_pb_dst (pb_state (w_pb w)) = PB_MEMORY"
    and ids: "map row_id rows = [w_nextid w..<w_nextid w + length rows]"
    and add: "pb_history_add_rows_mem fits (w_pb w) rows = (pb', rest)"
  shows "\<exists>added. rows = added @ rest
      \<and> move (core_of D tbl w) (core_of D tbl (w\<lparr>w_nextid := w_nextid w + length added, w_accepted := w_accepted w \<union> set added, w_pb := pb'\<rparr>))
      \<and> map row_id rest = [w_nextid w + length added..<w_nextid w + length added + length rest]"
    "pb_state pb' = pb_state (w_pb w)" "pb_mode pb' = ZBX_PB_MODE_HYBRID"
proof -
  from add_rows_mem [OF mode add] obtain added x where A: "rows = added @ rest"
    "pb' = (w_pb w)\<lparr>pb_history := pb_history (w_pb w) @ added, history_lastid_mem := x\<rparr>" by blast
  have i: "map row_id added = [w_nextid w..<w_nextid w + length added]"
    "map row_id rest = [w_nextid w + length added..<w_nextid w + length added + length rest]"
    using arg_cong [OF ids [unfolded A(1)], of "take (length added)"] arg_cong [OF ids [unfolded A(1)], of "drop (length added)"]
    by (simp_all add: add.assoc)
  show "\<exists>added. rows = added @ rest
      \<and> move (core_of D tbl w) (core_of D tbl (w\<lparr>w_nextid := w_nextid w + length added, w_accepted := w_accepted w \<union> set added, w_pb := pb'\<rparr>))
      \<and> map row_id rest = [w_nextid w + length added..<w_nextid w + length added + length rest]"
    using A i add_move [OF dst i(1), of D tbl x] by blast
  show "pb_state pb' = pb_state (w_pb w)" "pb_mode pb' = ZBX_PB_MODE_HYBRID" using A(2) mode by simp_all
qed

lemma close_rows_moves:
  assumes db: "history_db_ok D tbl" and mode: "pb_mode (w_pb w) = ZBX_PB_MODE_HYBRID"
    and h: "w_handles w = hs @ Collecting data # hs'" "hd_state data = PB_MEMORY"
    and ids: "map row_id rows = [w_nextid w..<w_nextid w + length rows]"
    and young: "\<not> young \<longrightarrow> pb_state (w_pb w) = PB_MEMORY \<and> pb_history (w_pb w) \<noteq> []"
    and close: "close_rows D fits young (w_pb w) (w_db w) (hd_handleid data) rows = (pb, db', rest)"
  shows "move\<^sup>*\<^sup>* (core_of D tbl w) (core_of D tbl (w\<lparr>w_pb := pb, w_db := db', w_nextid := w_nextid w + length rows,
      w_handles := hs @ close_phase (hd_handleid data) rest @ hs', w_accepted := w_accepted w \<union> set rows\<rparr>))
    \<and> pb_mode pb = ZBX_PB_MODE_HYBRID"
proof -
  consider (old) "\<not> young" | (mem) "young" "get_pb_dst (pb_state (w_pb w)) = PB_MEMORY"
    | (disk) "young" "get_pb_dst (pb_state (w_pb w)) = PB_DATABASE" by (cases young; cases "pb_state (w_pb w)") auto
  then show ?thesis
  proof cases
    case old
    obtain pb1 db1 where f: "pd_fallback_to_database D (w_pb w) (w_db w) = (pb1, db1)" by fastforce
    have s: "pb_state (w_pb w) = PB_MEMORY \<and> pb_history (w_pb w) \<noteq> [] \<or> pb_state (w_pb w) = PB_DATABASE_MEMORY" using young old by blast
    have st: "get_pb_dst (pb_state pb1) = PB_DATABASE" using fallback(2) [OF db mode f s] by simp
    show ?thesis using state_insert_moves [OF fallback_move [OF db mode f s] st h ids] close f old young fallback(1) [OF db mode f s]
      by (auto simp: close_rows_def close_phase_def)
  next
    case disk
    then show ?thesis using insert_move [OF h disk(2) ids, of D tbl] close mode by (auto simp: close_rows_def close_phase_def core_of_def)
  next
    case mem
    obtain pb1 rest1 where add: "pb_history_add_rows_mem fits (w_pb w) rows = (pb1, rest1)" by fastforce
    let ?v = "\<lambda>added. w\<lparr>w_nextid := w_nextid w + length added, w_accepted := w_accepted w \<union> set added, w_pb := pb1\<rparr>"
    from add_rows_moves(1) [OF mode mem(2) ids add, of D tbl] obtain added where A: "rows = added @ rest1"
      "move (core_of D tbl w) (core_of D tbl (?v added))"
      "map row_id rest1 = [w_nextid w + length added..<w_nextid w + length added + length rest1]" by blast
    note S = add_rows_moves(2,3) [OF mode mem(2) ids add]
    have hv: "w_handles (?v added) = hs @ Collecting data # hs'" and idv: "map row_id rest1 = [w_nextid (?v added)..<w_nextid (?v added) + length rest1]"
      and un: "w_accepted w \<union> set added \<union> set rest1 = w_accepted w \<union> set rows"
      and len: "w_nextid w + length added + length rest1 = w_nextid w + length rows" using h A(1,3) by auto
    consider (all) "rest1 = []" | (dbm) "rest1 \<noteq> []" "pb_state pb1 = PB_DATABASE_MEMORY" | (full) "rest1 \<noteq> []" "pb_state pb1 = PB_MEMORY"
      using S(1) mem(2) by (cases "pb_state (w_pb w)") auto
    then show ?thesis
    proof cases
      case all
      then show ?thesis using gone_move [OF hv h(2), of D tbl] A(1,2) close mem add S
        by (auto simp: close_rows_def close_phase_def core_of_def intro: rtranclp.rtrancl_into_rtrancl)
    next
      case dbm
      obtain pb2 db2 where f: "pd_fallback_to_database D pb1 (w_db w) = (pb2, db2)" by fastforce
      have "get_pb_dst (pb_state pb2) = PB_DATABASE" using fallback(2) [OF db S(2) f] dbm by simp
      note m = state_insert_moves [OF _ this hv h(2) idv, of D tbl db2]
      have "move (core_of D tbl (?v added)) (core_of D tbl ((?v added)\<lparr>w_pb := pb2, w_db := db2\<rparr>))"
        using fallback_move [OF db, of "?v added"] S f dbm by simp
      from m [OF this] show ?thesis using A(2) close mem add S dbm f fallback(1) [OF db S(2) f] un len
        by (auto simp: close_rows_def close_phase_def intro: converse_rtranclp_into_rtranclp)
    next
      case full
      have "get_pb_dst (pb_state (pb_set_state pb1 PB_MEMORY_DATABASE)) = PB_DATABASE" by simp
      note m = state_insert_moves [OF _ this hv h(2) idv, of D tbl "w_db w"]
      have "move (core_of D tbl (?v added)) (core_of D tbl ((?v added)\<lparr>w_pb := pb_set_state pb1 PB_MEMORY_DATABASE, w_db := w_db w\<rparr>))"
        using full_move [of "?v added" D tbl] full by (simp add: core_of_def)
      from m [OF this] show ?thesis using A(2) close mem add S full un len
        by (auto simp: close_rows_def close_phase_def intro: converse_rtranclp_into_rtranclp)
    qed
  qed
qed

lemma close_lock_moves:
  assumes db: "history_db_ok D tbl" and mode: "pb_mode (w_pb w) = ZBX_PB_MODE_HYBRID"
    and h: "w_handles w = hs @ Collecting data # hs'" "hd_state data = PB_MEMORY"
    and close: "close_lock D fits now later (w_pb w) (w_db w) (w_nextid w) data = (pb, db', nextid, rows)"
  shows "move\<^sup>*\<^sup>* (core_of D tbl w) (core_of D tbl
      (w\<lparr>w_pb := pb, w_db := db', w_nextid := nextid, w_handles := hs @ close_phase (hd_handleid data) rows @ hs',
        w_accepted := w_accepted w \<union> set (new_rows (w_nextid w) data),
        w_discarded := w_discarded w \<union> set (too_old now (w_pb w) data)\<rparr>)) \<and> pb_mode pb = ZBX_PB_MODE_HYBRID"
proof (cases "hd_rows data = []")
  case True
  then show ?thesis using gone_move [OF h, of D tbl] close mode
    by (auto simp: close_lock_def close_phase_def new_rows_def too_old_def core_of_def)
next
  case False
  define rows0 where "rows0 = new_rows (w_nextid w) data"
  have ids0: "map row_id rows0 = [w_nextid w..<w_nextid w + length rows0]"
    using set_row_ids [of "w_nextid w" "hd_rows data"] by (simp add: rows0_def new_rows_def)
  obtain aged young where age:
    "(if pb_state (w_pb w) = PB_MEMORY then pb_history_check_age now later (w_pb w) else (w_pb w, True)) = (aged, young)" by fastforce
  note aged = aged_split [OF age False]
  define w1 where "w1 = w\<lparr>w_pb := aged, w_discarded := w_discarded w \<union> set (too_old now (w_pb w) data)\<rparr>"
  have m1: "move (core_of D tbl w) (core_of D tbl w1)"
    using aged_move [OF aged(2), of D tbl] unfolding aged(1) [symmetric] w1_def .
  have "pb_state aged = pb_state (w_pb w)" "pb_mode aged = ZBX_PB_MODE_HYBRID" by (subst aged(1), simp add: mode)+
  then have w1: "pb_mode (w_pb w1) = ZBX_PB_MODE_HYBRID" "w_handles w1 = hs @ Collecting data # hs'"
    "map row_id rows0 = [w_nextid w1..<w_nextid w1 + length rows0]"
    "\<not> young \<longrightarrow> pb_state (w_pb w1) = PB_MEMORY \<and> pb_history (w_pb w1) \<noteq> []" using aged(3) h ids0 by (simp_all add: w1_def)
  have "close_rows D fits young (w_pb w1) (w_db w1) (hd_handleid data) rows0 = (pb, db', rows)" "nextid = w_nextid w + length rows0"
    using close False age by (auto simp: close_lock_def rows0_def new_rows_def w1_def Let_def split: prod.splits)
  from close_rows_moves [OF db w1(1,2) h(2) w1(3,4) this(1)] m1 this(2)
  have "move\<^sup>*\<^sup>* (core_of D tbl w) (core_of D tbl (w1\<lparr>w_pb := pb, w_db := db', w_nextid := nextid,
      w_handles := hs @ close_phase (hd_handleid data) rows @ hs', w_accepted := w_accepted w1 \<union> set rows0\<rparr>)) \<and> pb_mode pb = ZBX_PB_MODE_HYBRID"
    by (auto simp: w1_def intro: converse_rtranclp_into_rtranclp)
  then show ?thesis by (simp add: core_of_def w1_def rows0_def)
qed

lemma close_lock_nextid:
  assumes "close_lock D fits now later pb db0 first data = (pb', db', nextid, rows)"
  shows "first \<le> nextid"
  using assms by (auto simp: close_lock_def Let_def split: if_splits prod.splits)

text \<open>Ids may be left out.\<close>

lemma ids_move:
  assumes "w_nextid w \<le> n"
  shows "move (core_of D tbl w) (core_of D tbl (w\<lparr>w_nextid := n\<rparr>))"
  using m_ids [of "core_of D tbl w" n] assms by (simp add: core_of_def)

section \<open>The last id of an export\<close>

lemma filter_novalue_set: "set (filter_novalue nodata rows) \<subseteq> set rows"
  by (induction nodata rows rule: filter_novalue.induct) auto

lemma filter_novalue_nonempty: "rows \<noteq> [] \<Longrightarrow> filter_novalue [] rows \<noteq> []"
  by (cases rows) auto

lemma export_loop_lastid:
  "export_loop exportable j n lastid rows = Some (j', n', lastid') \<Longrightarrow>
   lastid' \<in> row_id ` set rows \<or> rows = [] \<and> lastid' = lastid"
proof (induction exportable j n lastid rows arbitrary: j' rule: export_loop.induct)
  case (2 exportable j n lastid r rows)
  then show ?case by (fastforce split: if_splits Option.bind_splits)
qed simp

lemma export_lastid:
  assumes "pb_history_export exportable j n lastid rows = Some (j', n', lastid')"
  shows "lastid' = lastid \<or> lastid' \<in> row_id ` set rows" "rows \<noteq> [] \<Longrightarrow> lastid' \<in> row_id ` set rows"
proof -
  let ?rs = "rev (filter_novalue [] (rev rows))"
  have "set ?rs \<subseteq> set rows" using filter_novalue_set [of "[]" "rev rows"] by simp
  moreover have "rows \<noteq> [] \<Longrightarrow> ?rs \<noteq> []" using filter_novalue_nonempty [of "rev rows"] by simp
  moreover have "lastid' \<in> row_id ` set ?rs \<or> ?rs = [] \<and> lastid' = lastid"
    using assms unfolding pb_history_export_def by (rule export_loop_lastid)
  ultimately show "lastid' = lastid \<or> lastid' \<in> row_id ` set rows" "rows \<noteq> [] \<Longrightarrow> lastid' \<in> row_id ` set rows" by blast+
qed

lemma get_mem_lastid:
  "get_mem_loop exportable j n lastid rows = Some (j', n', lastid', more_data) \<Longrightarrow> lastid' = lastid \<or> lastid' \<in> row_id ` set rows"
proof (induction exportable j n lastid rows rule: get_mem_loop.induct)
  case (1 exportable j n lastid rows)
  obtain j1 n1 l1 where e: "pb_history_export exportable j n lastid (take 1000 rows) = Some (j1, n1, l1)"
    using 1(2) by (subst (asm) get_mem_loop.simps) (auto split: option.splits)
  have l1: "l1 = lastid \<or> l1 \<in> row_id ` set rows" using export_lastid(1) [OF e] set_take_subset [of 1000 rows] by blast
  show ?case
  proof (cases "length rows < 1000 \<or> ZBX_DATA_JSON_BATCH_LIMIT \<le> buffer_offset j1 \<or> n1 \<ge> 10000")
    case True
    then have "lastid' = l1" using 1(2) e by (subst (asm) get_mem_loop.simps) (auto split: if_splits)
    then show ?thesis using l1 by simp
  next
    case False
    then have "get_mem_loop exportable j1 n1 l1 (drop 1000 rows) = Some (j', n', lastid', more_data)"
      using 1(2) e by (subst (asm) get_mem_loop.simps) simp
    then have "lastid' = l1 \<or> lastid' \<in> row_id ` set (drop 1000 rows)" using 1(1) [OF e HOL.refl HOL.refl] False by simp
    then show ?thesis using l1 set_drop_subset [of 1000 rows] by blast
  qed
qed

lemma history_get_mem_lastid:
  assumes "pb_history_get_mem exportable pb j 0 = Some (j', n, lastid, more_data)"
  shows "lastid = 0 \<or> lastid \<in> row_id ` set (pb_history pb)"
  using assms get_mem_lastid [of exportable j 0 0 "pb_history pb"]
  by (fastforce simp: pb_history_get_mem_def split: if_splits Option.bind_splits)

lemma batch_end_next:
  assumes "batch_end exportable rd = Some (rd', continue)"
  shows "rd_lastid rd' = rd_lastid rd \<or> rd_lastid rd' \<in> row_id ` set (rd_rows rd)"
    "continue \<Longrightarrow> rd_lastid rd' \<in> row_id ` set (rd_rows rd) \<and> rd_id rd' = rd_lastid rd' \<and> rd_gapid rd' = 0 \<and> rd_rows rd' = []"
proof -
  have "(rd_lastid rd' = rd_lastid rd \<or> rd_lastid rd' \<in> row_id ` set (rd_rows rd)) \<and>
    (continue \<longrightarrow> rd_lastid rd' \<in> row_id ` set (rd_rows rd) \<and> rd_id rd' = rd_lastid rd' \<and> rd_gapid rd' = 0 \<and> rd_rows rd' = [])"
  proof (cases "rd_rows rd = []")
    case True
    then show ?thesis using assms by (auto simp: batch_end_def Let_def split: if_splits)
  next
    case False
    define rd1 where "rd1 = (if length (rd_rows rd) \<noteq> 1000 then rd\<lparr>rd_more := ZBX_PROXY_DATA_DONE\<rparr> else rd)"
    have same: "rd_rows rd1 = rd_rows rd" "rd_lastid rd1 = rd_lastid rd" by (simp_all add: rd1_def)
    obtain j n l where e: "pb_history_export exportable (rd_json rd1) (rd_num rd1) (rd_lastid rd1) (rd_rows rd) = Some (j, n, l)"
      using assms False unfolding batch_end_def rd1_def [symmetric] Let_def same by (auto split: Option.bind_splits)
    have "rd_lastid rd' = l" "continue \<longrightarrow> rd_id rd' = l \<and> rd_gapid rd' = 0 \<and> rd_rows rd' = []"
      using assms False e unfolding batch_end_def rd1_def [symmetric] Let_def same by (auto split: if_splits)
    then show ?thesis using export_lastid(2) [OF e False] by simp
  qed
  then show "rd_lastid rd' = rd_lastid rd \<or> rd_lastid rd' \<in> row_id ` set (rd_rows rd)"
    "continue \<Longrightarrow> rd_lastid rd' \<in> row_id ` set (rd_rows rd) \<and> rd_id rd' = rd_lastid rd' \<and> rd_gapid rd' = 0 \<and> rd_rows rd' = []" by blast+
qed

section \<open>Steps are moves\<close>

lemma read_once_done:
  assumes "history_db_ok D tbl" "read_once D db rd = (rd', False)"
  shows "\<exists>rows i. fetch_rows (rd_id rd) (rd_gapid rd) (take (1000 - length (rd_rows rd))
       (filter (\<lambda>r. rd_id rd < row_id r) (sort_key row_id (tbl db)))) = (rows, i, None) \<and> rd' = rd\<lparr>rd_rows := rd_rows rd @ rows, rd_id := i\<rparr>"
  using assms(2) unfolding read_once_def db_laws(1) [OF assms(1)] Let_def by (auto split: option.splits prod.splits)

lemma read_once_gap:
  assumes "history_db_ok D tbl" "read_once D db rd = (rd', True)"
  shows "\<exists>rows i gap. fetch_rows (rd_id rd) (rd_gapid rd) (take (1000 - length (rd_rows rd))
       (filter (\<lambda>r. rd_id rd < row_id r) (sort_key row_id (tbl db)))) = (rows, i, Some gap) \<and> rd' = rd\<lparr>rd_rows := rd_rows rd @ rows, rd_id := i, rd_gapid := gap\<rparr>"
  using assms(2) unfolding read_once_def db_laws(1) [OF assms(1)] Let_def by (auto split: option.splits prod.splits)

lemma update_moves:
  assumes db: "history_db_ok D tbl" and up: "w_uploader w = Acknowledged more_history"
    and late: "pb_state (w_pb w) = PB_DATABASE \<and> more_data = ZBX_PROXY_DATA_DONE \<longrightarrow> (\<forall>h \<in> set (w_handles w). \<not> late_handle h)"
    and u: "pb_update_state D (w_pb w) (w_db w) more_data = (pb, db')"
  shows "move\<^sup>*\<^sup>* (core_of D tbl w) (core_of D tbl (w\<lparr>w_pb := pb, w_db := db'\<rparr>)) \<and> pb_mode pb = pb_mode (w_pb w)"
proof -
  let ?c = "core_of D tbl w"
  have cu: "c_up ?c = Acknowledged more_history" using up by (simp add: core_of_def)
  show ?thesis
  proof (cases "pb = w_pb w \<and> db' = w_db w")
    case True
    then show ?thesis by simp
  next
    case False
    then have hyb: "pb_mode (w_pb w) = ZBX_PB_MODE_HYBRID"
      using u by (cases "pb_mode (w_pb w) = ZBX_PB_MODE_HYBRID") (auto simp: pb_update_state_def)
    show ?thesis
    proof (cases "pb_state (w_pb w)")
      case PB_DATABASE
      then have p: "pb = pb_set_state (w_pb w) PB_DATABASE_MEMORY" "db' = w_db w" "more_data = ZBX_PROXY_DATA_DONE"
        using u hyb False by (auto simp: pb_update_state_def split: if_splits)
      have "move ?c (?c\<lparr>c_state := PB_DATABASE_MEMORY\<rparr>)" using late p(3) PB_DATABASE by (intro m_switch [OF cu]) (auto simp: core_of_def)
      moreover have "core_of D tbl (w\<lparr>w_pb := pb, w_db := db'\<rparr>) = ?c\<lparr>c_state := PB_DATABASE_MEMORY\<rparr>" using p by (simp add: core_of_def)
      ultimately show ?thesis using p by auto
    next
      case PB_DATABASE_MEMORY
      then have p: "pb = pb_set_state (w_pb w) PB_MEMORY" "db' = w_db w" "db_handles_num (w_pb w) = 0"
          "history_lastid_db (w_pb w) \<le> history_lastid_sent (w_pb w)"
        using u hyb False by (auto simp: pb_update_state_def split: if_splits)
      have "move ?c (?c\<lparr>c_state := PB_MEMORY\<rparr>)" using p(3,4) PB_DATABASE_MEMORY by (intro m_back [OF cu]) (auto simp: core_of_def)
      moreover have "core_of D tbl (w\<lparr>w_pb := pb, w_db := db'\<rparr>) = ?c\<lparr>c_state := PB_MEMORY\<rparr>" using p by (simp add: core_of_def)
      ultimately show ?thesis using p by auto
    next
      case PB_MEMORY
      then show ?thesis using u hyb False by (auto simp: pb_update_state_def)
    next
      case PB_MEMORY_DATABASE
      then have p: "pb = pb_set_state (w_pb w) PB_DATABASE" "db' = pb_flush_lastids D (w_pb w) (w_db w)" "pb_history (w_pb w) = []"
        using u hyb False by (auto simp: pb_update_state_def has_mem_rows_def split: if_splits)
      let ?stored = "select_lastid D PROXY_HISTORY db'"
      have "move ?c (?c\<lparr>c_state := PB_DATABASE, c_stored := ?stored\<rparr>)"
        using p(2,3) PB_MEMORY_DATABASE flush_lastids [OF db] by (intro m_drained [OF cu]) (auto simp: core_of_def)
      moreover have "core_of D tbl (w\<lparr>w_pb := pb, w_db := db'\<rparr>) = ?c\<lparr>c_state := PB_DATABASE, c_stored := ?stored\<rparr>"
        using p flush_lastids [OF db] by (simp add: core_of_def)
      ultimately show ?thesis using p by auto
    qed
  qed
qed

lemma read_moves:
  assumes db: "history_db_ok D tbl" and up: "w_uploader w = Reading rd R" and read: "read_once D (w_db w) rd = (rd', False)"
    and batch: "batch_end exportable rd' = Some (rd'', continue)"
  shows "move (core_of D tbl w) (core_of D tbl (w\<lparr>w_uploader :=
      (if continue then Reading rd'' (R \<union> set (rd_rows rd'))
       else Uploading {r \<in> R \<union> set (rd_rows rd'). row_id r \<le> rd_lastid rd''} (rd_lastid rd'') (rd_more rd''))\<rparr>))"
proof -
  let ?c = "core_of D tbl w"
  have cu: "c_up ?c = Reading rd R" using up by (simp add: core_of_def)
  from read_once_done [OF db read] obtain rows i where f:
    "fetch_rows (rd_id rd) (rd_gapid rd) (take (1000 - length (rd_rows rd))
       (filter (\<lambda>r. rd_id rd < row_id r) (sort_key row_id (c_tbl ?c)))) = (rows, i, None)"
    "rd_lastid rd' = rd_lastid rd" "rd_rows rd' = rd_rows rd @ rows" by (auto simp: core_of_def)
  note next_id = batch_end_next [OF batch, unfolded f(2,3)]
  show ?thesis
  proof (cases continue)
    case True
    have "move ?c (?c\<lparr>c_up := Reading rd'' (R \<union> set (rd_rows rd @ rows))\<rparr>)"
      using next_id(2) [OF True] by (intro m_batch [OF cu f(1)]) auto
    then show ?thesis using True f(3) by (simp add: core_of_def)
  next
    case False
    have "move ?c (?c\<lparr>c_up := Uploading {r \<in> R \<union> set (rd_rows rd @ rows). row_id r \<le> rd_lastid rd''} (rd_lastid rd'') (rd_more rd'')\<rparr>)"
      using next_id(1) by (intro m_read [OF cu f(1)]) auto
    then show ?thesis using False f(3) by (simp add: core_of_def)
  qed
qed

lemma wait_moves:
  assumes db: "history_db_ok D tbl" and up: "w_uploader w = Reading rd R" and read: "read_once D (w_db w) rd = (rd', True)"
  shows "move (core_of D tbl w) (core_of D tbl
      (w\<lparr>w_uploader := Waiting rd' (R \<union> set (rd_rows rd')) (wait_handleid (history_handleids (w_pb w)))\<rparr>))"
proof -
  let ?c = "core_of D tbl w"
  have cu: "c_up ?c = Reading rd R" using up by (simp add: core_of_def)
  from read_once_gap [OF db read] obtain rows i gap where f:
    "fetch_rows (rd_id rd) (rd_gapid rd) (take (1000 - length (rd_rows rd))
       (filter (\<lambda>r. rd_id rd < row_id r) (sort_key row_id (c_tbl ?c)))) = (rows, i, Some gap)"
    "rd_lastid rd' = rd_lastid rd" "rd_rows rd' = rd_rows rd @ rows" "rd_id rd' = i" "rd_gapid rd' = gap"
    by (auto simp: core_of_def)
  have "move ?c (?c\<lparr>c_up := Waiting rd' (R \<union> set (rd_rows rd')) (wait_handleid (c_ids ?c))\<rparr>)"
    by (rule m_wait [OF cu f(1)]) (use f(2-5) in simp_all)
  then show ?thesis by (simp add: core_of_def)
qed

lemma set_lastid_moves:
  assumes db: "history_db_ok D tbl" and up: "w_uploader w = Uploading R lastid more_data" and l: "lastid \<noteq> 0"
    and s: "zbx_pb_set_history_lastid D (w_pb w) (w_db w) lastid = (pb, db')"
  shows "move (core_of D tbl w) (core_of D tbl (w\<lparr>w_pb := pb, w_db := db', w_uploader := Acknowledged more_data,
      w_sent := w_sent w \<union> R\<rparr>))"
proof -
  let ?c = "core_of D tbl w"
  have cu: "c_up ?c = Uploading R lastid more_data" using up by (simp add: core_of_def)
  show ?thesis
  proof (cases "get_pb_src (pb_state (w_pb w)) = PB_MEMORY")
    case True
    then show ?thesis using m_ack_mem [OF cu l] s
      by (auto simp: core_of_def zbx_pb_set_history_lastid_def pb_history_clear_def Let_def)
  next
    case False
    then have "get_pb_src (pb_state (w_pb w)) = PB_DATABASE" by (cases "pb_state (w_pb w)") auto
    then show ?thesis using m_ack_db [OF cu l] s db_laws(5,7) [OF db] by (auto simp: core_of_def zbx_pb_set_history_lastid_def)
  qed
qed

lemma step_moves:
  assumes db: "history_db_ok D tbl" and mode: "pb_mode (w_pb w) = ZBX_PB_MODE_HYBRID" and s: "pb_step D True w w'"
  shows "move\<^sup>*\<^sup>* (core_of D tbl w) (core_of D tbl w') \<and> pb_mode (w_pb w') = ZBX_PB_MODE_HYBRID"
  using s
proof cases
  case (opens pb data)
  then have "move (core_of D tbl w) (core_of D tbl w')"
    using m_open [of data "core_of D tbl w"]
    by (auto simp: core_of_def zbx_pb_history_open_def pb_register_handle_def Let_def)
  then show ?thesis using opens mode by (auto simp: zbx_pb_history_open_def pb_register_handle_def Let_def)
next
  case (writes hs data hs' row)
  then have "move (core_of D tbl w) (core_of D tbl w')"
    using m_write [of "core_of D tbl w" hs data hs' "pb_history_add_value data row"] by (simp add: core_of_def pb_history_add_value_def)
  then show ?thesis using writes mode by auto
next
  case (closes_memory hs data hs' first cache_id fits now later pb db' nextid rows)
  let ?v = "w\<lparr>w_nextid := first\<rparr>"
  have le: "w_nextid w \<le> first" using closes_memory(5) by simp
  have n: "max (w_nextid w) nextid = nextid" using close_lock_nextid [OF closes_memory(6)] le by simp
  have v: "pb_mode (w_pb ?v) = ZBX_PB_MODE_HYBRID" "w_handles ?v = hs @ Collecting data # hs'"
    "close_lock D fits now later (w_pb ?v) (w_db ?v) (w_nextid ?v) data = (pb, db', nextid, rows)" using mode closes_memory by simp_all
  show ?thesis using close_lock_moves [OF db v(1,2) closes_memory(3) v(3)] ids_move [OF le, of D tbl] unfolding closes_memory(1) n
    by (simp add: core_of_def converse_rtranclp_into_rtranclp)
next
  case (closes_database hs data hs' first idcache nextid rows)
  let ?v = "w\<lparr>w_nextid := first\<rparr>"
  have le: "w_nextid w \<le> first" using closes_database(5) by simp
  have n: "max (w_nextid w) nextid = nextid" using closes_database(6) le by (simp add: close_db_def)
  have "move (core_of D tbl ?v) (core_of D tbl w')"
    using m_insert_db [of "core_of D tbl ?v" hs data hs' rows] set_row_ids closes_database(2,3,6) unfolding closes_database(1) n
    by (auto simp: core_of_def close_db_def fresh_def new_rows_def)
  then have "move\<^sup>*\<^sup>* (core_of D tbl w) (core_of D tbl w')"
    using ids_move [OF le, of D tbl] by (meson converse_rtranclp_into_rtranclp r_into_rtranclp)
  then show ?thesis using closes_database mode by simp
next
  case (commits hs handleid rows hs' db' lastid)
  then have "move (core_of D tbl w) (core_of D tbl w')"
    using m_commit [of "core_of D tbl w" hs handleid rows hs'] db_laws [OF db]
    by (auto simp: core_of_def pb_history_add_rows_db_def last_id_def split: if_splits)
  then show ?thesis using commits mode by auto
next
  case (finishes hs handleid lastid hs')
  then have "move (core_of D tbl w) (core_of D tbl w')"
    using m_finish [of "core_of D tbl w" hs handleid lastid hs']
    by (cases "history_lastid_db (w_pb w) < lastid") (simp_all add: core_of_def close_end_def Let_def max_def)
  then show ?thesis using finishes mode by (auto simp: close_end_def Let_def)
next
  case (gets_memory exportable j j' n lastid more_data)
  have "move (core_of D tbl w) (core_of D tbl w')"
    using m_get [of "core_of D tbl w" lastid more_data] gets_memory history_get_mem_lastid [OF gets_memory(4)]
    by (simp add: core_of_def)
  then show ?thesis using gets_memory mode by auto
next
  case (starts j rd)
  have "move (core_of D tbl w) (core_of D tbl w')"
    using m_start [of "core_of D tbl w" rd] m_none [of "core_of D tbl w" "rd_more rd"] starts
    by (auto simp: core_of_def reader_start_def)
  then show ?thesis using starts mode by auto
next
  case (waits rd R rd')
  then show ?thesis using wait_moves [OF db waits(2,3)] mode by auto
next
  case (waited rd R handleid)
  then have "move (core_of D tbl w) (core_of D tbl w')"
    using m_waited [of "core_of D tbl w" rd R handleid] by (simp add: core_of_def)
  then show ?thesis using waited mode by auto
next
  case (reads rd R rd' exportable rd'' continue R' text')
  then show ?thesis using read_moves [OF db reads(2,3,4)] mode by auto
next
  case (fails R lastid more_data)
  then have "move (core_of D tbl w) (core_of D tbl w')" using m_fail [of "core_of D tbl w"] by (simp add: core_of_def)
  then show ?thesis using fails mode by auto
next
  case (acks R lastid more_data pb db')
  show ?thesis
  proof (cases "lastid = 0")
    case True
    then have "move (core_of D tbl w) (core_of D tbl w')"
      using m_ack0 [of "core_of D tbl w" R more_data] acks by (simp add: core_of_def)
    then show ?thesis using True acks mode by auto
  next
    case False
    then show ?thesis using set_lastid_moves [OF db acks(2) False] acks mode
      by (auto simp: zbx_pb_set_history_lastid_def pb_history_clear_def Let_def)
  qed
next
  case (updates more_history more_data pb db')
  let ?v = "w\<lparr>w_pb := pb, w_db := db'\<rparr>"
  have "move (core_of D tbl ?v) (core_of D tbl w')" using m_fail [of "core_of D tbl ?v"] updates(1,2) by (simp add: core_of_def)
  then show ?thesis using update_moves [OF db updates(2,4,5)] mode updates(1) by (auto intro: rtranclp.rtrancl_into_rtrancl)
next
  case (skips more_data)
  then have "move (core_of D tbl w) (core_of D tbl w')" using m_fail [of "core_of D tbl w"] by (simp add: core_of_def)
  then show ?thesis using skips mode by auto
qed

section \<open>The start\<close>

lemma check_unsent:
  assumes db: "history_db_ok D tbl" and c: "pb_check_unsent_rows D t db0 = (db', lastid, maxid, ret)"
  shows "tbl db' = tbl db0" "t = PROXY_HISTORY \<Longrightarrow> select_lastid D PROXY_HISTORY db' = lastid"
    "t \<noteq> PROXY_HISTORY \<Longrightarrow> select_lastid D PROXY_HISTORY db' = select_lastid D PROXY_HISTORY db0"
    "t = PROXY_HISTORY \<Longrightarrow> maxid = Max (insert 0 (row_id ` set (tbl db0))) \<and> lastid = min (select_lastid D PROXY_HISTORY db0) maxid
      \<and> (ret \<longleftrightarrow> lastid < maxid)"
proof -
  define m where "m = Max (insert 0 (row_id ` set (tbl db0)))"
  have "select_maxid D PROXY_HISTORY db0 = m" by (simp add: db_laws(6) [OF db] m_def)
  then show "tbl db' = tbl db0" "t = PROXY_HISTORY \<Longrightarrow> select_lastid D PROXY_HISTORY db' = lastid"
    "t \<noteq> PROXY_HISTORY \<Longrightarrow> select_lastid D PROXY_HISTORY db' = select_lastid D PROXY_HISTORY db0"
    "t = PROXY_HISTORY \<Longrightarrow> maxid = Max (insert 0 (row_id ` set (tbl db0))) \<and> lastid = min (select_lastid D PROXY_HISTORY db0) maxid
      \<and> (ret \<longleftrightarrow> lastid < maxid)"
    using c unfolding m_def [symmetric]
    by (auto simp: pb_check_unsent_rows_def Let_def db_laws(5,7) [OF db] min_def split: if_splits)
qed

lemma init_state:
  assumes db: "history_db_ok D tbl" and i: "pb_init_state D (zbx_pb_create ZBX_PB_MODE_HYBRID age offline) db0 = (pb, db')"
  defines "m \<equiv> Max (insert 0 (row_id ` set (tbl db0)))"
  shows "tbl db' = tbl db0" "select_lastid D PROXY_HISTORY db' = min (select_lastid D PROXY_HISTORY db0) m"
    "pb_history pb = []" "pb_discovery pb = []" "pb_autoreg pb = []" "pb_mode pb = ZBX_PB_MODE_HYBRID" "db_handles_num pb = 0"
    "history_handleids pb = []" "history_lastid_db pb = m" "history_lastid_sent pb = min (select_lastid D PROXY_HISTORY db0) m"
    "pb_state pb = PB_DATABASE \<or> pb_state pb = PB_MEMORY \<and> m \<le> select_lastid D PROXY_HISTORY db0"
    "discovery_lastid_db pb = 0" "autoreg_lastid_db pb = 0"
proof -
  obtain db1 l1 m1 r1 where h: "pb_check_unsent_rows D PROXY_HISTORY db0 = (db1, l1, m1, r1)" by (cases "pb_check_unsent_rows D PROXY_HISTORY db0")
  obtain db2 l2 m2 r2 where d: "pb_check_unsent_rows D PROXY_DHISTORY db1 = (db2, l2, m2, r2)" by (cases "pb_check_unsent_rows D PROXY_DHISTORY db1")
  obtain db3 l3 m3 r3 where a: "pb_check_unsent_rows D PROXY_AUTOREG_HOST db2 = (db3, l3, m3, r3)" by (cases "pb_check_unsent_rows D PROXY_AUTOREG_HOST db2")
  note H = check_unsent [OF db h] and F = check_unsent [OF db d] and A = check_unsent [OF db a]
  have e: "db' = db3" "pb = pb_set_state ((zbx_pb_create ZBX_PB_MODE_HYBRID age offline)\<lparr>history_lastid_db := m1, history_lastid_sent := l1\<rparr>)
      (if r1 \<or> r2 \<or> r3 then PB_DATABASE else PB_MEMORY)"
    using i by (auto simp: pb_init_state_def Let_def h d a zbx_pb_create_def split: if_splits)
  have m1: "m1 = m" "l1 = min (select_lastid D PROXY_HISTORY db0) m" "r1 \<longleftrightarrow> l1 < m" using H(4) by (simp_all add: m_def)
  show "tbl db' = tbl db0" "select_lastid D PROXY_HISTORY db' = min (select_lastid D PROXY_HISTORY db0) m"
    using e(1) H(1,2) F(1,3) A(1,3) m1 by simp_all
  show "pb_history pb = []" "pb_discovery pb = []" "pb_autoreg pb = []" "pb_mode pb = ZBX_PB_MODE_HYBRID" "db_handles_num pb = 0"
    "history_handleids pb = []" "history_lastid_db pb = m" "history_lastid_sent pb = min (select_lastid D PROXY_HISTORY db0) m"
    "discovery_lastid_db pb = 0" "autoreg_lastid_db pb = 0"
    using e(2) m1 by (simp_all add: zbx_pb_create_def)
  show "pb_state pb = PB_DATABASE \<or> pb_state pb = PB_MEMORY \<and> m \<le> select_lastid D PROXY_HISTORY db0"
    using e(2) m1 by (auto simp: min_def split: if_splits)
qed

lemma start_ok:
  assumes db: "history_db_ok D tbl" and s: "pb_start D tbl db0 w"
  shows "core_ok (core_of D tbl w) \<and> pb_mode (w_pb w) = ZBX_PB_MODE_HYBRID"
proof -
  from s obtain age offline where i: "pb_init_state D (zbx_pb_create ZBX_PB_MODE_HYBRID age offline) db0 = (w_pb w, w_db w)"
    and dist: "distinct (map row_id (tbl db0))" and less: "\<forall>r \<in> set (tbl db0). row_id r < w_nextid w" "0 < w_nextid w"
    and w: "w_handles w = []" "w_uploader w = Idle" "w_sent w = {}" "w_discarded w = {}"
      "w_accepted w = {r \<in> set (tbl db0). select_lastid D PROXY_HISTORY db0 < row_id r}"
    unfolding pb_start_def list_all_iff by blast
  note I = init_state [OF db i]
  define m where "m = Max (insert 0 (row_id ` set (tbl db0)))"
  note I = I [folded m_def]
  have max: "row_id r \<le> m" if "r \<in> set (tbl db0)" for r using that by (simp add: m_def)
  have in_m: "m = 0 \<or> m \<in> row_id ` set (tbl db0)" using Max_in [of "insert 0 (row_id ` set (tbl db0))"] by (simp add: m_def)
  then have m_less: "m < w_nextid w" using less by auto
  let ?c = "core_of D tbl w"
  have "ids_ok ?c" using dist less I m_less w by (auto simp: ids_ok_def core_of_def)
  moreover have "state_ok ?c" using I w max by (auto simp: state_ok_def core_of_def)
  moreover have "handles_ok ?c" using I w by (simp add: handles_ok_def core_of_def)
  moreover have "lastid_ok ?c" using I w max in_m by (simp add: lastid_ok_def core_of_def)
  moreover have "uploader_ok ?c (c_up ?c)" using w by (simp add: core_of_def)
  moreover have "rows_ok ?c" using I w by (auto simp: rows_ok_def core_of_def min_def)
  moreover have "handles_sorted (c_handles ?c)" using w by (simp add: handles_sorted_def core_of_def)
  ultimately show ?thesis using I unfolding core_ok_def by simp
qed

lemma reachable_ok:
  assumes db: "history_db_ok D tbl" and r: "pb_reachable D True tbl w"
  shows "core_ok (core_of D tbl w) \<and> pb_mode (w_pb w) = ZBX_PB_MODE_HYBRID"
  using r
proof (induction rule: pb_reachable.induct)
  case (start db0 w)
  then show ?case by (rule start_ok [OF db])
next
  case (step w w')
  then show ?case using step_moves [OF db _ step(2)] moves_ok by blast
qed

section \<open>No row is lost\<close>

text \<open>Where an accepted row can be that is neither sent nor too old: in memory, in an open transaction, or in the table after the last id.\<close>

definition buffered :: "('db, 'b) pb_db_scheme \<Rightarrow> ('db \<Rightarrow> zbx_pb_history list) \<Rightarrow> 'db world \<Rightarrow> zbx_pb_history set" where
  "buffered D tbl w = set (pb_history (w_pb w)) \<union> set (in_flight (w_handles w))
     \<union> {r \<in> set (tbl (w_db w)). select_lastid D PROXY_HISTORY (w_db w) < row_id r}"

text \<open>The rows of an upload that waits for its answer.\<close>

fun uploading :: "uploader \<Rightarrow> zbx_pb_history set" where
  "uploading (Uploading R lastid more_data) = R"
| "uploading _ = {}"

lemma no_loss:
  assumes "history_db_ok D tbl" "pb_reachable D True tbl w"
  shows "w_accepted w \<subseteq> w_sent w \<union> w_discarded w \<union> buffered D tbl w"
    "r \<in> uploading (w_uploader w) \<Longrightarrow> s \<in> w_sent w \<Longrightarrow> row_id s < row_id r"
proof -
  have ok: "core_ok (core_of D tbl w)" using reachable_ok [OF assms] by simp
  then have "c_stored (core_of D tbl w) \<le> c_sent (core_of D tbl w)" by (simp add: core_ok_def state_ok_def)
  then have "select_lastid D PROXY_HISTORY (w_db w) \<le> history_lastid_sent (w_pb w)" by (simp add: core_of_def)
  then have "{r \<in> set (tbl (w_db w)). history_lastid_sent (w_pb w) < row_id r}
      \<subseteq> {r \<in> set (tbl (w_db w)). select_lastid D PROXY_HISTORY (w_db w) < row_id r}" by auto
  moreover have "w_accepted w \<subseteq> w_sent w \<union> w_discarded w \<union> set (pb_history (w_pb w)) \<union> set (in_flight (w_handles w))
      \<union> {r \<in> set (tbl (w_db w)). history_lastid_sent (w_pb w) < row_id r}"
    using ok by (simp add: core_ok_def rows_ok_def core_of_def)
  ultimately show "w_accepted w \<subseteq> w_sent w \<union> w_discarded w \<union> buffered D tbl w" unfolding buffered_def by blast
  assume r: "r \<in> uploading (w_uploader w)" and s: "s \<in> w_sent w"
  then obtain R lastid more_data where u: "w_uploader w = Uploading R lastid more_data" "r \<in> R" by (cases "w_uploader w") auto
  have "row_id s \<le> c_sent (core_of D tbl w)" using ok s by (simp add: core_ok_def rows_ok_def core_of_def)
  moreover have "c_up (core_of D tbl w) = Uploading R lastid more_data" by (simp add: core_of_def u)
  with ok have "uploader_ok (core_of D tbl w) (Uploading R lastid more_data)" unfolding core_ok_def by metis
  then have "c_sent (core_of D tbl w) < row_id r" using u(2) unfolding uploader_ok.simps by blast
  ultimately show "row_id s < row_id r" by linarith
qed

end
