(* ===== verification/ZbxPbSent.thy ===== *)
theory ZbxPbSent
  imports ZbxPbSafe
begin

text \<open>
  What the server gets: the records as they have to be, stated on the values of a text and not on the calls that write it,
  and the rows that the text of an upload holds.
\<close>

section \<open>The record of a row\<close>

text \<open>
  A row carries a value unless bit 1 of its flags is set, and the position in a log if bit 0 is. Numbers are the 64 bits
  of the C types.
\<close>

definition carries_value :: "zbx_pb_history \<Rightarrow> bool" where
  "carries_value r \<longleftrightarrow> \<not> bit (row_flags r) 1"

definition carries_meta :: "zbx_pb_history \<Rightarrow> bool" where
  "carries_meta r \<longleftrightarrow> bit (row_flags r) 0"

definition unsigned_number :: "nat \<Rightarrow> string zbx_jsonobj" where
  "unsigned_number n = JSON_NUMBER (dec_string (n mod 2 ^ 64))"

definition signed_number :: "int \<Rightarrow> string zbx_jsonobj" where
  "signed_number i =
     (let i = (i + 2 ^ 63) mod 2 ^ 64 - 2 ^ 63
      in JSON_NUMBER (if i < 0 then CHR ''-'' # dec_string (nat (- i)) else dec_string (nat i)))"

definition member_if :: "bool \<Rightarrow> string \<times> 'v \<Rightarrow> (string \<times> 'v) list" where
  "member_if c member = (if c then [member] else [])"

definition history_record :: "zbx_pb_history \<Rightarrow> (string \<times> string zbx_jsonobj) list" where
  "history_record r =
     [(''id'', unsigned_number (row_id r)), (''itemid'', unsigned_number (row_itemid r)),
      (''clock'', signed_number (row_sec r)), (''ns'', signed_number (row_ns r))]
     @ member_if ((carries_value r \<or> carries_meta r) \<and> row_state r \<noteq> 0) (''state'', signed_number (row_state r))
     @ (if carries_value r then
          member_if (row_timestamp r \<noteq> 0) (''timestamp'', signed_number (row_timestamp r))
          @ member_if (cstr (row_source r) \<noteq> []) (''source'', JSON_STRING (cstr (row_source r)))
          @ member_if (row_severity r \<noteq> 0) (''severity'', signed_number (row_severity r))
          @ member_if (row_logeventid r \<noteq> 0) (''eventid'', signed_number (row_logeventid r))
          @ [(''value'', JSON_STRING (cstr (row_value r)))]
        else [])
     @ (if carries_meta r
        then [(''lastlogsize'', unsigned_number (row_lastlogsize r)), (''mtime'', signed_number (row_mtime r))] else [])"

text \<open>A row without value and position is not needed when there is a newer such row of its item.\<close>

definition superseded :: "zbx_pb_history set \<Rightarrow> zbx_pb_history \<Rightarrow> bool" where
  "superseded R r \<longleftrightarrow> \<not> carries_value r \<and> \<not> carries_meta r
     \<and> (\<exists>s \<in> R. \<not> carries_value s \<and> \<not> carries_meta s \<and> row_itemid s = row_itemid r \<and> row_id r < row_id s)"

text \<open>The rows of a text: it opens as an object whose history is an array of their records, or that has no history.\<close>

definition text_rows :: "zbx_json \<Rightarrow> zbx_pb_history list \<Rightarrow> bool" where
  "text_rows j rs \<longleftrightarrow> (\<exists>els. zbx_jsonobj_open numeral_text (json_buffer j) = Inr (Some (JSON_OBJECT els))
     \<and> map_of els ''history data'' = (if rs = [] then None else Some (JSON_ARRAY (map (\<lambda>r. JSON_OBJECT (history_record r)) rs))))"

lemma superseded_mono: "superseded R r \<Longrightarrow> R \<subseteq> R' \<Longrightarrow> superseded R' r"
  unfolding superseded_def by blast

lemma is_novalue_iff: "is_novalue r \<longleftrightarrow> \<not> carries_value r \<and> \<not> carries_meta r"
proof -
  have "x AND 3 = 2 \<longleftrightarrow> bit x 1 \<and> \<not> bit x 0" for x :: "32 word"
  proof -
    have "x AND 3 = take_bit 2 x" using take_bit_eq_mask [of 2 x] by (simp add: mask_eq_exp_minus_1 and.commute)
    moreover have "take_bit (Suc 1) x = of_bool (bit x 1) * 2 + of_bool (bit x 0)"
      by (simp only: take_bit_Suc One_nat_def take_bit_0 bit_Suc bit_0 mod_2_eq_odd mult_zero_left add_0)
    then have "take_bit 2 x = 2 \<longleftrightarrow> bit x 1 \<and> \<not> bit x 0" by (cases "bit x 0"; cases "bit x 1") (simp_all add: numeral_2_eq_2)
    ultimately show ?thesis by simp
  qed
  then show ?thesis
    by (simp add: is_novalue_def carries_value_def carries_meta_def ZBX_PROXY_HISTORY_MASK_NOVALUE_def
        ZBX_PROXY_HISTORY_FLAG_META_def ZBX_PROXY_HISTORY_FLAG_NOVALUE_def)
qed

lemma flag_tests:
  "row_flags r AND ZBX_PROXY_HISTORY_FLAG_NOVALUE = 0 \<longleftrightarrow> carries_value r"
  "row_flags r AND ZBX_PROXY_HISTORY_FLAG_META = 0 \<longleftrightarrow> \<not> carries_meta r"
proof -
  have "x AND 2 = 0 \<longleftrightarrow> \<not> bit x 1" for x :: "32 word"
    by (auto simp: bit_iff_and_push_bit_not_eq_0)
  moreover have "x AND 1 = 0 \<longleftrightarrow> \<not> bit x 0" for x :: "32 word"
    by (auto simp: bit_iff_and_push_bit_not_eq_0)
  ultimately show "row_flags r AND ZBX_PROXY_HISTORY_FLAG_NOVALUE = 0 \<longleftrightarrow> carries_value r"
    "row_flags r AND ZBX_PROXY_HISTORY_FLAG_META = 0 \<longleftrightarrow> \<not> carries_meta r"
    by (simp_all add: carries_value_def carries_meta_def ZBX_PROXY_HISTORY_FLAG_META_def ZBX_PROXY_HISTORY_FLAG_NOVALUE_def)
qed

section \<open>Writing members\<close>

fun member_op :: "write_op \<Rightarrow> bool" where
  "member_op (AddString (Some name) s) \<longleftrightarrow> True"
| "member_op (AddUint64 (Some name) n) \<longleftrightarrow> True"
| "member_op (AddInt64 (Some name) n) \<longleftrightarrow> True"
| "member_op _ \<longleftrightarrow> False"

text \<open>The member such a call adds.\<close>

fun op_member :: "(string \<Rightarrow> 'd) \<Rightarrow> write_op \<Rightarrow> string \<times> 'd zbx_jsonobj" where
  "op_member atof (AddString (Some name) s) = (cstr name, JSON_STRING (cstr s))"
| "op_member atof (AddUint64 (Some name) n) = (cstr name, JSON_NUMBER (atof (dec_string (unat n))))"
| "op_member atof (AddInt64 (Some name) n) = (cstr name, JSON_NUMBER (atof (int64_text n)))"
| "op_member atof _ = ([], JSON_NULL)"

lemma member_step:
  assumes "member_op oper" "fr_obj f" "length fs \<le> 64"
  shows "\<exists>f'. write_step atof (f # fs) oper (f' # fs) \<and> fr_obj f' \<and> fr_name f' = fr_name f \<and> fr_vals f' = fr_vals f @ [op_member atof oper]"
proof -
  have ok: "adds_to (f # fs) (Some name)" for name using assms by (simp add: adds_to_def)
  show ?thesis using assms(1)
  proof (cases oper rule: member_op.cases)
    case (1 name s)
    then show ?thesis using write_step.string [OF ok, of atof name s] assms(2) by (auto simp: add_value_def)
  next
    case (2 name n)
    then show ?thesis using write_step.uint64 [OF ok, of atof name n] assms(2) by (auto simp: add_value_def)
  next
    case (3 name n)
    then show ?thesis using write_step.int64 [OF ok, of atof name n] assms(2) by (auto simp: add_value_def)
  qed auto
qed

lemma member_steps:
  assumes "list_all member_op ops" "fr_obj f" "length fs \<le> 64"
  shows "\<exists>f'. write_steps atof (f # fs) ops (f' # fs) \<and> fr_obj f' \<and> fr_name f' = fr_name f \<and> fr_vals f' = fr_vals f @ map (op_member atof) ops"
  using assms
proof (induction ops arbitrary: f)
  case Nil
  then show ?case by (auto intro: write_steps.refl)
next
  case (Cons oper ops)
  then obtain f1 where f1: "write_step atof (f # fs) oper (f1 # fs)" "fr_obj f1" "fr_name f1 = fr_name f"
    "fr_vals f1 = fr_vals f @ [op_member atof oper]" using member_step [of oper f fs atof] by auto
  from Cons.IH [OF _ this(2)] Cons.prems obtain f' where "write_steps atof (f1 # fs) ops (f' # fs)" "fr_obj f'"
    "fr_name f' = fr_name f1" "fr_vals f' = fr_vals f1 @ map (op_member atof) ops" by auto
  then show ?case using f1 by (intro exI [of _ f']) (auto intro: write_steps.more)
qed

lemma write_steps_append:
  "write_steps atof fs ops fs' \<Longrightarrow> write_steps atof fs' ops' fs'' \<Longrightarrow> write_steps atof fs (ops @ ops') fs''"
  by (induction rule: write_steps.induct) (auto intro: write_steps.more)

text \<open>A record is an object with members.\<close>

lemma record_steps:
  assumes "list_all member_op members" "\<not> fr_obj f" "length fs \<le> 60"
  shows "\<exists>f'. write_steps atof (f # fs) (AddObject None # members @ [CloseTop]) (f' # fs) \<and> \<not> fr_obj f' \<and> fr_name f' = fr_name f
    \<and> map snd (fr_vals f') = map snd (fr_vals f) @ [JSON_OBJECT (object_value (map (op_member atof) members))]"
proof -
  let ?new = "new_frame True None"
  have o: "write_step atof (f # fs) (AddObject None) (?new # f # fs)"
    using assms by (intro write_step.object) (simp add: adds_to_def)
  obtain g where g: "write_steps atof (?new # f # fs) members (g # f # fs)" "fr_obj g" "fr_name g = None"
    "fr_vals g = map (op_member atof) members"
    using member_steps [OF assms(1), of ?new "f # fs" atof] assms by (auto simp: new_frame_def)
  have "write_steps atof (g # f # fs) [CloseTop] (add_value (fr_name g) (fr_text g) (fr_value g) f # fs)"
    by (intro write_steps.more [OF write_step.close] write_steps.refl)
  then have "write_steps atof (f # fs) (AddObject None # members @ [CloseTop]) (add_value (fr_name g) (fr_text g) (fr_value g) f # fs)"
    by (intro write_steps.more [OF o] write_steps_append [OF g(1)])
  then show ?thesis using assms(2) g(2-4)
    by (intro exI [of _ "add_value (fr_name g) (fr_text g) (fr_value g) f"]) (simp add: add_value_def fr_value_def)
qed

lemma history_members_ok: "list_all member_op (history_members r)"
  by (simp add: history_members_def value_ops_def)

text \<open>What is written of a row is its record.\<close>

lemma numeral_text_number: "json_number s \<Longrightarrow> numeral_text s = s"
  using number_text_chars [of s] by (simp add: numeral_text_def takeWhile_eq_all_conv list_all_iff)

lemma written_numbers:
  "JSON_NUMBER (numeral_text (dec_string (unat (of_nat n :: 64 word)))) = unsigned_number n"
  "JSON_NUMBER (numeral_text (int64_text (of_int i))) = signed_number i"
proof -
  have "unat (of_nat n :: 64 word) = n mod 2 ^ 64" by (simp add: unat_of_nat)
  then show "JSON_NUMBER (numeral_text (dec_string (unat (of_nat n :: 64 word)))) = unsigned_number n"
    by (simp add: unsigned_number_def numeral_text_number json_number_ints)
  have "sint (of_int i :: 64 word) = (i + 2 ^ 63) mod 2 ^ 64 - 2 ^ 63"
    by (simp add: sint_sbintrunc' signed_take_bit_eq_take_bit_shift take_bit_eq_mod)
  then show "JSON_NUMBER (numeral_text (int64_text (of_int i))) = signed_number i"
    by (simp add: signed_number_def int64_text_def numeral_text_number json_number_ints Let_def)
qed

lemma plain_names [simp]: "NUL \<notin> set name \<Longrightarrow> cstr name = name"
  unfolding cstr_def by (rule takeWhile_eq_all_conv [THEN iffD2]) auto

lemma history_members_record: "map (op_member numeral_text) (history_members r) = history_record r"
  by (auto simp: history_members_def history_record_def member_if_def value_ops_def is_novalue_iff flag_tests written_numbers)

lemma history_record_names: "distinct (map fst (history_record r))"
proof -
  have names: "name \<in> fst ` set (member_if c member) \<longleftrightarrow> c \<and> name = fst member" for name c and member :: "string \<times> 'v"
    by (auto simp: member_if_def)
  have apart: "fst ` set (member_if c member) \<inter> A = {} \<longleftrightarrow> (c \<longrightarrow> fst member \<notin> A)" for c A and member :: "string \<times> 'v"
    by (auto simp: member_if_def)
  have one: "distinct (map fst (member_if c member))" for c and member :: "string \<times> 'v"
    by (simp add: member_if_def)
  show ?thesis
    by (cases "carries_value r"; cases "carries_meta r") (simp_all add: history_record_def names apart one image_Un)
qed

lemma object_value_distinct:
  assumes "distinct (map fst els)"
  shows "object_value els = els"
proof -
  have "map_of (rev els) = map_of els" using assms by (intro map_of_inject_set [THEN iffD2]) (simp_all add: rev_map [symmetric])
  then have "object_value els = map (\<lambda>k. (k, the (map_of els k))) (map fst els)"
    using assms by (simp add: object_value_def distinct_remdups_id rev_map [symmetric])
  also have "\<dots> = els" unfolding map_map by (rule map_idI) (use assms in auto)
  finally show ?thesis .
qed

lemma object_value_map_of: "map_of (object_value els) k = map_of (rev els) k"
proof (cases "k \<in> fst ` set els")
  case True
  then obtain v where "map_of (rev els) k = Some v" by (cases "map_of (rev els) k") (auto simp: map_of_eq_None_iff)
  then show ?thesis using True by (simp add: object_value_def map_of_map_restrict)
next
  case False
  then have "map_of (rev els) k = None" by (auto simp: map_of_eq_None_iff)
  then show ?thesis using False by (simp add: object_value_def map_of_map_restrict)
qed

section \<open>The text of an upload\<close>

text \<open>A text as a sequence of calls left it, with its open containers.\<close>

definition written :: "zbx_json \<Rightarrow> string frame list \<Rightarrow> bool" where
  "written j fs \<longleftrightarrow> holds_frames j fs \<and> (\<exists>ops. write_steps numeral_text [new_frame True None] ops fs)"

lemma written_ops:
  assumes "written j fs" "write_steps numeral_text fs ops fs'" "exec_ops j ops = Some j'"
  shows "written j' fs'"
  using assms exec_ops_holds [OF assms(2), of j] write_steps_append unfolding written_def by fastforce

text \<open>Before the first record the object is open, then the array of the records in it.\<close>

definition record_frames :: "zbx_pb_history list \<Rightarrow> string frame list \<Rightarrow> bool" where
  "record_frames rs fs \<longleftrightarrow>
     (\<exists>f. fr_obj f \<and> ''history data'' \<notin> fst ` set (fr_vals f)
        \<and> (if rs = [] then fs = [f]
           else \<exists>g. fs = [g, f] \<and> \<not> fr_obj g \<and> fr_name g = Some ''history data''
             \<and> map snd (fr_vals g) = map (\<lambda>r. JSON_OBJECT (history_record r)) rs))"

definition open_text :: "nat \<Rightarrow> zbx_json \<Rightarrow> zbx_pb_history list \<Rightarrow> bool" where
  "open_text n j rs \<longleftrightarrow> n = length rs \<and> (\<exists>fs. written j fs \<and> record_frames rs fs)"

text \<open>A call that adds a value keeps the kind and the name of the outermost container.\<close>

lemma write_steps_outer:
  assumes "write_steps numeral_text [new_frame True None] ops [f]"
  shows "fr_obj f"
proof -
  have at: "fs \<noteq> [] \<Longrightarrow> add_top name s v fs \<noteq> [] \<and> fr_obj (last (add_top name s v fs)) = fr_obj (last fs)"
    for name s v and fs :: "string frame list" by (cases fs) auto
  have step: "write_step atof fs oper fs' \<Longrightarrow> fs \<noteq> [] \<and> fr_obj (last fs) \<Longrightarrow> fs' \<noteq> [] \<and> fr_obj (last fs')"
    for atof :: "string \<Rightarrow> string" and fs oper fs'
  proof (induction rule: write_step.induct)
    case (close f p fs)
    then show ?case by (cases fs) auto
  qed (auto simp: new_frame_def adds_to_def at)
  have "write_steps atof fs ops fs' \<Longrightarrow> fs \<noteq> [] \<and> fr_obj (last fs) \<Longrightarrow> fs' \<noteq> [] \<and> fr_obj (last fs')"
    for atof :: "string \<Rightarrow> string" and fs ops fs'
    by (induction rule: write_steps.induct) (use step in blast)+
  from this [OF assms] show ?thesis by (simp add: new_frame_def)
qed

lemma message_open:
  assumes "message_start j"
  shows "open_text 0 j []"
proof -
  from assms obtain fresh allocate ops f where m: "run_writer fresh allocate True ops = Some j"
    "write_steps numeral_text [new_frame True None] ops [f]" "''history data'' \<notin> fst ` set (fr_vals f)"
    unfolding message_start_def by blast
  have "holds_frames j [f]" using run_writer_holds [OF m(2), of fresh allocate] m(1) by simp
  then show ?thesis using m(2,3) write_steps_outer [OF m(2)]
    by (auto simp: open_text_def written_def record_frames_def intro!: exI [of _ "[f]"])
qed

lemma open_array:
  assumes "open_text 0 j rs" "exec_op j (AddArray (Some ''history data'')) = Some j'"
  shows "\<exists>g f. written j' [g, f] \<and> fr_obj f \<and> ''history data'' \<notin> fst ` set (fr_vals f) \<and> \<not> fr_obj g
    \<and> fr_name g = Some ''history data'' \<and> fr_vals g = []"
proof -
  from assms(1) obtain f where f: "written j [f]" "fr_obj f" "''history data'' \<notin> fst ` set (fr_vals f)"
    by (auto simp: open_text_def record_frames_def)
  let ?g = "new_frame False (Some ''history data'')"
  have "write_step numeral_text [f] (AddArray (Some ''history data'')) [?g, f]"
    using f(2) by (intro write_step.array) (simp add: adds_to_def)
  then have "write_steps numeral_text [f] [AddArray (Some ''history data'')] [?g, f]"
    by (intro write_steps.more [OF _ write_steps.refl])
  from written_ops [OF f(1) this] assms(2) have "written j' [?g, f]" by simp
  then show ?thesis using f by (intro exI [of _ ?g] exI [of _ f]) (simp add: new_frame_def)
qed

lemma add_record:
  assumes "if n = 0 then exec_op j (AddArray (Some ''history data'')) = Some j1 else j1 = j" "open_text n j rs"
    "exec_ops j1 (history_ops r) = Some j2"
  shows "open_text (n + 1) j2 (rs @ [r])"
proof -
  obtain g f where g: "written j1 [g, f]" "fr_obj f" "''history data'' \<notin> fst ` set (fr_vals f)" "\<not> fr_obj g"
    "fr_name g = Some ''history data''" "map snd (fr_vals g) = map (\<lambda>r. JSON_OBJECT (history_record r)) rs"
  proof (cases "n = 0")
    case True
    then have "rs = []" using assms(2) by (simp add: open_text_def)
    then show ?thesis using open_array [of j rs j1] assms(1,2) True that by auto
  next
    case False
    then have "rs \<noteq> []" using assms(2) by (auto simp: open_text_def)
    then show ?thesis using assms(1,2) False that by (auto simp: open_text_def record_frames_def)
  qed
  obtain g' where g': "write_steps numeral_text [g, f] (history_ops r) [g', f]" "\<not> fr_obj g'" "fr_name g' = fr_name g"
    "map snd (fr_vals g') = map snd (fr_vals g) @ [JSON_OBJECT (object_value (map (op_member numeral_text) (history_members r)))]"
    using record_steps [OF history_members_ok g(4), of "[f]" numeral_text r] by (auto simp: history_ops_def)
  have "written j2 [g', f]" using written_ops [OF g(1) g'(1) assms(3)] .
  moreover have "record_frames (rs @ [r]) [g', f]" using g g'(2-4) unfolding record_frames_def
    by (simp add: history_members_record object_value_distinct [OF history_record_names])
  ultimately show ?thesis using assms(2) by (auto simp: open_text_def)
qed

text \<open>Closed, the text has these rows.\<close>

lemma text_opens:
  assumes "written j fs"
  shows "\<exists>g. close_all fs = Some g \<and> zbx_jsonobj_open numeral_text (json_buffer j) = Inr (Some (fr_value g))"
proof -
  from assms obtain ops where "holds_frames j fs" "write_steps numeral_text [new_frame True None] ops fs" by (auto simp: written_def)
  from written_text [OF this(2,1)] obtain g where g: "close_all fs = Some g" "json_text numeral_text (json_buffer j) (buffer_size j) (fr_value g)"
    by blast
  then show ?thesis using open_exact [OF numeral_text_ok] json_text_NUL [OF g(2)] by blast
qed

lemma close_text:
  assumes "open_text n j rs" "close_array j n = Some j'"
  shows "text_rows j' rs"
proof -
  from assms(1) obtain fs f where f: "n = length rs" "written j fs" "fr_obj f" "''history data'' \<notin> fst ` set (fr_vals f)"
    "if rs = [] then fs = [f] else \<exists>g. fs = [g, f] \<and> \<not> fr_obj g \<and> fr_name g = Some ''history data''
             \<and> map snd (fr_vals g) = map (\<lambda>r. JSON_OBJECT (history_record r)) rs"
    by (auto simp: open_text_def record_frames_def)
  show ?thesis
  proof (cases "rs = []")
    case True
    then have "j' = j" "written j [f]" using f assms(2) by (simp_all add: close_array_def)
    moreover have "map_of (object_value (fr_vals f)) ''history data'' = None"
      using f(4) by (simp add: object_value_map_of map_of_eq_None_iff)
    ultimately show ?thesis using text_opens [of j "[f]"] f(3) True by (auto simp: text_rows_def fr_value_def)
  next
    case False
    then obtain g where g: "written j [g, f]" "\<not> fr_obj g" "fr_name g = Some ''history data''"
      "map snd (fr_vals g) = map (\<lambda>r. JSON_OBJECT (history_record r)) rs" using f by auto
    define f' where "f' = add_value (fr_name g) (fr_text g) (fr_value g) f"
    have "write_steps numeral_text [g, f] [CloseTop] [f']" unfolding f'_def by (intro write_steps.more [OF write_step.close] write_steps.refl)
    moreover have "exec_ops j [CloseTop] = Some j'" using assms(2) False f(1) by (simp add: close_array_def)
    ultimately have w: "written j' [f']" using written_ops [OF g(1)] by blast
    have "fr_vals f' = fr_vals f @ [(''history data'', JSON_ARRAY (map (\<lambda>r. JSON_OBJECT (history_record r)) rs))]" "fr_obj f'"
      using g f(3) by (simp_all add: f'_def add_value_def fr_value_def)
    then show ?thesis using text_opens [OF w] False by (auto simp: text_rows_def fr_value_def object_value_map_of)
  qed
qed

section \<open>The rows an export writes\<close>

abbreviation (input) rising_ids :: "zbx_pb_history list \<Rightarrow> bool" where
  "rising_ids rows \<equiv> sorted_wrt (<) (map row_id rows)"

text \<open>The loop writes the known ones of the first rows, up to the last id; rows are left only when the text is full.\<close>

lemma export_loop_rows:
  "open_text n j rs \<Longrightarrow> export_loop exportable j n lastid rows = Some (j', n', lastid') \<Longrightarrow>
   \<exists>done rest. rows = done @ rest \<and> open_text n' j' (rs @ filter (\<lambda>r. exportable (row_itemid r)) done)
     \<and> (rows \<noteq> [] \<longrightarrow> done \<noteq> [] \<and> lastid' = row_id (last done)) \<and> (rest = [] \<or> ZBX_DATA_JSON_RECORD_LIMIT < buffer_offset j')"
proof (induction exportable j n lastid rows arbitrary: rs rule: export_loop.induct)
  case (1 exportable j n lastid)
  then show ?case by simp
next
  case (2 exportable j n lastid r rows)
  show ?case
  proof (cases "exportable (row_itemid r)")
    case False
    then have "export_loop exportable j n (row_id r) rows = Some (j', n', lastid')" using 2(4) by simp
    from 2(1) [OF False 2(3) this] obtain don rest where IH: "rows = don @ rest"
      "open_text n' j' (rs @ filter (\<lambda>r. exportable (row_itemid r)) don)" "rows \<noteq> [] \<longrightarrow> don \<noteq> [] \<and> lastid' = row_id (last don)"
      "rest = [] \<or> ZBX_DATA_JSON_RECORD_LIMIT < buffer_offset j'" by blast
    have "rows = [] \<longrightarrow> lastid' = row_id r" using 2(4) False by auto
    then have "lastid' = row_id (last (r # don))" by (metis IH(1,3) append_is_Nil_conv last_ConsL last_ConsR)
    then show ?thesis using IH(1,2,4) False by (intro exI [of _ "r # don"] exI [of _ rest]) simp
  next
    case True
    then have known: "\<not> \<not> exportable (row_itemid r)" by simp
    obtain j1 where j1: "(if n = 0 then exec_op j (AddArray (Some ''history data'')) else Some j) = Some j1"
      using 2(4) True by (auto split: Option.bind_splits)
    obtain j2 where j2: "exec_ops j1 (history_ops r) = Some j2" using 2(4) True j1 by (auto split: Option.bind_splits)
    have o: "open_text (n + 1) j2 (rs @ [r])" using add_record [OF _ 2(3) j2] j1 by (simp split: if_splits)
    show ?thesis
    proof (cases "ZBX_DATA_JSON_RECORD_LIMIT < buffer_offset j2")
      case full: True
      then have "j' = j2" "n' = n + 1" "lastid' = row_id r" using 2(4) True j1 j2 by simp_all
      then show ?thesis using o full True by (intro exI [of _ "[r]"] exI [of _ rows]) simp
    next
      case False
      then have "export_loop exportable j2 (n + 1) (row_id r) rows = Some (j', n', lastid')" using 2(4) True j1 j2 by simp
      from 2(2) [OF known j1 j2 False o this] obtain don rest where IH: "rows = don @ rest"
        "open_text n' j' ((rs @ [r]) @ filter (\<lambda>r. exportable (row_itemid r)) don)" "rows \<noteq> [] \<longrightarrow> don \<noteq> [] \<and> lastid' = row_id (last don)"
        "rest = [] \<or> ZBX_DATA_JSON_RECORD_LIMIT < buffer_offset j'" by blast
      have "rows = [] \<longrightarrow> lastid' = row_id r" using 2(4) False True j1 j2 by auto
      then have "lastid' = row_id (last (r # don))" by (metis IH(1,3) append_is_Nil_conv last_ConsL last_ConsR)
      then show ?thesis using IH(1,2,4) True by (intro exI [of _ "r # don"] exI [of _ rest]) simp
    qed
  qed
qed

text \<open>A row that is filtered out has a newer one of its item that says as much.\<close>

lemma filter_novalue_drops:
  assumes "sorted_wrt (>) (map row_id rows)" "r \<in> set rows" "r \<notin> set (filter_novalue nodata rows)"
  shows "is_novalue r \<and> (row_itemid r \<in> set nodata \<or> (\<exists>s \<in> set rows. is_novalue s \<and> row_itemid s = row_itemid r \<and> row_id r < row_id s))"
  using assms
proof (induction nodata rows rule: filter_novalue.induct)
  case (2 nodata q rows)
  have less: "\<forall>x \<in> set rows. row_id x < row_id q" and rest: "sorted_wrt (>) (map row_id rows)" using 2(4) by simp_all
  consider (drop) "is_novalue q" "row_itemid q \<in> set nodata" | (keep) "is_novalue q" "row_itemid q \<notin> set nodata" | (other) "\<not> is_novalue q"
    by blast
  then show ?case
  proof cases
    case drop
    then show ?thesis using 2(1) [OF drop rest] 2(5,6) by auto
  next
    case keep
    then show ?thesis using 2(2) [OF keep rest] 2(5,6) less by auto
  next
    case other
    then show ?thesis using 2(3) [OF other rest] 2(5,6) by auto
  qed
qed simp

lemma filter_novalue_rising: "sorted_wrt (>) (map row_id rows) \<Longrightarrow> sorted_wrt (>) (map row_id (filter_novalue nodata rows))"
  by (induction nodata rows rule: filter_novalue.induct) (auto dest: subsetD [OF filter_novalue_set])

lemma rising_last: "rising_ids rows \<Longrightarrow> r \<in> set rows \<Longrightarrow> row_id r \<le> row_id (last rows)"
  by (cases rows rule: rev_cases) (auto simp: sorted_wrt_append)

lemma export_rows:
  assumes o: "open_text n j rs" and e: "pb_history_export exportable j n lastid rows = Some (j', n', lastid')" and s: "rising_ids rows"
  shows "\<exists>rs'. open_text n' j' (rs @ rs') \<and> rising_ids rs' \<and> (\<forall>r \<in> set rs'. r \<in> set rows \<and> row_id r \<le> lastid')
    \<and> (\<forall>r \<in> set rows. row_id r \<le> lastid' \<longrightarrow> r \<in> set rs' \<or> \<not> exportable (row_itemid r) \<or> superseded (set rows) r)
    \<and> (rows = [] \<or> lastid' = row_id (last rows) \<or> ZBX_DATA_JSON_RECORD_LIMIT < buffer_offset j')"
proof -
  define F where "F = rev (filter_novalue [] (rev rows))"
  have rev: "sorted_wrt (>) (map row_id (rev rows))" using s by (simp add: rev_map [symmetric] sorted_wrt_rev)
  have F: "rising_ids F" "set F \<subseteq> set rows" "rows \<noteq> [] \<longrightarrow> F \<noteq> [] \<and> last F = last rows"
    using filter_novalue_rising [OF rev, of "[]"] filter_novalue_set [of "[]" "rev rows"] filter_novalue_nonempty [of "rev rows"]
    by (auto simp: F_def rev_map [symmetric] sorted_wrt_rev last_rev) (cases rows rule: rev_cases; simp)
  from export_loop_rows [OF o e [unfolded pb_history_export_def F_def [symmetric]]] obtain don rest where
    d: "F = don @ rest" "open_text n' j' (rs @ filter (\<lambda>r. exportable (row_itemid r)) don)"
    "F \<noteq> [] \<longrightarrow> don \<noteq> [] \<and> lastid' = row_id (last don)" "rest = [] \<or> ZBX_DATA_JSON_RECORD_LIMIT < buffer_offset j'" by blast
  let ?rs = "filter (\<lambda>r. exportable (row_itemid r)) don"
  have sorted: "rising_ids don" "\<forall>r \<in> set rest. \<forall>q \<in> set don. row_id q < row_id r" using F(1) d(1) by (auto simp: sorted_wrt_append)
  have up: "row_id r \<le> lastid'" if "r \<in> set don" for r using rising_last [OF sorted(1) that] d(1,3) that by auto
  have "r \<in> set ?rs \<or> \<not> exportable (row_itemid r) \<or> superseded (set rows) r" if r: "r \<in> set rows" "row_id r \<le> lastid'" for r
  proof (cases "r \<in> set F")
    case True
    have "last don \<in> set don" "lastid' = row_id (last don)" using d(1,3) True by auto
    then have "r \<notin> set rest" using sorted(2) r(2) by fastforce
    then show ?thesis using True d(1) by auto
  next
    case False
    then show ?thesis using filter_novalue_drops [OF rev, of r "[]"] r(1) by (auto simp: F_def superseded_def is_novalue_iff)
  qed
  moreover have "rising_ids ?rs" using sorted_wrt_filter [of "\<lambda>r q. row_id r < row_id q" don] sorted(1) by (simp add: sorted_wrt_map)
  moreover have "rows = [] \<or> lastid' = row_id (last rows) \<or> ZBX_DATA_JSON_RECORD_LIMIT < buffer_offset j'" using d(1,3,4) F(3) by auto
  ultimately show ?thesis using d(1,2) F(2) up by (intro exI [of _ ?rs]) auto
qed

text \<open>From memory: batches of a thousand, each but the last written to its end.\<close>

lemma get_mem_rows:
  "open_text n j rs \<Longrightarrow> get_mem_loop exportable j n lastid rows = Some (j', n', lastid', more_data) \<Longrightarrow> rising_ids rows \<Longrightarrow>
   \<exists>rs'. open_text n' j' (rs @ rs') \<and> rising_ids rs' \<and> (\<forall>r \<in> set rs'. r \<in> set rows \<and> row_id r \<le> lastid')
    \<and> (\<forall>r \<in> set rows. row_id r \<le> lastid' \<longrightarrow> r \<in> set rs' \<or> \<not> exportable (row_itemid r) \<or> superseded (set rows) r)"
proof (induction exportable j n lastid rows arbitrary: rs rule: get_mem_loop.induct)
  case (1 exportable j n lastid rows)
  define A B where "A = take 1000 rows" and "B = drop 1000 rows"
  have AB: "rows = A @ B" "rising_ids A" "rising_ids B" "\<forall>a \<in> set A. \<forall>b \<in> set B. row_id a < row_id b"
  proof -
    show rows: "rows = A @ B" by (simp add: A_def B_def)
    show "rising_ids A" "rising_ids B" "\<forall>a \<in> set A. \<forall>b \<in> set B. row_id a < row_id b"
      using 1(4) unfolding rows by (simp_all add: sorted_wrt_append)
  qed
  obtain j1 n1 l1 where e: "pb_history_export exportable j n lastid (take 1000 rows) = Some (j1, n1, l1)"
    using 1(3) by (subst (asm) get_mem_loop.simps) (auto split: option.splits)
  from export_rows [OF 1(2) e [folded A_def] AB(2)] obtain rs1 where X: "open_text n1 j1 (rs @ rs1)" "rising_ids rs1"
    "\<forall>r \<in> set rs1. r \<in> set A \<and> row_id r \<le> l1"
    "\<forall>r \<in> set A. row_id r \<le> l1 \<longrightarrow> r \<in> set rs1 \<or> \<not> exportable (row_itemid r) \<or> superseded (set A) r"
    "A = [] \<or> l1 = row_id (last A) \<or> ZBX_DATA_JSON_RECORD_LIMIT < buffer_offset j1" by blast
  show ?case
  proof (cases "length rows < 1000 \<or> ZBX_DATA_JSON_BATCH_LIMIT \<le> buffer_offset j1 \<or> n1 \<ge> 10000")
    case True
    then have r: "j' = j1" "n' = n1" "lastid' = l1" using 1(3) e by (subst (asm) get_mem_loop.simps; auto split: if_splits)+
    have "row_id b > l1" if "b \<in> set B" for b
    proof -
      have "A \<noteq> []" using that by (cases rows) (auto simp: A_def B_def)
      moreover have "l1 \<in> row_id ` set A" using export_lastid(2) [OF e [folded A_def] \<open>A \<noteq> []\<close>] .
      ultimately show ?thesis using AB(4) that by auto
    qed
    then show ?thesis using X(1-4) AB(1) unfolding r
      by (intro exI [of _ rs1]) (fastforce intro: superseded_mono)
  next
    case False
    then have step: "get_mem_loop exportable j1 n1 l1 B = Some (j', n', lastid', more_data)"
      using 1(3) e by (subst (asm) get_mem_loop.simps) (simp add: B_def)
    from 1(1) [OF e HOL.refl HOL.refl _ _ X(1)] False step AB(3) obtain rs2 where Y: "open_text n' j' ((rs @ rs1) @ rs2)" "rising_ids rs2"
      "\<forall>r \<in> set rs2. r \<in> set B \<and> row_id r \<le> lastid'"
      "\<forall>r \<in> set B. row_id r \<le> lastid' \<longrightarrow> r \<in> set rs2 \<or> \<not> exportable (row_itemid r) \<or> superseded (set B) r"
      unfolding B_def [symmetric] by blast
    have "A \<noteq> []" "\<not> ZBX_DATA_JSON_RECORD_LIMIT < buffer_offset j1" using False by (auto simp: A_def)
    then have l1: "l1 = row_id (last A)" using X(5) by blast
    then have all: "row_id a \<le> l1" if "a \<in> set A" for a using rising_last [OF AB(2) that] by simp
    have "l1 \<le> lastid'" using get_mem_lastid [OF step] AB(4) l1 last_in_set [OF \<open>A \<noteq> []\<close>] by fastforce
    then have "\<forall>r \<in> set (rs1 @ rs2). r \<in> set rows \<and> row_id r \<le> lastid'" using X(3) Y(3) AB(1) by fastforce
    moreover have "rising_ids (rs1 @ rs2)" using X(2,3) Y(2,3) AB(4) by (fastforce simp: sorted_wrt_append)
    moreover have "r \<in> set (rs1 @ rs2) \<or> \<not> exportable (row_itemid r) \<or> superseded (set rows) r"
      if r: "r \<in> set rows" "row_id r \<le> lastid'" for r
    proof (cases "r \<in> set A")
      case True
      then show ?thesis using X(4) all [OF True] superseded_mono [of "set A" r "set rows"] AB(1) by auto
    next
      case False
      then show ?thesis using Y(4) r AB(1) superseded_mono [of "set B" r "set rows"] by auto
    qed
    ultimately show ?thesis using Y(1) by (intro exI [of _ "rs1 @ rs2"]) simp
  qed
qed

lemma history_get_mem_rows:
  assumes o: "open_text 0 j []" and g: "pb_history_get_mem exportable pb j 0 = Some (j', n, lastid, more_data)" and s: "rising_ids (pb_history pb)"
  shows "\<exists>rs. text_rows j' rs \<and> rising_ids rs \<and> (\<forall>r \<in> set rs. r \<in> set (pb_history pb) \<and> row_id r \<le> lastid)
    \<and> (\<forall>r \<in> set (pb_history pb). row_id r \<le> lastid \<longrightarrow> r \<in> set rs \<or> \<not> exportable (row_itemid r) \<or> superseded (set (pb_history pb)) r)"
proof (cases "pb_history pb = []")
  case True
  then have "j' = j" using g by (simp add: pb_history_get_mem_def)
  then show ?thesis using close_text [OF o, of j] True by (intro exI [of _ "[]"]) (simp add: close_array_def)
next
  case False
  then obtain j1 where g1: "get_mem_loop exportable j 0 0 (pb_history pb) = Some (j1, n, lastid, more_data)" "close_array j1 n = Some j'"
    using g by (auto simp: pb_history_get_mem_def split: Option.bind_splits)
  from get_mem_rows [OF o g1(1) s] close_text [OF _ g1(2)] show ?thesis by auto
qed

section \<open>What is in the buffer was accepted\<close>

definition accepted_ok :: "core \<Rightarrow> bool" where
  "accepted_ok c \<longleftrightarrow> set (c_mem c) \<union> set (c_flight c) \<union> {r \<in> set (c_tbl c). c_sent c < row_id r} \<subseteq> c_acc c"

lemma move_accepted:
  assumes "move c c'" "core_ok c" "accepted_ok c"
  shows "accepted_ok c'"
  using assms(1)
proof cases
  case (m_ack_db R lastid more_data)
  have "uploader_ok c (Uploading R lastid more_data)" using assms(2) m_ack_db(2) by (metis core_ok_def)
  then have "c_sent c < lastid" using m_ack_db(3) by simp
  then show ?thesis using assms(3) m_ack_db(1) unfolding accepted_ok_def by fastforce
next
  case (m_ack_mem R lastid more_data)
  have "uploader_ok c (Uploading R lastid more_data)" using assms(2) m_ack_mem(2) by (metis core_ok_def)
  then have "c_sent c < lastid" using m_ack_mem(3) by simp
  then show ?thesis using assms(3) m_ack_mem(1) set_dropWhileD [of _ "\<lambda>r. row_id r \<le> lastid" "c_mem c"] unfolding accepted_ok_def by fastforce
qed (use assms(3) in \<open>auto simp: accepted_ok_def\<close>)

lemma moves_accepted: "move\<^sup>*\<^sup>* c c' \<Longrightarrow> core_ok c \<Longrightarrow> accepted_ok c \<Longrightarrow> accepted_ok c'"
  by (induction rule: rtranclp_induct) (auto intro: move_accepted moves_ok)

lemma start_accepted:
  assumes db: "history_db_ok D tbl" and s: "pb_start D tbl db0 w"
  shows "accepted_ok (core_of D tbl w)"
proof -
  from s obtain age offline where i: "pb_init_state D (zbx_pb_create ZBX_PB_MODE_HYBRID age offline) db0 = (w_pb w, w_db w)"
    and w: "w_handles w = []" "w_accepted w = {r \<in> set (tbl db0). select_lastid D PROXY_HISTORY db0 < row_id r}"
    unfolding pb_start_def by blast
  note I = init_state [OF db i]
  have "row_id r \<le> Max (insert 0 (row_id ` set (tbl db0)))" if "r \<in> set (tbl db0)" for r using that by simp
  then have "select_lastid D PROXY_HISTORY db0 < row_id r" if "r \<in> set (tbl db0)" "history_lastid_sent (w_pb w) < row_id r" for r
    using that I(10) by (fastforce simp: min_def split: if_splits)
  then show ?thesis using I(1,3) w by (auto simp: accepted_ok_def core_of_def)
qed

lemma reachable_accepted:
  assumes db: "history_db_ok D tbl" and r: "pb_reachable D True tbl w"
  shows "accepted_ok (core_of D tbl w)"
  using r
proof (induction rule: pb_reachable.induct)
  case (start db0 w)
  then show ?case by (rule start_accepted [OF db])
next
  case (step w w')
  then show ?case using step_moves [OF db _ step(2)] moves_accepted reachable_ok [OF db step(1)] by blast
qed

section \<open>The rows of the texts\<close>

text \<open>While the rows are read, up to the last id read and in the batch; and when the text is finished.\<close>

definition reading_ok :: "'db world \<Rightarrow> reader \<Rightarrow> zbx_pb_history set \<Rightarrow> bool" where
  "reading_ok w rd R \<longleftrightarrow> (\<exists>rs. open_text (rd_num rd) (rd_json rd) rs \<and> rising_ids rs
     \<and> (\<forall>r \<in> set rs. r \<in> R \<and> row_id r \<le> rd_lastid rd)
     \<and> (\<forall>r \<in> R. row_id r \<le> rd_lastid rd \<longrightarrow> r \<in> set rs \<union> w_missing w \<or> superseded (w_accepted w) r)
     \<and> (\<forall>r \<in> R. row_id r \<le> rd_lastid rd \<or> r \<in> set (rd_rows rd))
     \<and> rising_ids (rd_rows rd) \<and> (\<forall>r \<in> set (rd_rows rd). rd_lastid rd < row_id r) \<and> set (rd_rows rd) \<subseteq> w_accepted w)"

fun upload_ok :: "'db world \<Rightarrow> uploader \<Rightarrow> bool" where
  "upload_ok w (Reading rd R) \<longleftrightarrow> reading_ok w rd R"
| "upload_ok w (Waiting rd R h) \<longleftrightarrow> reading_ok w rd R"
| "upload_ok w (Uploading R lastid more_data) \<longleftrightarrow> (\<exists>rs. text_rows (w_text w) rs \<and> rising_ids rs \<and> set rs \<subseteq> R
     \<and> (\<forall>r \<in> R. r \<in> set rs \<union> w_missing w \<or> superseded (w_accepted w) r))"
| "upload_ok w _ \<longleftrightarrow> True"

text \<open>The rows of the texts acknowledged.\<close>

definition sent_ok :: "'db world \<Rightarrow> bool" where
  "sent_ok w \<longleftrightarrow> (\<exists>sent. list_all2 text_rows (w_received w) sent \<and> rising_ids (concat sent) \<and> set (concat sent) \<subseteq> w_sent w
     \<and> (\<forall>r \<in> w_sent w. r \<in> set (concat sent) \<union> w_unknown w \<or> superseded (w_accepted w) r))"

lemma sent_ok_mono:
  assumes "sent_ok w" "w_received w' = w_received w" "w_sent w' = w_sent w" "w_unknown w' = w_unknown w" "w_accepted w \<subseteq> w_accepted w'"
  shows "sent_ok w'"
  using assms superseded_mono [OF _ assms(5)] unfolding sent_ok_def by metis

lemma reading_ok_mono:
  assumes "reading_ok w rd R" "w_missing w' = w_missing w" "w_accepted w \<subseteq> w_accepted w'"
  shows "reading_ok w' rd R"
  using assms superseded_mono [OF _ assms(3)] unfolding reading_ok_def by (metis subset_trans)

lemma upload_ok_mono:
  assumes "upload_ok w up" "w_text w' = w_text w" "w_missing w' = w_missing w" "w_accepted w \<subseteq> w_accepted w'"
  shows "upload_ok w' up"
proof (cases up)
  case (Uploading R lastid more_data)
  then show ?thesis using assms superseded_mono [OF _ assms(4)] by simp metis
qed (use assms reading_ok_mono in auto)

text \<open>One statement of the reader, and the end of a batch.\<close>

lemma read_once_rows:
  assumes db: "history_db_ok D tbl" and ok: "core_ok (core_of D tbl w)" "accepted_ok (core_of D tbl w)"
    and up: "w_uploader w = Reading rd R" and rd: "reading_ok w rd R" and read: "read_once D (w_db w) rd = (rd', again)"
  shows "reading_ok w rd' (R \<union> set (rd_rows rd'))"
proof -
  let ?T = "tbl (w_db w)"
  let ?sel = "take (1000 - length (rd_rows rd)) (filter (\<lambda>r. rd_id rd < row_id r) (sort_key row_id ?T))"
  have dist: "distinct (map row_id ?T)" using ok(1) by (simp add: core_ok_def ids_ok_def core_of_def)
  obtain rows i gap where f: "fetch_rows (rd_id rd) (rd_gapid rd) ?sel = (rows, i, gap)" by (metis prod_cases3)
  have fields: "rd_rows rd' = rd_rows rd @ rows" "rd_json rd' = rd_json rd" "rd_num rd' = rd_num rd" "rd_lastid rd' = rd_lastid rd"
    using read f unfolding read_once_def db_laws(1) [OF db] Let_def by (auto split: option.splits)
  have "c_up (core_of D tbl w) = Reading rd R" using up by (simp add: core_of_def)
  then have "reader_ok (core_of D tbl w) rd R" using ok(1) by (metis core_ok_def uploader_ok.simps(1))
  then have r: "history_lastid_sent (w_pb w) \<le> rd_id rd" "rd_lastid rd \<le> rd_id rd" "\<forall>r \<in> set (rd_rows rd). row_id r \<le> rd_id rd"
    by (auto simp: reader_ok_def core_of_def)
  note sorted = filter_sorted_after [OF dist, of "rd_id rd" "1000 - length (rd_rows rd)"]
  from fetch_result [OF sorted f] obtain rest where "?sel = rows @ rest" by blast
  then have rising: "rising_ids rows" using sorted by (simp add: sorted_wrt_append)
  note F = fetch_table(1,2) [OF dist f]
  have acc: "set rows \<subseteq> w_accepted w" using ok(2) F r(1) by (fastforce simp: accepted_ok_def core_of_def)
  have "rising_ids (rd_rows rd')" using rd rising F(2) r(3) unfolding fields reading_ok_def by (fastforce simp: sorted_wrt_append)
  moreover have "\<forall>x \<in> set rows. rd_lastid rd < row_id x" using F(2) r(2) by auto
  ultimately show ?thesis using rd acc unfolding reading_ok_def fields by fastforce
qed

lemma batch_rows:
  assumes o: "open_text (rd_num rd) (rd_json rd) rs" and s: "rising_ids (rd_rows rd)" "\<forall>r \<in> set (rd_rows rd). rd_lastid rd < row_id r"
    and b: "batch_end exportable rd = Some (rd', continue)"
  shows "\<exists>rs'. open_text (rd_num rd') (rd_json rd') (rs @ rs') \<and> rising_ids rs'
    \<and> (\<forall>r \<in> set rs'. r \<in> set (rd_rows rd) \<and> row_id r \<le> rd_lastid rd')
    \<and> (\<forall>r \<in> set (rd_rows rd). row_id r \<le> rd_lastid rd' \<longrightarrow>
        r \<in> set rs' \<or> \<not> exportable (row_itemid r) \<or> superseded (set (rd_rows rd)) r)
    \<and> (continue \<longrightarrow> rd_rows rd' = [] \<and> (\<forall>r \<in> set (rd_rows rd). row_id r \<le> rd_lastid rd')) \<and> rd_lastid rd \<le> rd_lastid rd'"
proof (cases "rd_rows rd = []")
  case True
  then have "rd_num rd' = rd_num rd" "rd_json rd' = rd_json rd" "rd_lastid rd' = rd_lastid rd" "\<not> continue"
    using b by (auto simp: batch_end_def Let_def split: if_splits)
  then show ?thesis using o True by (intro exI [of _ "[]"]) simp
next
  case False
  define rd1 where "rd1 = (if length (rd_rows rd) \<noteq> 1000 then rd\<lparr>rd_more := ZBX_PROXY_DATA_DONE\<rparr> else rd)"
  have same: "rd_rows rd1 = rd_rows rd" "rd_lastid rd1 = rd_lastid rd" "rd_num rd1 = rd_num rd" "rd_json rd1 = rd_json rd"
    by (simp_all add: rd1_def)
  obtain j n l where e: "pb_history_export exportable (rd_json rd) (rd_num rd) (rd_lastid rd) (rd_rows rd) = Some (j, n, l)"
    using b False unfolding batch_end_def rd1_def [symmetric] Let_def same by (auto split: Option.bind_splits)
  have r: "rd_json rd' = j" "rd_num rd' = n" "rd_lastid rd' = l" "continue \<longrightarrow> rd_rows rd' = [] \<and> reads_on rd'"
    using b False e unfolding batch_end_def rd1_def [symmetric] Let_def same by (auto split: if_splits)
  from export_rows [OF o e s(1)] obtain rs' where X: "open_text n j (rs @ rs')" "rising_ids rs'" "\<forall>r \<in> set rs'. r \<in> set (rd_rows rd) \<and> row_id r \<le> l"
    "\<forall>r \<in> set (rd_rows rd). row_id r \<le> l \<longrightarrow> r \<in> set rs' \<or> \<not> exportable (row_itemid r) \<or> superseded (set (rd_rows rd)) r"
    "l = row_id (last (rd_rows rd)) \<or> ZBX_DATA_JSON_RECORD_LIMIT < buffer_offset j" using False by blast
  have "rd_lastid rd \<le> l" using export_lastid(2) [OF e False] s(2) by fastforce
  moreover have "\<forall>x \<in> set (rd_rows rd). row_id x \<le> l" if continue
    using X(5) r(1,4) that rising_last [OF s(1)] by (auto simp: reads_on_def)
  ultimately show ?thesis using X(1-4) r by (intro exI [of _ rs']) simp
qed

lemma batch_end_rows:
  assumes rd: "reading_ok w rd R" and rows: "set (rd_rows rd) \<subseteq> R" and b: "batch_end exportable rd = Some (rd', continue)"
    and c: "close_array (rd_json rd') (rd_num rd') = Some text'"
    and w': "w_text w' = text'" "w_missing w' = w_missing w \<union> left_out exportable (rd_lastid rd') (rd_rows rd)" "w_accepted w' = w_accepted w"
  shows "upload_ok w' (if continue then Reading rd' R else Uploading {r \<in> R. row_id r \<le> rd_lastid rd'} (rd_lastid rd') (rd_more rd'))"
proof -
  from rd obtain rs where A: "open_text (rd_num rd) (rd_json rd) rs" "rising_ids rs" "\<forall>r \<in> set rs. r \<in> R \<and> row_id r \<le> rd_lastid rd"
    "\<forall>r \<in> R. row_id r \<le> rd_lastid rd \<longrightarrow> r \<in> set rs \<union> w_missing w \<or> superseded (w_accepted w) r"
    "\<forall>r \<in> R. row_id r \<le> rd_lastid rd \<or> r \<in> set (rd_rows rd)" "rising_ids (rd_rows rd)"
    "\<forall>r \<in> set (rd_rows rd). rd_lastid rd < row_id r" "set (rd_rows rd) \<subseteq> w_accepted w" unfolding reading_ok_def by blast
  from batch_rows [OF A(1,6,7) b] obtain rs' where B: "open_text (rd_num rd') (rd_json rd') (rs @ rs')" "rising_ids rs'"
    "\<forall>r \<in> set rs'. r \<in> set (rd_rows rd) \<and> row_id r \<le> rd_lastid rd'"
    "\<forall>r \<in> set (rd_rows rd). row_id r \<le> rd_lastid rd' \<longrightarrow>
        r \<in> set rs' \<or> \<not> exportable (row_itemid r) \<or> superseded (set (rd_rows rd)) r"
    "continue \<longrightarrow> rd_rows rd' = [] \<and> (\<forall>r \<in> set (rd_rows rd). row_id r \<le> rd_lastid rd')" "rd_lastid rd \<le> rd_lastid rd'" by blast
  have rise: "rising_ids (rs @ rs')" using A(2,3,7) B(2,3) by (fastforce simp: sorted_wrt_append)
  have sub: "\<forall>r \<in> set (rs @ rs'). r \<in> R \<and> row_id r \<le> rd_lastid rd'" using A(3) B(3,6) rows by fastforce
  have all: "r \<in> set (rs @ rs') \<union> w_missing w' \<or> superseded (w_accepted w') r" if r: "r \<in> R" "row_id r \<le> rd_lastid rd'" for r
  proof (cases "r \<in> set (rd_rows rd)")
    case True
    then show ?thesis using B(4) r(2) superseded_mono [OF _ A(8)] unfolding w' by (auto simp: left_out_def)
  next
    case False
    then show ?thesis using A(4,5) r(1) unfolding w' by auto
  qed
  show ?thesis
  proof (cases continue)
    case True
    have "\<forall>r \<in> R. row_id r \<le> rd_lastid rd'" using A(5) B(5,6) True by fastforce
    then have "reading_ok w' rd' R" unfolding reading_ok_def
      by (intro exI [of _ "rs @ rs'"]) (use B(1,5) rise sub all True in auto)
    then show ?thesis using True by simp
  next
    case False
    have "\<forall>r \<in> {r \<in> R. row_id r \<le> rd_lastid rd'}. r \<in> set (rs @ rs') \<union> w_missing w' \<or> superseded (w_accepted w') r" using all by blast
    moreover have "set (rs @ rs') \<subseteq> {r \<in> R. row_id r \<le> rd_lastid rd'}" using sub by blast
    moreover have "text_rows (w_text w') (rs @ rs')" using close_text [OF B(1) c] w'(1) by simp
    ultimately show ?thesis using False rise unfolding if_not_P [OF False] upload_ok.simps by blast
  qed
qed

section \<open>Every step keeps the account\<close>

lemma step_accepts: "pb_step D True w w' \<Longrightarrow> w_accepted w \<subseteq> w_accepted w'"
  by (erule pb_step.cases) auto

lemma step_sent:
  assumes db: "history_db_ok D tbl" and r: "pb_reachable D True tbl w" and s: "pb_step D True w w'"
    and ok: "sent_ok w" "upload_ok w (w_uploader w)"
  shows "sent_ok w' \<and> upload_ok w' (w_uploader w')"
proof -
  note core = reachable_ok [OF db r, THEN conjunct1] and acc = reachable_accepted [OF db r]
  note mono = step_accepts [OF s]
  have same: "sent_ok w' \<and> upload_ok w' (w_uploader w')"
    if "w_received w' = w_received w" "w_sent w' = w_sent w" "w_unknown w' = w_unknown w" "w_text w' = w_text w"
      "w_missing w' = w_missing w" "upload_ok w (w_uploader w')"
    by (intro conjI sent_ok_mono [OF ok(1)] upload_ok_mono [OF that(6)] mono that)
  have sent: "sent_ok w'" if "w_received w' = w_received w" "w_sent w' = w_sent w" "w_unknown w' = w_unknown w"
    by (intro sent_ok_mono [OF ok(1)] mono that)
  show ?thesis using s
  proof cases
    case (gets_memory exportable j j' n lastid more_data)
    have "rising_ids (pb_history (w_pb w))" using core by (auto simp: core_ok_def ids_ok_def core_of_def strict_sorted_iff)
    from history_get_mem_rows [OF message_open [OF gets_memory(5)] gets_memory(4) this] obtain rs where rs:
      "text_rows j' rs" "rising_ids rs" "\<forall>r \<in> set rs. r \<in> set (pb_history (w_pb w)) \<and> row_id r \<le> lastid"
      "\<forall>r \<in> set (pb_history (w_pb w)). row_id r \<le> lastid \<longrightarrow> r \<in> set rs \<or> \<not> exportable (row_itemid r)
        \<or> superseded (set (pb_history (w_pb w))) r" by blast
    have sub: "set (pb_history (w_pb w)) \<subseteq> w_accepted w" using acc by (simp add: accepted_ok_def core_of_def)
    have "upload_ok w' (w_uploader w')" using rs superseded_mono [OF _ sub] unfolding gets_memory(1)
      by (auto simp: left_out_def intro!: exI [of _ rs])
    then show ?thesis using sent gets_memory(1) by simp
  next
    case (starts j rd)
    have rd: "rd_json rd = j" "rd_num rd = 0" "rd_lastid rd = 0" "rd_rows rd = []" using starts(4) by (auto simp: reader_start_def)
    note o = message_open [OF starts(5)]
    have "text_rows j []" using close_text [OF o, of j] by (simp add: close_array_def)
    moreover have "reading_ok w' rd {}" using o rd unfolding reading_ok_def by (intro exI [of _ "[]"]) simp
    ultimately have "upload_ok w' (w_uploader w')" unfolding starts(1) by auto
    then show ?thesis using sent starts(1) by simp
  next
    case (waits rd R rd')
    have "reading_ok w rd R" using ok(2) waits(2) by simp
    from read_once_rows [OF db core acc waits(2) this waits(3)] show ?thesis using same waits(1) by simp
  next
    case (waited rd R handleid)
    then show ?thesis using same ok(2) by simp
  next
    case (reads rd R rd' exportable rd'' continue R' text')
    have "reading_ok w rd R" using ok(2) reads(2) by simp
    from read_once_rows [OF db core acc reads(2) this reads(3)] have rd: "reading_ok w rd' R'" "set (rd_rows rd') \<subseteq> R'"
      using reads(5) by auto
    have "upload_ok w' (w_uploader w')"
      using batch_end_rows [OF rd reads(4,6), of w'] unfolding reads(1) by simp
    then show ?thesis using sent reads(1) by simp
  next
    case (acks R lastid more_data pb db')
    from ok(2) acks(2) obtain rs where rs: "text_rows (w_text w) rs" "rising_ids rs" "set rs \<subseteq> R"
      "\<forall>r \<in> R. r \<in> set rs \<union> w_missing w \<or> superseded (w_accepted w) r" by auto
    from ok(1) obtain sent where sent: "list_all2 text_rows (w_received w) sent" "rising_ids (concat sent)" "set (concat sent) \<subseteq> w_sent w"
      "\<forall>r \<in> w_sent w. r \<in> set (concat sent) \<union> w_unknown w \<or> superseded (w_accepted w) r" unfolding sent_ok_def by blast
    have newer: "row_id s < row_id r" if "r \<in> R" "s \<in> w_sent w" for r s
      using no_loss(2) [OF db assms(2), of r s] acks(2) that by simp
    have "list_all2 text_rows (w_received w') (sent @ [rs])" using sent(1) rs(1) acks(1) by (simp add: list_all2_appendI)
    moreover have "rising_ids (concat (sent @ [rs]))" using sent(2,3) rs(2,3) newer by (fastforce simp: sorted_wrt_append)
    moreover have "set (concat (sent @ [rs])) \<subseteq> w_sent w'" using sent(3) rs(3) acks(1) by auto
    moreover have "\<forall>r \<in> w_sent w'. r \<in> set (concat (sent @ [rs])) \<union> w_unknown w' \<or> superseded (w_accepted w') r"
      using sent(4) rs(4) acks(1) by auto
    ultimately have "sent_ok w'" unfolding sent_ok_def by blast
    then show ?thesis using acks(1) by simp
  qed (use same ok(2) in simp_all)
qed

lemma reachable_sent:
  assumes db: "history_db_ok D tbl" and r: "pb_reachable D True tbl w"
  shows "sent_ok w \<and> upload_ok w (w_uploader w)"
  using r
proof (induction rule: pb_reachable.induct)
  case (start db0 w)
  then show ?case by (auto simp: pb_start_def sent_ok_def)
next
  case (step w w')
  then show ?case using step_sent [OF db step(1,2)] by blast
qed

text \<open>Where every accepted row is.\<close>

lemma accounted:
  assumes "history_db_ok D tbl" "pb_reachable D True tbl w"
  shows "\<exists>sent. list_all2 text_rows (w_received w) sent \<and> rising_ids (concat sent)
    \<and> w_accepted w \<subseteq> set (concat sent) \<union> w_unknown w \<union> Collect (superseded (w_accepted w)) \<union> w_discarded w \<union> buffered D tbl w
    \<and> (\<forall>R lastid more_data. w_uploader w = Uploading R lastid more_data \<longrightarrow>
        (\<exists>rs. text_rows (w_text w) rs \<and> rising_ids (concat sent @ rs)))"
proof -
  from reachable_sent [OF assms] have ok: "sent_ok w" "upload_ok w (w_uploader w)" by simp_all
  then obtain sent where sent: "list_all2 text_rows (w_received w) sent" "rising_ids (concat sent)" "set (concat sent) \<subseteq> w_sent w"
    "\<forall>r \<in> w_sent w. r \<in> set (concat sent) \<union> w_unknown w \<or> superseded (w_accepted w) r" unfolding sent_ok_def by blast
  have "\<exists>rs. text_rows (w_text w) rs \<and> rising_ids (concat sent @ rs)" if u: "w_uploader w = Uploading R lastid more_data" for R lastid more_data
  proof -
    obtain rs where rs: "text_rows (w_text w) rs" "rising_ids rs" "set rs \<subseteq> R" using ok(2) unfolding u by auto
    then have "rising_ids (concat sent @ rs)" using sent(2,3) no_loss(2) [OF assms] u by (fastforce simp: sorted_wrt_append)
    then show ?thesis using rs(1) by blast
  qed
  then show ?thesis using sent no_loss(1) [OF assms] by (intro exI [of _ sent]) blast
qed

end
