(* ===== verification/ZbxPbDrain.thy ===== *)
theory ZbxPbDrain
  imports ZbxPbSent
begin

text \<open>
  The buffer drains: the export never fails, reading from the database ends, and when no handle is open every upload
  that succeeds sends rows or brings the state closer to the memory state.
\<close>

section \<open>The export never fails\<close>

text \<open>A text in which records can be added: an open object, or the open array of the records.\<close>

definition json_open_at :: "bool \<Rightarrow> zbx_json \<Rightarrow> bool" where
  "json_open_at object j \<longleftrightarrow> (\<exists>fs :: unit frame list. holds_frames j fs \<and> fr_obj (hd fs) = object \<and> length fs \<le> (if object then 60 else 61))"

text \<open>An upload starts with such a text: how values are kept plays no part in the buffer.\<close>

definition frame_shape :: "'d frame \<Rightarrow> unit frame" where
  "frame_shape f = \<lparr>fr_obj = fr_obj f, fr_name = fr_name f, fr_body = fr_body f, fr_vals = []\<rparr>"

lemma frame_shape_fields [simp]:
  "fr_obj (frame_shape f) = fr_obj f" "fr_name (frame_shape f) = fr_name f" "fr_body (frame_shape f) = fr_body f"
  "fr_status (frame_shape f) = fr_status f"
  by (simp_all add: frame_shape_def fr_status_def)

lemma holds_shape:
  assumes "holds_frames j fs"
  shows "holds_frames j (map frame_shape fs)"
proof -
  have "pre_text (map frame_shape fs) = pre_text fs"
  proof (induction fs)
    case (Cons f fs)
    then show ?case by (cases fs) simp_all
  qed simp
  moreover have "post_text (map frame_shape fs) = post_text fs" by (simp add: post_text_def)
  ultimately show ?thesis using assms by (cases fs) (simp_all add: holds_frames_def del: pre_text.simps)
qed

lemma message_open_at:
  assumes "message_start j"
  shows "json_open_at True j"
proof -
  from message_open [OF assms] obtain fs where "written j fs" "record_frames [] fs" by (auto simp: open_text_def)
  then have "\<exists>f :: string frame. holds_frames j [f] \<and> fr_obj f" by (auto simp: written_def record_frames_def)
  then obtain f :: "string frame" where "holds_frames j [f]" "fr_obj f" by blast
  then have "holds_frames j [frame_shape f]" "fr_obj (frame_shape f)" using holds_shape [of j "[f]"] by simp_all
  then show ?thesis unfolding json_open_at_def by (intro exI [of _ "[frame_shape f]"]) simp
qed

lemma members_written:
  assumes "list_all member_op members" "json_open_at False j"
  shows "\<exists>j'. exec_ops j (AddObject None # members @ [CloseTop]) = Some j' \<and> json_open_at False j'"
proof -
  obtain f and fs :: "unit frame list" where f: "holds_frames j (f # fs)" "\<not> fr_obj f" "length fs \<le> 60"
  proof -
    from assms(2) obtain fs :: "unit frame list" where "holds_frames j fs" "\<not> fr_obj (hd fs)" "length fs \<le> 61"
      by (auto simp: json_open_at_def)
    then show ?thesis using that by (cases fs) (auto simp: holds_frames_def)
  qed
  obtain f' where f': "write_steps (\<lambda>_. ()) (f # fs) (AddObject None # members @ [CloseTop]) (f' # fs)" "\<not> fr_obj f'"
    using record_steps [OF assms(1) f(2,3), of "\<lambda>_. ()"] by blast
  from exec_ops_holds [OF this(1) f(1)] show ?thesis using f'(2) f(3) by (fastforce simp: json_open_at_def)
qed

lemma record_written:
  assumes "json_open_at False j"
  shows "\<exists>j'. exec_ops j (history_ops r) = Some j' \<and> json_open_at False j'"
  unfolding history_ops_def using history_members_ok assms by (rule members_written)

lemma array_opened:
  assumes "json_open_at True j"
  shows "\<exists>j'. exec_op j (AddArray (Some name)) = Some j' \<and> json_open_at False j'"
proof -
  from assms obtain fs :: "unit frame list" where fs: "holds_frames j fs" "fr_obj (hd fs)" "length fs \<le> 60"
    by (auto simp: json_open_at_def)
  then have "write_step (\<lambda>_. ()) fs (AddArray (Some name)) (new_frame False (Some name) # fs)"
    by (intro write_step.array) (auto simp: adds_to_def holds_frames_def)
  from exec_op_holds [OF this fs(1)] show ?thesis using fs(3) by (force simp: json_open_at_def new_frame_def)
qed

text \<open>Before the first record the object is open, after it the array. The last id is that of the last row unless the text is full.\<close>

lemma export_loop_total:
  "json_open_at (n = 0) j \<Longrightarrow> \<exists>j' n' lastid'. export_loop exportable j n lastid rows = Some (j', n', lastid') \<and> json_open_at (n' = 0) j'
     \<and> (lastid' = (if rows = [] then lastid else row_id (last rows)) \<or> ZBX_DATA_JSON_RECORD_LIMIT < buffer_offset j')"
proof (induction exportable j n lastid rows rule: export_loop.induct)
  case (2 exportable j n lastid r rows)
  show ?case
  proof (cases "exportable (row_itemid r)")
    case False
    then show ?thesis using 2(1) [OF False 2(3)] by auto
  next
    case True
    obtain j1 where j1: "(if n = 0 then exec_op j (AddArray (Some ''history data'')) else Some j) = Some j1" "json_open_at False j1"
      using array_opened [of j "''history data''"] 2(3) by (cases "n = 0") auto
    obtain j2 where j2: "exec_ops j1 (history_ops r) = Some j2" "json_open_at False j2" using record_written [OF j1(2)] by blast
    have "\<not> \<not> exportable (row_itemid r)" using True by simp
    note IH = 2(2) [OF this j1(1) j2(1)]
    show ?thesis
    proof (cases "ZBX_DATA_JSON_RECORD_LIMIT < buffer_offset j2")
      case True
      then show ?thesis using j1 j2 \<open>exportable (row_itemid r)\<close> by auto
    next
      case False
      then show ?thesis using IH [OF False] j1 j2 \<open>exportable (row_itemid r)\<close> by auto
    qed
  qed
qed simp

lemma filter_novalue_hd: "filter_novalue [] (r # rows) = r # tl (filter_novalue [] (r # rows))"
  by simp

lemma export_total:
  assumes "json_open_at (n = 0) j"
  shows "\<exists>j' n' lastid'. pb_history_export exportable j n lastid rows = Some (j', n', lastid') \<and> json_open_at (n' = 0) j'
     \<and> (lastid' = (if rows = [] then lastid else row_id (last rows)) \<or> ZBX_DATA_JSON_RECORD_LIMIT < buffer_offset j')"
proof -
  let ?rs = "rev (filter_novalue [] (rev rows))"
  have "?rs = [] \<longleftrightarrow> rows = []" using filter_novalue_nonempty [of "rev rows"] by (cases rows) auto
  moreover have "rows \<noteq> [] \<Longrightarrow> last ?rs = last rows"
    by (cases rows rule: rev_cases) (simp_all add: last_rev)
  ultimately show ?thesis using export_loop_total [OF assms, of exportable lastid ?rs] unfolding pb_history_export_def by auto
qed

section \<open>Reading from the database ends\<close>

text \<open>Rows after the one read last, rows in the batch, and whether the next row is one the reader has waited for.\<close>

definition select_next :: "zbx_pb_history list \<Rightarrow> reader \<Rightarrow> zbx_pb_history list" where
  "select_next T rd = take (1000 - length (rd_rows rd)) (filter (\<lambda>r. rd_id rd < row_id r) (sort_key row_id T))"

definition rows_after :: "zbx_pb_history list \<Rightarrow> nat \<Rightarrow> nat" where
  "rows_after T i = length (filter (\<lambda>r. i < row_id r) T)"

definition read_measure :: "zbx_pb_history list \<Rightarrow> reader \<Rightarrow> nat" where
  "read_measure T rd = 4 * rows_after T (rd_id rd) + (if rd_rows rd = [] then 0 else 2)
     + (if select_next T rd \<noteq> [] \<and> row_id (hd (select_next T rd)) = rd_gapid rd then 0 else 1)"

lemma rows_after_less:
  assumes "i \<le> i'" "r \<in> set T" "i < row_id r" "row_id r \<le> i'"
  shows "rows_after T i' < rows_after T i"
proof -
  have "filter (\<lambda>r. i' < row_id r) T = filter (\<lambda>r. i' < row_id r) (filter (\<lambda>r. i < row_id r) T)"
    using assms(1) by (simp, intro filter_cong) auto
  moreover have "r \<in> set (filter (\<lambda>r. i < row_id r) T)" "\<not> i' < row_id r" using assms by simp_all
  ultimately show ?thesis unfolding rows_after_def by (metis length_filter_less)
qed

text \<open>What one select leaves to be read.\<close>

lemma read_rows:
  assumes dist: "distinct (map row_id T)" and f: "fetch_rows (rd_id rd) g (select_next T rd) = (rows, i, gap)"
  shows "i = (if rows = [] then rd_id rd else row_id (last rows))" "\<forall>r \<in> set rows. row_id r \<noteq> 0"
    "rows \<noteq> [] \<Longrightarrow> rows_after T i < rows_after T (rd_id rd)"
    "gap = None \<Longrightarrow> rows = select_next T rd"
    "gap = Some gp \<Longrightarrow> rows = [] \<Longrightarrow> select_next T rd \<noteq> [] \<and> gp = row_id (hd (select_next T rd)) \<and> gp \<noteq> g"
    "set rows \<subseteq> set T"
proof -
  note R = fetch_result [OF filter_sorted_after [OF dist] f [unfolded select_next_def]]
  then obtain rest where R: "select_next T rd = rows @ rest" "i = (if rows = [] then rd_id rd else row_id (last rows))"
    "case gap of None \<Rightarrow> rest = [] | Some gp \<Rightarrow> rest \<noteq> [] \<and> gp = row_id (hd rest)"
    unfolding select_next_def by blast
  note F = fetch_table [OF dist f [unfolded select_next_def]]
  show "i = (if rows = [] then rd_id rd else row_id (last rows))" using R(2) .
  show "\<forall>r \<in> set rows. row_id r \<noteq> 0" "set rows \<subseteq> set T" using F(1,2) by auto
  show "rows_after T i < rows_after T (rd_id rd)" if "rows \<noteq> []"
    using rows_after_less [OF F(3), of "last rows" T] F(1,2) last_in_set [OF that] by blast
  show "rows = select_next T rd" if "gap = None" using that R by simp
  show "select_next T rd \<noteq> [] \<and> gp = row_id (hd (select_next T rd)) \<and> gp \<noteq> g" if "gap = Some gp" "rows = []"
  proof -
    have s: "select_next T rd \<noteq> []" "gp = row_id (hd (select_next T rd))" using R that by simp_all
    moreover have "gp \<noteq> g" using f that s by (cases "select_next T rd") (auto split: if_splits prod.splits)
    ultimately show ?thesis by blast
  qed
qed

lemma batch_end_total:
  assumes "json_open_at (rd_num rd = 0) (rd_json rd)" "rd_rows rd \<noteq> [] \<longrightarrow> rd_id rd = row_id (last (rd_rows rd))"
    "\<forall>r \<in> set (rd_rows rd). row_id r \<noteq> 0"
  shows "\<exists>rd' continue. batch_end exportable rd = Some (rd', continue) \<and> json_open_at (rd_num rd' = 0) (rd_json rd')
    \<and> (rd_rows rd \<noteq> [] \<or> rd_lastid rd \<noteq> 0 \<longrightarrow> rd_lastid rd' \<noteq> 0) \<and> (rd_rows rd = [] \<longrightarrow> rd_more rd' = ZBX_PROXY_DATA_DONE)
    \<and> (continue \<longrightarrow> rd_rows rd \<noteq> [] \<and> rd_id rd' = rd_id rd \<and> rd_rows rd' = [])"
proof (cases "rd_rows rd = []")
  case True
  then show ?thesis using assms(1) by (auto simp: batch_end_def)
next
  case False
  define rd1 where "rd1 = (if length (rd_rows rd) \<noteq> 1000 then rd\<lparr>rd_more := ZBX_PROXY_DATA_DONE\<rparr> else rd)"
  have same: "rd_rows rd1 = rd_rows rd" "rd_lastid rd1 = rd_lastid rd" "rd_num rd1 = rd_num rd" "rd_json rd1 = rd_json rd"
    by (simp_all add: rd1_def)
  obtain j n l where e: "pb_history_export exportable (rd_json rd1) (rd_num rd1) (rd_lastid rd1) (rd_rows rd) = Some (j, n, l)"
    "json_open_at (n = 0) j" "l = row_id (last (rd_rows rd)) \<or> ZBX_DATA_JSON_RECORD_LIMIT < buffer_offset j"
    using export_total [of "rd_num rd1" "rd_json rd1" exportable "rd_lastid rd1" "rd_rows rd"] assms(1) False unfolding same by auto
  have l: "l \<noteq> 0" using export_lastid(2) [OF e(1) False] assms(3) by auto
  define rd2 where "rd2 = rd1\<lparr>rd_json := j, rd_num := n, rd_lastid := l\<rparr>"
  define rd3 where "rd3 = rd2\<lparr>rd_id := l, rd_gapid := 0, rd_rows := []\<rparr>"
  have b: "batch_end exportable rd = (if length (rd_rows rd) < 1000 then Some (rd2, False) else Some (rd3, reads_on rd3))"
    using False e(1) unfolding batch_end_def Let_def rd1_def [symmetric] same by (simp add: rd2_def rd3_def same)
  show ?thesis
  proof (cases "length (rd_rows rd) < 1000")
    case True
    then show ?thesis using b e(2) l False by (auto simp: rd2_def)
  next
    case False': False
    have "reads_on rd3 \<longrightarrow> l = rd_id rd"
      using e(3) assms(2) False by (auto simp: reads_on_def rd3_def rd2_def)
    then show ?thesis using b e(2) l False False' by (auto simp: rd3_def rd2_def)
  qed
qed

text \<open>The reader's state between the statements.\<close>

definition reader_ready :: "zbx_pb_history list \<Rightarrow> reader \<Rightarrow> bool" where
  "reader_ready T rd \<longleftrightarrow> json_open_at (rd_num rd = 0) (rd_json rd)
     \<and> (rd_rows rd \<noteq> [] \<longrightarrow> rd_id rd = row_id (last (rd_rows rd))) \<and> (\<forall>r \<in> set (rd_rows rd). row_id r \<noteq> 0)
     \<and> set (rd_rows rd) \<subseteq> set T \<and> (rd_lastid rd = 0 \<or> rd_lastid rd \<in> row_id ` set T)"

lemma read_once_ends:
  assumes db: "history_db_ok D tbl" and dist: "distinct (map row_id (tbl db0))" and ready: "reader_ready (tbl db0) rd"
    and read: "read_once D db0 rd = (rd', again)"
  shows "reader_ready (tbl db0) rd'" "rd_lastid rd' = rd_lastid rd" "rd_rows rd' = [] \<longrightarrow> rd_rows rd = []"
    "\<not> again \<Longrightarrow> rd_rows rd' = rd_rows rd @ select_next (tbl db0) rd"
    "again \<Longrightarrow> read_measure (tbl db0) rd' < read_measure (tbl db0) rd"
    "rows_after (tbl db0) (rd_id rd') < rows_after (tbl db0) (rd_id rd) \<or> rd_id rd' = rd_id rd \<and> rd_rows rd' = rd_rows rd"
    "again \<Longrightarrow> rd_rows rd' \<noteq> [] \<or> select_next (tbl db0) rd' = select_next (tbl db0) rd"
    "again \<Longrightarrow> select_next (tbl db0) rd \<noteq> []"
proof -
  obtain rows i gap where f: "fetch_rows (rd_id rd) (rd_gapid rd) (select_next (tbl db0) rd) = (rows, i, gap)" by (metis prod_cases3)
  have rd': "rd' = (case gap of None \<Rightarrow> rd\<lparr>rd_rows := rd_rows rd @ rows, rd_id := i\<rparr>
      | Some gp \<Rightarrow> rd\<lparr>rd_rows := rd_rows rd @ rows, rd_id := i, rd_gapid := gp\<rparr>)" "again \<longleftrightarrow> gap \<noteq> None"
    using read f unfolding read_once_def db_laws(1) [OF db] select_next_def [symmetric] Let_def by (auto split: option.splits)
  have fields: "rd_rows rd' = rd_rows rd @ rows" "rd_id rd' = i" "rd_json rd' = rd_json rd" "rd_num rd' = rd_num rd"
    "rd_lastid rd' = rd_lastid rd" using rd'(1) by (simp_all split: option.splits)
  note F = read_rows [OF dist f]
  show "reader_ready (tbl db0) rd'" using ready F(1,2,6) unfolding reader_ready_def fields by auto
  show "rd_lastid rd' = rd_lastid rd" "rd_rows rd' = [] \<longrightarrow> rd_rows rd = []" using fields by simp_all
  show "rd_rows rd' = rd_rows rd @ select_next (tbl db0) rd" if "\<not> again" using that fields(1) F(4) rd'(2) by simp
  have less: "rows_after (tbl db0) i < rows_after (tbl db0) (rd_id rd)" if "rows \<noteq> []" using F(3) that by simp
  show "rows_after (tbl db0) (rd_id rd') < rows_after (tbl db0) (rd_id rd) \<or> rd_id rd' = rd_id rd \<and> rd_rows rd' = rd_rows rd"
    using less F(1) fields by auto
  show "rd_rows rd' \<noteq> [] \<or> select_next (tbl db0) rd' = select_next (tbl db0) rd"
    using F(1) fields by (auto simp: select_next_def)
  show "select_next (tbl db0) rd \<noteq> []" if again
    using that f rd'(2) by (cases "select_next (tbl db0) rd") auto
  show "read_measure (tbl db0) rd' < read_measure (tbl db0) rd" if again
  proof (cases "rows = []")
    case False
    then show ?thesis using less fields by (simp add: read_measure_def)
  next
    case True
    obtain gp where gp: "gap = Some gp" using \<open>again\<close> rd'(2) by auto
    have "select_next (tbl db0) rd' = select_next (tbl db0) rd" using True F(1) fields by (simp add: select_next_def)
    moreover have "rd_gapid rd' = gp" using rd'(1) gp by simp
    ultimately show ?thesis using F(5) [OF gp True] True F(1) fields by (simp add: read_measure_def)
  qed
qed

lemma close_array_total: "\<exists>j'. close_array j n = Some j'"
  by (simp add: close_array_def)

abbreviation (input) reading_world where
  "reading_world w rd R text' M \<equiv> w\<lparr>w_uploader := Reading rd R, w_text := text', w_missing := M\<rparr>"

abbreviation (input) uploading_world where
  "uploading_world w R rd text' M \<equiv>
     w\<lparr>w_uploader := Uploading {r \<in> R. row_id r \<le> rd_lastid rd} (rd_lastid rd) (rd_more rd), w_text := text', w_missing := M\<rparr>"

lemma world_order:
  "w\<lparr>w_text := text', w_missing := M, w_uploader := up\<rparr> = w\<lparr>w_uploader := up, w_text := text', w_missing := M\<rparr>"
  by simp

lemma reading_ends:
  assumes db: "history_db_ok D tbl" and dist: "distinct (map row_id (tbl (w_db w)))" and none: "history_handleids (w_pb w) = []"
    and ready: "reader_ready (tbl (w_db w)) rd"
  shows "\<exists>rd' R' text' M'. get_db_loop D (\<lambda>db. db) exportable (w_db w) rd = Some rd'
    \<and> close_array (rd_json rd') (rd_num rd') = Some text' \<and> M' \<subseteq> M \<union> {r. \<not> exportable (row_itemid r)}
    \<and> (pb_step D True)\<^sup>*\<^sup>* (reading_world w rd R start_text M) (uploading_world w R' rd' text' M')
    \<and> (rd_rows rd \<noteq> [] \<or> select_next (tbl (w_db w)) rd \<noteq> [] \<or> rd_lastid rd \<noteq> 0 \<longrightarrow> rd_lastid rd' \<noteq> 0)
    \<and> (rd_rows rd = [] \<and> select_next (tbl (w_db w)) rd = [] \<longrightarrow> rd_more rd' = ZBX_PROXY_DATA_DONE)
    \<and> (rd_lastid rd' = 0 \<or> rd_lastid rd' \<in> row_id ` set (tbl (w_db w))) \<and> json_open_at (rd_num rd' = 0) (rd_json rd')
    \<and> (rd_rows rd = [] \<and> select_next (tbl (w_db w)) rd = [] \<and> rd_lastid rd = 0 \<longrightarrow> rd_lastid rd' = 0)"
  using ready
proof (induction "read_measure (tbl (w_db w)) rd" arbitrary: rd R start_text M rule: less_induct)
  case (less rd)
  let ?T = "tbl (w_db w)"
  obtain rd1 again where read: "read_once D (w_db w) rd = (rd1, again)" by fastforce
  note E = read_once_ends [OF db dist less(2) read]
  have loop: "get_db_loop D (\<lambda>db. db) exportable (w_db w) rd = (if again then get_db_loop D (\<lambda>db. db) exportable (w_db w) rd1
      else case batch_end exportable rd1 of None \<Rightarrow> None
        | Some (rd, continue) \<Rightarrow> if continue then get_db_loop D (\<lambda>db. db) exportable (w_db w) rd else Some rd)"
    by (subst get_db_loop.simps) (simp add: read)
  show ?case
  proof (cases again)
    case True
    let ?R = "R \<union> set (rd_rows rd1)"
    let ?v = "w\<lparr>w_uploader := Waiting rd1 ?R 0, w_text := start_text, w_missing := M\<rparr>"
    have "pb_step D True (reading_world w rd R start_text M) ?v"
      using pb_step.waits [of "reading_world w rd R start_text M" rd R D rd1] read True none by (simp add: wait_handleid_def world_order)
    moreover have "pb_step D True ?v (reading_world w rd1 ?R start_text M)"
      using pb_step.waited [of ?v rd1 ?R 0 D] by (simp add: wait_over_def world_order)
    ultimately have st: "(pb_step D True)\<^sup>*\<^sup>* (reading_world w rd R start_text M) (reading_world w rd1 ?R start_text M)"
      by (auto intro: rtranclp.rtrancl_into_rtrancl)
    obtain rd' R' text' M' where IH: "get_db_loop D (\<lambda>db. db) exportable (w_db w) rd1 = Some rd'"
      "(pb_step D True)\<^sup>*\<^sup>* (reading_world w rd1 ?R start_text M) (uploading_world w R' rd' text' M')"
      "rd_rows rd1 \<noteq> [] \<or> select_next ?T rd1 \<noteq> [] \<or> rd_lastid rd1 \<noteq> 0 \<longrightarrow> rd_lastid rd' \<noteq> 0"
      "rd_rows rd1 = [] \<and> select_next ?T rd1 = [] \<longrightarrow> rd_more rd' = ZBX_PROXY_DATA_DONE"
      "rd_lastid rd' = 0 \<or> rd_lastid rd' \<in> row_id ` set ?T" "json_open_at (rd_num rd' = 0) (rd_json rd')"
      "close_array (rd_json rd') (rd_num rd') = Some text'" "M' \<subseteq> M \<union> {r. \<not> exportable (row_itemid r)}"
      using less(1) [OF E(5) [OF True] E(1), where R = ?R and M = M and start_text = start_text] by blast
    have "rd_rows rd \<noteq> [] \<or> select_next ?T rd \<noteq> [] \<or> rd_lastid rd \<noteq> 0 \<longrightarrow> rd_lastid rd' \<noteq> 0"
      using IH(3) E(2,3) E(7) [OF True] by auto
    moreover have "rd_rows rd = [] \<and> select_next ?T rd = [] \<longrightarrow> rd_more rd' = ZBX_PROXY_DATA_DONE"
      using E(5,8) [OF True] IH(4) E(7) [OF True] by auto
    moreover have "get_db_loop D (\<lambda>db. db) exportable (w_db w) rd = Some rd'" using loop IH(1) True by simp
    ultimately show ?thesis using rtranclp_trans [OF st IH(2)] IH(5-8) E(8) [OF True] by blast
  next
    case False
    have ready1: "json_open_at (rd_num rd1 = 0) (rd_json rd1)" "rd_rows rd1 \<noteq> [] \<longrightarrow> rd_id rd1 = row_id (last (rd_rows rd1))"
      "\<forall>r \<in> set (rd_rows rd1). row_id r \<noteq> 0" using E(1) by (simp_all add: reader_ready_def)
    obtain rd2 continue where b: "batch_end exportable rd1 = Some (rd2, continue)" "json_open_at (rd_num rd2 = 0) (rd_json rd2)"
      "rd_rows rd1 \<noteq> [] \<or> rd_lastid rd1 \<noteq> 0 \<longrightarrow> rd_lastid rd2 \<noteq> 0" "rd_rows rd1 = [] \<longrightarrow> rd_more rd2 = ZBX_PROXY_DATA_DONE"
      "continue \<longrightarrow> rd_rows rd1 \<noteq> [] \<and> rd_id rd2 = rd_id rd1 \<and> rd_rows rd2 = []"
      using batch_end_total [OF ready1] by blast
    let ?R = "R \<union> set (rd_rows rd1)"
    let ?M = "M \<union> left_out exportable (rd_lastid rd2) (rd_rows rd1)"
    obtain text2 where c: "close_array (rd_json rd2) (rd_num rd2) = Some text2" using close_array_total by blast
    have st: "pb_step D True (reading_world w rd R start_text M) (w\<lparr>w_uploader := (if continue then Reading rd2 ?R
       else Uploading {r \<in> ?R. row_id r \<le> rd_lastid rd2} (rd_lastid rd2) (rd_more rd2)), w_text := text2, w_missing := ?M\<rparr>)"
      using pb_step.reads [of "reading_world w rd R start_text M" rd R D rd1 exportable rd2 continue ?R text2] read False b(1) c by simp
    have M: "?M \<subseteq> M \<union> {r. \<not> exportable (row_itemid r)}" by (auto simp: left_out_def)
    have lastid2: "rd_lastid rd2 = 0 \<or> rd_lastid rd2 \<in> row_id ` set ?T"
      using batch_end_next(1) [OF b(1)] E(1) unfolding reader_ready_def by auto
    have rows1: "rd_rows rd1 = rd_rows rd @ select_next ?T rd" using E(4) False by simp
    show ?thesis
    proof (cases continue)
      case True
      have "reader_ready ?T rd2" using b(2,5) True lastid2 by (simp add: reader_ready_def)
      moreover have "read_measure ?T rd2 < read_measure ?T rd"
        using E(6) b(5) True by (auto simp: read_measure_def)
      ultimately obtain rd' R' text' M' where IH: "get_db_loop D (\<lambda>db. db) exportable (w_db w) rd2 = Some rd'"
        "(pb_step D True)\<^sup>*\<^sup>* (reading_world w rd2 ?R text2 ?M) (uploading_world w R' rd' text' M')"
        "rd_lastid rd2 \<noteq> 0 \<longrightarrow> rd_lastid rd' \<noteq> 0" "rd_lastid rd' = 0 \<or> rd_lastid rd' \<in> row_id ` set ?T"
        "json_open_at (rd_num rd' = 0) (rd_json rd')" "close_array (rd_json rd') (rd_num rd') = Some text'"
        "M' \<subseteq> ?M \<union> {r. \<not> exportable (row_itemid r)}" using less(1) [where rd = rd2 and R = ?R and M = ?M and start_text = text2] by blast
      have "rd_lastid rd' \<noteq> 0" using IH(3) b(3,5) True by blast
      moreover have "rd_rows rd \<noteq> [] \<or> select_next ?T rd \<noteq> []" using rows1 b(5) True by auto
      moreover have "M' \<subseteq> M \<union> {r. \<not> exportable (row_itemid r)}" using IH(7) M by blast
      moreover have "(pb_step D True)\<^sup>*\<^sup>* (reading_world w rd R start_text M) (uploading_world w R' rd' text' M')"
        using st IH(2) True by (simp add: converse_rtranclp_into_rtranclp)
      ultimately show ?thesis using IH(1,4-6) False True b(1) unfolding loop
        by (intro exI [of _ rd'] exI [of _ R'] exI [of _ text'] exI [of _ M']) auto
    next
      case stop: False
      have "(pb_step D True)\<^sup>*\<^sup>* (reading_world w rd R start_text M) (uploading_world w ?R rd2 text2 ?M)" using st stop by simp
      then show ?thesis using stop c M False b rows1 E(2) lastid2 batch_end_next(1) [OF b(1)] unfolding loop
        by (intro exI [of _ rd2] exI [of _ ?R] exI [of _ text2] exI [of _ ?M]) auto
    qed
  qed
qed

section \<open>One upload\<close>

lemma get_mem_total:
  "json_open_at (n = 0) j \<Longrightarrow> \<exists>j' n' lastid' more_data. get_mem_loop exportable j n lastid rows = Some (j', n', lastid', more_data)
     \<and> (rows \<noteq> [] \<longrightarrow> lastid' \<in> row_id ` set rows)"
proof (induction exportable j n lastid rows rule: get_mem_loop.induct)
  case (1 exportable j n lastid rows)
  obtain j1 n1 l1 where e: "pb_history_export exportable j n lastid (take 1000 rows) = Some (j1, n1, l1)" "json_open_at (n1 = 0) j1"
    using export_total [OF 1(2)] by blast
  have l1: "l1 \<in> row_id ` set rows" if "rows \<noteq> []"
    using export_lastid(2) [OF e(1)] that set_take_subset [of 1000 rows] by auto
  show ?case
  proof (cases "length rows < 1000 \<or> ZBX_DATA_JSON_BATCH_LIMIT \<le> buffer_offset j1 \<or> n1 \<ge> 10000")
    case True
    then show ?thesis using e(1) l1 by (subst get_mem_loop.simps) auto
  next
    case False
    then obtain j' n' l' m' where IH: "get_mem_loop exportable j1 n1 l1 (drop 1000 rows) = Some (j', n', l', m')"
      using 1(1) [OF e(1) HOL.refl HOL.refl _ _ e(2)] by blast
    have "l' = l1 \<or> l' \<in> row_id ` set rows" using get_mem_lastid [OF IH] set_drop_subset [of 1000 rows] by blast
    then show ?thesis using IH False e(1) l1 by (subst get_mem_loop.simps) auto
  qed
qed

lemma history_get_mem_total:
  assumes "json_open_at True j"
  shows "\<exists>j' n l m. pb_history_get_mem exportable pb j 0 = Some (j', n, l, m)
    \<and> (if pb_history pb = [] then l = 0 else l \<in> row_id ` set (pb_history pb))"
proof (cases "pb_history pb = []")
  case False
  from get_mem_total [of 0 j exportable 0 "pb_history pb"] assms obtain j1 n l m where
    g: "get_mem_loop exportable j 0 0 (pb_history pb) = Some (j1, n, l, m)" "l \<in> row_id ` set (pb_history pb)" using False by auto
  obtain j' where "close_array j1 n = Some j'" using close_array_total by blast
  then show ?thesis using False g by (simp add: pb_history_get_mem_def)
qed (simp add: pb_history_get_mem_def)

lemma get_ends:
  assumes db: "history_db_ok D tbl" and r: "pb_reachable D True tbl w" and h: "w_handles w = []" and idle: "w_uploader w = Idle"
    and start: "message_start j" and less: "buffer_offset j < ZBX_DATA_JSON_BATCH_LIMIT"
  shows "\<exists>j' n lastid more_data R M. zbx_pb_history_get_rows D (\<lambda>db. db) exportable (w_pb w) (w_db w) j 0 = Some (j', n, lastid, more_data)
    \<and> (pb_step D True)\<^sup>*\<^sup>* w (w\<lparr>w_uploader := Uploading R lastid more_data, w_text := j', w_missing := M\<rparr>)
    \<and> M \<subseteq> {r. \<not> exportable (row_itemid r)}
    \<and> (get_pb_src (pb_state (w_pb w)) = PB_MEMORY \<longrightarrow>
        (if pb_history (w_pb w) = [] then lastid = 0 else lastid \<in> row_id ` set (pb_history (w_pb w))))
    \<and> (get_pb_src (pb_state (w_pb w)) = PB_DATABASE \<longrightarrow>
        (if rows_after (tbl (w_db w)) (history_lastid_sent (w_pb w)) = 0 then lastid = 0 \<and> more_data = ZBX_PROXY_DATA_DONE
         else lastid \<noteq> 0 \<and> lastid \<in> row_id ` set (tbl (w_db w))))"
proof -
  note j = message_open_at [OF start] less
  have ok: "core_ok (core_of D tbl w)" using reachable_ok [OF db r] by simp
  then have none: "history_handleids (w_pb w) = []" using h by (simp add: core_ok_def handles_ok_def core_of_def)
  have dist: "distinct (map row_id (tbl (w_db w)))" using ok by (simp add: core_ok_def ids_ok_def core_of_def)
  show ?thesis
  proof (cases "get_pb_src (pb_state (w_pb w)) = PB_MEMORY")
    case True
    obtain j' n l m where g: "pb_history_get_mem exportable (w_pb w) j 0 = Some (j', n, l, m)"
      "if pb_history (w_pb w) = [] then l = 0 else l \<in> row_id ` set (pb_history (w_pb w))"
      using history_get_mem_total [OF j(1)] by blast
    have "pb_step D True w (w\<lparr>w_uploader := Uploading {r \<in> set (pb_history (w_pb w)). row_id r \<le> l} l m,
        w_text := j', w_missing := left_out exportable l (pb_history (w_pb w))\<rparr>)"
      by (rule pb_step.gets_memory [OF idle True g(1) start])
    moreover have "left_out exportable l (pb_history (w_pb w)) \<subseteq> {r. \<not> exportable (row_itemid r)}" by (auto simp: left_out_def)
    ultimately have "\<exists>R M. (pb_step D True)\<^sup>*\<^sup>* w (w\<lparr>w_uploader := Uploading R l m, w_text := j', w_missing := M\<rparr>)
        \<and> M \<subseteq> {r. \<not> exportable (row_itemid r)}" by blast
    then obtain R M where "(pb_step D True)\<^sup>*\<^sup>* w (w\<lparr>w_uploader := Uploading R l m, w_text := j', w_missing := M\<rparr>)"
      "M \<subseteq> {r. \<not> exportable (row_itemid r)}" by blast
    then show ?thesis using True g
      by (intro exI [of _ j'] exI [of _ n] exI [of _ l] exI [of _ m] exI [of _ R] exI [of _ M]) (simp add: zbx_pb_history_get_rows_def)
  next
    case False
    then have src: "get_pb_src (pb_state (w_pb w)) = PB_DATABASE" by (cases "pb_state (w_pb w)") auto
    have stored: "select_lastid D PROXY_HISTORY (w_db w) = history_lastid_sent (w_pb w)"
      using ok src by (simp add: core_ok_def state_ok_def core_of_def)
    define rd where "rd = reader_start D j 0 (w_db w)"
    have rd: "reads_on rd" "reader_ready (tbl (w_db w)) rd" "rd_rows rd = []" "rd_lastid rd = 0"
      using j by (simp_all add: rd_def reader_start_def reads_on_def reader_ready_def)
    have sel: "select_next (tbl (w_db w)) rd = [] \<longleftrightarrow> rows_after (tbl (w_db w)) (history_lastid_sent (w_pb w)) = 0"
      unfolding select_next_def rows_after_def by (auto simp: rd_def reader_start_def stored filter_empty_conv)
    have st: "pb_step D True w (reading_world w rd {} j {})"
      using pb_step.starts [OF idle src, of D j rd] rd(1) start by (simp add: rd_def)
    from reading_ends [OF db dist none rd(2), where exportable = exportable and R = "{}" and M = "{}" and start_text = j] obtain rd' R' j' M' where
      E: "get_db_loop D (\<lambda>db. db) exportable (w_db w) rd = Some rd'"
      "(pb_step D True)\<^sup>*\<^sup>* (reading_world w rd {} j {}) (uploading_world w R' rd' j' M')"
      "select_next (tbl (w_db w)) rd \<noteq> [] \<longrightarrow> rd_lastid rd' \<noteq> 0"
      "select_next (tbl (w_db w)) rd = [] \<longrightarrow> rd_more rd' = ZBX_PROXY_DATA_DONE \<and> rd_lastid rd' = 0"
      "rd_lastid rd' = 0 \<or> rd_lastid rd' \<in> row_id ` set (tbl (w_db w))"
      and c: "close_array (rd_json rd') (rd_num rd') = Some j'" and M: "M' \<subseteq> {r. \<not> exportable (row_itemid r)}" using rd(3,4) by auto
    have "zbx_pb_history_get_rows D (\<lambda>db. db) exportable (w_pb w) (w_db w) j 0 = Some (j', rd_num rd', rd_lastid rd', rd_more rd')"
      using src E(1) c rd(1) by (simp add: zbx_pb_history_get_rows_def pb_history_get_db_def rd_def [symmetric])
    moreover have "(pb_step D True)\<^sup>*\<^sup>* w (uploading_world w R' rd' j' M')"
      using converse_rtranclp_into_rtranclp [of "pb_step D True", OF st E(2)] .
    moreover have "if rows_after (tbl (w_db w)) (history_lastid_sent (w_pb w)) = 0 then rd_lastid rd' = 0 \<and> rd_more rd' = ZBX_PROXY_DATA_DONE
        else rd_lastid rd' \<noteq> 0 \<and> rd_lastid rd' \<in> row_id ` set (tbl (w_db w))" using E(3-5) sel by auto
    ultimately show ?thesis using src M
      by (intro exI [of _ j'] exI [of _ "rd_num rd'"] exI [of _ "rd_lastid rd'"] exI [of _ "rd_more rd'"]
        exI [of _ "{r \<in> R'. row_id r \<le> rd_lastid rd'}"] exI [of _ M']) simp
  qed
qed

text \<open>
  A cycle of \<^verbatim>\<open>proxy_data_sender\<close> whose upload succeeds, as far as history goes: get the rows, record the last id, update
  the state. The result has the text.
\<close>

definition upload_cycle ::
  "('db, 'b) pb_db_scheme \<Rightarrow> (nat \<Rightarrow> bool) \<Rightarrow> zbx_json \<Rightarrow> zbx_pb \<Rightarrow> 'db \<Rightarrow> (zbx_json \<times> zbx_pb \<times> 'db) option" where
  "upload_cycle D exportable j pb db =
     do {
       (j, _, lastid, more_data) \<leftarrow> zbx_pb_history_get_rows D (\<lambda>db. db) exportable pb db j 0;
       let (pb, db) = (if lastid \<noteq> 0 then zbx_pb_set_history_lastid D pb db lastid else (pb, db)) in
       Some (j, pb_update_state D pb db more_data)
     }"

fun upload_cycles ::
  "('db, 'b) pb_db_scheme \<Rightarrow> ((nat \<Rightarrow> bool) \<times> zbx_json) list \<Rightarrow> zbx_pb \<Rightarrow> 'db \<Rightarrow> (zbx_json list \<times> zbx_pb \<times> 'db) option" where
  "upload_cycles D [] pb db = Some ([], pb, db)"
| "upload_cycles D ((exportable, j) # cycles) pb db =
     do {
       (text', pb, db) \<leftarrow> upload_cycle D exportable j pb db;
       (texts, pb, db) \<leftarrow> upload_cycles D cycles pb db;
       Some (text' # texts, pb, db)
     }"

text \<open>The rows not sent and the states still to go through.\<close>

fun state_rank :: "zbx_pb_state_t \<Rightarrow> nat" where
  "state_rank PB_MEMORY = 0"
| "state_rank PB_DATABASE_MEMORY = 1"
| "state_rank PB_DATABASE = 2"
| "state_rank PB_MEMORY_DATABASE = 3"

definition unsent :: "('db \<Rightarrow> zbx_pb_history list) \<Rightarrow> zbx_pb \<Rightarrow> 'db \<Rightarrow> nat" where
  "unsent tbl pb db = rows_after (tbl db) (history_lastid_sent pb) + length (pb_history pb)"

definition work_left :: "('db \<Rightarrow> zbx_pb_history list) \<Rightarrow> zbx_pb \<Rightarrow> 'db \<Rightarrow> nat" where
  "work_left tbl pb db = unsent tbl pb db + state_rank (pb_state pb)"

text \<open>The other two kinds of data are idle in the worlds reached: nothing of them in memory, nothing unsent.\<close>

definition others_idle :: "zbx_pb \<Rightarrow> bool" where
  "others_idle pb \<longleftrightarrow> pb_discovery pb = [] \<and> pb_autoreg pb = [] \<and> discovery_lastid_db pb \<le> discovery_lastid_sent pb
     \<and> autoreg_lastid_db pb \<le> autoreg_lastid_sent pb"

lemma fallback_idle:
  assumes "history_db_ok D tbl" "pb_mode pb = ZBX_PB_MODE_HYBRID" "others_idle pb" "pd_fallback_to_database D pb db0 = (pb', db')"
  shows "others_idle pb'"
proof -
  obtain pb1 where p: "pb_flush D pb db0 = (pb1, db')" "pb' = pb_set_state pb1 PB_DATABASE"
    using assms(4) by (auto simp: pd_fallback_to_database_def split: prod.splits)
  note F = flush [OF assms(1,2) p(1)]
  have "pb_discovery pb1 = []" "pb_autoreg pb1 = []" "discovery_lastid_sent pb1 = discovery_lastid_sent pb"
    "autoreg_lastid_sent pb1 = autoreg_lastid_sent pb" by (subst F(1), simp)+
  then show ?thesis using F(4,5) assms(3) p(2) by (simp add: others_idle_def)
qed

lemma close_lock_idle:
  assumes db: "history_db_ok D tbl" and mode: "pb_mode pb = ZBX_PB_MODE_HYBRID" and i: "others_idle pb"
    and c: "close_lock D fits now later pb db0 nextid data = (pb', db', nextid', rows)"
  shows "others_idle pb'"
proof (cases "hd_rows data = []")
  case True
  then show ?thesis using c i by (auto simp: close_lock_def others_idle_def)
next
  case False
  define rows0 where "rows0 = pb_history_set_row_ids nextid (hd_rows data)"
  obtain aged young where age: "(if pb_state pb = PB_MEMORY then pb_history_check_age now later pb else (pb, True)) = (aged, young)"
    by fastforce
  have aged: "aged = pb\<lparr>pb_history := pb_history aged\<rparr>" using aged_split(1) [OF age False] .
  have "pb_discovery aged = pb_discovery pb" "pb_autoreg aged = pb_autoreg pb" "discovery_lastid_db aged = discovery_lastid_db pb"
    "discovery_lastid_sent aged = discovery_lastid_sent pb" "autoreg_lastid_db aged = autoreg_lastid_db pb"
    "autoreg_lastid_sent aged = autoreg_lastid_sent pb" "pb_mode aged = pb_mode pb" by (subst aged, simp)+
  then have i1: "others_idle aged" "pb_mode aged = ZBX_PB_MODE_HYBRID" using i mode by (simp_all add: others_idle_def)
  obtain pb2 db2 where f: "pd_fallback_to_database D aged db0 = (pb2, db2)" by fastforce
  obtain pb3 rest where a: "pb_history_add_rows_mem fits aged rows0 = (pb3, rest)" by fastforce
  obtain pb4 db4 where f4: "pd_fallback_to_database D pb3 db0 = (pb4, db4)" by fastforce
  from add_rows_mem [OF i1(2) a] have i3: "others_idle pb3" "pb_mode pb3 = ZBX_PB_MODE_HYBRID" using i1 by (auto simp: others_idle_def)
  have "others_idle pb2" "others_idle pb4" using fallback_idle [OF db i1(2,1) f] fallback_idle [OF db i3(2,1) f4] by simp_all
  then show ?thesis using c False age f a f4 i1 i3
    by (auto simp: close_lock_def close_rows_def rows0_def [symmetric] Let_def others_idle_def split: if_splits prod.splits)
qed

lemma reachable_idle:
  assumes db: "history_db_ok D tbl" and r: "pb_reachable D True tbl w"
  shows "others_idle (w_pb w)"
  using r
proof (induction rule: pb_reachable.induct)
  case (start db0 w)
  then obtain age offline where "pb_init_state D (zbx_pb_create ZBX_PB_MODE_HYBRID age offline) db0 = (w_pb w, w_db w)"
    unfolding pb_start_def by blast
  from init_state(4,5,12,13) [OF db this] show ?case by (simp add: others_idle_def)
next
  case (step w w')
  have mode: "pb_mode (w_pb w) = ZBX_PB_MODE_HYBRID" using reachable_ok [OF db step(1)] by simp
  from step(2) show ?case
  proof cases
    case (closes_memory hs data hs' first cache_id fits now later pb db' nextid rows)
    then show ?thesis using close_lock_idle [OF db mode step(3) closes_memory(6)] by simp
  next
    case (updates more_history more_data pb db')
    then show ?thesis using step(3) unfolding pb_update_state_def others_idle_def
      by (auto split: if_splits zbx_pb_state_t.splits)
  qed (use step(3) in \<open>auto simp: others_idle_def zbx_pb_history_open_def pb_register_handle_def close_end_def
      zbx_pb_set_history_lastid_def pb_history_clear_def Let_def split: if_splits\<close>)
qed

section \<open>Progress\<close>

lemma rows_after_le: "i \<le> i' \<Longrightarrow> rows_after T i' \<le> rows_after T i"
  unfolding rows_after_def by (induction T) auto

lemma rows_after_zero: "rows_after T i = 0 \<longleftrightarrow> (\<forall>r \<in> set T. row_id r \<le> i)"
  by (auto simp: rows_after_def filter_empty_conv not_less)

lemma update_work:
  assumes db: "history_db_ok D tbl" and u: "pb_update_state D pb db0 more_data = (pb', db')"
  shows "unsent tbl pb' db' = unsent tbl pb db0" "work_left tbl pb' db' \<le> work_left tbl pb db0"
    "pb_state pb' \<noteq> pb_state pb \<Longrightarrow> work_left tbl pb' db' < work_left tbl pb db0"
proof -
  have "unsent tbl pb' db' = unsent tbl pb db0 \<and> (pb_state pb' = pb_state pb \<or> state_rank (pb_state pb') < state_rank (pb_state pb))"
    using u flush_lastids(1) [OF db] unfolding pb_update_state_def unsent_def
    by (auto split: if_splits zbx_pb_state_t.splits)
  then show "unsent tbl pb' db' = unsent tbl pb db0" "work_left tbl pb' db' \<le> work_left tbl pb db0"
    "pb_state pb' \<noteq> pb_state pb \<Longrightarrow> work_left tbl pb' db' < work_left tbl pb db0"
    by (auto simp: work_left_def)
qed

lemma ack_work:
  assumes db: "history_db_ok D tbl" and s: "sorted (map row_id (pb_history pb))" and less: "history_lastid_sent pb < lastid"
    and at: "get_pb_src (pb_state pb) = PB_MEMORY \<and> lastid \<in> row_id ` set (pb_history pb)
      \<or> get_pb_src (pb_state pb) = PB_DATABASE \<and> lastid \<in> row_id ` set (tbl db0)"
    and ack: "zbx_pb_set_history_lastid D pb db0 lastid = (pb', db')"
  shows "work_left tbl pb' db' < work_left tbl pb db0"
  using at
proof
  assume a: "get_pb_src (pb_state pb) = PB_MEMORY \<and> lastid \<in> row_id ` set (pb_history pb)"
  define young where "young = dropWhile (\<lambda>r. row_id r \<le> lastid) (pb_history pb)"
  have p: "pb' = pb\<lparr>history_lastid_sent := lastid, pb_history := young\<rparr>" "db' = db0"
    using ack a by (auto simp: zbx_pb_set_history_lastid_def pb_history_clear_def young_def Let_def)
  from dropWhile_sent [OF s, of lastid] obtain old where o: "pb_history pb = old @ young" "\<forall>r \<in> set young. lastid < row_id r"
    unfolding young_def by blast
  have "old \<noteq> []" using a o by fastforce
  then have "length young < length (pb_history pb)" using o(1) by simp
  moreover have "rows_after (tbl db0) lastid \<le> rows_after (tbl db0) (history_lastid_sent pb)" using less by (intro rows_after_le) simp
  ultimately show ?thesis using p by (simp add: work_left_def unsent_def)
next
  assume a: "get_pb_src (pb_state pb) = PB_DATABASE \<and> lastid \<in> row_id ` set (tbl db0)"
  then obtain r where r: "r \<in> set (tbl db0)" "row_id r = lastid" by blast
  have p: "pb' = pb\<lparr>history_lastid_sent := lastid\<rparr>" "tbl db' = tbl db0"
    using ack a db_laws(5) [OF db] by (auto simp: zbx_pb_set_history_lastid_def Let_def)
  have "rows_after (tbl db0) lastid < rows_after (tbl db0) (history_lastid_sent pb)" using less r by (intro rows_after_less) auto
  then show ?thesis using p by (simp add: work_left_def unsent_def)
qed

text \<open>Nothing to upload: the state moves on, or all is done.\<close>

lemma idle_work:
  assumes db: "history_db_ok D tbl" and r: "pb_reachable D True tbl w" and h: "w_handles w = []"
    and none: "get_pb_src (pb_state (w_pb w)) = PB_MEMORY \<and> pb_history (w_pb w) = []
      \<or> get_pb_src (pb_state (w_pb w)) = PB_DATABASE \<and> rows_after (tbl (w_db w)) (history_lastid_sent (w_pb w)) = 0
        \<and> more_data = ZBX_PROXY_DATA_DONE"
    and u: "pb_update_state D (w_pb w) (w_db w) more_data = (pb', db')"
  shows "work_left tbl pb' db' < work_left tbl (w_pb w) (w_db w) \<or> work_left tbl (w_pb w) (w_db w) = 0"
proof -
  have ok: "core_ok (core_of D tbl w)" "pb_mode (w_pb w) = ZBX_PB_MODE_HYBRID" using reachable_ok [OF db r] by simp_all
  have idle: "others_idle (w_pb w)" using reachable_idle [OF db r] .
  have num: "db_handles_num (w_pb w) = 0" using ok h by (simp add: core_ok_def handles_ok_def core_of_def)
  show ?thesis
  proof (cases "pb_state (w_pb w) = PB_MEMORY")
    case True
    then have "\<forall>r \<in> set (tbl (w_db w)). row_id r \<le> history_lastid_sent (w_pb w)"
      using ok(1) by (simp add: core_ok_def state_ok_def core_of_def)
    then have "rows_after (tbl (w_db w)) (history_lastid_sent (w_pb w)) = 0" by (simp add: rows_after_zero)
    then show ?thesis using True none by (simp add: work_left_def unsent_def)
  next
    case False
    have "pb_state pb' \<noteq> pb_state (w_pb w)"
    proof (cases "pb_state (w_pb w)")
      case PB_DATABASE
      then show ?thesis using u none ok(2) by (auto simp: pb_update_state_def)
    next
      case PB_DATABASE_MEMORY
      then have "\<forall>r \<in> set (tbl (w_db w)). row_id r \<le> history_lastid_sent (w_pb w)" using none by (simp add: rows_after_zero)
      moreover have "history_lastid_db (w_pb w) = 0 \<or> history_lastid_db (w_pb w) \<in> row_id ` set (tbl (w_db w))"
        using ok(1) by (simp add: core_ok_def lastid_ok_def core_of_def)
      ultimately have "history_lastid_db (w_pb w) \<le> history_lastid_sent (w_pb w)" by auto
      then show ?thesis using u num idle ok(2) PB_DATABASE_MEMORY by (auto simp: pb_update_state_def others_idle_def)
    next
      case PB_MEMORY_DATABASE
      then show ?thesis using u none idle ok(2) by (auto simp: pb_update_state_def has_mem_rows_def others_idle_def)
    qed (use False in simp)
    then show ?thesis using update_work(3) [OF db u] by simp
  qed
qed

lemma cycle_progress:
  assumes db: "history_db_ok D tbl" and r: "pb_reachable D True tbl w" and h: "w_handles w = []" and idle: "w_uploader w = Idle"
    and start: "message_start j" "buffer_offset j < ZBX_DATA_JSON_BATCH_LIMIT"
  shows "\<exists>w' j'. upload_cycle D exportable j (w_pb w) (w_db w) = Some (j', w_pb w', w_db w')
    \<and> w_received w' = w_received w @ [j'] \<and> w_unknown w' \<subseteq> w_unknown w \<union> {r. \<not> exportable (row_itemid r)} \<and> (pb_step D True)\<^sup>*\<^sup>* w w'
    \<and> w_handles w' = [] \<and> w_uploader w' = Idle \<and> w_accepted w' = w_accepted w \<and> w_discarded w' = w_discarded w
    \<and> (work_left tbl (w_pb w') (w_db w') < work_left tbl (w_pb w) (w_db w)
       \<or> work_left tbl (w_pb w) (w_db w) = 0 \<and> work_left tbl (w_pb w') (w_db w') = 0)"
proof -
  from get_ends [OF db r h idle start, of exportable] obtain j' n lastid more_data R M where
    g: "zbx_pb_history_get_rows D (\<lambda>db. db) exportable (w_pb w) (w_db w) j 0 = Some (j', n, lastid, more_data)"
    and st: "(pb_step D True)\<^sup>*\<^sup>* w (w\<lparr>w_uploader := Uploading R lastid more_data, w_text := j', w_missing := M\<rparr>)"
    and M: "M \<subseteq> {r. \<not> exportable (row_itemid r)}"
    and mem: "get_pb_src (pb_state (w_pb w)) = PB_MEMORY \<longrightarrow>
        (if pb_history (w_pb w) = [] then lastid = 0 else lastid \<in> row_id ` set (pb_history (w_pb w)))"
    and disk: "get_pb_src (pb_state (w_pb w)) = PB_DATABASE \<longrightarrow>
        (if rows_after (tbl (w_db w)) (history_lastid_sent (w_pb w)) = 0 then lastid = 0 \<and> more_data = ZBX_PROXY_DATA_DONE
         else lastid \<noteq> 0 \<and> lastid \<in> row_id ` set (tbl (w_db w)))" by blast
  let ?w1 = "w\<lparr>w_uploader := Uploading R lastid more_data, w_text := j', w_missing := M\<rparr>"
  obtain pb2 db2 where ack: "(if lastid \<noteq> 0 then zbx_pb_set_history_lastid D (w_pb w) (w_db w) lastid else (w_pb w, w_db w)) = (pb2, db2)"
    by fastforce
  obtain pb3 db3 where u: "pb_update_state D pb2 db2 more_data = (pb3, db3)" by fastforce
  let ?w2 = "?w1\<lparr>w_pb := pb2, w_db := db2, w_uploader := Acknowledged more_data, w_sent := w_sent w \<union> R,
      w_received := w_received w @ [j'], w_unknown := w_unknown w \<union> M\<rparr>"
  let ?w3 = "?w2\<lparr>w_pb := pb3, w_db := db3, w_uploader := Idle\<rparr>"
  have s2: "pb_step D True ?w1 ?w2" using pb_step.acks [of ?w1 R lastid more_data D pb2 db2] ack by (cases "lastid = 0") simp_all
  have s3: "pb_step D True ?w2 ?w3" using pb_step.updates [of ?w2 more_data more_data D pb3 db3] u h by simp
  have steps: "(pb_step D True)\<^sup>*\<^sup>* w ?w3" using st s2 s3 by (meson rtranclp.rtrancl_into_rtrancl)
  have cycle: "upload_cycle D exportable j (w_pb w) (w_db w) = Some (j', pb3, db3)"
    using g ack u by (auto simp: upload_cycle_def split: if_splits)
  have src: "get_pb_src (pb_state (w_pb w)) = PB_MEMORY \<or> get_pb_src (pb_state (w_pb w)) = PB_DATABASE"
    by (cases "pb_state (w_pb w)") simp_all
  have "work_left tbl pb3 db3 < work_left tbl (w_pb w) (w_db w)
      \<or> work_left tbl (w_pb w) (w_db w) = 0 \<and> work_left tbl pb3 db3 = 0"
  proof (cases "lastid = 0")
    case True
    have "row_id r \<noteq> 0" if "r \<in> set (pb_history (w_pb w))" for r
      using reachable_ok [OF db r] sent_lt [of "core_of D tbl w" r] that by (fastforce simp: core_ok_def core_of_def)
    then have "0 \<notin> row_id ` set (pb_history (w_pb w))" by force
    then have e: "pb_history (w_pb w) = [] \<or> get_pb_src (pb_state (w_pb w)) = PB_DATABASE" using mem True src by (auto split: if_splits)
    have p: "pb2 = w_pb w" "db2 = w_db w" using ack True by simp_all
    have "work_left tbl pb3 db3 < work_left tbl (w_pb w) (w_db w) \<or> work_left tbl (w_pb w) (w_db w) = 0"
      using idle_work [OF db r h _ u [unfolded p]] e src disk True by (auto split: if_splits)
    then show ?thesis using update_work(2) [OF db u] p by auto
  next
    case False
    have r1: "pb_reachable D True tbl ?w1" using st r by (induction rule: rtranclp_induct) (auto intro: pb_reachable.step)
    have "core_ok (core_of D tbl ?w1)" using reachable_ok [OF db r1] by simp
    then have c: "ids_ok (core_of D tbl ?w1)" "uploader_ok (core_of D tbl ?w1) (c_up (core_of D tbl ?w1))" by (simp_all only: core_ok_def)
    have cu: "c_up (core_of D tbl ?w1) = Uploading R lastid more_data" "c_sent (core_of D tbl ?w1) = history_lastid_sent (w_pb w)"
      by (simp_all add: core_of_def)
    have "history_lastid_sent (w_pb w) < lastid" using c(2) False unfolding cu uploader_ok.simps by blast
    moreover have "sorted (map row_id (pb_history (w_pb w)))" using c(1) by (simp add: ids_ok_def core_of_def)
    moreover have "get_pb_src (pb_state (w_pb w)) = PB_MEMORY \<and> lastid \<in> row_id ` set (pb_history (w_pb w))
      \<or> get_pb_src (pb_state (w_pb w)) = PB_DATABASE \<and> lastid \<in> row_id ` set (tbl (w_db w))"
      using mem disk src False by (auto split: if_splits)
    moreover have "zbx_pb_set_history_lastid D (w_pb w) (w_db w) lastid = (pb2, db2)" using ack False by simp
    ultimately have "work_left tbl pb2 db2 < work_left tbl (w_pb w) (w_db w)" using ack_work [OF db] by blast
    then show ?thesis using update_work(2) [OF db u] by linarith
  qed
  then show ?thesis using cycle steps h M by (intro exI [of _ ?w3] exI [of _ j']) auto
qed

lemma cycles_drain:
  assumes db: "history_db_ok D tbl"
    and j: "\<forall>(exportable, j) \<in> set cycles. message_start j \<and> buffer_offset j < ZBX_DATA_JSON_BATCH_LIMIT"
  shows "pb_reachable D True tbl w \<Longrightarrow> w_handles w = [] \<Longrightarrow> w_uploader w = Idle \<Longrightarrow> work_left tbl (w_pb w) (w_db w) \<le> length cycles \<Longrightarrow>
    \<exists>w' texts. upload_cycles D cycles (w_pb w) (w_db w) = Some (texts, w_pb w', w_db w') \<and> (pb_step D True)\<^sup>*\<^sup>* w w'
      \<and> w_received w' = w_received w @ texts
      \<and> w_unknown w' \<subseteq> w_unknown w \<union> {r. \<exists>(exportable, j) \<in> set cycles. \<not> exportable (row_itemid r)}
      \<and> w_accepted w' = w_accepted w \<and> w_discarded w' = w_discarded w \<and> w_handles w' = []
      \<and> work_left tbl (w_pb w') (w_db w') = 0"
  using j
proof (induction cycles arbitrary: w)
  case (Cons c cycles)
  obtain exportable j where c: "c = (exportable, j)" by fastforce
  have "message_start j" "buffer_offset j < ZBX_DATA_JSON_BATCH_LIMIT" using Cons(6) c by auto
  from cycle_progress [OF db Cons(2-4) this, of exportable] obtain w1 j1 where
    w1: "upload_cycle D exportable j (w_pb w) (w_db w) = Some (j1, w_pb w1, w_db w1)" "(pb_step D True)\<^sup>*\<^sup>* w w1"
      "w_handles w1 = []" "w_uploader w1 = Idle" "w_accepted w1 = w_accepted w" "w_discarded w1 = w_discarded w" "work_left tbl (w_pb w1) (w_db w1) \<le> length cycles"
      "w_received w1 = w_received w @ [j1]" "w_unknown w1 \<subseteq> w_unknown w \<union> {r. \<not> exportable (row_itemid r)}"
    using Cons(5) by fastforce
  have "pb_reachable D True tbl w1" using w1(2) Cons(2) by (induction rule: rtranclp_induct) (auto intro: pb_reachable.step)
  from Cons(1) [OF this w1(3,4,7)] Cons(6) obtain w' texts where
    w': "upload_cycles D cycles (w_pb w1) (w_db w1) = Some (texts, w_pb w', w_db w')" "(pb_step D True)\<^sup>*\<^sup>* w1 w'"
      "w_received w' = w_received w1 @ texts"
      "w_unknown w' \<subseteq> w_unknown w1 \<union> {r. \<exists>(exportable, j) \<in> set cycles. \<not> exportable (row_itemid r)}"
      "w_accepted w' = w_accepted w1" "w_discarded w' = w_discarded w1" "w_handles w' = []"
      "work_left tbl (w_pb w') (w_db w') = 0" by auto
  have "w_unknown w' \<subseteq> w_unknown w \<union> {r. \<exists>(exportable, j) \<in> set (c # cycles). \<not> exportable (row_itemid r)}"
    using w'(4) w1(9) c by auto
  then show ?case using w1(1,2,5,6,8) w'(1-3,5-) c rtranclp_trans [OF w1(2) w'(2)]
    by (intro exI [of _ w'] exI [of _ "j1 # texts"]) simp
qed auto

text \<open>The rows of the texts when all is done.\<close>

lemma drained:
  assumes db: "history_db_ok D tbl" and r: "pb_reachable D True tbl w" and w: "w_handles w = []" "w_uploader w = Idle"
    and j: "\<forall>(exportable, j) \<in> set cycles. message_start j \<and> buffer_offset j < ZBX_DATA_JSON_BATCH_LIMIT"
    and n: "unsent tbl (w_pb w) (w_db w) + 3 \<le> length cycles"
  shows "\<exists>w' texts sent. upload_cycles D cycles (w_pb w) (w_db w) = Some (texts, w_pb w', w_db w') \<and> (pb_step D True)\<^sup>*\<^sup>* w w'
    \<and> pb_state (w_pb w') = PB_MEMORY \<and> pb_history (w_pb w') = []
    \<and> list_all2 text_rows (w_received w @ texts) sent \<and> rising_ids (concat sent)
    \<and> w_accepted w \<subseteq> set (concat sent) \<union> w_unknown w \<union> {r. \<exists>(exportable, j) \<in> set cycles. \<not> exportable (row_itemid r)}
        \<union> Collect (superseded (w_accepted w)) \<union> w_discarded w"
proof -
  have "state_rank (pb_state (w_pb w)) \<le> 3" by (cases "pb_state (w_pb w)") simp_all
  then have "work_left tbl (w_pb w) (w_db w) \<le> length cycles" using n by (simp add: work_left_def)
  from cycles_drain [OF db j r w this] obtain w' texts where
    c: "upload_cycles D cycles (w_pb w) (w_db w) = Some (texts, w_pb w', w_db w')" "(pb_step D True)\<^sup>*\<^sup>* w w'"
      "w_accepted w' = w_accepted w" "w_discarded w' = w_discarded w" "w_handles w' = []"
      "work_left tbl (w_pb w') (w_db w') = 0" "w_received w' = w_received w @ texts"
      "w_unknown w' \<subseteq> w_unknown w \<union> {r. \<exists>(exportable, j) \<in> set cycles. \<not> exportable (row_itemid r)}" by blast
  have r': "pb_reachable D True tbl w'" using c(2) r by (induction rule: rtranclp_induct) (auto intro: pb_reachable.step)
  have "core_ok (core_of D tbl w')" using reachable_ok [OF db r'] by simp
  then have "w_accepted w' \<subseteq> w_sent w' \<union> w_discarded w' \<union> set (pb_history (w_pb w')) \<union> set (in_flight (w_handles w'))
      \<union> {r \<in> set (tbl (w_db w')). history_lastid_sent (w_pb w') < row_id r}"
    by (simp add: core_ok_def rows_ok_def core_of_def)
  moreover have e: "pb_history (w_pb w') = []" "\<forall>r \<in> set (tbl (w_db w')). row_id r \<le> history_lastid_sent (w_pb w')"
    "state_rank (pb_state (w_pb w')) = 0" using c(6) by (simp_all add: work_left_def unsent_def rows_after_zero)
  moreover have state: "pb_state (w_pb w') = PB_MEMORY" using e(3) by (cases "pb_state (w_pb w')") simp_all
  moreover have "{r \<in> set (tbl (w_db w')). history_lastid_sent (w_pb w') < row_id r} = {}" using e(2) by auto
  ultimately have all: "w_accepted w \<subseteq> w_sent w' \<union> w_discarded w" using c(3-5) by simp
  from reachable_sent [OF db r'] obtain sent where sent: "list_all2 text_rows (w_received w') sent" "rising_ids (concat sent)"
    "\<forall>r \<in> w_sent w'. r \<in> set (concat sent) \<union> w_unknown w' \<or> superseded (w_accepted w') r" unfolding sent_ok_def by blast
  show ?thesis
  proof (intro exI conjI)
    show "list_all2 text_rows (w_received w @ texts) sent" using sent(1) c(7) by simp
    show "w_accepted w \<subseteq> set (concat sent) \<union> w_unknown w \<union> {r. \<exists>(exportable, j) \<in> set cycles. \<not> exportable (row_itemid r)}
        \<union> Collect (superseded (w_accepted w)) \<union> w_discarded w"
      using all sent(3) c(8) unfolding c(3) by blast
  qed (fact c(1) c(2) state e(1) sent(2))+
qed

end
