(* ===== verification/ZbxPbProps.thy ===== *)
theory ZbxPbProps
  imports ZbxPbDrain
begin

text \<open>
  The properties of the proxy buffer, each with a run on a database that is a list.
\<close>

section \<open>A database and a run\<close>

text \<open>A database that meets the assumptions: the table as a list, the ids last sent as a function.\<close>

record table_db =
  td_rows :: "zbx_pb_history list"
  td_lastid :: "pb_table \<Rightarrow> nat"

definition table_db_ops :: "table_db pb_db" where
  "table_db_ops =
     \<lparr>insert_history = (\<lambda>rows db. db\<lparr>td_rows := td_rows db @ rows\<rparr>), insert_discovery = (\<lambda>_ db. db),
      insert_autoreg = (\<lambda>_ db. db),
      select_history = (\<lambda>lastid limit db. take limit (filter (\<lambda>r. lastid < row_id r) (sort_key row_id (td_rows db)))),
      select_maxid = (\<lambda>t db. if t = PROXY_HISTORY then Max (insert 0 (row_id ` set (td_rows db))) else 0),
      select_lastid = (\<lambda>t db. td_lastid db t), store_lastid = (\<lambda>t lastid db. db\<lparr>td_lastid := (td_lastid db)(t := lastid)\<rparr>)\<rparr>"

lemma table_db_ok: "history_db_ok table_db_ops td_rows"
  by (simp add: history_db_ok_def table_db_ops_def)

definition sample_row :: "nat \<Rightarrow> zbx_pb_history" where
  "sample_row n = \<lparr>row_id = n, row_itemid = 5, row_lastlogsize = 0, row_sec = 100, row_ns = 0, row_value = ''1'', row_source = [],
     row_timestamp = 0, row_severity = 0, row_logeventid = 0, row_state = 0, row_mtime = 0, row_flags = 0, row_write_clock = 100\<rparr>"

definition sample_db :: table_db where
  "sample_db = \<lparr>td_rows = [sample_row 1], td_lastid = (\<lambda>_. 0)\<rparr>"

text \<open>A text to start with: an object without members.\<close>

definition sample_json :: zbx_json where
  "sample_json = the (run_writer (\<lambda>i. CHR ''?'') 16 True [])"

lemma sample_json: "message_start sample_json" "buffer_offset sample_json < ZBX_DATA_JSON_BATCH_LIMIT"
proof -
  have empty: "write_steps numeral_text [new_frame True None] [] [new_frame True None]" by (rule write_steps.refl)
  from run_writer_holds [OF empty, of "\<lambda>i. CHR ''?''" 16] obtain j where
    j: "run_writer (\<lambda>i. CHR ''?'') 16 True [] = Some j" "holds_frames j [new_frame True None :: string frame]" by blast
  have e: "sample_json = j" using j(1) by (simp add: sample_json_def)
  have "fr_vals (new_frame True None :: string frame) = []" by (simp add: new_frame_def)
  then show "message_start sample_json" unfolding message_start_def e using j(1) empty
    by (intro exI [of _ "\<lambda>i. CHR ''?''"] exI [of _ 16] exI [of _ "[]"] exI [of _ "new_frame True None"]) simp
  show "buffer_offset sample_json < ZBX_DATA_JSON_BATCH_LIMIT"
    using j(2) unfolding e by (simp add: holds_frames_def json_holds_def new_frame_def)
qed

definition sample_start :: "table_db world" where
  "sample_start =
     \<lparr>w_pb = (zbx_pb_create ZBX_PB_MODE_HYBRID 0 0)\<lparr>history_lastid_db := 1, changes_num := 1\<rparr>, w_db = sample_db, w_nextid = 2, w_cache_id = None, w_idcache = 0, w_handles = [],
      w_uploader = Idle, w_accepted = {sample_row 1}, w_sent = {}, w_discarded = {},
      w_text = sample_json, w_missing = {}, w_received = [], w_unknown = {}\<rparr>"

lemma sample_start_ok: "pb_start table_db_ops td_rows sample_db sample_start"
proof -
  have "pb_init_state table_db_ops (zbx_pb_create ZBX_PB_MODE_HYBRID 0 0) sample_db = (w_pb sample_start, w_db sample_start)"
    by (simp add: pb_init_state_def pb_check_unsent_rows_def table_db_ops_def sample_db_def sample_start_def sample_row_def
        zbx_pb_create_def pb_set_state_def)
  then show ?thesis unfolding pb_start_def
    by (auto simp: sample_start_def sample_db_def sample_row_def table_db_ops_def)
qed

text \<open>A run: the row in the table is sent, and a handle has given an id to another one.\<close>

definition sample_sent :: "zbx_json \<Rightarrow> table_db world" where
  "sample_sent text' = sample_start\<lparr>w_pb := (w_pb sample_start)\<lparr>history_lastid_sent := 1\<rparr>,
     w_db := sample_db\<lparr>td_lastid := (\<lambda>_. 0)(PROXY_HISTORY := 1)\<rparr>, w_sent := {sample_row 1}, w_text := text', w_received := [text']\<rparr>"

definition sample_flight :: "zbx_json \<Rightarrow> table_db world" where
  "sample_flight text' = (sample_sent text')\<lparr>w_pb := fst (zbx_pb_history_open (w_pb (sample_sent text'))), w_nextid := 3, w_idcache := 2,
     w_handles := [Inserting 1 [sample_row 2]], w_accepted := {sample_row 1, sample_row 2}\<rparr>"

lemma sample_sent_reachable: "\<exists>text'. pb_reachable table_db_ops True td_rows (sample_sent text')"
proof -
  define rd where "rd = reader_start table_db_ops sample_json 0 sample_db"
  define rd' where "rd' = rd\<lparr>rd_rows := [sample_row 1], rd_id := 1\<rparr>"
  let ?up = "\<lambda>u j. sample_start\<lparr>w_uploader := u, w_text := j\<rparr>"
  note defs = rd_def rd'_def reader_start_def sample_db_def table_db_ops_def sample_row_def
  have on: "reads_on rd" using sample_json(2) by (simp add: defs reads_on_def)
  have r: "read_once table_db_ops sample_db rd = (rd', False)" by (simp add: defs read_once_def)
  have open_at: "json_open_at (rd_num rd' = 0) (rd_json rd')" using message_open_at [OF sample_json(1)] by (simp add: defs)
  obtain rd'' c where b: "batch_end (\<lambda>_. True) rd' = Some (rd'', c)" "rd_rows rd' \<noteq> [] \<or> rd_lastid rd' \<noteq> 0 \<longrightarrow> rd_lastid rd'' \<noteq> 0"
    using batch_end_total [OF open_at, of "\<lambda>_. True"] by (auto simp: defs)
  have "\<not> c" using b(1) by (auto simp: batch_end_def rd'_def Let_def split: Option.bind_splits)
  moreover have lastid: "rd_lastid rd'' = 1" using batch_end_next(1) [OF b(1)] b(2) by (simp add: defs)
  ultimately have c: "c = False" by simp
  obtain text' where t: "close_array (rd_json rd'') (rd_num rd'') = Some text'" using close_array_total by blast
  have s: "w_uploader sample_start = Idle" "get_pb_src (pb_state (w_pb sample_start)) = PB_DATABASE" "w_db sample_start = sample_db"
    "w_missing sample_start = {}"
    by (simp_all add: sample_start_def zbx_pb_create_def)
  have m1: "pb_step table_db_ops True sample_start (?up (Reading rd {}) sample_json)"
    using pb_step.starts [OF s(1,2), of table_db_ops sample_json rd] sample_json(1) on s(3) by (simp add: rd_def sample_start_def)
  have R: "{r \<in> {} \<union> set (rd_rows rd'). row_id r \<le> 1} = {sample_row 1}" by (auto simp: rd'_def sample_row_def)
  let ?u = "Uploading {sample_row 1} 1 (rd_more rd'')"
  have m2: "pb_step table_db_ops True (?up (Reading rd {}) sample_json) (?up ?u text')"
    using pb_step.reads [of "?up (Reading rd {}) sample_json" rd "{}" table_db_ops rd' "\<lambda>_. True" rd'' False "{} \<union> set (rd_rows rd')" text'] r b(1) t s(3,4) R lastid c
    by (simp add: left_out_def sample_start_def)
  have m3: "pb_step table_db_ops True (?up ?u text') ((sample_sent text')\<lparr>w_uploader := Acknowledged (rd_more rd'')\<rparr>)"
    using pb_step.acks [of "?up ?u text'" "{sample_row 1}" 1 "rd_more rd''" table_db_ops "w_pb (sample_sent text')" "w_db (sample_sent text')"]
    by (simp add: sample_sent_def sample_start_def zbx_pb_set_history_lastid_def zbx_pb_create_def table_db_ops_def sample_db_def)
  have m4: "pb_step table_db_ops True ((sample_sent text')\<lparr>w_uploader := Acknowledged (rd_more rd'')\<rparr>) (sample_sent text')"
    using pb_step.skips [of "(sample_sent text')\<lparr>w_uploader := Acknowledged (rd_more rd'')\<rparr>" "rd_more rd''" table_db_ops]
    by (simp add: sample_sent_def sample_start_def)
  show ?thesis using pb_reachable.start [OF sample_start_ok] m1 m2 m3 m4 by (meson pb_reachable.step)
qed

lemma sample_flight_reachable:
  assumes "pb_reachable table_db_ops True td_rows (sample_sent text')"
  shows "pb_reachable table_db_ops True td_rows (sample_flight text')"
proof -
  let ?v = "sample_sent text'"
  define data where "data = \<lparr>hd_state = PB_DATABASE, hd_rows = [], hd_handleid = 1\<rparr>"
  define pb where "pb = fst (zbx_pb_history_open (w_pb ?v))"
  let ?w = "\<lambda>h. ?v\<lparr>w_pb := pb, w_handles := [h]\<rparr>"
  have o: "zbx_pb_history_open (w_pb ?v) = (pb, data)" and none: "w_handles ?v = []"
    by (simp_all add: pb_def data_def sample_sent_def sample_start_def zbx_pb_history_open_def pb_register_handle_def zbx_pb_create_def Let_def)
  have m1: "pb_step table_db_ops True ?v (?w (Collecting data))"
    using pb_step.opens [OF o, of table_db_ops] none by simp
  have m2: "pb_step table_db_ops True (?w (Collecting data)) (?w (Collecting (pb_history_add_value data (sample_row 0))))"
    using pb_step.writes [of "?w (Collecting data)" "[]" data "[]" table_db_ops True "sample_row 0"] by simp
  have m3: "pb_step table_db_ops True (?w (Collecting (pb_history_add_value data (sample_row 0)))) (sample_flight text')"
    using pb_step.closes_database [of "?w (Collecting (pb_history_add_value data (sample_row 0)))" "[]"
        "pb_history_add_value data (sample_row 0)" "[]" table_db_ops 2 2 True 3 "[sample_row 2]"]
    by (simp add: sample_flight_def database_ids_def dbconn_get_cached_nextid_def table_db_ops_def sample_db_def pb_def data_def pb_history_add_value_def close_db_def new_rows_def sample_sent_def sample_start_def
        sample_row_def insert_commute)
  show ?thesis using assms m1 m2 m3 by (meson pb_reachable.step)
qed

section \<open>Two caches of ids\<close>

text \<open>
  Without the restriction to rising ids the two caches give the same id twice: from the memory state with an empty
  table, a row that does not fit gets the id 1 from one cache and is being inserted, the buffer is on its way to the
  database state, and the row of the next handle gets the id 1 from the other.
\<close>

definition clash_start :: "table_db world" where
  "clash_start =
     \<lparr>w_pb = (zbx_pb_create ZBX_PB_MODE_HYBRID 0 0)\<lparr>changes_num := 1, pb_state := PB_MEMORY\<rparr>,
      w_db = \<lparr>td_rows = [], td_lastid = (\<lambda>_. 0)\<rparr>, w_nextid = 1, w_cache_id = None, w_idcache = 0, w_handles = [],
      w_uploader = Idle, w_accepted = {}, w_sent = {}, w_discarded = {},
      w_text = sample_json, w_missing = {}, w_received = [], w_unknown = {}\<rparr>"

lemma clash_start_ok: "pb_start table_db_ops td_rows (w_db clash_start) clash_start"
proof -
  have "pb_init_state table_db_ops (zbx_pb_create ZBX_PB_MODE_HYBRID 0 0) (w_db clash_start) = (w_pb clash_start, w_db clash_start)"
    by (simp add: pb_init_state_def pb_check_unsent_rows_def table_db_ops_def clash_start_def zbx_pb_create_def pb_set_state_def)
  then show ?thesis unfolding pb_start_def by (auto simp: clash_start_def)
qed

lemma open_and_write:
  assumes r: "pb_reachable D rising tbl w" and h: "zbx_pb_history_open (w_pb w) = (pb, data)"
  shows "pb_reachable D rising tbl (w\<lparr>w_pb := pb, w_handles := w_handles w @ [Collecting (pb_history_add_value data row)]\<rparr>)"
proof -
  let ?v = "w\<lparr>w_pb := pb, w_handles := w_handles w @ [Collecting data]\<rparr>"
  have "pb_reachable D rising tbl ?v" using pb_reachable.step [OF r pb_step.opens [OF h]] .
  from pb_reachable.step [OF this pb_step.writes [of ?v "w_handles w" data "[]"], of row] show ?thesis by simp
qed

lemma ids_clash:
  "\<exists>w r s. pb_reachable table_db_ops False td_rows w \<and> r \<in> w_accepted w \<and> s \<in> w_accepted w \<and> r \<noteq> s \<and> row_id r = row_id s"
proof -
  let ?r = "sample_row 1" and ?s = "sample_row 1\<lparr>row_itemid := 6\<rparr>"
  define pb1 where "pb1 = fst (zbx_pb_history_open (w_pb clash_start))"
  define data1 where "data1 = pb_history_add_value \<lparr>hd_state = PB_MEMORY, hd_rows = [], hd_handleid = 1\<rparr> ?r"
  define w1 where "w1 = clash_start\<lparr>w_pb := pb1, w_handles := [Collecting data1]\<rparr>"
  define pb2 where "pb2 = pb1\<lparr>pb_state := PB_MEMORY_DATABASE, changes_num := 2, db_handles_num := 1\<rparr>"
  define w2 where "w2 = w1\<lparr>w_pb := pb2, w_nextid := 2, w_cache_id := Some 1, w_handles := [Inserting 1 [?r]], w_accepted := {?r}\<rparr>"
  define pb3 where "pb3 = fst (zbx_pb_history_open pb2)"
  define data3 where "data3 = pb_history_add_value \<lparr>hd_state = PB_DATABASE, hd_rows = [], hd_handleid = 2\<rparr> ?s"
  define w3 where "w3 = w2\<lparr>w_pb := pb3, w_handles := [Inserting 1 [?r], Collecting data3]\<rparr>"
  define w4 where "w4 = w3\<lparr>w_idcache := 1, w_handles := [Inserting 1 [?r], Inserting 2 [?s]], w_accepted := {?r, ?s}\<rparr>"
  note opens = zbx_pb_history_open_def pb_register_handle_def Let_def
  have pb1: "zbx_pb_history_open (w_pb clash_start) = (pb1, \<lparr>hd_state = PB_MEMORY, hd_rows = [], hd_handleid = 1\<rparr>)"
    by (simp add: pb1_def opens clash_start_def zbx_pb_create_def)
  have fields: "pb_state pb1 = PB_MEMORY" "pb_history pb1 = []" "max_age pb1 = 0" "db_handles_num pb1 = 0" "changes_num pb1 = 1"
    "pb_mode pb1 = ZBX_PB_MODE_HYBRID" "last_handleid pb1 = 1"
    by (simp_all add: pb1_def opens clash_start_def zbx_pb_create_def)
  have r1: "pb_reachable table_db_ops False td_rows w1"
    using open_and_write [OF pb_reachable.start [OF clash_start_ok] pb1, of False ?r] by (simp add: w1_def data1_def clash_start_def)
  have rows1: "hd_rows data1 = [?r\<lparr>row_id := 0\<rparr>]" "hd_handleid data1 = 1" "hd_state data1 = PB_MEMORY"
    by (simp_all add: data1_def pb_history_add_value_def)
  have age: "pb_history_check_age 0 0 pb1 = (pb1, True)" using fields by (simp add: pb_history_check_age_def)
  have "close_lock table_db_ops (\<lambda>_ _. False) 0 0 pb1 (w_db clash_start) 1 data1 = (pb2, w_db clash_start, 2, Some [?r])"
    unfolding close_lock_def rows1 fields
    by (simp add: age close_rows_def fields pb_history_add_rows_mem_def add_row_loop.simps pb_history_add_row_mem_def pb_set_state_def
        pb2_def sample_row_def)
  moreover have "memory_ids table_db_ops w1 data1 = (1, Some 1)"
    using rows1 by (simp add: memory_ids_def zbx_dc_get_nextid_def table_db_ops_def w1_def clash_start_def)
  moreover have "new_rows 1 data1 = [?r]" "too_old 0 pb1 data1 = []"
    using rows1 fields by (simp_all add: new_rows_def too_old_def sample_row_def)
  moreover have "w_pb w1 = pb1" "w_db w1 = w_db clash_start" "w_handles w1 = [Collecting data1]" by (simp_all add: w1_def)
  ultimately have "pb_step table_db_ops False w1 w2"
    using pb_step.closes_memory [of w1 "[]" data1 "[]" table_db_ops 1 "Some 1" False "\<lambda>_ _. False" 0 0 pb2 "w_db clash_start" 2 "Some [?r]"] rows1
    by (simp add: w2_def w1_def clash_start_def close_phase_def numeral_2_eq_2)
  from pb_reachable.step [OF r1 this] have r2: "pb_reachable table_db_ops False td_rows w2" .
  have "zbx_pb_history_open (w_pb w2) = (pb3, \<lparr>hd_state = PB_DATABASE, hd_rows = [], hd_handleid = 2\<rparr>)"
    using fields by (simp add: pb3_def w2_def pb2_def opens)
  from open_and_write [OF r2 this, of ?s] have r3: "pb_reachable table_db_ops False td_rows w3" by (simp add: w3_def w2_def data3_def)
  have rows3: "hd_rows data3 = [?s\<lparr>row_id := 0\<rparr>]" "hd_handleid data3 = 2" "hd_state data3 = PB_DATABASE"
    by (simp_all add: data3_def pb_history_add_value_def)
  have "database_ids table_db_ops w3 data3 = (1, 1)"
    using rows3 by (simp add: database_ids_def dbconn_get_cached_nextid_def table_db_ops_def w3_def w2_def w1_def clash_start_def)
  moreover have "close_db 1 data3 = (2, [?s])" "new_rows 1 data3 = [?s]"
    using rows3 by (simp_all add: close_db_def new_rows_def sample_row_def)
  ultimately have "pb_step table_db_ops False w3 w4"
    using pb_step.closes_database [of w3 "[Inserting 1 [?r]]" data3 "[]" table_db_ops 1 1 False 2 "[?s]"] rows3
    by (simp add: w4_def w3_def w2_def w1_def clash_start_def insert_commute numeral_2_eq_2)
  from pb_reachable.step [OF r3 this] have "pb_reachable table_db_ops False td_rows w4" .
  moreover have "?r \<in> w_accepted w4" "?s \<in> w_accepted w4" "?r \<noteq> ?s" "row_id ?r = row_id ?s" by (simp_all add: w4_def sample_row_def)
  ultimately show ?thesis by blast
qed

section \<open>The properties\<close>

text \<open>
  C2: the texts that the server acknowledged open as objects with the records of rows (\<open>text_rows\<close>, \<open>history_record\<close>), the ids
  of these rows rise through all of them, and every accepted row, one that got its id, is among them, or was left out because
  its item was not known when its text was written, or carries neither value nor position and a newer such row of its item was
  accepted, or was dropped for its age, or is still in memory, in an open transaction or in the table after the last id sent.
  The text of an upload that waits for its answer has only rows newer than all these, so the server takes none of them for a
  duplicate.

  This is for every interleaving of processes that fill handles with one that uploads, with two restrictions: ids rise,
  whichever cache they come from (\<open>ids_clash\<close> is a run in which they do not), and the change from the database state towards
  the memory state does not come while a handle that was opened for the database is still being filled, which the code
  does not check. A text is as \<open>zbx_pb_history_get_rows\<close> leaves it; what the sender adds after the history is not in it.
\<close>

theorem pb_no_loss:
  assumes "history_db_ok D tbl" "pb_reachable D True tbl w"
  shows "\<exists>sent. list_all2 text_rows (w_received w) sent \<and> sorted_wrt (<) (map row_id (concat sent))
    \<and> w_accepted w \<subseteq> set (concat sent) \<union> w_unknown w \<union> {r. superseded (w_accepted w) r} \<union> w_discarded w \<union> buffered D tbl w
    \<and> (\<forall>R lastid more_data. w_uploader w = Uploading R lastid more_data \<longrightarrow>
        (\<exists>rs. text_rows (w_text w) rs \<and> sorted_wrt (<) (map row_id (concat sent @ rs))))"
  by (rule accounted [OF assms])

lemma sample_row_value: "\<not> superseded R (sample_row n)"
  by (simp add: superseded_def carries_value_def sample_row_def)

theorem pb_no_loss_witness:
  "\<exists>text' rs. pb_reachable table_db_ops True td_rows (sample_flight text') \<and> w_accepted (sample_flight text') = {sample_row 1, sample_row 2}
    \<and> w_received (sample_flight text') = [text'] \<and> text_rows text' rs \<and> sample_row 1 \<in> set rs"
proof -
  obtain text' where v: "pb_reachable table_db_ops True td_rows (sample_sent text')" using sample_sent_reachable by blast
  note w = sample_flight_reachable [OF v]
  let ?w = "sample_flight text'"
  have fields: "w_received ?w = [text']" "w_accepted ?w = {sample_row 1, sample_row 2}" "w_unknown ?w = {}" "w_discarded ?w = {}"
    by (simp_all add: sample_flight_def sample_sent_def sample_start_def)
  have "sample_row 1 \<notin> buffered table_db_ops td_rows ?w"
    by (simp add: buffered_def sample_flight_def sample_sent_def sample_start_def sample_db_def table_db_ops_def sample_row_def
        zbx_pb_history_open_def pb_register_handle_def zbx_pb_create_def Let_def)
  moreover from pb_no_loss [OF table_db_ok w] obtain sent where sent: "list_all2 text_rows [text'] sent"
    "{sample_row 1, sample_row 2} \<subseteq> set (concat sent) \<union> {r. superseded {sample_row 1, sample_row 2} r} \<union> buffered table_db_ops td_rows ?w"
    unfolding fields by auto
  ultimately have "sample_row 1 \<in> set (concat sent)" using sample_row_value by auto
  moreover obtain rs where "sent = [rs]" "text_rows text' rs" using sent(1) by (auto simp: list_all2_Cons1)
  ultimately show ?thesis using w fields by (intro exI [of _ text'] exI [of _ rs]) simp
qed

text \<open>
  C3: when no handle is open, a bounded number of successful uploads empties the buffer: from any state that can be
  reached, three more than the rows not sent are enough to have nothing in memory and the buffer in the memory state. Then
  every accepted row has its record in one of the texts the server acknowledged, the last of them being the results of these
  uploads, except for rows whose item was not known in some upload, rows without value and position that a newer one
  of their item replaces, and rows dropped for their age. The uploads begin with any text of an object without history,
  below the limit at which reading ends. What can be reached is restricted as above: ids rise, and the buffer does not turn
  to memory while a handle opened for the database is being filled.
\<close>

theorem pb_drains:
  assumes "history_db_ok D tbl" "pb_reachable D True tbl w" "w_handles w = []" "w_uploader w = Idle"
    "\<forall>(exportable, j) \<in> set cycles. message_start j \<and> buffer_offset j < ZBX_DATA_JSON_BATCH_LIMIT"
    "unsent tbl (w_pb w) (w_db w) + 3 \<le> length cycles"
  shows "\<exists>w' texts sent. upload_cycles D cycles (w_pb w) (w_db w) = Some (texts, w_pb w', w_db w') \<and> (pb_step D True)\<^sup>*\<^sup>* w w'
    \<and> pb_state (w_pb w') = PB_MEMORY \<and> pb_history (w_pb w') = []
    \<and> list_all2 text_rows (w_received w @ texts) sent \<and> sorted_wrt (<) (map row_id (concat sent))
    \<and> w_accepted w \<subseteq> set (concat sent) \<union> w_unknown w \<union> {r. \<exists>(exportable, j) \<in> set cycles. \<not> exportable (row_itemid r)}
        \<union> {r. superseded (w_accepted w) r} \<union> w_discarded w"
  by (rule drained [OF assms])

theorem pb_drains_witness:
  "\<exists>texts pb db sent. upload_cycles table_db_ops (replicate 4 (\<lambda>_. True, sample_json)) (w_pb sample_start) (w_db sample_start) = Some (texts, pb, db)
    \<and> pb_state pb = PB_MEMORY \<and> pb_history pb = [] \<and> list_all2 text_rows texts sent \<and> sample_row 1 \<in> set (concat sent)"
proof -
  let ?cycles = "replicate 4 (\<lambda>_ :: nat. True, sample_json)"
  have ok: "\<forall>(exportable, j) \<in> set ?cycles. message_start j \<and> buffer_offset j < ZBX_DATA_JSON_BATCH_LIMIT"
    using sample_json by simp
  have idle: "w_handles sample_start = []" "w_uploader sample_start = Idle" by (simp_all add: sample_start_def)
  have n: "unsent td_rows (w_pb sample_start) (w_db sample_start) + 3 \<le> length ?cycles"
    by (simp add: unsent_def rows_after_def sample_start_def sample_db_def sample_row_def zbx_pb_create_def)
  have fields: "w_received sample_start = []" "w_accepted sample_start = {sample_row 1}" "w_unknown sample_start = {}"
    "w_discarded sample_start = {}" "{r. \<exists>(exportable, j) \<in> set ?cycles. \<not> exportable (row_itemid r)} = {}"
    by (simp_all add: sample_start_def)
  from pb_drains [OF table_db_ok pb_reachable.start [OF sample_start_ok] idle ok n] obtain w' :: "table_db world" and texts sent where
    w': "upload_cycles table_db_ops ?cycles (w_pb sample_start) (w_db sample_start) = Some (texts, w_pb w', w_db w')"
    "pb_state (w_pb w') = PB_MEMORY" "pb_history (w_pb w') = []" "list_all2 text_rows texts sent"
    "{sample_row 1} \<subseteq> set (concat sent) \<union> {r. superseded {sample_row 1} r}" unfolding fields by auto
  have "sample_row 1 \<in> set (concat sent)" using w'(5) sample_row_value by auto
  then show ?thesis using w'(1-4) by blast
qed

end
