(* ===== verification/ZbxPbOther.thy ===== *)
theory ZbxPbOther
  imports ZbxPbDrain ZbxNum
begin

text \<open>
  The other two kinds of data in the proxy buffer, \<^verbatim>\<open>pb_discovery.c\<close> and \<^verbatim>\<open>pb_autoreg.c\<close>, with the reading of their rows
  from the database in \<^verbatim>\<open>proxybuffer.c\<close>.

  \<^item> Discovery records are written through handles as history is, autoregistration records one by one. As for history,
    the functions that write are split where the lock is released.
  \<^item> A statement that selects rows gives their columns as text. \<open>wait\<close> is what happens to the database while the reader
    sleeps before its second attempt.
\<close>

section \<open>Tables and their fields\<close>

record 'db pb_rows_db = "'db pb_db" +
  select_rows :: "pb_table \<Rightarrow> nat \<Rightarrow> nat \<Rightarrow> 'db \<Rightarrow> (nat \<times> string list) list"

record zbx_history_field =
  hf_field :: string
  hf_tag :: string
  hf_jt :: zbx_json_type_t
  hf_default :: "string option"

record zbx_history_table =
  ht_table :: pb_table
  ht_fields :: "zbx_history_field list"

abbreviation (input) history_field :: "string \<Rightarrow> string \<Rightarrow> zbx_json_type_t \<Rightarrow> string option \<Rightarrow> zbx_history_field" where
  "history_field name tag jt default_value \<equiv> \<lparr>hf_field = name, hf_tag = tag, hf_jt = jt, hf_default = default_value\<rparr>"

definition dht :: zbx_history_table where
  "dht = \<lparr>ht_table = PROXY_DHISTORY, ht_fields =
     [history_field ''clock'' ''clock'' ZBX_JSON_TYPE_INT None,
      history_field ''druleid'' ''drule'' ZBX_JSON_TYPE_INT None,
      history_field ''dcheckid'' ''dcheck'' ZBX_JSON_TYPE_INT None,
      history_field ''ip'' ''ip'' ZBX_JSON_TYPE_STRING None,
      history_field ''dns'' ''dns'' ZBX_JSON_TYPE_STRING (Some ''''),
      history_field ''port'' ''port'' ZBX_JSON_TYPE_INT (Some ''0''),
      history_field ''value'' ''value'' ZBX_JSON_TYPE_STRING (Some ''''),
      history_field ''status'' ''status'' ZBX_JSON_TYPE_INT (Some ''0''),
      history_field ''error'' ''error'' ZBX_JSON_TYPE_STRING (Some '''')]\<rparr>"

definition areg :: zbx_history_table where
  "areg = \<lparr>ht_table = PROXY_AUTOREG_HOST, ht_fields =
     [history_field ''clock'' ''clock'' ZBX_JSON_TYPE_INT None,
      history_field ''host'' ''host'' ZBX_JSON_TYPE_STRING None,
      history_field ''listen_ip'' ''ip'' ZBX_JSON_TYPE_STRING (Some ''''),
      history_field ''listen_dns'' ''dns'' ZBX_JSON_TYPE_STRING (Some ''''),
      history_field ''listen_port'' ''port'' ZBX_JSON_TYPE_INT (Some ''0''),
      history_field ''host_metadata'' ''host_metadata'' ZBX_JSON_TYPE_STRING (Some ''''),
      history_field ''flags'' ''flags'' ZBX_JSON_TYPE_INT (Some ''0''),
      history_field ''tls_accepted'' ''tls_accepted'' ZBX_JSON_TYPE_INT (Some ''0'')]\<rparr>"

section \<open>Records from memory\<close>

datatype field_value = ZBX_TYPE_CHAR string | ZBX_TYPE_INT int | ZBX_TYPE_UINT nat

definition default_text :: "zbx_history_field \<Rightarrow> string \<Rightarrow> bool" where
  "default_text fld s \<longleftrightarrow> (case hf_default fld of None \<Rightarrow> False | Some d \<Rightarrow> cstr d = cstr s)"

text \<open>The call that writes a field, none for a field with its default value or an unknown one.\<close>

definition pb_add_json_field :: "zbx_history_table \<Rightarrow> string \<Rightarrow> field_value \<Rightarrow> write_op list" where
  "pb_add_json_field table fld_name v =
     (case find (\<lambda>fld. hf_field fld = fld_name) (ht_fields table) of
        None \<Rightarrow> []
      | Some fld \<Rightarrow>
          (case v of
             ZBX_TYPE_CHAR s \<Rightarrow> if default_text fld s then [] else [AddString (Some (hf_tag fld)) s]
           | ZBX_TYPE_INT n \<Rightarrow>
               if Option.bind (hf_default fld) zbx_is_int = Some n then [] else [AddInt64 (Some (hf_tag fld)) (of_int n)]
           | ZBX_TYPE_UINT n \<Rightarrow>
               if Option.bind (hf_default fld) (\<lambda>d. zbx_is_uint64_n d ZBX_SIZE_T_MAX) = Some n then []
               else [AddUint64 (Some (hf_tag fld)) (of_nat n)]))"

definition discovery_members :: "zbx_pb_discovery \<Rightarrow> write_op list" where
  "discovery_members row =
     pb_add_json_field dht ''clock'' (ZBX_TYPE_INT (drow_clock row))
     @ pb_add_json_field dht ''druleid'' (ZBX_TYPE_UINT (drow_druleid row))
     @ pb_add_json_field dht ''dcheckid'' (ZBX_TYPE_UINT (drow_dcheckid row))
     @ pb_add_json_field dht ''ip'' (ZBX_TYPE_CHAR (drow_ip row))
     @ pb_add_json_field dht ''dns'' (ZBX_TYPE_CHAR (drow_dns row))
     @ pb_add_json_field dht ''port'' (ZBX_TYPE_INT (drow_port row))
     @ pb_add_json_field dht ''value'' (ZBX_TYPE_CHAR (drow_value row))
     @ pb_add_json_field dht ''status'' (ZBX_TYPE_INT (drow_status row))
     @ pb_add_json_field dht ''error'' (ZBX_TYPE_CHAR (drow_error row))"

definition autoreg_members :: "zbx_pb_autoreg \<Rightarrow> write_op list" where
  "autoreg_members row =
     pb_add_json_field areg ''clock'' (ZBX_TYPE_INT (arow_clock row))
     @ pb_add_json_field areg ''host'' (ZBX_TYPE_CHAR (arow_host row))
     @ pb_add_json_field areg ''listen_ip'' (ZBX_TYPE_CHAR (arow_listen_ip row))
     @ pb_add_json_field areg ''listen_dns'' (ZBX_TYPE_CHAR (arow_listen_dns row))
     @ pb_add_json_field areg ''listen_port'' (ZBX_TYPE_INT (arow_listen_port row))
     @ pb_add_json_field areg ''host_metadata'' (ZBX_TYPE_CHAR (arow_host_metadata row))
     @ pb_add_json_field areg ''flags'' (ZBX_TYPE_INT (arow_flags row))
     @ pb_add_json_field areg ''tls_accepted'' (ZBX_TYPE_INT (arow_tls_accepted row))"

definition record_ops :: "write_op list \<Rightarrow> write_op list" where
  "record_ops members = AddObject None # members @ [CloseTop]"

text \<open>The two kinds are read from memory in the same way, but for the members of a record and the name of the array.\<close>

fun get_rows_mem_loop ::
  "('r \<Rightarrow> nat) \<Rightarrow> ('r \<Rightarrow> write_op list) \<Rightarrow> zbx_json \<Rightarrow> nat \<Rightarrow> nat \<Rightarrow> 'r list \<Rightarrow> (zbx_json \<times> nat \<times> nat \<times> pb_more) option" where
  "get_rows_mem_loop rid members j records_num lastid [] = Some (j, records_num, lastid, ZBX_PROXY_DATA_DONE)"
| "get_rows_mem_loop rid members j records_num lastid (row # rows) =
     (if ZBX_DATA_JSON_BATCH_LIMIT \<le> buffer_offset j \<or> records_num \<ge> ZBX_MAX_HRECORDS_TOTAL
      then Some (j, records_num, lastid, ZBX_PROXY_DATA_MORE)
      else do {
        j \<leftarrow> exec_ops j (record_ops (members row));
        get_rows_mem_loop rid members j (records_num + 1) (rid row) rows
      })"

definition get_rows_mem ::
  "('r \<Rightarrow> nat) \<Rightarrow> ('r \<Rightarrow> write_op list) \<Rightarrow> string \<Rightarrow> zbx_json \<Rightarrow> nat \<Rightarrow> 'r list \<Rightarrow> (zbx_json \<times> nat \<times> nat \<times> pb_more) option" where
  "get_rows_mem rid members tag j lastid rows =
     (if rows = [] then Some (j, 0, lastid, ZBX_PROXY_DATA_DONE)
      else do {
        j \<leftarrow> exec_op j (AddArray (Some tag));
        (j, records_num, lastid, more_data) \<leftarrow> get_rows_mem_loop rid members j 0 lastid rows;
        j \<leftarrow> exec_op j CloseTop;
        Some (j, records_num, lastid, more_data)
      })"

definition pb_discovery_get_mem :: "zbx_pb \<Rightarrow> zbx_json \<Rightarrow> nat \<Rightarrow> (zbx_json \<times> nat \<times> nat \<times> pb_more) option" where
  "pb_discovery_get_mem pb j lastid = get_rows_mem drow_id discovery_members ''discovery data'' j lastid (pb_discovery pb)"

definition pb_autoreg_get_mem :: "zbx_pb \<Rightarrow> zbx_json \<Rightarrow> nat \<Rightarrow> (zbx_json \<times> nat \<times> nat \<times> pb_more) option" where
  "pb_autoreg_get_mem pb j lastid = get_rows_mem arow_id autoreg_members ''auto registration'' j lastid (pb_autoreg pb)"

section \<open>Records from the database\<close>

text \<open>The tables have fields of these two types only.\<close>

definition column_ops :: "zbx_history_field \<Rightarrow> string \<Rightarrow> write_op list" where
  "column_ops fld s =
     (if default_text fld s then []
      else if hf_jt fld = ZBX_JSON_TYPE_INT then [AddNumber (Some (hf_tag fld)) s] else [AddString (Some (hf_tag fld)) s])"

definition columns_ops :: "zbx_history_field list \<Rightarrow> string list \<Rightarrow> write_op list" where
  "columns_ops flds columns = concat (map2 column_ops flds columns)"

text \<open>
  The rows of one select statement: \<open>None\<close> in the last part when a row is missing and the statement is to be repeated,
  else whether the packet is full. The last id is that of the row read last, also of the one after a gap.
\<close>

fun rows_db_loop ::
  "zbx_history_field list \<Rightarrow> string \<Rightarrow> bool \<Rightarrow> zbx_json \<Rightarrow> nat \<Rightarrow> nat \<Rightarrow> nat \<Rightarrow> (nat \<times> string list) list
   \<Rightarrow> (zbx_json \<times> nat \<times> nat \<times> nat \<times> bool option) option" where
  "rows_db_loop flds proto_tag retry j lastid i records_num [] = Some (j, lastid, i, records_num, Some False)"
| "rows_db_loop flds proto_tag retry j lastid i records_num ((rowid, columns) # rows) =
     (if 1 < int rowid - int i \<and> retry then Some (j, rowid, i, records_num, None)
      else do {
        j \<leftarrow> (if records_num = 0 then exec_op j (AddArray (Some proto_tag)) else Some j);
        j \<leftarrow> exec_ops j (record_ops (columns_ops flds columns));
        if ZBX_DATA_JSON_RECORD_LIMIT < buffer_offset j then Some (j, rowid, i, records_num + 1, Some True)
        else rows_db_loop flds proto_tag retry j rowid rowid (records_num + 1) rows
      })"

definition pb_get_rows_db ::
  "('db, 'b) pb_rows_db_scheme \<Rightarrow> ('db \<Rightarrow> 'db) \<Rightarrow> string \<Rightarrow> zbx_history_table \<Rightarrow> 'db \<Rightarrow> zbx_json \<Rightarrow> nat \<Rightarrow> nat \<Rightarrow> nat
   \<Rightarrow> (zbx_json \<times> nat \<times> nat \<times> nat \<times> pb_more) option" where
  "pb_get_rows_db D wait proto_tag ht db j lastid i records_num =
     do {
       (j', lastid', i', records_num', stop) \<leftarrow>
         rows_db_loop (ht_fields ht) proto_tag True j lastid i records_num (select_rows D (ht_table ht) i ZBX_MAX_HRECORDS db);
       (j', lastid', i', records_num', stop) \<leftarrow>
         (if stop = None
          then rows_db_loop (ht_fields ht) proto_tag False j' lastid' i' records_num'
                 (select_rows D (ht_table ht) i' ZBX_MAX_HRECORDS (wait db))
          else Some (j', lastid', i', records_num', stop));
       Some (j', lastid', i', records_num',
         if stop = Some True \<or> records_num' - records_num = ZBX_MAX_HRECORDS then ZBX_PROXY_DATA_MORE else ZBX_PROXY_DATA_DONE)
     }"

lemma rows_db_loop_num:
  "rows_db_loop flds tag retry j lastid i n rows = Some (j', lastid', i', n', stop) \<Longrightarrow> n \<le> n' \<and> (stop = Some True \<longrightarrow> n < n')"
proof (induction flds tag retry j lastid i n rows rule: rows_db_loop.induct)
  case (2 flds tag retry j lastid i n rowid columns rows)
  show ?case
  proof (cases "1 < int rowid - int i \<and> retry")
    case False
    obtain j1 where a: "(if n = 0 then exec_op j (AddArray (Some tag)) else Some j) = Some j1"
      using 2(2) False by (auto split: Option.bind_splits)
    obtain j2 where b: "exec_ops j1 (record_ops (columns_ops flds columns)) = Some j2"
      using 2(2) False a by (auto split: Option.bind_splits)
    have step: "(if ZBX_DATA_JSON_RECORD_LIMIT < buffer_offset j2 then Some (j2, rowid, i, n + 1, Some True)
        else rows_db_loop flds tag retry j2 rowid rowid (n + 1) rows) = Some (j', lastid', i', n', stop)"
      using 2(2) False a b by simp
    show ?thesis
    proof (cases "ZBX_DATA_JSON_RECORD_LIMIT < buffer_offset j2")
      case False
      then show ?thesis using 2(1) [OF \<open>\<not> (1 < int rowid - int i \<and> retry)\<close> a b False] step by simp
    qed (use step in simp)
  qed (use 2 in simp)
qed auto

lemma get_rows_db_num:
  assumes "pb_get_rows_db D wait tag ht db j lastid i n = Some (j', lastid', i', n', ZBX_PROXY_DATA_MORE)"
  shows "n < n'"
proof -
  obtain j1 l1 i1 n1 s1 where a: "rows_db_loop (ht_fields ht) tag True j lastid i n (select_rows D (ht_table ht) i 1000 db) = Some (j1, l1, i1, n1, s1)"
    using assms by (auto simp: pb_get_rows_db_def split: Option.bind_splits)
  obtain j2 l2 i2 n2 s2 where b: "(if s1 = None then rows_db_loop (ht_fields ht) tag False j1 l1 i1 n1 (select_rows D (ht_table ht) i1 1000 (wait db))
      else Some (j1, l1, i1, n1, s1)) = Some (j2, l2, i2, n2, s2)"
    using assms a by (auto simp: pb_get_rows_db_def split: Option.bind_splits)
  have r: "s2 = Some True \<or> n2 - n = 1000" "n' = n2" using assms a b by (auto simp: pb_get_rows_db_def split: if_splits)
  have "n \<le> n1" "s1 = Some True \<longrightarrow> n < n1" using rows_db_loop_num [OF a] by simp_all
  moreover have "n1 \<le> n2 \<and> (s2 = Some True \<longrightarrow> n1 < n2 \<or> s1 = s2)"
    using b rows_db_loop_num [of "ht_fields ht" tag False j1 l1 i1 n1 _ j2 l2 i2 n2 s2] by (cases "s1 = None") auto
  ultimately show ?thesis using r by auto
qed

text \<open>
  The loop over batches; \<open>more_data\<close> is what the caller passed as long as no batch was read. A batch after which another
  follows has added records.
\<close>

function get_other_loop ::
  "('db, 'b) pb_rows_db_scheme \<Rightarrow> ('db \<Rightarrow> 'db) \<Rightarrow> string \<Rightarrow> zbx_history_table \<Rightarrow> 'db \<Rightarrow> zbx_json \<Rightarrow> nat \<Rightarrow> nat \<Rightarrow> nat \<Rightarrow> pb_more
   \<Rightarrow> (zbx_json \<times> nat \<times> nat \<times> pb_more) option" where
  "get_other_loop D wait proto_tag ht db j lastid i records_num more_data =
     (if buffer_offset j < ZBX_DATA_JSON_BATCH_LIMIT then
        (case pb_get_rows_db D wait proto_tag ht db j lastid i records_num of
           None \<Rightarrow> None
         | Some (j, lastid, i, records_num, more_data) \<Rightarrow>
             if more_data = ZBX_PROXY_DATA_DONE \<or> ZBX_MAX_HRECORDS_TOTAL \<le> records_num then Some (j, lastid, records_num, more_data)
             else get_other_loop D wait proto_tag ht db j lastid i records_num more_data)
      else Some (j, lastid, records_num, more_data))"
  by pat_completeness auto
termination get_other_loop
proof (relation "measure (\<lambda>(D, wait, tag, ht, db, j, lastid, i, n, m). 10000 - n)", goal_cases)
  case (2 D wait tag ht db j lastid i n m r j' x1 lastid' x2 i' x3 n' m')
  then have "m' = ZBX_PROXY_DATA_MORE" by (cases m') auto
  then show ?case using get_rows_db_num [of D wait tag ht db j lastid i n j' lastid' i' n'] 2 by auto
qed simp

declare get_other_loop.simps [simp del]

definition pb_get_other_db ::
  "('db, 'b) pb_rows_db_scheme \<Rightarrow> ('db \<Rightarrow> 'db) \<Rightarrow> string \<Rightarrow> zbx_history_table \<Rightarrow> 'db \<Rightarrow> zbx_json \<Rightarrow> nat \<Rightarrow> pb_more
   \<Rightarrow> (zbx_json \<times> nat \<times> nat \<times> pb_more) option" where
  "pb_get_other_db D wait proto_tag ht db j lastid more_data =
     do {
       (j, lastid, records_num, more_data) \<leftarrow>
         get_other_loop D wait proto_tag ht db j lastid (select_lastid D (ht_table ht) db) 0 more_data;
       j \<leftarrow> (if records_num \<noteq> 0 then exec_op j CloseTop else Some j);
       Some (j, records_num, lastid, more_data)
     }"

definition pb_get_discovery_db ::
  "('db, 'b) pb_rows_db_scheme \<Rightarrow> ('db \<Rightarrow> 'db) \<Rightarrow> 'db \<Rightarrow> zbx_json \<Rightarrow> nat \<Rightarrow> pb_more \<Rightarrow> (zbx_json \<times> nat \<times> nat \<times> pb_more) option" where
  "pb_get_discovery_db D wait db j lastid more_data = pb_get_other_db D wait ''discovery data'' dht db j lastid more_data"

definition pb_autoreg_get_db ::
  "('db, 'b) pb_rows_db_scheme \<Rightarrow> ('db \<Rightarrow> 'db) \<Rightarrow> 'db \<Rightarrow> zbx_json \<Rightarrow> nat \<Rightarrow> pb_more \<Rightarrow> (zbx_json \<times> nat \<times> nat \<times> pb_more) option" where
  "pb_autoreg_get_db D wait db j lastid more_data = pb_get_other_db D wait ''auto registration'' areg db j lastid more_data"

section \<open>Discovery records\<close>

record zbx_pb_discovery_data =
  dd_state :: zbx_pb_state_t
  dd_rows :: "zbx_pb_discovery list"
  dd_handleid :: nat

definition zbx_pb_discovery_open :: "zbx_pb \<Rightarrow> zbx_pb \<times> zbx_pb_discovery_data" where
  "zbx_pb_discovery_open pb =
     (let handleid = last_handleid pb + 1; pb = pb\<lparr>last_handleid := handleid\<rparr>; dst = get_pb_dst (pb_state pb);
          pb = (if dst = PB_DATABASE then pb\<lparr>db_handles_num := db_handles_num pb + 1\<rparr> else pb)
      in (pb, \<lparr>dd_state = dst, dd_rows = [], dd_handleid = handleid\<rparr>))"

definition pb_discovery_write_row ::
  "zbx_pb_discovery_data \<Rightarrow> nat \<Rightarrow> nat \<Rightarrow> string \<Rightarrow> string \<Rightarrow> int \<Rightarrow> int \<Rightarrow> string \<Rightarrow> int \<Rightarrow> string option \<Rightarrow> zbx_pb_discovery_data" where
  "pb_discovery_write_row data druleid dcheckid ip dns port dstatus value clock error =
     data\<lparr>dd_rows := dd_rows data @
       [\<lparr>drow_id = 0, drow_druleid = druleid, drow_dcheckid = dcheckid, drow_handleid = 0, drow_dns = dns, drow_ip = ip,
         drow_value = value, drow_error = (case error of None \<Rightarrow> [] | Some e \<Rightarrow> e), drow_port = port, drow_clock = clock,
         drow_status = dstatus\<rparr>]\<rparr>"

definition zbx_pb_discovery_write_service ::
  "zbx_pb_discovery_data \<Rightarrow> nat \<Rightarrow> nat \<Rightarrow> string \<Rightarrow> string \<Rightarrow> int \<Rightarrow> int \<Rightarrow> string \<Rightarrow> int \<Rightarrow> zbx_pb_discovery_data" where
  "zbx_pb_discovery_write_service data druleid dcheckid ip dns port dstatus value clock =
     pb_discovery_write_row data druleid dcheckid ip dns port dstatus value clock (Some [])"

definition zbx_pb_discovery_write_host ::
  "zbx_pb_discovery_data \<Rightarrow> nat \<Rightarrow> string \<Rightarrow> string \<Rightarrow> int \<Rightarrow> int \<Rightarrow> string option \<Rightarrow> zbx_pb_discovery_data" where
  "zbx_pb_discovery_write_host data druleid ip dns dstatus clock error =
     pb_discovery_write_row data druleid 0 ip dns 0 dstatus [] clock error"

fun pb_discovery_set_row_ids :: "nat \<Rightarrow> nat \<Rightarrow> zbx_pb_discovery list \<Rightarrow> zbx_pb_discovery list" where
  "pb_discovery_set_row_ids i handleid [] = []"
| "pb_discovery_set_row_ids i handleid (r # rows) =
     r\<lparr>drow_id := i, drow_handleid := handleid\<rparr> # pb_discovery_set_row_ids (i + 1) handleid rows"

definition pb_discovery_check_age :: "int \<Rightarrow> int \<Rightarrow> zbx_pb \<Rightarrow> zbx_pb \<times> bool" where
  "pb_discovery_check_age now later pb =
     (let rows = dropWhile (\<lambda>r. \<not> now - drow_clock r \<le> offline_buffer pb) (pb_discovery pb);
          pb = pb\<lparr>pb_discovery := rows\<rparr>
      in (pb, max_age pb = 0 \<or> rows = [] \<or> later - drow_clock (hd rows) < max_age pb))"

definition pb_discovery_clear :: "zbx_pb \<Rightarrow> nat \<Rightarrow> zbx_pb" where
  "pb_discovery_clear pb lastid = pb\<lparr>pb_discovery := dropWhile (\<lambda>r. drow_id r \<le> lastid) (pb_discovery pb)\<rparr>"

definition pb_discovery_add_row_mem ::
  "(zbx_pb \<Rightarrow> zbx_pb_discovery \<Rightarrow> bool) \<Rightarrow> zbx_pb \<Rightarrow> zbx_pb_discovery \<Rightarrow> zbx_pb option" where
  "pb_discovery_add_row_mem fits pb src = (if fits pb src then Some (pb\<lparr>pb_discovery := pb_discovery pb @ [src]\<rparr>) else None)"

lemma other_size_pos: "0 < pb_discovery_estimate_row_size d" "0 < pb_autoreg_estimate_row_size a"
  by (simp_all add: pb_discovery_estimate_row_size_def pb_autoreg_estimate_row_size_def zbx_shmem_required_chunk_size_def)

function add_discovery_loop ::
  "(zbx_pb \<Rightarrow> zbx_pb_discovery \<Rightarrow> bool) \<Rightarrow> zbx_pb \<Rightarrow> nat \<Rightarrow> zbx_pb_discovery \<Rightarrow> (zbx_pb \<times> nat) option" where
  "add_discovery_loop fits pb space row =
     (case pb_discovery_add_row_mem fits pb row of
        Some pb \<Rightarrow> Some (pb, space)
      | None \<Rightarrow>
          if pb_mode pb \<noteq> ZBX_PB_MODE_MEMORY then None
          else
            let space = (if space = 0 then pb_discovery_estimate_row_size row else space);
                (pb', freed) = pb_free_space pb space
            in if freed then add_discovery_loop fits pb' space row else Some (pb', space))"
  by pat_completeness auto
termination add_discovery_loop
proof (relation "measure (\<lambda>(fits, pb, space, row). mem_rows pb)", goal_cases)
  case (2 fits pb space row space' x pb' freed)
  have "0 < space'" using 2 other_size_pos(1) [of row] by (simp split: if_splits)
  then show ?case
    using pb_free_loop_rows [of pb "int space'"] 2
    by (cases "pb_free_loop pb (int space')") (auto simp: pb_free_space_def)
qed simp

declare add_discovery_loop.simps [simp del]

fun add_discovery_rows ::
  "(zbx_pb \<Rightarrow> zbx_pb_discovery \<Rightarrow> bool) \<Rightarrow> zbx_pb \<Rightarrow> nat \<Rightarrow> zbx_pb_discovery list \<Rightarrow> zbx_pb \<times> zbx_pb_discovery list" where
  "add_discovery_rows fits pb space [] = (pb, [])"
| "add_discovery_rows fits pb space (r # rows) =
     (case add_discovery_loop fits pb space r of
        None \<Rightarrow> (pb, r # rows)
      | Some (pb, space) \<Rightarrow> add_discovery_rows fits pb space rows)"

definition pb_discovery_add_rows_mem ::
  "(zbx_pb \<Rightarrow> zbx_pb_discovery \<Rightarrow> bool) \<Rightarrow> zbx_pb \<Rightarrow> zbx_pb_discovery list \<Rightarrow> zbx_pb \<times> zbx_pb_discovery list" where
  "pb_discovery_add_rows_mem fits pb rows = add_discovery_rows fits pb 0 rows"

definition pb_discovery_add_rows_db ::
  "('db, 'b) pb_db_scheme \<Rightarrow> zbx_pb_discovery list \<Rightarrow> 'db \<Rightarrow> 'db \<times> nat" where
  "pb_discovery_add_rows_db D rows db = (if rows = [] then (db, 0) else (insert_discovery D rows db, last_id drow_id rows))"

text \<open>
  Closing: with the lock, giving the rows that are to be inserted, \<open>None\<close> when the handle is done; the ids for a handle
  of the database; and with the lock at the end. A handle for memory without rows is done at once.
\<close>

definition discovery_close_rows ::
  "('db, 'b) pb_db_scheme \<Rightarrow> (zbx_pb \<Rightarrow> zbx_pb_discovery \<Rightarrow> bool) \<Rightarrow> bool \<Rightarrow> zbx_pb \<Rightarrow> 'db \<Rightarrow> zbx_pb_discovery list
   \<Rightarrow> zbx_pb \<times> 'db \<times> zbx_pb_discovery list option" where
  "discovery_close_rows D fits young pb db rows =
     (let to_db = (\<lambda>pb db rows. (pb\<lparr>db_handles_num := db_handles_num pb + 1\<rparr>, db, Some rows))
      in if pb_state pb = PB_MEMORY \<and> \<not> young then
           let (pb, db) = pd_fallback_to_database D pb db in to_db pb db rows
         else if get_pb_dst (pb_state pb) = PB_MEMORY then
           let (pb, rest) = pb_discovery_add_rows_mem fits pb rows in
           if rest = [] then (pb, db, None)
           else if pb_state pb = PB_DATABASE_MEMORY
           then let (pb, db) = pd_fallback_to_database D pb db in to_db pb db rest
           else to_db (pb_set_state pb PB_MEMORY_DATABASE) db rest
         else to_db pb db rows)"

definition discovery_close_lock ::
  "('db, 'b) pb_db_scheme \<Rightarrow> (zbx_pb \<Rightarrow> zbx_pb_discovery \<Rightarrow> bool) \<Rightarrow> int \<Rightarrow> int \<Rightarrow> zbx_pb \<Rightarrow> 'db \<Rightarrow> nat option
   \<Rightarrow> zbx_pb_discovery_data \<Rightarrow> zbx_pb \<times> 'db \<times> nat option \<times> zbx_pb_discovery list option" where
  "discovery_close_lock D fits now later pb db entry data =
     (if dd_rows data = [] then (pb, db, entry, None)
      else
        let (first, entry) = zbx_dc_get_nextid D PROXY_DHISTORY db entry (length (dd_rows data));
            rows = pb_discovery_set_row_ids first (dd_handleid data) (dd_rows data);
            (pb, young) = (if pb_state pb = PB_MEMORY then pb_discovery_check_age now later pb else (pb, True));
            (pb, db, rest) = discovery_close_rows D fits young pb db rows
        in (pb, db, entry, rest))"

definition discovery_close_db ::
  "('db, 'b) pb_db_scheme \<Rightarrow> 'db \<Rightarrow> nat \<Rightarrow> zbx_pb_discovery_data \<Rightarrow> nat \<times> zbx_pb_discovery list" where
  "discovery_close_db D db cached data =
     (if dd_rows data = [] then (cached, [])
      else
        let (first, cached) = dbconn_get_cached_nextid D PROXY_DHISTORY db cached (length (dd_rows data))
        in (cached, pb_discovery_set_row_ids first 0 (dd_rows data)))"

definition discovery_close_end :: "zbx_pb \<Rightarrow> nat \<Rightarrow> zbx_pb" where
  "discovery_close_end pb lastid =
     (let pb = (if discovery_lastid_db pb < lastid then pb\<lparr>discovery_lastid_db := lastid\<rparr> else pb)
      in pb\<lparr>db_handles_num := db_handles_num pb - 1\<rparr>)"

definition zbx_pb_discovery_get_rows ::
  "('db, 'b) pb_rows_db_scheme \<Rightarrow> ('db \<Rightarrow> 'db) \<Rightarrow> zbx_pb \<Rightarrow> 'db \<Rightarrow> zbx_json \<Rightarrow> nat \<Rightarrow> pb_more
   \<Rightarrow> (zbx_json \<times> nat \<times> nat \<times> pb_more) option" where
  "zbx_pb_discovery_get_rows D wait pb db j lastid more_data =
     (if get_pb_src (pb_state pb) = PB_MEMORY then pb_discovery_get_mem pb j lastid
      else pb_get_discovery_db D wait db j lastid more_data)"

definition zbx_pb_discovery_set_lastid :: "('db, 'b) pb_db_scheme \<Rightarrow> zbx_pb \<Rightarrow> 'db \<Rightarrow> nat \<Rightarrow> zbx_pb \<times> 'db" where
  "zbx_pb_discovery_set_lastid D pb db lastid =
     (let pb = pb\<lparr>discovery_lastid_sent := lastid\<rparr>
      in (if get_pb_src (pb_state pb) = PB_MEMORY then pb_discovery_clear pb lastid else pb,
          if get_pb_src (pb_state pb) = PB_DATABASE then store_lastid D PROXY_DHISTORY lastid db else db))"

section \<open>Autoregistration records\<close>

definition autoreg_row :: "string \<Rightarrow> string \<Rightarrow> string \<Rightarrow> 16 word \<Rightarrow> 32 word \<Rightarrow> string \<Rightarrow> int \<Rightarrow> int \<Rightarrow> zbx_pb_autoreg" where
  "autoreg_row host ip dns port connection_type host_metadata flags clock =
     \<lparr>arow_id = 0, arow_host = host, arow_listen_ip = ip, arow_listen_dns = dns, arow_host_metadata = host_metadata,
      arow_listen_port = int (unat port), arow_tls_accepted = sint connection_type, arow_flags = flags, arow_clock = clock\<rparr>"

definition pb_autoreg_check_age :: "int \<Rightarrow> int \<Rightarrow> zbx_pb \<Rightarrow> zbx_pb \<times> bool" where
  "pb_autoreg_check_age now later pb =
     (let rows = dropWhile (\<lambda>r. \<not> now - arow_clock r \<le> offline_buffer pb) (pb_autoreg pb);
          pb = pb\<lparr>pb_autoreg := rows\<rparr>
      in (pb, max_age pb = 0 \<or> rows = [] \<or> later - arow_clock (hd rows) < max_age pb))"

definition pb_autoreg_clear :: "zbx_pb \<Rightarrow> nat \<Rightarrow> zbx_pb" where
  "pb_autoreg_clear pb lastid = pb\<lparr>pb_autoreg := dropWhile (\<lambda>r. arow_id r \<le> lastid) (pb_autoreg pb)\<rparr>"

text \<open>The id is asked for when the row is in memory.\<close>

definition pb_autoreg_add_row_mem ::
  "('db, 'b) pb_db_scheme \<Rightarrow> (zbx_pb \<Rightarrow> zbx_pb_autoreg \<Rightarrow> bool) \<Rightarrow> 'db \<Rightarrow> zbx_pb \<Rightarrow> nat option \<Rightarrow> zbx_pb_autoreg
   \<Rightarrow> (zbx_pb \<times> nat option) option" where
  "pb_autoreg_add_row_mem D fits db pb entry row =
     (if fits pb row then
        let (rowid, entry) = zbx_dc_get_nextid D PROXY_AUTOREG_HOST db entry 1
        in Some (pb\<lparr>pb_autoreg := pb_autoreg pb @ [row\<lparr>arow_id := rowid\<rparr>]\<rparr>, entry)
      else None)"

function pb_autoreg_write_host_mem ::
  "('db, 'b) pb_db_scheme \<Rightarrow> (zbx_pb \<Rightarrow> zbx_pb_autoreg \<Rightarrow> bool) \<Rightarrow> 'db \<Rightarrow> zbx_pb \<Rightarrow> nat option \<Rightarrow> zbx_pb_autoreg
   \<Rightarrow> (zbx_pb \<times> nat option) option" where
  "pb_autoreg_write_host_mem D fits db pb entry row =
     (case pb_autoreg_add_row_mem D fits db pb entry row of
        Some r \<Rightarrow> Some r
      | None \<Rightarrow>
          if pb_mode pb \<noteq> ZBX_PB_MODE_MEMORY then None
          else
            let (pb', freed) = pb_free_space pb (pb_autoreg_estimate_row_size row)
            in if freed then pb_autoreg_write_host_mem D fits db pb' entry row else Some (pb', entry))"
  by pat_completeness auto
termination pb_autoreg_write_host_mem
proof (relation "measure (\<lambda>(D, fits, db, pb, entry, row). mem_rows pb)", goal_cases)
  case (2 D fits db pb entry row x pb' freed)
  then show ?case
    using pb_free_loop_rows [of pb "int (pb_autoreg_estimate_row_size row)"] other_size_pos(2) [of row]
    by (cases "pb_free_loop pb (int (pb_autoreg_estimate_row_size row))") (auto simp: pb_free_space_def)
qed simp

declare pb_autoreg_write_host_mem.simps [simp del]

text \<open>The part with the lock; the last part of the result says whether the row is to be inserted into the database.\<close>

definition autoreg_write_lock ::
  "('db, 'b) pb_db_scheme \<Rightarrow> (zbx_pb \<Rightarrow> zbx_pb_autoreg \<Rightarrow> bool) \<Rightarrow> int \<Rightarrow> int \<Rightarrow> zbx_pb \<Rightarrow> 'db \<Rightarrow> nat option \<Rightarrow> zbx_pb_autoreg
   \<Rightarrow> zbx_pb \<times> 'db \<times> nat option \<times> bool" where
  "autoreg_write_lock D fits now later pb db entry row =
     (let to_db = (\<lambda>pb db. (pb\<lparr>db_handles_num := db_handles_num pb + 1\<rparr>, db, entry, True))
      in if get_pb_dst (pb_state pb) = PB_MEMORY then
           let (pb, young) = (if pb_state pb = PB_MEMORY then pb_autoreg_check_age now later pb else (pb, True)) in
           if \<not> young then let (pb, db) = pd_fallback_to_database D pb db in to_db pb db
           else case pb_autoreg_write_host_mem D fits db pb entry row of
               Some (pb, entry) \<Rightarrow> (pb, db, entry, False)
             | None \<Rightarrow>
                 if pb_state pb = PB_DATABASE_MEMORY
                 then let (pb, db) = pd_fallback_to_database D pb db in to_db pb db
                 else to_db (pb_set_state pb PB_MEMORY_DATABASE) db
         else to_db pb db)"

text \<open>The transaction, with the id from the cache of ids, and the part with the lock at the end.\<close>

definition autoreg_write_db :: "('db, 'b) pb_db_scheme \<Rightarrow> 'db \<Rightarrow> nat \<Rightarrow> zbx_pb_autoreg \<Rightarrow> 'db \<times> nat \<times> nat" where
  "autoreg_write_db D db cached row =
     (let (rowid, cached) = dbconn_get_cached_nextid D PROXY_AUTOREG_HOST db cached 1
      in (insert_autoreg D [row\<lparr>arow_id := rowid\<rparr>] db, cached, rowid))"

definition autoreg_write_end :: "zbx_pb \<Rightarrow> nat \<Rightarrow> zbx_pb" where
  "autoreg_write_end pb rowid =
     (let pb = (if autoreg_lastid_db pb < rowid then pb\<lparr>autoreg_lastid_db := rowid\<rparr> else pb)
      in pb\<lparr>db_handles_num := db_handles_num pb - 1\<rparr>)"

definition zbx_pb_autoreg_get_rows ::
  "('db, 'b) pb_rows_db_scheme \<Rightarrow> ('db \<Rightarrow> 'db) \<Rightarrow> zbx_pb \<Rightarrow> 'db \<Rightarrow> zbx_json \<Rightarrow> nat \<Rightarrow> pb_more
   \<Rightarrow> (zbx_json \<times> nat \<times> nat \<times> pb_more) option" where
  "zbx_pb_autoreg_get_rows D wait pb db j lastid more_data =
     (if get_pb_src (pb_state pb) = PB_MEMORY then pb_autoreg_get_mem pb j lastid
      else pb_autoreg_get_db D wait db j lastid more_data)"

definition zbx_pb_autoreg_set_lastid :: "('db, 'b) pb_db_scheme \<Rightarrow> zbx_pb \<Rightarrow> 'db \<Rightarrow> nat \<Rightarrow> zbx_pb \<times> 'db" where
  "zbx_pb_autoreg_set_lastid D pb db lastid =
     (let pb = pb\<lparr>autoreg_lastid_sent := lastid\<rparr>
      in (if get_pb_src (pb_state pb) = PB_MEMORY then pb_autoreg_clear pb lastid else pb,
          if get_pb_src (pb_state pb) = PB_DATABASE then store_lastid D PROXY_AUTOREG_HOST lastid db else db))"

end
