(* ===== verification/ZbxPbOtherProps.thy ===== *)
theory ZbxPbOtherProps
  imports ZbxPbProps ZbxPbOther "HOL-Library.Sublist"
begin

text \<open>
  What the proxy buffer promises for discovery and autoregistration records: their ids rise in memory, so an upload from
  memory removes exactly the records it sent. The locale \<open>row_export\<close> is what the export relies on, for both kinds.
\<close>

section \<open>Export from memory\<close>

lemma exec_ops_append: "exec_ops j (ops @ ops') = Option.bind (exec_ops j ops) (\<lambda>j. exec_ops j ops')"
  by (induction ops arbitrary: j) (auto split: bind_split)

lemma dropWhile_rising:
  fixes rid :: "'r \<Rightarrow> nat"
  assumes "sorted_wrt (<) (map rid rows)" "k < length rows"
  shows "dropWhile (\<lambda>r. rid r \<le> rid (rows ! k)) rows = drop (Suc k) rows"
proof -
  define A x B where "A = take k rows" and "x = rows ! k" and "B = drop (Suc k) rows"
  have rows: "rows = A @ x # B" using id_take_nth_drop [OF assms(2)] by (simp add: A_def x_def B_def)
  have less: "\<forall>a \<in> set A. rid a < rid x" "\<forall>b \<in> set B. rid x < rid b" using assms(1) unfolding rows by (simp_all add: sorted_wrt_append)
  have "dropWhile (\<lambda>r. rid r \<le> rid x) ((A @ [x]) @ B) = dropWhile (\<lambda>r. rid r \<le> rid x) B"
    using less(1) by (intro dropWhile_append2) auto
  also have "\<dots> = B" using less(2) by (cases B) auto
  finally show ?thesis unfolding x_def [symmetric] B_def [symmetric] using rows by simp
qed

locale row_export =
  fixes rid :: "'r \<Rightarrow> nat" and members :: "'r \<Rightarrow> write_op list"
  assumes members_ok: "list_all member_op (members r)"
begin

lemma row_written:
  "json_open_at False j \<Longrightarrow> \<exists>j'. exec_ops j (record_ops (members r)) = Some j' \<and> json_open_at False j'"
  unfolding record_ops_def by (rule members_written [OF members_ok])

lemma loop_exact:
  "json_open_at False j \<Longrightarrow> \<exists>k j' more_data. get_rows_mem_loop rid members j n lastid rows
       = Some (j', n + k, if k = 0 then lastid else rid (rows ! (k - 1)), more_data)
     \<and> k \<le> length rows \<and> (more_data = ZBX_PROXY_DATA_DONE \<longleftrightarrow> k = length rows)
     \<and> exec_ops j (concat (map (\<lambda>r. record_ops (members r)) (take k rows))) = Some j'"
proof (induction rows arbitrary: j n lastid)
  case (Cons r rows)
  show ?case
  proof (cases "ZBX_DATA_JSON_BATCH_LIMIT \<le> buffer_offset j \<or> n \<ge> ZBX_MAX_HRECORDS_TOTAL")
    case True
    then show ?thesis by (intro exI [of _ 0]) auto
  next
    case False
    obtain j1 where j1: "exec_ops j (record_ops (members r)) = Some j1" "json_open_at False j1" using row_written [OF Cons.prems] by blast
    from Cons.IH [OF j1(2), of "n + 1" "rid r"] obtain k j' more_data where k:
      "get_rows_mem_loop rid members j1 (n + 1) (rid r) rows
         = Some (j', n + 1 + k, if k = 0 then rid r else rid (rows ! (k - 1)), more_data)"
      "k \<le> length rows" "more_data = ZBX_PROXY_DATA_DONE \<longleftrightarrow> k = length rows"
      "exec_ops j1 (concat (map (\<lambda>r. record_ops (members r)) (take k rows))) = Some j'" by blast
    have last: "(if k = 0 then rid r else rid (rows ! (k - 1))) = rid ((r # rows) ! k)" by (cases k) auto
    show ?thesis
    proof (intro exI conjI)
      show "get_rows_mem_loop rid members j n lastid (r # rows)
          = Some (j', n + Suc k, if Suc k = 0 then lastid else rid ((r # rows) ! (Suc k - 1)), more_data)"
        using False j1(1) k(1) unfolding last by simp
      show "exec_ops j (concat (map (\<lambda>r. record_ops (members r)) (take (Suc k) (r # rows)))) = Some j'"
        using j1(1) k(4) by (simp add: exec_ops_append)
    qed (use k in auto)
  qed
qed (intro exI [of _ 0], simp)

end

text \<open>
  What an export promises: it writes an array with the first of the rows, all of them when it says that there is no more,
  and the last id makes \<open>rest\<close> drop just these.
\<close>

definition export_exact ::
  "('r \<Rightarrow> write_op list) \<Rightarrow> string \<Rightarrow> zbx_json \<Rightarrow> 'r list \<Rightarrow> (zbx_json \<times> nat \<times> nat \<times> pb_more) option \<Rightarrow> (nat \<Rightarrow> 'r list) \<Rightarrow> bool" where
  "export_exact members tag j rows result rest \<longleftrightarrow>
     (\<exists>j' k lastid more_data. result = Some (j', k, lastid, more_data)
      \<and> k \<le> length rows \<and> (more_data = ZBX_PROXY_DATA_DONE \<longleftrightarrow> k = length rows)
      \<and> exec_ops j (if rows = [] then []
          else AddArray (Some tag) # concat (map (\<lambda>r. record_ops (members r)) (take k rows)) @ [CloseTop]) = Some j'
      \<and> (k \<noteq> 0 \<longrightarrow> rest lastid = drop k rows))"

context row_export
begin

lemma get_rows_exact:
  assumes "json_open_at True j" "sorted_wrt (<) (map rid rows)"
  shows "export_exact members tag j rows (get_rows_mem rid members tag j lastid rows) (\<lambda>lastid. dropWhile (\<lambda>r. rid r \<le> lastid) rows)"
proof (cases "rows = []")
  case True
  then show ?thesis by (simp add: export_exact_def get_rows_mem_def)
next
  case False
  obtain j1 where j1: "exec_op j (AddArray (Some tag)) = Some j1" "json_open_at False j1" using array_opened [OF assms(1)] by blast
  from loop_exact [OF j1(2), of 0 lastid rows] obtain k j2 more_data where k:
    "get_rows_mem_loop rid members j1 0 lastid rows = Some (j2, k, if k = 0 then lastid else rid (rows ! (k - 1)), more_data)"
    "k \<le> length rows" "more_data = ZBX_PROXY_DATA_DONE \<longleftrightarrow> k = length rows"
    "exec_ops j1 (concat (map (\<lambda>r. record_ops (members r)) (take k rows))) = Some j2" by auto
  define last where "last = (if k = 0 then lastid else rid (rows ! (k - 1)))"
  have "k \<noteq> 0 \<longrightarrow> dropWhile (\<lambda>r. rid r \<le> last) rows = drop k rows"
    using dropWhile_rising [OF assms(2), of "k - 1"] k(2) by (cases k) (auto simp: last_def)
  moreover have "get_rows_mem rid members tag j lastid rows = Some (fst (zbx_json_close j2), k, last, more_data)"
    using False j1(1) k(1) by (simp add: get_rows_mem_def last_def)
  moreover have "exec_ops j (AddArray (Some tag) # concat (map (\<lambda>r. record_ops (members r)) (take k rows)) @ [CloseTop])
      = Some (fst (zbx_json_close j2))"
    using j1(1) k(4) by (simp add: exec_ops_append)
  ultimately show ?thesis unfolding export_exact_def using False k(2,3) by auto
qed

end

lemma field_ok: "list_all member_op (pb_add_json_field table fld_name v)"
  by (auto simp: pb_add_json_field_def split: option.splits field_value.splits)

interpretation discovery_export: row_export drow_id discovery_members
  by unfold_locales (simp add: discovery_members_def field_ok)

interpretation autoreg_export: row_export arow_id autoreg_members
  by unfold_locales (simp add: autoreg_members_def field_ok)

section \<open>The ids in memory rise\<close>

definition ids_rise :: "('r \<Rightarrow> nat) \<Rightarrow> 'r list \<Rightarrow> nat option \<Rightarrow> bool" where
  "ids_rise rid rows entry \<longleftrightarrow> sorted_wrt (<) (map rid rows) \<and> (\<forall>r \<in> set rows. \<exists>lastid. entry = Some lastid \<and> rid r \<le> lastid)"

lemma sorted_wrt_subseq: "subseq xs ys \<Longrightarrow> sorted_wrt P ys \<Longrightarrow> sorted_wrt P xs"
proof (induction rule: list_emb.induct)
  case (list_emb_Cons2 x y xs ys)
  then show ?case using list_emb_set [of "(=)" xs ys] by fastforce
qed auto

lemma ids_rise_subseq:
  assumes "subseq rows' rows" "ids_rise rid rows entry"
  shows "ids_rise rid rows' entry"
  using assms sorted_wrt_subseq [OF subseq_map [OF assms(1)], of "(<)" rid] list_emb_set [OF assms(1)]
  unfolding ids_rise_def by metis

text \<open>New rows get the ids after the last one given.\<close>

lemma ids_rise_new:
  assumes rise: "ids_rise rid rows entry" and e: "zbx_dc_get_nextid D table db entry n = (first, entry')"
    and new: "map rid new = [first..<first + n]"
  shows "ids_rise rid (rows @ new) entry'"
proof -
  have f: "entry' = Some (first + n - 1)" "\<forall>lastid. entry = Some lastid \<longrightarrow> lastid < first" using e
    by (auto simp: zbx_dc_get_nextid_def Let_def split: option.splits)
  have "rid r < first" if "r \<in> set rows" for r using rise f(2) that unfolding ids_rise_def by fastforce
  moreover have "first \<le> rid r \<and> rid r < first + n" if "r \<in> set new" for r
  proof -
    have "rid r \<in> set (map rid new)" using that by simp
    then show ?thesis unfolding new by simp
  qed
  moreover have "sorted_wrt (<) (map rid new)" unfolding new by simp
  ultimately show ?thesis using rise f(1) unfolding ids_rise_def by (fastforce simp: sorted_wrt_append)
qed

lemma discovery_row_ids: "map drow_id (pb_discovery_set_row_ids first handleid rows) = [first..<first + length rows]"
  by (induction first handleid rows rule: pb_discovery_set_row_ids.induct) (simp_all add: upt_rec)

text \<open>Discarding takes rows from the front.\<close>

lemma pop_discovery_suffix: "suffix (snd (pop_discovery h s ds)) ds"
  by (induction h s ds rule: pop_discovery.induct) (auto intro: suffix_ConsI)

lemma free_loop_suffix:
  "suffix (pb_discovery (fst (pb_free_loop pb left))) (pb_discovery pb) \<and> suffix (pb_autoreg (fst (pb_free_loop pb left))) (pb_autoreg pb)"
proof (induction pb left rule: pb_free_loop.induct)
  case (1 pb left)
  define d where "d = hd (pb_discovery pb)"
  obtain l rest where p: "pop_discovery (drow_handleid d) (left - int (pb_discovery_estimate_row_size d)) (tl (pb_discovery pb)) = (l, rest)"
    by fastforce
  have suf: "suffix rest (tl (pb_discovery pb))"
    using pop_discovery_suffix [of "drow_handleid d" "left - int (pb_discovery_estimate_row_size d)" "tl (pb_discovery pb)"] p by simp
  have tl: "suffix (tl xs) xs" for xs :: "'x list" by (cases xs) (auto intro: suffix_ConsI)
  consider "left \<le> 0" | "0 < left" "autoreg_older pb" | "0 < left" "\<not> autoreg_older pb" "discovery_older pb"
    | "0 < left" "\<not> autoreg_older pb" "\<not> discovery_older pb" by linarith
  then show ?case
  proof cases
    case 1
    then show ?thesis by (simp add: pb_free_loop.simps)
  next
    case 2
    then show ?thesis using 1(1) tl [of "pb_autoreg pb"] by (auto simp: pb_free_loop.simps [of pb] intro: suffix_order.order_trans)
  next
    case 3
    then show ?thesis using 1(2) [of d _ l rest] p suf tl [of "pb_discovery pb"]
      by (auto simp: pb_free_loop.simps [of pb] d_def [symmetric] intro: suffix_order.order_trans)
  next
    case 4
    then show ?thesis using 1(3) by (cases "pb_history pb") (auto simp: pb_free_loop.simps [of pb])
  qed
qed

lemma free_space_subseq:
  assumes "pb_free_space pb n = (pb', freed)"
  shows "subseq (pb_discovery pb') (pb_discovery pb)" "subseq (pb_autoreg pb') (pb_autoreg pb)"
  using free_loop_suffix [of pb "int n"] assms by (auto simp: pb_free_space_def)

text \<open>What is in memory afterwards comes from what was there and the new rows, in this order.\<close>

lemma add_discovery_loop_subseq:
  "add_discovery_loop fits pb space row = Some (pb', space') \<Longrightarrow> subseq (pb_discovery pb') (pb_discovery pb @ [row])"
proof (induction fits pb space row rule: add_discovery_loop.induct)
  case (1 fits pb space row)
  show ?case
  proof (cases "pb_discovery_add_row_mem fits pb row")
    case (Some pb1)
    then show ?thesis using 1(2) by (auto simp: add_discovery_loop.simps [of fits pb] pb_discovery_add_row_mem_def split: if_splits)
  next
    case None
    define s1 where "s1 = (if space = 0 then pb_discovery_estimate_row_size row else space)"
    obtain pb1 freed where f: "pb_free_space pb s1 = (pb1, freed)" by fastforce
    have m: "\<not> pb_mode pb \<noteq> ZBX_PB_MODE_MEMORY" using 1(2) None by (auto simp: add_discovery_loop.simps [of fits pb] split: if_splits)
    have sub: "subseq (pb_discovery pb1 @ [row]) (pb_discovery pb @ [row])" using free_space_subseq(1) [OF f] by simp
    show ?thesis
    proof (cases freed)
      case True
      have "add_discovery_loop fits pb1 s1 row = Some (pb', space')"
        using 1(2) None m f True by (simp add: add_discovery_loop.simps [of fits pb] s1_def [symmetric])
      then show ?thesis using 1(1) [OF None m s1_def f [symmetric] HOL.refl True] sub by (meson subseq_order.order_trans)
    next
      case False
      then have "pb' = pb1" using 1(2) None m f by (simp add: add_discovery_loop.simps [of fits pb] s1_def [symmetric])
      then show ?thesis using free_space_subseq(1) [OF f] by (simp add: subseq_rev_drop_many)
    qed
  qed
qed

lemma add_discovery_rows_subseq:
  "add_discovery_rows fits pb space rows = (pb', rest) \<Longrightarrow> subseq (pb_discovery pb') (pb_discovery pb @ rows)"
proof (induction fits pb space rows rule: add_discovery_rows.induct)
  case (2 fits pb space r rows)
  show ?case
  proof (cases "add_discovery_loop fits pb space r")
    case None
    then show ?thesis using 2(2) by (auto simp: subseq_rev_drop_many)
  next
    case (Some x)
    then obtain pb1 s1 where x: "add_discovery_loop fits pb space r = Some (pb1, s1)" by (cases x) auto
    have "subseq (pb_discovery pb') (pb_discovery pb1 @ rows)" using 2(1) [OF x HOL.refl] 2(2) x by simp
    moreover have "subseq (pb_discovery pb1 @ rows) ((pb_discovery pb @ [r]) @ rows)"
      using add_discovery_loop_subseq [OF x] by (intro list_emb_append_mono) auto
    ultimately show ?thesis by (metis append.assoc append_Cons append_Nil subseq_order.order_trans)
  qed
qed simp

lemma flush_others: "pd_fallback_to_database D pb db = (pb', db') \<Longrightarrow> pb_discovery pb' = [] \<and> pb_autoreg pb' = []"
  by (auto simp: pd_fallback_to_database_def pb_flush_def pb_clear_all_def pb_set_state_def Let_def split: prod.splits)

lemma set_state_others [simp]:
  "pb_discovery (pb_set_state pb s) = pb_discovery pb" "pb_autoreg (pb_set_state pb s) = pb_autoreg pb"
  by (simp_all add: pb_set_state_def Let_def)

lemma discovery_close_rows_subseq:
  assumes "discovery_close_rows D fits young pb db rows = (pb', db', rest)"
  shows "subseq (pb_discovery pb') (pb_discovery pb @ rows)"
proof -
  obtain pb1 rest1 where a: "pb_discovery_add_rows_mem fits pb rows = (pb1, rest1)" by fastforce
  have sub: "subseq (pb_discovery pb1) (pb_discovery pb @ rows)"
    using add_discovery_rows_subseq [of fits pb 0 rows] a by (simp add: pb_discovery_add_rows_mem_def)
  obtain pb2 db2 where f: "pd_fallback_to_database D pb db = (pb2, db2)" by fastforce
  obtain pb3 db3 where g: "pd_fallback_to_database D pb1 db = (pb3, db3)" by fastforce
  show ?thesis using assms sub flush_others [OF f] flush_others [OF g]
    by (auto simp: discovery_close_rows_def a f g subseq_rev_drop_many split: if_splits)
qed

lemma autoreg_write_mem_rise:
  "pb_autoreg_write_host_mem D fits db pb entry row = Some (pb', entry') \<Longrightarrow> ids_rise arow_id (pb_autoreg pb) entry \<Longrightarrow>
   ids_rise arow_id (pb_autoreg pb') entry'"
proof (induction D fits db pb entry row rule: pb_autoreg_write_host_mem.induct)
  case (1 D fits db pb entry row)
  show ?case
  proof (cases "fits pb row")
    case True
    obtain rowid e where e: "zbx_dc_get_nextid D PROXY_AUTOREG_HOST db entry 1 = (rowid, e)" by fastforce
    have "pb' = pb\<lparr>pb_autoreg := pb_autoreg pb @ [row\<lparr>arow_id := rowid\<rparr>]\<rparr>" "entry' = e"
      using 1(2) True e by (simp_all add: pb_autoreg_write_host_mem.simps [of D fits db pb] pb_autoreg_add_row_mem_def)
    then show ?thesis using ids_rise_new [OF 1(3) e, of "[row\<lparr>arow_id := rowid\<rparr>]"] by simp
  next
    case False
    then have none: "pb_autoreg_add_row_mem D fits db pb entry row = None" by (simp add: pb_autoreg_add_row_mem_def)
    obtain pb1 freed where f: "pb_free_space pb (pb_autoreg_estimate_row_size row) = (pb1, freed)" by fastforce
    have m: "\<not> pb_mode pb \<noteq> ZBX_PB_MODE_MEMORY" using 1(2) none by (auto simp: pb_autoreg_write_host_mem.simps [of D fits db pb] split: if_splits)
    have rise: "ids_rise arow_id (pb_autoreg pb1) entry" using ids_rise_subseq [OF free_space_subseq(2) [OF f] 1(3)] .
    have "if freed then pb_autoreg_write_host_mem D fits db pb1 entry row = Some (pb', entry') else pb' = pb1 \<and> entry' = entry"
      using 1(2) none m f by (cases freed) (auto simp: pb_autoreg_write_host_mem.simps [of D fits db pb])
    then show ?thesis using 1(1) [OF none m f [symmetric] HOL.refl] rise by (cases freed) simp_all
  qed
qed

lemma ids_rise_Nil [simp]: "ids_rise rid [] entry"
  by (simp add: ids_rise_def)

lemma dropWhile_subseq: "subseq (dropWhile P xs) xs"
  by (simp add: suffix_dropWhile suffix_imp_subseq)

lemma discovery_close_lock_rise:
  assumes rise: "ids_rise drow_id (pb_discovery pb) entry"
    and c: "discovery_close_lock D fits now later pb db entry data = (pb', db', entry', rest)"
  shows "ids_rise drow_id (pb_discovery pb') entry'"
proof (cases "dd_rows data = []")
  case True
  then show ?thesis using assms by (simp add: discovery_close_lock_def)
next
  case False
  obtain first e where e: "zbx_dc_get_nextid D PROXY_DHISTORY db entry (length (dd_rows data)) = (first, e)" by fastforce
  define rows where "rows = pb_discovery_set_row_ids first (dd_handleid data) (dd_rows data)"
  obtain aged young where a: "(if pb_state pb = PB_MEMORY then pb_discovery_check_age now later pb else (pb, True)) = (aged, young)" by fastforce
  have "subseq (pb_discovery aged) (pb_discovery pb)"
    using a by (auto simp: pb_discovery_check_age_def Let_def dropWhile_subseq split: if_splits)
  note rise1 = ids_rise_new [OF ids_rise_subseq [OF this rise] e discovery_row_ids]
  have "discovery_close_rows D fits young aged db rows = (pb', db', rest)" "entry' = e"
    using c False e a by (auto simp: discovery_close_lock_def rows_def split: prod.splits)
  then show ?thesis using ids_rise_subseq [OF discovery_close_rows_subseq rise1] unfolding rows_def by simp
qed

lemma autoreg_write_lock_rise:
  assumes rise: "ids_rise arow_id (pb_autoreg pb) entry"
    and c: "autoreg_write_lock D fits now later pb db entry row = (pb', db', entry', insert_row)"
  shows "ids_rise arow_id (pb_autoreg pb') entry'"
proof -
  obtain aged young where a: "(if pb_state pb = PB_MEMORY then pb_autoreg_check_age now later pb else (pb, True)) = (aged, young)" by fastforce
  have "subseq (pb_autoreg aged) (pb_autoreg pb)"
    using a by (auto simp: pb_autoreg_check_age_def Let_def dropWhile_subseq split: if_splits)
  note rise1 = ids_rise_subseq [OF this rise]
  obtain pb2 db2 where f: "pd_fallback_to_database D aged db = (pb2, db2)" by fastforce
  note none = flush_others [OF f]
  show ?thesis
  proof (cases "get_pb_dst (pb_state pb) = PB_MEMORY \<and> young")
    case True
    show ?thesis
    proof (cases "pb_autoreg_write_host_mem D fits db aged entry row")
      case None
      then show ?thesis using c True a f none rise1 by (auto simp: autoreg_write_lock_def split: if_splits)
    next
      case (Some x)
      then obtain pb1 e1 where x: "pb_autoreg_write_host_mem D fits db aged entry row = Some (pb1, e1)" by (cases x) auto
      then have "pb' = pb1" "entry' = e1" using c True a by (simp_all add: autoreg_write_lock_def)
      then show ?thesis using autoreg_write_mem_rise [OF x rise1] by simp
    qed
  next
    case False
    then show ?thesis using c a f none rise by (auto simp: autoreg_write_lock_def split: if_splits)
  qed
qed

section \<open>The properties\<close>

text \<open>
  C19: closing a discovery handle and writing an autoregistration record keep the ids of the records in memory rising and
  not above the last id given, whatever is discarded to make room or for its age, in every mode and state.
\<close>

theorem other_ids_rise:
  assumes "ids_rise drow_id (pb_discovery pb) entry" "ids_rise arow_id (pb_autoreg pb) aentry"
  shows "(case discovery_close_lock D fits now later pb db entry data of
        (pb', db', entry', rest) \<Rightarrow> ids_rise drow_id (pb_discovery pb') entry')
    \<and> (case autoreg_write_lock D afits now later pb db aentry row of
        (pb', db', entry', insert_row) \<Rightarrow> ids_rise arow_id (pb_autoreg pb') entry')"
  using discovery_close_lock_rise [OF assms(1)] autoreg_write_lock_rise [OF assms(2)] by (auto split: prod.split)

text \<open>A buffer in memory mode with room for two records: the third one takes the place of the oldest.\<close>

definition sample_service :: "zbx_pb_discovery_data \<Rightarrow> zbx_pb_discovery_data" where
  "sample_service data = zbx_pb_discovery_write_service data 1 2 ''10.0.0.1'' [] 161 0 ''x'' 100"

definition sample_discovery :: zbx_pb where
  "sample_discovery = (zbx_pb_create ZBX_PB_MODE_MEMORY 0 1000)\<lparr>pb_state := PB_MEMORY,
     pb_discovery := pb_discovery_set_row_ids 1 1 (dd_rows (sample_service \<lparr>dd_state = PB_MEMORY, dd_rows = [], dd_handleid = 1\<rparr>))\<rparr>"

lemma sample_discovery_rise: "ids_rise drow_id (pb_discovery sample_discovery) (Some 1)" "pb_autoreg sample_discovery = []"
  by (simp_all add: sample_discovery_def sample_service_def zbx_pb_discovery_write_service_def pb_discovery_write_row_def
      zbx_pb_create_def ids_rise_def)

definition sample_data :: zbx_pb_discovery_data where
  "sample_data = sample_service (sample_service \<lparr>dd_state = PB_MEMORY, dd_rows = [], dd_handleid = 2\<rparr>)"

definition two_fit :: "zbx_pb \<Rightarrow> 'r \<Rightarrow> bool" where
  "two_fit pb row \<longleftrightarrow> length (pb_discovery pb) + length (pb_autoreg pb) < 2"

definition sample_host :: zbx_pb_autoreg where
  "sample_host = autoreg_row ''host'' ''10.0.0.2'' [] 10050 1 [] 0 100"

lemma sample_close:
  "case discovery_close_lock table_db_ops two_fit 200 200 sample_discovery sample_db (Some 1) sample_data of
     (pb', db', entry', rest) \<Rightarrow> map drow_id (pb_discovery pb') = [2, 3] \<and> entry' = Some 3 \<and> rest = None"
  by code_simp

theorem other_ids_rise_witness:
  "\<exists>pb' db' entry' rest. discovery_close_lock table_db_ops two_fit 200 200 sample_discovery sample_db (Some 1) sample_data = (pb', db', entry', rest)
     \<and> map drow_id (pb_discovery pb') = [2, 3] \<and> ids_rise drow_id (pb_discovery pb') (Some 3)"
  using other_ids_rise [OF sample_discovery_rise(1), of None table_db_ops two_fit 200 200 sample_db sample_data two_fit sample_host]
    sample_close sample_discovery_rise(2)
  by (auto split: prod.splits)

text \<open>
  C18: an upload of discovery or autoregistration records from memory does not fail. It writes an array with the first of
  the records, all of them when it says that there is no more, and recording its last id removes exactly the records that
  were written.
\<close>

theorem other_upload_exact:
  assumes "get_pb_src (pb_state pb) = PB_MEMORY" "json_open_at True j"
    "ids_rise drow_id (pb_discovery pb) entry" "ids_rise arow_id (pb_autoreg pb) aentry"
  shows "export_exact discovery_members ''discovery data'' j (pb_discovery pb)
      (zbx_pb_discovery_get_rows D wait pb db j lastid more_data)
      (\<lambda>lastid. pb_discovery (fst (zbx_pb_discovery_set_lastid D pb db lastid)))
    \<and> export_exact autoreg_members ''auto registration'' j (pb_autoreg pb)
      (zbx_pb_autoreg_get_rows D wait pb db j lastid more_data)
      (\<lambda>lastid. pb_autoreg (fst (zbx_pb_autoreg_set_lastid D pb db lastid)))"
  using discovery_export.get_rows_exact [OF assms(2), of "pb_discovery pb"] autoreg_export.get_rows_exact [OF assms(2), of "pb_autoreg pb"] assms
  by (simp add: ids_rise_def zbx_pb_discovery_get_rows_def pb_discovery_get_mem_def zbx_pb_discovery_set_lastid_def pb_discovery_clear_def
      zbx_pb_autoreg_get_rows_def pb_autoreg_get_mem_def zbx_pb_autoreg_set_lastid_def pb_autoreg_clear_def)

definition table_rows_ops :: "table_db pb_rows_db" where
  "table_rows_ops = pb_db.extend table_db_ops (pb_rows_db.fields (\<lambda>_ _ _ _. []))"

theorem other_upload_exact_witness:
  "\<exists>j. run_writer (\<lambda>i. CHR ''?'') 16 True [] = Some j \<and> map drow_id (pb_discovery sample_discovery) = [1]
    \<and> export_exact discovery_members ''discovery data'' j (pb_discovery sample_discovery)
      (zbx_pb_discovery_get_rows table_rows_ops (\<lambda>db. db) sample_discovery sample_db j 0 ZBX_PROXY_DATA_DONE)
      (\<lambda>lastid. pb_discovery (fst (zbx_pb_discovery_set_lastid table_rows_ops sample_discovery sample_db lastid)))"
proof -
  let ?fs = "[new_frame True None] :: unit frame list"
  from run_writer_holds [OF write_steps.refl [of "\<lambda>_. ()" ?fs], of "\<lambda>i. CHR ''?''" 16] obtain j where
    j: "run_writer (\<lambda>i. CHR ''?'') 16 True [] = Some j" "holds_frames j ?fs" by blast
  have "json_open_at True j" unfolding json_open_at_def using j(2) by (intro exI [of _ ?fs]) (simp add: new_frame_def)
  moreover have "get_pb_src (pb_state sample_discovery) = PB_MEMORY" by (simp add: sample_discovery_def)
  moreover have "ids_rise arow_id (pb_autoreg sample_discovery) None" by (simp add: sample_discovery_rise(2))
  ultimately show ?thesis using other_upload_exact [OF _ _ sample_discovery_rise(1), of j None table_rows_ops "\<lambda>db. db" sample_db 0 ZBX_PROXY_DATA_DONE] j(1)
    by (auto simp: sample_discovery_def sample_service_def zbx_pb_discovery_write_service_def pb_discovery_write_row_def)
qed

end
