(* ===== verification/Spec2Isabelle.thy ===== *)
theory Spec2Isabelle
  imports ZbxNextcheck ZbxIpWf ZbxHost ZbxHeap ZbxQueue ZbxInt128 ZbxBase64Props ZbxJsonLimit ZbxPbOtherProps
begin

text \<open>
  Verification development for the core C libraries of the Zabbix server, proxy and agent
  (\<^verbatim>\<open>src/src/libs\<close>).

  \<^bold>\<open>The program and the parts modelled.\<close> The server and the agents decide when to check which item by parsing the item's
  update interval and searching the next time it admits; they keep the items in binary heaps and queues ordered by that
  time, index the heaps by hashmaps, select the hosts and ports to check from address ranges, and recognise numbers in
  everything they read. The theories follow these libraries, each with the code's data as records and datatypes and
  one definition per function, loops as functions of their own.

  \<^item> \<open>Prelude\<close>: C strings and characters, 32-bit wrap-around, pointers, process exits, list lemmas.
  \<^item> \<open>ZbxNum\<close> (\<^verbatim>\<open>zbxnum/num.c\<close>, \<^verbatim>\<open>zbxcommon/misc.c\<close>): decimal and hexadecimal recognisers, numbers with fraction and
    exponent, trimming. The recognisers are proved equal to the value of the digit string.
  \<^item> \<open>ZbxTime\<close> (\<^verbatim>\<open>zbxtime/time.c\<close>): calendar, broken-down time arithmetic, time suffixes, timespecs, the cached local
    time. \<^verbatim>\<open>localtime\<close> and \<^verbatim>\<open>mktime\<close> of the C library are parameters of what uses them.
  \<^item> \<open>ZbxInterval\<close>, \<open>ZbxScheduler\<close>, \<open>ZbxNextcheck\<close> (\<^verbatim>\<open>zbxexpr/interval.c\<close>): the parser of update intervals, the
    scheduler's filters and their search, delays in force and the nextcheck of an item. \<open>ZbxSearch\<close> proves the
    search correct: it ends, at an admitted later time, and the first one if no two filter steps overlap.
  \<^item> \<open>ZbxIp\<close> (\<^verbatim>\<open>zbxip/ip.c\<close>, \<^verbatim>\<open>zbxip/iprange.c\<close>): address recognisers, lists of addresses, address and port ranges.
    \<open>ZbxIpWalk\<close> states what a walk over overlapping ranges visits, once for ports and addresses; \<open>ZbxIpAddr\<close>
    instantiates it for addresses, \<open>ZbxIpProps\<close>, \<open>ZbxIpWf\<close> and \<open>ZbxHost\<close> hold the properties.
  \<^item> \<open>ZbxAlgo\<close> (\<^verbatim>\<open>zbxalgo/algodefs.c\<close>): hash and comparison functions, primes, square root. The contract of a comparison
    function is the locale \<open>comparator\<close>, which each of the code's functions provides and the hashmap and the heap rest on.
  \<^item> \<open>ZbxHashmap\<close> (\<^verbatim>\<open>zbxalgo/hashmap.c\<close>): slots, growth and rehashing in place. The locale \<open>int_map\<close> is what it
    promises its clients; \<open>hashmap_abs\<close> maps its state to a finite map.
  \<^item> \<open>ZbxHeap\<close> (\<^verbatim>\<open>zbxalgo/binaryheap.c\<close>): the heap with its index of key positions in a hashmap. The invariant has the heap
    order, the distinct keys and the agreement of index and array; every operation keeps it.
  \<^item> \<open>ZbxQueue\<close> (\<^verbatim>\<open>zbxalgo/queue.c\<close>): the ring buffer, a refinement of a plain list; the locale \<open>fifo\<close> is its contract.
  \<^item> \<open>ZbxInt128\<close> (\<^verbatim>\<open>zbxalgo/int128.c\<close>): 128-bit sums, products and quotients on two 64-bit halves, proved exact.
  \<^item> \<open>ZbxBase64\<close> (\<^verbatim>\<open>zbxcrypto/base64.c\<close>): validation, encoding block by block into allocated memory, decoding into a
    buffer of a given size; \<open>ZbxBase64Props\<close> has the round trip, the texts accepted and the bounds.
  \<^item> \<open>ZbxJson\<close> (\<^verbatim>\<open>zbxjson/json_parser.c\<close>, \<^verbatim>\<open>json.c\<close>, \<^verbatim>\<open>jsonobj.c\<close>): the parser of everything that servers, proxies and
    agents send each other. \<open>ZbxJsonText\<close> is a grammar of JSON texts with the values they denote, \<open>ZbxJsonParse\<close> proves
    that the parser accepts exactly these texts with these values.
  \<^item> \<open>ZbxJsonWriter\<close> (\<^verbatim>\<open>zbxjson/json.c\<close>): the writer, byte by byte in a buffer that grows. \<open>ZbxJsonTree\<close> states what a
    sequence of calls means as a stack of open containers, and proves that the buffer follows it and opens as the tree
    written; \<open>ZbxJsonLimit\<close> is the cut of long strings.
  \<^item> \<open>ZbxProxyBuffer\<close> (\<^verbatim>\<open>zbxproxybuffer/proxybuffer.c\<close>, \<^verbatim>\<open>pb_history.c\<close>): the buffer in which a proxy keeps what it collected
    until the server has it, in memory or in the database: its data, the discarding of old records, the flush, the changes
    of state, and the handles that processes open, fill and close. \<open>ZbxPbUpload\<close> has the reading for the server, which
    writes through \<open>ZbxJsonWriter\<close>, what follows an upload, and the start.
  \<^item> \<open>ZbxPbWorld\<close> puts the processes together: the laws of the database, the state they share, and \<open>pb_step\<close>, what one of them
    does under the lock or in one statement. \<open>ZbxPbCore\<close> reduces it to the rows, ids and states that matter, with the
    invariant of these, which every \<open>move\<close> keeps; \<open>ZbxPbSafe\<close> shows that every step is a few moves
    and concludes that the last ids pass over no row. \<open>ZbxPbSent\<close> states what the record of a row is (\<open>history_record\<close>, on the
    values of a text) and which rows a text has (\<open>text_rows\<close>, what the parser makes of it), and shows that the texts
    acknowledged have the records of all rows up to the last ids except for those that may be left out; \<open>ZbxPbDrain\<close> that
    exporting does not fail, reading ends and each upload makes progress. \<open>ZbxPbProps\<close> has the properties and a database
    that meets the laws.
  \<^item> \<open>ZbxPbOther\<close> (\<^verbatim>\<open>zbxproxybuffer/pb_discovery.c\<close>, \<^verbatim>\<open>pb_autoreg.c\<close>): the records of discovery and autoregistration in the
    same buffer, written, read from memory and from the database, and cleared; \<open>ZbxPbOtherProps\<close> has the ids that rise in
    memory and the exactness of an upload, with the locale \<open>row_export\<close> for both kinds.

  \<^bold>\<open>Conventions.\<close> \<^verbatim>\<open>SUCCEED\<close> with an output is \<open>Some\<close>, \<^verbatim>\<open>FAIL\<close> is \<open>None\<close>; a process exit or an access out of bounds is
  \<open>Inl\<close> of a \<open>c_fault\<close>. Arrays are lists, so a count the code keeps beside an array is the list's length. An \<^verbatim>\<open>int\<close> is a
  HOL integer, with the wrap-around written out where the code can leave the range; counters of elements are naturals.
  Where a statement says what a text or a unit means, it has a table or a grammar of its own: \<open>escape_table\<close>, \<open>object_value\<close>,
  \<open>base64_alphabet\<close>, \<open>unit_seconds\<close>, \<open>history_record\<close>.
  Memory is not modelled: allocation succeeds, except where the code tests it (the heap).

  \<^bold>\<open>Loops.\<close> Most loops are total functions with a measure. Loops that may not end for some input (the scheduler's search,
  the search of the next delay, the item's nextcheck, the bisection for a daylight saving change, the 128-bit division) are
  partial functions whose result \<open>None\<close> is not returning; the properties prove that they return. The prime search has the
  result \<open>None\<close> where an int overflows. The walks over ranges take a fuel that the theorems
  bound by the volume of the ranges.

  \<^bold>\<open>Hypotheses.\<close> The nextcheck theorems assume a time zone without daylight saving (\<open>fixed_zone\<close>, which the model of
  UTC satisfies), times before 2038 less a year, and no scheduling interval with both month days and week days, for which the
  week day check of the code is not exact. The search of a daylight saving change is proved on its own.
  The database of the proxy buffer is a parameter with the laws \<open>history_db_ok\<close>. Its steps have one process that uploads and
  the hybrid mode, and the database state does not change to the memory state while a handle opened for the database is still
  being filled: the code does not check this, and with it rows of the handle get ids above those of rows that wait in
  memory. A text is followed from an object without history (\<open>message_start\<close>) to the end of the history; it counts as received
  when the server has acknowledged it. Ids have to rise: the code takes them from two caches (\<^verbatim>\<open>zbx_dc_get_nextid\<close> of \<^verbatim>\<open>cachehistory.c\<close> and
  \<^verbatim>\<open>dbconn_get_cached_nextid\<close> of \<^verbatim>\<open>dbmisc.c\<close>), both modelled, which after a change of state may give the same id twice.

  \<^bold>\<open>Not modelled.\<close> Functions on doubles, on \<^verbatim>\<open>sscanf\<close> and on \<^verbatim>\<open>mktime\<close> with rounding (report schedules); freeing of memory;
  the libraries that rest on databases, sockets, shared memory and third-party code (configuration cache, pollers,
  low level discovery, TLS), the Go agent and the user interface. Of the proxy
  buffer, the allocator and the locks, and runs in which discovery and autoregistration records mix with history; of
  \<^verbatim>\<open>zbxalgo\<close>, the vectors and the hash set, which the modelled parts use as lists and maps; and the serialisation
  primitives and the expression evaluator.
\<close>

section \<open>From the update interval to the next check\<close>

text \<open>
  C4: For every update interval string, the agent's nextcheck reports the parser's error with a time that never
  comes, or finds a time after now; within a year, this time is one that a scheduling interval admits, or one at which
  a non-zero delay is in force and which is on the grid of that delay and the item's id. The parser's guarantees are
  all the search needs to end, apart from delays of more than a day and intervals with both month and week days.
\<close>
theorem agent_nextcheck_correct:
  assumes "fixed_zone off lt mk" "0 \<le> now" "0 \<le> now + off" "now + SEC_PER_YEAR \<le> ZBX_JAN_2038"
    "month_index (lt now) \<le> LAST_MONTH - 9"
  shows "case zbx_interval_preproc delay_str True of
      Inl e \<Rightarrow> zbx_get_agent_item_nextcheck lt mk dst itemid delay_str now = Some (Inl (ZBX_JAN_2038, e))
    | Inr (si, None) \<Rightarrow> False
    | Inr (si, Some ci) \<Rightarrow>
        (\<forall>f \<in> set (flexible ci). delay f \<le> SEC_PER_DAY)
          \<and> (\<forall>iv \<in> set (scheduling ci). mdays iv = [] \<or> wdays iv = [])
        \<longrightarrow> (\<exists>n. zbx_get_agent_item_nextcheck lt mk dst itemid delay_str now
              = Some (Inr (n, zbx_custom_interval_is_scheduling ci, dst)) \<and> now < n
            \<and> (n < now + SEC_PER_YEAR \<longrightarrow> (\<exists>iv \<in> set (scheduling ci). time_admitted iv (lt n))
              \<or> (let d = get_current_delay lt si (flexible ci) n in d \<noteq> 0 \<and> n mod d = int itemid mod d)))"
proof (cases "zbx_interval_preproc delay_str True")
  case (Inl e)
  then show ?thesis by (simp add: zbx_get_agent_item_nextcheck_def)
next
  case (Inr r)
  then obtain si ci where p: "zbx_interval_preproc delay_str True = Inr (si, Some ci)"
    using interval_preproc_some by (cases r) fastforce
  note wf = interval_preproc_wf [OF p]
  have t: "ITEM_TYPE_ZABBIX \<noteq> ITEM_TYPE_ZABBIX_ACTIVE"
    by (simp add: ITEM_TYPE_ZABBIX_def ITEM_TYPE_ZABBIX_ACTIVE_def)
  have D: "now + SEC_PER_YEAR + SEC_PER_DAY \<le> INT_MAX" using assms(4) by simp
  show ?thesis
  proof (cases "(\<forall>f \<in> set (flexible ci). delay f \<le> SEC_PER_DAY)
      \<and> (\<forall>iv \<in> set (scheduling ci). mdays iv = [] \<or> wdays iv = [])")
    case True
    have "list_all flexible_wf (flexible ci)" "0 \<le> si" "si \<le> SEC_PER_DAY"
      "\<forall>iv \<in> set (scheduling ci). interval_wf iv \<and> (mdays iv = [] \<or> wdays iv = [])"
      using wf True by (auto simp: list_all_iff)
    from item_nextcheck_ok [OF assms(1) this(1,4) t this(2,3) conjunct1 [OF True] assms(2,3) D assms(4,5), of dst itemid]
    show ?thesis unfolding p by (auto simp: zbx_get_agent_item_nextcheck_def p)
  qed (simp only: p option.case sum.case prod.case simp_thms)
qed

theorem agent_nextcheck_correct_witness:
  "\<exists>n. zbx_get_agent_item_nextcheck utc_localtime utc_mktime 0 7 sample_delay 1700000000
        = Some (Inr (n, True, 0)) \<and> 1700000000 < n"
proof -
  have z: "fixed_zone 0 utc_localtime utc_mktime" "month_index (utc_localtime 1700000000) \<le> LAST_MONTH - 9"
    by (rule utc_fixed_zone, code_simp)
  show ?thesis
    using agent_nextcheck_correct [OF z(1) _ _ _ z(2), of 0 7 sample_delay]
    unfolding sample_delay_parsed
    by (auto simp: sample_intervals_def zbx_custom_interval_is_scheduling_def)
qed

end
